(* ===== verification/Prelude.thy ===== *)
theory Prelude
  imports Main "HOL-Library.AList" "HOL-Library.Word" "HOL-Library.List_Lexorder"
    "HOL-Library.Char_ord" "HOL-Library.Product_Lexorder"
begin

text \<open>
  Shared vocabulary of the development: Rust's \<open>Result\<close> (with a constructor for panics), the
  hash maps and ordered maps of the standard library as association lists, the machine integers
  the code uses, and the generic lemmas the component theories rest on.

  A \<open>HashMap\<close> is an association list with distinct keys in some iteration order: the order is
  not specified by Rust, so no statement depends on it and equality of two maps is
  \<open>hm_eq\<close>, equality of the lookup functions. A \<open>BTreeMap\<close> is an association list sorted by key,
  which is its iteration order.
\<close>

named_theorems result_simps \<open>unfolding of the result combinators\<close>
named_theorems map_simps \<open>lookups after map updates\<close>

section \<open>Results and panics\<close>

datatype ('a, 'e) result = Ok 'a | Err 'e | Panic

type_synonym u64 = "64 word"
type_synonym usize = "64 word"
type_synonym i32 = "32 word"

fun and_then :: "('a, 'e) result \<Rightarrow> ('a \<Rightarrow> ('b, 'e) result) \<Rightarrow> ('b, 'e) result" where
  "and_then (Ok a) f = f a"
| "and_then (Err e) f = Err e"
| "and_then Panic f = Panic"

fun is_ok :: "('a, 'e) result \<Rightarrow> bool" where
  "is_ok (Ok _) = True"
| "is_ok _ = False"

text \<open>\<open>Option::expect\<close> and \<open>Option::unwrap\<close>: a missing value panics.\<close>

fun expect :: "'a option \<Rightarrow> ('a, 'e) result" where
  "expect None = Panic"
| "expect (Some a) = Ok a"

text \<open>\<open>iter().map(f).collect::<Result<Vec<_>, _>>()\<close>: the first error ends the iteration.\<close>

fun try_map :: "('a \<Rightarrow> ('b, 'e) result) \<Rightarrow> 'a list \<Rightarrow> ('b list, 'e) result" where
  "try_map f [] = Ok []"
| "try_map f (x # xs) = and_then (f x) (\<lambda>y. and_then (try_map f xs) (\<lambda>ys. Ok (y # ys)))"

text \<open>A \<open>for\<close> loop whose body may fail with \<open>?\<close>.\<close>

fun try_fold :: "('a \<Rightarrow> 's \<Rightarrow> ('s, 'e) result) \<Rightarrow> 'a list \<Rightarrow> 's \<Rightarrow> ('s, 'e) result" where
  "try_fold f [] s = Ok s"
| "try_fold f (x # xs) s = and_then (f x s) (try_fold f xs)"

lemma and_then_Ok_iff [result_simps]: "and_then r f = Ok b \<longleftrightarrow> (\<exists>a. r = Ok a \<and> f a = Ok b)"
  by (cases r) auto

lemma and_then_Ok_elim [elim?]:
  assumes "and_then r f = Ok b"
  obtains a where "r = Ok a" and "f a = Ok b"
  using assms by (auto simp: and_then_Ok_iff)

lemma and_then_assoc: "and_then (and_then r f) g = and_then r (\<lambda>a. and_then (f a) g)"
  by (cases r) auto

lemma and_then_cong [fundef_cong]:
  "r = r' \<Longrightarrow> (\<And>a. r' = Ok a \<Longrightarrow> f a = g a) \<Longrightarrow> and_then r f = and_then r' g"
  by (cases r') auto

lemma try_map_cong [fundef_cong]:
  "xs = ys \<Longrightarrow> (\<And>x. x \<in> set ys \<Longrightarrow> f x = g x) \<Longrightarrow> try_map f xs = try_map g ys"
proof (induction ys arbitrary: xs)
  case (Cons y ys)
  then have "try_map f ys = try_map g ys" by simp
  with Cons.prems show ?case by simp
qed simp

lemma try_map_Ok_iff [result_simps]:
  "try_map f xs = Ok ys \<longleftrightarrow> list_all2 (\<lambda>x y. f x = Ok y) xs ys"
  by (induction xs arbitrary: ys) (auto simp: and_then_Ok_iff list_all2_Cons1)

lemma try_map_Ok_total: "(\<And>x. x \<in> set xs \<Longrightarrow> f x = Ok (g x)) \<Longrightarrow> try_map f xs = Ok (map g xs)"
  by (induction xs) auto

lemma try_map_mem: "try_map f xs = Ok ys \<Longrightarrow> x \<in> set xs \<Longrightarrow> \<exists>y \<in> set ys. f x = Ok y"
proof (induction xs arbitrary: ys)
  case (Cons a xs)
  from Cons.prems(1) obtain b bs where b: "f a = Ok b" "try_map f xs = Ok bs" "ys = b # bs"
    by (auto simp: and_then_Ok_iff)
  show ?case
  proof (cases "x = a")
    case False
    with Cons.prems(2) have "x \<in> set xs" by simp
    from Cons.IH [OF b(2) this] show ?thesis by (simp add: b(3))
  qed (simp add: b)
qed simp

lemma try_map_mem_out: "try_map f xs = Ok ys \<Longrightarrow> y \<in> set ys \<Longrightarrow> \<exists>x \<in> set xs. f x = Ok y"
proof (induction xs arbitrary: ys)
  case (Cons a xs)
  from Cons.prems(1) obtain b bs where b: "f a = Ok b" "try_map f xs = Ok bs" "ys = b # bs"
    by (auto simp: and_then_Ok_iff)
  show ?case
  proof (cases "y = b")
    case False
    with Cons.prems(2) b(3) have "y \<in> set bs" by simp
    from Cons.IH [OF b(2) this] show ?thesis by simp
  qed (simp add: b)
qed simp

lemma try_fold_append [result_simps]:
  "try_fold f (xs @ ys) s = and_then (try_fold f xs s) (try_fold f ys)"
  by (induction xs arbitrary: s) (auto simp: and_then_assoc intro: and_then_cong)

lemma try_fold_invariant:
  assumes "try_fold f xs s = Ok t" and "P s"
    and "\<And>x s t. x \<in> set xs \<Longrightarrow> P s \<Longrightarrow> f x s = Ok t \<Longrightarrow> P t"
  shows "P t"
  using assms
proof (induction xs arbitrary: s)
  case (Cons x xs)
  from Cons.prems(1) obtain u where u: "f x s = Ok u" and rest: "try_fold f xs u = Ok t"
    by (auto simp: and_then_Ok_iff)
  from Cons.prems(2,3) u have "P u" by (meson list.set_intros(1))
  with rest Cons.prems(3) show ?case by (intro Cons.IH) auto
qed simp

lemma set_map_filter: "y \<in> set (List.map_filter f xs) \<longleftrightarrow> (\<exists>x \<in> set xs. f x = Some y)"
  by (induction xs) (auto simp: map_filter_simps split: option.splits)

text \<open>\<open>Iterator::find_map\<close>, \<open>Option::into_iter\<close> and \<open>[String]::join\<close>.\<close>

fun find_map :: "('a \<Rightarrow> 'b option) \<Rightarrow> 'a list \<Rightarrow> 'b option" where
  "find_map f [] = None"
| "find_map f (x # xs) = (case f x of Some y \<Rightarrow> Some y | None \<Rightarrow> find_map f xs)"

fun option_to_list :: "'a option \<Rightarrow> 'a list" where
  "option_to_list None = []"
| "option_to_list (Some a) = [a]"

fun join_with :: "string \<Rightarrow> string list \<Rightarrow> string" where
  "join_with sep [] = []"
| "join_with sep [s] = s"
| "join_with sep (s # ss) = s @ sep @ join_with sep ss"

lemma find_map_None [simp]: "find_map f xs = None \<longleftrightarrow> (\<forall>x \<in> set xs. f x = None)"
  by (induction xs) (auto split: option.splits)

lemma option_to_list_Nil [simp]: "option_to_list x = [] \<longleftrightarrow> x = None"
  by (cases x) auto

section \<open>Hash maps\<close>

type_synonym ('k, 'v) hashmap = "('k \<times> 'v) list"

abbreviation hm_get :: "('k, 'v) hashmap \<Rightarrow> 'k \<Rightarrow> 'v option" where
  "hm_get m k \<equiv> map_of m k"

abbreviation hm_insert :: "'k \<Rightarrow> 'v \<Rightarrow> ('k, 'v) hashmap \<Rightarrow> ('k, 'v) hashmap" where
  "hm_insert \<equiv> AList.update"

abbreviation hm_remove :: "'k \<Rightarrow> ('k, 'v) hashmap \<Rightarrow> ('k, 'v) hashmap" where
  "hm_remove \<equiv> AList.delete"

definition hm_wf :: "('k, 'v) hashmap \<Rightarrow> bool" where
  "hm_wf m \<longleftrightarrow> distinct (map fst m)"

text \<open>\<open>PartialEq for HashMap\<close>: same keys, equal values under each.\<close>

definition hm_eq :: "('k, 'v) hashmap \<Rightarrow> ('k, 'v) hashmap \<Rightarrow> bool" where
  "hm_eq m n \<longleftrightarrow> list_all (\<lambda>k. map_of m k = map_of n k) (map fst m @ map fst n)"

lemma hm_eq_iff: "hm_eq m n \<longleftrightarrow> map_of m = map_of n"
proof
  assume h: "hm_eq m n"
  show "map_of m = map_of n"
  proof
    fix k
    show "map_of m k = map_of n k"
    proof (cases "k \<in> fst ` set m \<or> k \<in> fst ` set n")
      case True
      with h show ?thesis by (auto simp: hm_eq_def list_all_iff)
    next
      case False
      then show ?thesis by (metis map_of_eq_None_iff)
    qed
  qed
qed (simp add: hm_eq_def list_all_iff)

lemmas [map_simps] = update_conv' delete_conv'

lemma hm_wf_insert [simp]: "hm_wf m \<Longrightarrow> hm_wf (hm_insert k v m)"
  by (simp add: hm_wf_def distinct_update)

lemma hm_wf_remove [simp]: "hm_wf m \<Longrightarrow> hm_wf (hm_remove k m)"
  by (simp add: hm_wf_def distinct_delete)

lemma hm_wf_Nil [simp]: "hm_wf []"
  by (simp add: hm_wf_def)

lemma hm_wf_Cons: "hm_wf ((k, v) # m) \<longleftrightarrow> map_of m k = None \<and> hm_wf m"
  by (auto simp: hm_wf_def map_of_eq_None_iff)

text \<open>\<open>collect::<HashMap<_, _>>()\<close>: of two entries under one key the later stays.\<close>

definition hm_collect :: "('k \<times> 'v) list \<Rightarrow> ('k, 'v) hashmap" where
  "hm_collect kvs = fold (\<lambda>(k, v). hm_insert k v) kvs []"

lemma map_of_hm_collect: "map_of (hm_collect kvs) = map_of (rev kvs)"
proof -
  have "map_of (fold (\<lambda>(k, v). hm_insert k v) kvs m) = map_of m ++ map_of (rev kvs)" for m :: "('a, 'b) hashmap"
    by (induction kvs arbitrary: m) (auto simp: update_conv' fun_eq_iff map_add_def split: option.splits)
  then show ?thesis by (simp add: hm_collect_def)
qed

lemma hm_wf_collect [simp]: "hm_wf (hm_collect kvs)"
proof -
  have "hm_wf m \<Longrightarrow> hm_wf (fold (\<lambda>(k, v). hm_insert k v) kvs m)" for m :: "('a, 'b) hashmap"
    by (induction kvs arbitrary: m) auto
  then show ?thesis by (simp add: hm_collect_def)
qed

lemma hm_mem_iff: "hm_wf m \<Longrightarrow> (k, v) \<in> set m \<longleftrightarrow> map_of m k = Some v"
  by (simp add: hm_wf_def)

section \<open>Ordered maps\<close>

type_synonym ('k, 'v) btreemap = "('k \<times> 'v) list"

fun bt_insert :: "'k::linorder \<Rightarrow> 'v \<Rightarrow> ('k, 'v) btreemap \<Rightarrow> ('k, 'v) btreemap" where
  "bt_insert k v [] = [(k, v)]"
| "bt_insert k v ((k', v') # m) =
     (if k < k' then (k, v) # (k', v') # m
      else if k = k' then (k, v) # m
      else (k', v') # bt_insert k v m)"

definition bt_wf :: "('k::linorder, 'v) btreemap \<Rightarrow> bool" where
  "bt_wf m \<longleftrightarrow> sorted_wrt (<) (map fst m)"

lemma map_of_bt_insert [map_simps]: "map_of (bt_insert k v m) = (map_of m)(k \<mapsto> v)"
  by (induction k v m rule: bt_insert.induct) auto

lemma set_fst_bt_insert: "fst ` set (bt_insert k v m) = insert k (fst ` set m)"
  by (induction k v m rule: bt_insert.induct) auto

lemma bt_wf_Nil [simp]: "bt_wf []"
  by (simp add: bt_wf_def)

lemma bt_wf_Cons: "bt_wf ((k, v) # m) \<longleftrightarrow> (\<forall>k' \<in> fst ` set m. k < k') \<and> bt_wf m"
  by (auto simp: bt_wf_def)

lemma bt_wf_insert [simp]: "bt_wf m \<Longrightarrow> bt_wf (bt_insert k v m)"
proof (induction k v m rule: bt_insert.induct)
  case (2 k v k' v' m)
  consider "k < k'" | "k = k'" | "k' < k" by fastforce
  then show ?case
  proof cases
    case 3
    with "2.prems" "2.IH" show ?thesis by (auto simp: bt_wf_Cons set_fst_bt_insert)
  qed (use "2.prems" in \<open>auto simp: bt_wf_Cons\<close>)
qed (simp add: bt_wf_Cons)

lemma bt_wf_distinct: "bt_wf m \<Longrightarrow> distinct (map fst m)"
  by (simp add: bt_wf_def strict_sorted_iff)

text \<open>\<open>map.entry(k).or_default()\<close> with an update of the value through the reference.\<close>

definition bt_entry :: "'v \<Rightarrow> 'k::linorder \<Rightarrow> ('v \<Rightarrow> 'v) \<Rightarrow> ('k, 'v) btreemap \<Rightarrow> ('k, 'v) btreemap" where
  "bt_entry d k f m = bt_insert k (f (case map_of m k of None \<Rightarrow> d | Some v \<Rightarrow> v)) m"

lemma map_of_bt_entry [map_simps]:
  "map_of (bt_entry d k f m) = (map_of m)(k \<mapsto> f (case map_of m k of None \<Rightarrow> d | Some v \<Rightarrow> v))"
  by (simp add: bt_entry_def map_of_bt_insert)

lemma bt_wf_entry [simp]: "bt_wf m \<Longrightarrow> bt_wf (bt_entry d k f m)"
  by (simp add: bt_entry_def)

lemma length_bt_insert: "bt_wf m \<Longrightarrow>
    length (bt_insert k v m) = (if map_of m k = None then Suc (length m) else length m)"
proof (induction k v m rule: bt_insert.induct)
  case (2 k v k' v' m)
  then show ?case
    by (auto simp: bt_wf_Cons map_of_eq_None_iff)
qed simp

lemma bt_mem_iff: "bt_wf m \<Longrightarrow> (k, v) \<in> set m \<longleftrightarrow> map_of m k = Some v"
  using bt_wf_distinct by fastforce

text \<open>Sums over an ordered map: what an insertion adds.\<close>

lemma sum_bt_insert:
  fixes h :: "'v \<Rightarrow> nat"
  assumes "bt_wf m"
  shows "(\<Sum>(k, v) \<leftarrow> bt_insert k v m. h v) + (case map_of m k of None \<Rightarrow> 0 | Some u \<Rightarrow> h u) =
    (\<Sum>(k, v) \<leftarrow> m. h v) + h v"
  using assms
proof (induction k v m rule: bt_insert.induct)
  case (2 k v k' v' m)
  then have "map_of m k = None" if "k < k'" using that by (auto simp: bt_wf_Cons map_of_eq_None_iff)
  with 2 show ?case by (auto simp: bt_wf_Cons)
qed simp

lemma sum_bt_entry:
  fixes h :: "'v \<Rightarrow> nat"
  assumes "bt_wf m" and "h d = 0"
    and "\<And>u. u = d \<or> map_of m k = Some u \<Longrightarrow> h (f u) = h u + n"
  shows "(\<Sum>(k, v) \<leftarrow> bt_entry d k f m. h v) = (\<Sum>(k, v) \<leftarrow> m. h v) + n"
proof -
  let ?u = "case map_of m k of None \<Rightarrow> d | Some v \<Rightarrow> v"
  have "h (f ?u) = h ?u + n" using assms(3) by (cases "map_of m k") auto
  then show ?thesis
    using sum_bt_insert [where h = h, OF assms(1), of k "f ?u"] assms(2)
    by (cases "map_of m k") (simp_all add: bt_entry_def)
qed

end
