(* ===== verification/Scalars.thy ===== *)
theory Scalars
  imports Prelude
begin

unbundle bit_operations_syntax

text \<open>
  The custom scalars of \<open>graph/src/data/store/scalar.rs\<close>: \<open>BigInt\<close>, \<open>BigDecimal\<close> and \<open>Bytes\<close>.
  A \<open>BigInt\<close> is an \<open>int\<close>; a \<open>BigDecimal\<close> is the pair of an integer and a scale that the
  \<open>bigdecimal\<close> crate keeps, standing for \<open>bd_int * 10 ^ (- bd_scale)\<close>; \<open>Bytes\<close> is a list of
  8-bit words. The functions of the crates \<open>num_bigint\<close>, \<open>bigdecimal\<close>, \<open>hex\<close> and of the \<open>U256\<close>
  type are the fields of the record \<open>scalar_lib\<close>, an argument of every definition that calls
  them; their documented behaviour is the locale \<open>scalar_library\<close>.
\<close>

section \<open>Data\<close>

type_synonym bytes = "8 word list"

type_synonym u256 = "256 word"

datatype sign = Minus | NoSign | Plus

datatype big_decimal = BigDec (bd_int: int) (bd_scale: int)

datatype big_int_out_of_range_error = Negative | Overflow

record scalar_lib =
  lib_to_bytes_le :: "int \<Rightarrow> sign \<times> bytes"
  lib_to_signed_bytes_le :: "int \<Rightarrow> bytes"
  lib_from_signed_bytes_le :: "bytes \<Rightarrow> int"
  lib_u256_from_little_endian :: "bytes \<Rightarrow> u256 option"
  lib_u256_to_little_endian :: "u256 \<Rightarrow> bytes"
  lib_to_radix_be :: "int \<Rightarrow> sign \<times> nat list"
  lib_from_radix_be :: "sign \<Rightarrow> nat list \<Rightarrow> int option"
  lib_with_prec :: "big_decimal \<Rightarrow> nat \<Rightarrow> big_decimal"
  lib_bigint_div :: "int \<Rightarrow> int \<Rightarrow> int"
  lib_bigint_rem :: "int \<Rightarrow> int \<Rightarrow> int option"
  lib_bd_add :: "big_decimal \<Rightarrow> big_decimal \<Rightarrow> big_decimal"
  lib_bd_sub :: "big_decimal \<Rightarrow> big_decimal \<Rightarrow> big_decimal"
  lib_bd_mul :: "big_decimal \<Rightarrow> big_decimal \<Rightarrow> big_decimal"
  lib_bd_div :: "big_decimal \<Rightarrow> big_decimal \<Rightarrow> big_decimal"
  lib_hex_encode :: "bytes \<Rightarrow> string"
  lib_hex_decode :: "string \<Rightarrow> bytes option"
  lib_bigint_from_str :: "string \<Rightarrow> int option"
  lib_bigint_to_string :: "int \<Rightarrow> string"
  lib_bigdecimal_from_str :: "string \<Rightarrow> big_decimal option"
  lib_bigdecimal_to_string :: "big_decimal \<Rightarrow> string"

section \<open>Operations\<close>

subsection \<open>BigInt\<close>

text \<open>The loop of \<open>TryFrom<&BigInt> for u64\<close>: little-endian bytes shifted into place.\<close>

fun u64_from_le :: "bytes \<Rightarrow> nat \<Rightarrow> u64 \<Rightarrow> u64" where
  "u64_from_le [] shift_dist n = n"
| "u64_from_le (b # bs) shift_dist n =
     u64_from_le bs (shift_dist + 8) (push_bit shift_dist (ucast b) OR n)"

definition u64_try_from :: "scalar_lib \<Rightarrow> int \<Rightarrow> (u64, big_int_out_of_range_error) result" where
  "u64_try_from lib value =
     (let (sgn, bytes) = lib_to_bytes_le lib value in
      if sgn = Minus then Err Negative
      else if length bytes > 8 then Err Overflow
      else Ok (u64_from_le bytes 0 0))"

text \<open>\<open>BigInt::to_u64\<close> unwraps the conversion, so an error is a panic.\<close>

definition bigint_to_u64 :: "scalar_lib \<Rightarrow> int \<Rightarrow> (u64, big_int_out_of_range_error) result" where
  "bigint_to_u64 lib value =
     (case u64_try_from lib value of Ok n \<Rightarrow> Ok n | Err _ \<Rightarrow> Panic | Panic \<Rightarrow> Panic)"

text \<open>
  \<open>BigInt::to_signed_u256\<close>: a negative value is padded with \<open>0xff\<close> to 32 bytes, after an
  assertion on its length; the non-negative branch hands its bytes to
  \<open>U256::from_little_endian\<close>, which refuses more than 32 of them.
\<close>

definition to_signed_u256 :: "scalar_lib \<Rightarrow> int \<Rightarrow> (u256, 'e) result" where
  "to_signed_u256 lib n =
     (let bytes = lib_to_signed_bytes_le lib n in
      if n < 0 then
        (if length bytes \<le> 32
         then expect (lib_u256_from_little_endian lib (bytes @ replicate (32 - length bytes) 255))
         else Panic)
      else expect (lib_u256_from_little_endian lib bytes))"

definition from_signed_u256 :: "scalar_lib \<Rightarrow> u256 \<Rightarrow> int" where
  "from_signed_u256 lib n = lib_from_signed_bytes_le lib (lib_u256_to_little_endian lib n)"

definition to_unsigned_u256 :: "scalar_lib \<Rightarrow> int \<Rightarrow> (u256, 'e) result" where
  "to_unsigned_u256 lib n =
     (let (sgn, bytes) = lib_to_bytes_le lib n in
      if sgn = NoSign \<or> sgn = Plus then expect (lib_u256_from_little_endian lib bytes)
      else Panic)"

fun bigint_add :: "int \<Rightarrow> int \<Rightarrow> int" where
  "bigint_add a b = a + b"

fun bigint_sub :: "int \<Rightarrow> int \<Rightarrow> int" where
  "bigint_sub a b = a - b"

fun bigint_mul :: "int \<Rightarrow> int \<Rightarrow> int" where
  "bigint_mul a b = a * b"

definition bigint_div :: "scalar_lib \<Rightarrow> int \<Rightarrow> int \<Rightarrow> (int, 'e) result" where
  "bigint_div lib a b = (if b = 0 then Panic else Ok (lib_bigint_div lib a b))"

definition bigint_rem :: "scalar_lib \<Rightarrow> int \<Rightarrow> int \<Rightarrow> (int, 'e) result" where
  "bigint_rem lib a b = expect (lib_bigint_rem lib a b)"

subsection \<open>BigDecimal\<close>

definition MAX_SIGNIFICANT_DIGITS :: nat where
  "MAX_SIGNIFICANT_DIGITS = 34"

definition bigdecimal_zero :: big_decimal where
  "bigdecimal_zero = BigDec 0 0"

text \<open>
  \<open>BigDecimal::normalized\<close>. The comparison with zero is numeric equality of the crate's type, so
  it holds for a zero of any scale.
\<close>

definition normalized :: "scalar_lib \<Rightarrow> big_decimal \<Rightarrow> (big_decimal, 'e) result" where
  "normalized lib d =
     (if bd_int d = 0 then Ok bigdecimal_zero
      else
        let bd = lib_with_prec lib d MAX_SIGNIFICANT_DIGITS;
            bigint = bd_int bd; exp = bd_scale bd;
            (sgn, digits) = lib_to_radix_be lib bigint;
            trailing_count = length (takeWhile (\<lambda>i. i = 0) (rev digits));
            digits' = take (length digits - trailing_count) digits
        in and_then (expect (lib_from_radix_be lib sgn digits'))
             (\<lambda>int_val. Ok (BigDec int_val (exp - int trailing_count))))"

definition bigdecimal_from :: "scalar_lib \<Rightarrow> big_decimal \<Rightarrow> (big_decimal, 'e) result" where
  "bigdecimal_from lib d = normalized lib d"

text \<open>\<open>BigDecimal::new\<close> takes a power of ten, the crate its opposite.\<close>

definition bigdecimal_new :: "scalar_lib \<Rightarrow> int \<Rightarrow> int \<Rightarrow> (big_decimal, 'e) result" where
  "bigdecimal_new lib digits exp = bigdecimal_from lib (BigDec digits (- exp))"

definition bigdecimal_from_str :: "scalar_lib \<Rightarrow> string \<Rightarrow> (big_decimal, unit) result" where
  "bigdecimal_from_str lib s =
     (case lib_bigdecimal_from_str lib s of
        None \<Rightarrow> Err ()
      | Some d \<Rightarrow> bigdecimal_from lib d)"

definition bigdecimal_add :: "scalar_lib \<Rightarrow> big_decimal \<Rightarrow> big_decimal \<Rightarrow> (big_decimal, 'e) result" where
  "bigdecimal_add lib a b = bigdecimal_from lib (lib_bd_add lib a b)"

definition bigdecimal_sub :: "scalar_lib \<Rightarrow> big_decimal \<Rightarrow> big_decimal \<Rightarrow> (big_decimal, 'e) result" where
  "bigdecimal_sub lib a b = bigdecimal_from lib (lib_bd_sub lib a b)"

definition bigdecimal_mul :: "scalar_lib \<Rightarrow> big_decimal \<Rightarrow> big_decimal \<Rightarrow> (big_decimal, 'e) result" where
  "bigdecimal_mul lib a b = bigdecimal_from lib (lib_bd_mul lib a b)"

definition bigdecimal_div :: "scalar_lib \<Rightarrow> big_decimal \<Rightarrow> big_decimal \<Rightarrow> (big_decimal, 'e) result" where
  "bigdecimal_div lib a b =
     (if bd_int b = 0 then Panic else bigdecimal_from lib (lib_bd_div lib a b))"

subsection \<open>Bytes\<close>

definition zero_x :: string where
  "zero_x = ''0x''"

text \<open>\<open>str::trim_start_matches("0x")\<close> removes the prefix as often as it occurs.\<close>

fun trim_start_0x :: "string \<Rightarrow> string" where
  "trim_start_0x (a # b # s) = (if [a, b] = ''0x'' then trim_start_0x s else a # b # s)"
| "trim_start_0x s = s"

definition bytes_to_string :: "scalar_lib \<Rightarrow> bytes \<Rightarrow> string" where
  "bytes_to_string lib bs = zero_x @ lib_hex_encode lib bs"

definition bytes_from_str :: "scalar_lib \<Rightarrow> string \<Rightarrow> (bytes, unit) result" where
  "bytes_from_str lib s =
     (case lib_hex_decode lib (trim_start_0x s) of None \<Rightarrow> Err () | Some bs \<Rightarrow> Ok bs)"

definition bigint_from_str :: "scalar_lib \<Rightarrow> string \<Rightarrow> (int, unit) result" where
  "bigint_from_str lib s = (case lib_bigint_from_str lib s of None \<Rightarrow> Err () | Some n \<Rightarrow> Ok n)"

section \<open>Positional notation\<close>

fun le_val :: "bytes \<Rightarrow> int" where
  "le_val [] = 0"
| "le_val (b # bs) = uint b + 256 * le_val bs"

definition digits_val :: "nat list \<Rightarrow> int" where
  "digits_val ds = foldl (\<lambda>acc d. acc * 10 + int d) 0 ds"

text \<open>The two's complement reading of little-endian bytes.\<close>

definition signed_le_val :: "bytes \<Rightarrow> int" where
  "signed_le_val bs =
     (if bs \<noteq> [] \<and> uint (last bs) \<ge> 128 then le_val bs - 256 ^ length bs else le_val bs)"

fun sign_val :: "sign \<Rightarrow> int" where
  "sign_val Minus = -1"
| "sign_val NoSign = 0"
| "sign_val Plus = 1"

lemma le_val_nonneg: "0 \<le> le_val bs"
  by (induction bs) auto

lemma le_val_bound: "le_val bs < 256 ^ length bs"
proof (induction bs)
  case (Cons b bs)
  have "uint b \<le> 255" using uint_lt2p [of b] by simp
  with Cons show ?case by simp
qed simp

lemma le_val_append: "le_val (bs @ cs) = le_val bs + 256 ^ length bs * le_val cs"
  by (induction bs) (auto simp: algebra_simps)

lemma le_val_replicate_0: "le_val (replicate n 0) = 0"
  by (induction n) auto

lemma le_val_replicate_255: "le_val (replicate n 255) = 256 ^ n - 1"
  by (induction n) auto

lemma digits_val_snoc: "digits_val (ds @ [d]) = digits_val ds * 10 + int d"
  by (simp add: digits_val_def)

lemma digits_val_zeros: "digits_val (ds @ replicate n 0) = digits_val ds * 10 ^ n"
proof (induction n)
  case (Suc n)
  have "digits_val (ds @ replicate (Suc n) 0) = digits_val ((ds @ replicate n 0) @ [0])"
    by (simp add: replicate_append_same)
  then show ?case by (simp add: digits_val_snoc Suc del: append_assoc)
qed simp

text \<open>The digits that \<open>normalized\<close> cuts off are zeros, and what it keeps does not end in one.\<close>

lemma cut_trailing_zeros:
  fixes ds :: "nat list"
  defines "n \<equiv> length (takeWhile (\<lambda>i. i = 0) (rev ds))"
  shows "ds = take (length ds - n) ds @ replicate n 0"
    and "take (length ds - n) ds = [] \<or> last (take (length ds - n) ds) \<noteq> 0"
proof -
  let ?z = "takeWhile (\<lambda>i. i = 0) (rev ds)" and ?k = "dropWhile (\<lambda>i. i = 0) (rev ds)"
  have split: "ds = rev ?k @ rev ?z"
    by (metis rev_append rev_rev_ident takeWhile_dropWhile_id)
  have z: "rev ?z = replicate n 0"
    unfolding n_def by (metis (full_types) length_rev replicate_eqI set_rev set_takeWhileD)
  have len: "length (rev ?k) = length ds - n"
    using arg_cong [OF split, of length] by (simp add: n_def)
  have keep: "take (length ds - n) ds = rev ?k"
    by (subst (2) split) (simp only: len [symmetric] append_eq_conv_conj [symmetric], simp)
  show "ds = take (length ds - n) ds @ replicate n 0"
    using split z keep by simp
  show "take (length ds - n) ds = [] \<or> last (take (length ds - n) ds) \<noteq> 0"
    unfolding keep using hd_dropWhile [of "\<lambda>i. i = 0" "rev ds"] by (simp only: last_rev rev_is_Nil_conv) blast
qed

section \<open>The contract of the scalar libraries\<close>

locale scalar_library =
  fixes lib :: scalar_lib
  assumes to_bytes_le_sign:
      "fst (lib_to_bytes_le lib n) = (if n < 0 then Minus else if n = 0 then NoSign else Plus)"
    and to_bytes_le_val: "le_val (snd (lib_to_bytes_le lib n)) = \<bar>n\<bar>"
    and to_bytes_le_short:
      "length (snd (lib_to_bytes_le lib n)) \<le> 1 \<or> last (snd (lib_to_bytes_le lib n)) \<noteq> 0"
    and to_signed_val: "signed_le_val (lib_to_signed_bytes_le lib n) = n"
    and to_signed_short:
      "0 < k \<Longrightarrow> - (2 ^ (8 * k - 1)) \<le> n \<Longrightarrow> n < 2 ^ (8 * k - 1) \<Longrightarrow>
         length (lib_to_signed_bytes_le lib n) \<le> k"
    and from_signed: "lib_from_signed_bytes_le lib bs = signed_le_val bs"
    and u256_from_le:
      "length bs \<le> 32 \<Longrightarrow> lib_u256_from_little_endian lib bs = Some (word_of_int (le_val bs))"
    and u256_to_le: "length (lib_u256_to_little_endian lib w) = 32"
      "le_val (lib_u256_to_little_endian lib w) = uint w"
    and to_radix_sign:
      "fst (lib_to_radix_be lib n) = (if n < 0 then Minus else if n = 0 then NoSign else Plus)"
    and to_radix_val: "digits_val (snd (lib_to_radix_be lib n)) = \<bar>n\<bar>"
    and to_radix_digits: "list_all (\<lambda>d. d < 10) (snd (lib_to_radix_be lib n))"
    and from_radix:
      "list_all (\<lambda>d. d < 10) ds \<Longrightarrow>
         lib_from_radix_be lib sg ds = Some (sign_val sg * digits_val ds)"
    and with_prec_nonzero: "0 < p \<Longrightarrow> bd_int d \<noteq> 0 \<Longrightarrow> bd_int (lib_with_prec lib d p) \<noteq> 0"
    and with_prec_digits: "0 < p \<Longrightarrow> \<bar>bd_int (lib_with_prec lib d p)\<bar> < 10 ^ p"
    and bigint_str_inverse: "lib_bigint_from_str lib (lib_bigint_to_string lib n) = Some n"
    and hex_inverse: "lib_hex_decode lib (lib_hex_encode lib bs) = Some bs"
    and hex_digits: "list_all (\<lambda>c. c \<noteq> CHR ''x'') (lib_hex_encode lib bs)"

section \<open>Correctness of the conversions\<close>

lemma push_bit_or_disjoint:
  fixes n :: u64
  assumes "uint n < 2 ^ k" and "k \<le> 56"
  shows "uint (push_bit k (ucast (b :: 8 word)) OR n) = uint b * 2 ^ k + uint n"
proof -
  have "take_bit k (uint n) = uint n"
    using assms(1) by (simp add: take_bit_int_eq_self)
  then have "\<not> bit (uint n) i" if "k \<le> i" for i
    using that bit_take_bit_iff [of k "uint n" i] by simp
  then have "\<not> bit n i" if "k \<le> i" for i
    using that bit_uint_iff [of n i] bit_imp_le_length [of n i] by auto
  then have disj: "push_bit k (ucast b) OR n = push_bit k (ucast b) + n"
    by (intro disjunctive_add [symmetric]) (auto simp: bit_push_bit_iff)
  have b: "uint b < 2 ^ 8" using uint_lt2p [of b] by simp
  have "uint b * 2 ^ k + uint n < (uint b + 1) * 2 ^ k"
    using assms(1) by (simp add: algebra_simps)
  also have "\<dots> \<le> 2 ^ 8 * 2 ^ k"
    using b by (intro mult_right_mono) auto
  also have "(2::int) ^ 8 * 2 ^ k = 2 ^ (8 + k)"
    by (simp add: power_add)
  also have "(2::int) ^ (8 + k) \<le> 2 ^ 64"
    using assms(2) by (intro power_increasing) auto
  finally have small: "uint b * 2 ^ k + uint n < 2 ^ 64" .
  have "uint (push_bit k (ucast b :: u64)) = uint b * 2 ^ k"
  proof -
    have "uint (ucast b :: u64) = uint b"
      using b uint_ge_0 [of b] by (simp add: unsigned_ucast_eq take_bit_int_eq_self)
    moreover have "take_bit 64 (uint b * 2 ^ k) = uint b * 2 ^ k"
    proof (rule take_bit_int_eq_self)
      show "uint b * 2 ^ k < 2 ^ 64" using small uint_ge_0 [of n] by linarith
    qed simp
    ultimately show ?thesis
      by (simp only: unsigned_push_bit_eq) (simp add: push_bit_eq_mult)
  qed
  then show ?thesis
    using small by (simp add: disj uint_word_ariths)
qed

lemma u64_from_le_val:
  "uint n < 2 ^ k \<Longrightarrow> k + 8 * length bs \<le> 64 \<Longrightarrow>
     uint (u64_from_le bs k n) = uint n + 2 ^ k * le_val bs"
proof (induction bs k n rule: u64_from_le.induct)
  case (2 b bs k n)
  from "2.prems" have step: "uint (push_bit k (ucast b) OR n) = uint b * 2 ^ k + uint n"
    by (intro push_bit_or_disjoint) auto
  have "uint b + 1 \<le> 256" using uint_lt2p [of b] by simp
  then have "(uint b + 1) * 2 ^ k \<le> 256 * 2 ^ k" by (intro mult_right_mono) auto
  moreover have "uint (push_bit k (ucast b) OR n) < (uint b + 1) * 2 ^ k"
    using "2.prems"(1) unfolding step by (simp add: algebra_simps)
  ultimately have "uint (push_bit k (ucast b) OR n) < 256 * 2 ^ k"
    by linarith
  then have "uint (push_bit k (ucast b) OR n) < 2 ^ (k + 8)"
    by (simp add: power_add)
  with "2.IH" "2.prems"(2) step show ?case
    by (simp add: power_add algebra_simps)
qed simp

lemma le_val_length_gt:
  assumes "length bs > m" and "length bs \<le> 1 \<or> last bs \<noteq> 0" and "0 < m"
  shows "256 ^ m \<le> le_val bs"
proof -
  from assms have ne: "bs \<noteq> []" and "last bs \<noteq> 0" by auto
  then have "1 \<le> uint (last bs)"
    by (metis int_one_le_iff_zero_less order_le_less uint_0_iff uint_ge_0)
  moreover have "le_val bs = le_val (butlast bs) + 256 ^ (length bs - 1) * uint (last bs)"
    using ne le_val_append [of "butlast bs" "[last bs]"] by simp
  moreover have "(256::int) ^ m \<le> 256 ^ (length bs - 1)"
    using assms(1) by (intro power_increasing) auto
  moreover have "(256::int) ^ (length bs - 1) * 1 \<le> 256 ^ (length bs - 1) * uint (last bs)"
    using \<open>1 \<le> uint (last bs)\<close> by (intro mult_left_mono) auto
  ultimately show ?thesis
    using le_val_nonneg [of "butlast bs"] by linarith
qed

lemma signed_le_val_top:
  assumes "length bs = Suc m"
  shows "signed_le_val bs =
    (if 128 * 256 ^ m \<le> le_val bs then le_val bs - 256 ^ Suc m else le_val bs)"
proof -
  from assms have ne: "bs \<noteq> []" by auto
  have split: "le_val bs = le_val (butlast bs) + 256 ^ m * uint (last bs)"
    using ne assms le_val_append [of "butlast bs" "[last bs]"] by simp
  have low: "0 \<le> le_val (butlast bs)" "le_val (butlast bs) < 256 ^ m"
    using le_val_nonneg le_val_bound [of "butlast bs"] assms by simp_all
  have "128 \<le> uint (last bs) \<longleftrightarrow> 128 * 256 ^ m \<le> le_val bs"
  proof
    assume "128 \<le> uint (last bs)"
    then have "128 * 256 ^ m \<le> uint (last bs) * 256 ^ m" by (intro mult_right_mono) auto
    with split low(1) mult.commute [of "uint (last bs)" "256 ^ m"] show "128 * 256 ^ m \<le> le_val bs"
      by linarith
  next
    assume "128 * 256 ^ m \<le> le_val bs"
    with split low(2) have "128 * 256 ^ m < (uint (last bs) + 1) * 256 ^ m"
      using distrib_right [of "uint (last bs)" 1 "256 ^ m"] mult.commute [of "uint (last bs)" "256 ^ m"]
      by linarith
    then have "128 < uint (last bs) + 1" by (rule mult_right_less_imp_less) simp
    then show "128 \<le> uint (last bs)" by linarith
  qed
  with ne assms show ?thesis by (simp add: signed_le_val_def)
qed

context scalar_library
begin

lemma u64_try_from_cases:
  "u64_try_from lib n =
     (if n < 0 then Err Negative else if 2 ^ 64 \<le> n then Err Overflow else Ok (word_of_int n))"
proof -
  obtain sg bs where eq: "lib_to_bytes_le lib n = (sg, bs)" by fastforce
  have sg: "sg = (if n < 0 then Minus else if n = 0 then NoSign else Plus)"
    and val: "le_val bs = \<bar>n\<bar>" and short: "length bs \<le> 1 \<or> last bs \<noteq> 0"
    using to_bytes_le_sign [of n] to_bytes_le_val [of n] to_bytes_le_short [of n] eq by auto
  consider "n < 0" | "0 \<le> n" "2 ^ 64 \<le> n" | "0 \<le> n" "n < 2 ^ 64" by linarith
  then show ?thesis
  proof cases
    case 2
    with le_val_bound [of bs] val have "(256::int) ^ 8 < 256 ^ length bs" by simp
    then have "length bs > 8" by (rule power_less_imp_less_exp [rotated]) simp
    with 2 eq sg show ?thesis by (simp add: u64_try_from_def)
  next
    case 3
    have len: "length bs \<le> 8"
    proof (rule ccontr)
      assume "\<not> length bs \<le> 8"
      with le_val_length_gt [of 8 bs] short 3 val show False by simp
    qed
    with u64_from_le_val [of 0 0 bs] val 3 have "uint (u64_from_le bs 0 0) = n" by simp
    then have "u64_from_le bs 0 0 = word_of_int n" using word_of_int_uint by metis
    with 3 len eq sg show ?thesis by (simp add: u64_try_from_def)
  qed (simp add: u64_try_from_def eq sg)
qed

lemma signed_u256_inverse:
  assumes "- (2 ^ 255) \<le> n" and "n < 2 ^ 255"
  shows "\<exists>w. to_signed_u256 lib n = Ok w \<and> from_signed_u256 lib w = n"
proof -
  let ?bs = "lib_to_signed_bytes_le lib n"
  let ?pad = "?bs @ replicate (32 - length ?bs) (if n < 0 then 255 else 0)"
  have len: "length ?bs \<le> 32"
    using to_signed_short [of 32 n] assms by simp
  have sv: "signed_le_val ?bs = n" by (rule to_signed_val)
  have pad_val: "le_val ?pad = (if n < 0 then n + 256 ^ 32 else n)"
  proof (cases "n < 0")
    case True
    with sv le_val_nonneg [of ?bs] have "le_val ?bs = n + 256 ^ length ?bs"
      by (auto simp: signed_le_val_def split: if_splits)
    moreover have "(256::int) ^ length ?bs * 256 ^ (32 - length ?bs) = 256 ^ 32"
      using len by (simp flip: power_add)
    ultimately show ?thesis
      using True by (simp add: le_val_append le_val_replicate_255 algebra_simps)
  next
    case False
    with sv le_val_bound [of ?bs] have "le_val ?bs = n"
      by (auto simp: signed_le_val_def split: if_splits)
    with False show ?thesis by (simp add: le_val_append le_val_replicate_0)
  qed
  let ?w = "word_of_int (le_val ?pad) :: u256"
  have "le_val ?pad < 2 ^ 256" "0 \<le> le_val ?pad"
    using pad_val assms by (auto split: if_splits)
  then have w: "uint ?w = le_val ?pad" by (simp add: uint_word_of_int)
  have ok: "to_signed_u256 lib n = Ok ?w"
  proof (cases "n < 0")
    case True
    with len show ?thesis by (simp add: to_signed_u256_def u256_from_le Let_def)
  next
    case False
    with len show ?thesis
      by (simp add: to_signed_u256_def u256_from_le le_val_append le_val_replicate_0)
  qed
  let ?le = "lib_u256_to_little_endian lib ?w"
  have le: "length ?le = 32" "le_val ?le = le_val ?pad" using u256_to_le w by simp_all
  have "signed_le_val ?le = (if 128 * 256 ^ 31 \<le> le_val ?pad then le_val ?pad - 256 ^ 32 else le_val ?pad)"
    using signed_le_val_top [of ?le 31] le by simp
  also have "\<dots> = n" using pad_val assms by simp
  finally have "signed_le_val ?le = n" .
  with ok show ?thesis by (auto simp: from_signed_u256_def from_signed)
qed

lemma sign_val_radix: "sign_val (fst (lib_to_radix_be lib n)) * \<bar>n\<bar> = n"
  by (simp add: to_radix_sign)

lemma normalized_nonzero:
  assumes "bd_int d \<noteq> 0"
  obtains r k where "normalized lib d = Ok r"
    and "bd_int (lib_with_prec lib d MAX_SIGNIFICANT_DIGITS) = bd_int r * 10 ^ k"
    and "bd_scale (lib_with_prec lib d MAX_SIGNIFICANT_DIGITS) = bd_scale r + int k"
    and "\<not> 10 dvd bd_int r" and "\<bar>bd_int r\<bar> < 10 ^ MAX_SIGNIFICANT_DIGITS"
proof -
  let ?p = "lib_with_prec lib d MAX_SIGNIFICANT_DIGITS"
  obtain sg ds where eq: "lib_to_radix_be lib (bd_int ?p) = (sg, ds)" by fastforce
  let ?k = "length (takeWhile (\<lambda>i. i = 0) (rev ds))"
  let ?ds = "take (length ds - ?k) ds"
  let ?r = "BigDec (sign_val sg * digits_val ?ds) (bd_scale ?p - int ?k)"
  have nz: "bd_int ?p \<noteq> 0" and small: "\<bar>bd_int ?p\<bar> < 10 ^ MAX_SIGNIFICANT_DIGITS"
    using assms with_prec_nonzero [OF _ assms, of MAX_SIGNIFICANT_DIGITS]
      with_prec_digits [of MAX_SIGNIFICANT_DIGITS d]
    by (simp_all add: MAX_SIGNIFICANT_DIGITS_def)
  have digs: "list_all (\<lambda>d. d < 10) ds" and val: "digits_val ds = \<bar>bd_int ?p\<bar>"
    using to_radix_digits [of "bd_int ?p"] to_radix_val [of "bd_int ?p"] eq by simp_all
  have "list_all (\<lambda>d. d < 10) ?ds"
    using digs by (auto simp: list_all_iff dest: in_set_takeD)
  then have ok: "normalized lib d = Ok ?r"
    using assms eq by (simp add: normalized_def Let_def from_radix)
  have split: "digits_val ds = digits_val ?ds * 10 ^ ?k"
    using digits_val_zeros cut_trailing_zeros(1) [of ds] by metis
  have int: "bd_int ?p = bd_int ?r * 10 ^ ?k"
    using sign_val_radix [of "bd_int ?p"] eq val split by (simp add: mult.assoc)
  have nonempty: "?ds \<noteq> []"
    using split val nz by (auto simp: digits_val_def)
  have sg: "\<bar>sign_val sg\<bar> = 1"
    using to_radix_sign [of "bd_int ?p"] eq nz by (auto split: if_splits)
  have "?ds = butlast ?ds @ [last ?ds]"
    using nonempty by simp
  then have "digits_val ?ds = digits_val (butlast ?ds) * 10 + int (last ?ds)"
    using digits_val_snoc by metis
  moreover have "last ?ds \<noteq> 0" "last ?ds < 10"
    using cut_trailing_zeros(2) [of ds] nonempty \<open>list_all (\<lambda>d. d < 10) ?ds\<close> last_in_set
    by (auto simp: list_all_iff)
  ultimately have "\<not> 10 dvd digits_val ?ds" by presburger
  then have ndvd: "\<not> 10 dvd bd_int ?r" using sg
    by (auto simp: abs_if split: if_splits)
  have "\<bar>bd_int ?r\<bar> \<le> \<bar>bd_int ?p\<bar>"
    unfolding int abs_mult by (rule mult_le_cancel_left1 [THEN iffD2]) auto
  with small have "\<bar>bd_int ?r\<bar> < 10 ^ MAX_SIGNIFICANT_DIGITS" by linarith
  with ok int ndvd show ?thesis by (intro that [of ?r ?k]) simp_all
qed

lemma bytes_inverse: "bytes_from_str lib (bytes_to_string lib bs) = Ok bs"
proof -
  let ?h = "lib_hex_encode lib bs"
  have "trim_start_0x s = s" if "list_all (\<lambda>c. c \<noteq> CHR ''x'') s" for s
    using that by (cases s rule: trim_start_0x.cases) auto
  then have "trim_start_0x ?h = ?h" by (simp add: hex_digits)
  then show ?thesis
    by (simp add: bytes_from_str_def bytes_to_string_def zero_x_def hex_inverse)
qed

end

section \<open>A reference instance of the libraries\<close>

text \<open>
  Plain executable functions that satisfy the contract: schoolbook positional notation, and a
  \<open>with_prec\<close> that cuts digits from the right until the precision is met.
\<close>

function nat_bytes_le :: "nat \<Rightarrow> bytes" where
  "nat_bytes_le n = (if n < 256 then [of_nat n] else of_nat (n mod 256) # nat_bytes_le (n div 256))"
  by pat_completeness auto
termination
  by (relation "measure id") auto

function int_bytes_le :: "int \<Rightarrow> bytes" where
  "int_bytes_le n =
     (if - 128 \<le> n \<and> n < 128 then [word_of_int n]
      else word_of_int (n mod 256) # int_bytes_le (n div 256))"
  by pat_completeness auto
termination
  by (relation "measure (\<lambda>n. nat \<bar>n\<bar>)") (auto simp: abs_if div_less_dividend)

function nat_digits_be :: "nat \<Rightarrow> nat list" where
  "nat_digits_be n = (if n < 10 then [n] else nat_digits_be (n div 10) @ [n mod 10])"
  by pat_completeness auto
termination
  by (relation "measure id") auto

function cut_digits :: "nat \<Rightarrow> big_decimal \<Rightarrow> big_decimal" where
  "cut_digits p d =
     (if p = 0 \<or> \<bar>bd_int d\<bar> < 10 ^ p then d
      else cut_digits p (BigDec (sgn (bd_int d) * (\<bar>bd_int d\<bar> div 10)) (bd_scale d - 1)))"
  by pat_completeness auto
termination
proof (relation "measure (\<lambda>(p, d). nat \<bar>bd_int d\<bar>)")
  fix p :: nat and d :: big_decimal
  assume "\<not> (p = 0 \<or> \<bar>bd_int d\<bar> < 10 ^ p)"
  then have "0 < \<bar>bd_int d\<bar>" by (auto simp: zero_less_abs_iff)
  then have "\<bar>bd_int d\<bar> div 10 < \<bar>bd_int d\<bar>" by (rule int_div_less_self) simp
  then show "((p, BigDec (sgn (bd_int d) * (\<bar>bd_int d\<bar> div 10)) (bd_scale d - 1)), p, d)
      \<in> measure (\<lambda>(p, d). nat \<bar>bd_int d\<bar>)"
    by (auto simp: abs_mult sgn_if)
qed simp

declare nat_bytes_le.simps [simp del] int_bytes_le.simps [simp del]
  nat_digits_be.simps [simp del] cut_digits.simps [simp del]

fun hex_char :: "nat \<Rightarrow> char" where
  "hex_char n = (''0123456789abcdef'' ! n)"

definition hex_index :: "char \<Rightarrow> nat option" where
  "hex_index c = find (\<lambda>i. hex_char i = c) [0..<16]"

fun hex_encode :: "bytes \<Rightarrow> string" where
  "hex_encode [] = []"
| "hex_encode (b # bs) = hex_char (unat b div 16) # hex_char (unat b mod 16) # hex_encode bs"

fun hex_decode :: "string \<Rightarrow> bytes option" where
  "hex_decode [] = Some []"
| "hex_decode [c] = None"
| "hex_decode (a # b # s) =
     (case (hex_index a, hex_index b, hex_decode s) of
        (Some i, Some j, Some bs) \<Rightarrow> Some (of_nat (16 * i + j) # bs)
      | _ \<Rightarrow> None)"

definition u256_bytes_le :: "u256 \<Rightarrow> bytes" where
  "u256_bytes_le w = map (\<lambda>i. word_of_int (uint w div 256 ^ i)) [0..<32]"

definition int_sign :: "int \<Rightarrow> sign" where
  "int_sign n = (if n < 0 then Minus else if n = 0 then NoSign else Plus)"

definition digit_string :: "int \<Rightarrow> string" where
  "digit_string n =
     (if n < 0 then ''-'' else []) @ map hex_char (nat_digits_be (nat \<bar>n\<bar>))"

definition parse_digits :: "string \<Rightarrow> int option" where
  "parse_digits s = map_option digits_val (those (map hex_index s))"

fun parse_int :: "string \<Rightarrow> int option" where
  "parse_int (CHR ''-'' # s) = map_option uminus (parse_digits s)"
| "parse_int s = parse_digits s"

definition ref_lib :: scalar_lib where
  "ref_lib =
     \<lparr> lib_to_bytes_le = (\<lambda>n. (int_sign n, nat_bytes_le (nat \<bar>n\<bar>))),
       lib_to_signed_bytes_le = int_bytes_le,
       lib_from_signed_bytes_le = signed_le_val,
       lib_u256_from_little_endian =
         (\<lambda>bs. if length bs \<le> 32 then Some (word_of_int (le_val bs)) else None),
       lib_u256_to_little_endian = u256_bytes_le,
       lib_to_radix_be = (\<lambda>n. (int_sign n, nat_digits_be (nat \<bar>n\<bar>))),
       lib_from_radix_be = (\<lambda>sg ds. Some (sign_val sg * digits_val ds)),
       lib_with_prec = (\<lambda>d p. cut_digits p d),
       lib_bigint_div = (\<lambda>a b. sgn a * sgn b * (\<bar>a\<bar> div \<bar>b\<bar>)),
       lib_bigint_rem = (\<lambda>a b. if b = 0 then None else Some (sgn a * (\<bar>a\<bar> mod \<bar>b\<bar>))),
       lib_bd_add = (\<lambda>a b. a), lib_bd_sub = (\<lambda>a b. a),
       lib_bd_mul = (\<lambda>a b. BigDec (bd_int a * bd_int b) (bd_scale a + bd_scale b)),
       lib_bd_div = (\<lambda>a b. a),
       lib_hex_encode = hex_encode, lib_hex_decode = hex_decode,
       lib_bigint_from_str = parse_int, lib_bigint_to_string = digit_string,
       lib_bigdecimal_from_str = (\<lambda>s. None),
       lib_bigdecimal_to_string = (\<lambda>d. digit_string (bd_int d)) \<rparr>"

lemma nat_bytes_le_val: "le_val (nat_bytes_le n) = int n"
proof (induction n rule: nat_bytes_le.induct)
  case (1 n)
  show ?case
  proof (cases "n < 256")
    case True
    then show ?thesis by (simp add: nat_bytes_le.simps [of n] unsigned_of_nat take_bit_nat_eq_self)
  next
    case False
    with 1 have "le_val (nat_bytes_le (n div 256)) = int (n div 256)" by simp
    moreover have "uint (of_nat (n mod 256) :: 8 word) = int (n mod 256)"
      by (simp only: unsigned_of_nat take_bit_eq_mod) simp
    moreover have "int (n mod 256) + 256 * int (n div 256) = int n"
      by (metis mod_mult_div_eq of_nat_add of_nat_mult of_nat_numeral)
    ultimately show ?thesis using False by (simp only: nat_bytes_le.simps [of n]) simp
  qed
qed

lemma nat_bytes_le_short: "length (nat_bytes_le n) \<le> 1 \<or> last (nat_bytes_le n) \<noteq> 0"
proof (induction n rule: nat_bytes_le.induct)
  case (1 n)
  show ?case
  proof (cases "n < 256")
    case False
    let ?r = "nat_bytes_le (n div 256)"
    have "?r \<noteq> []" by (subst nat_bytes_le.simps) simp
    moreover have "last ?r \<noteq> 0"
    proof (cases "length ?r \<le> 1")
      case True
      with \<open>?r \<noteq> []\<close> obtain b where b: "?r = [b]" by (cases ?r) auto
      with nat_bytes_le_val [of "n div 256"] have "uint b = int (n div 256)" by simp
      moreover from False have "0 < n div 256" by simp
      ultimately have "b \<noteq> 0" by auto
      with b show ?thesis by simp
    next
      case False
      then show ?thesis using 1 \<open>\<not> n < 256\<close> by simp
    qed
    ultimately show ?thesis using False by (simp add: nat_bytes_le.simps [of n])
  qed (simp add: nat_bytes_le.simps [of n])
qed

lemma int_bytes_le_ne: "int_bytes_le n \<noteq> []"
  by (subst int_bytes_le.simps) simp

lemma signed_le_val_Cons: "bs \<noteq> [] \<Longrightarrow> signed_le_val (b # bs) = uint b + 256 * signed_le_val bs"
  by (simp add: signed_le_val_def algebra_simps)

lemma int_bytes_le_val: "signed_le_val (int_bytes_le n) = n"
proof (induction n rule: int_bytes_le.induct)
  case (1 n)
  show ?case
  proof (cases "- 128 \<le> n \<and> n < 128")
    case True
    have "uint (word_of_int n :: 8 word) = n mod 256" by (simp add: uint_word_of_int)
    moreover from True have "n mod 256 = (if n < 0 then n + 256 else n)"
      using mod_pos_pos_trivial [of "n + 256" 256] mod_pos_pos_trivial [of n 256] by simp
    ultimately show ?thesis using True
      by (simp add: int_bytes_le.simps [of n] signed_le_val_def)
  next
    case False
    have "uint (word_of_int (n mod 256) :: 8 word) = n mod 256" by (simp add: uint_word_of_int)
    with 1 [OF False] have "uint (word_of_int (n mod 256) :: 8 word) +
        256 * signed_le_val (int_bytes_le (n div 256)) = n"
      by (simp only: mod_mult_div_eq)
    with False show ?thesis
      by (simp only: int_bytes_le.simps [of n] if_False signed_le_val_Cons int_bytes_le_ne
          not_False_eq_True)
  qed
qed

lemma int_bytes_le_short:
  "0 < k \<Longrightarrow> - (2 ^ (8 * k - 1)) \<le> n \<Longrightarrow> n < 2 ^ (8 * k - 1) \<Longrightarrow> length (int_bytes_le n) \<le> k"
proof (induction n arbitrary: k rule: int_bytes_le.induct)
  case (1 n)
  show ?case
  proof (cases "- 128 \<le> n \<and> n < 128")
    case True
    with 1 show ?thesis by (simp add: int_bytes_le.simps [of n])
  next
    case False
    have "k \<noteq> 1" using False "1.prems" by auto
    with "1.prems"(1) obtain j where k: "k = Suc j" and j: "0 < j" by (cases k) auto
    have pow: "(2::int) ^ (8 * k - 1) = 256 * 2 ^ (8 * j - 1)"
    proof -
      have "8 * k - 1 = 8 + (8 * j - 1)" using j k by simp
      then show ?thesis by (simp only: power_add) simp
    qed
    have "- (2 ^ (8 * j - 1)) \<le> n div 256" "n div 256 < 2 ^ (8 * j - 1)"
      using "1.prems"(2,3) unfolding pow
      by (simp_all add: less_eq_div_iff_mult_less_eq div_less_iff_less_mult mult.commute)
    with 1 False j have "length (int_bytes_le (n div 256)) \<le> j" by blast
    with False k show ?thesis by (simp add: int_bytes_le.simps [of n])
  qed
qed

lemma nat_digits_be_val: "digits_val (nat_digits_be n) = int n"
proof (induction n rule: nat_digits_be.induct)
  case (1 n)
  show ?case
  proof (cases "n < 10")
    case False
    with 1 have "digits_val (nat_digits_be (n div 10)) = int (n div 10)" by simp
    moreover have "int (n div 10) * 10 + int (n mod 10) = int n"
      by (metis div_mult_mod_eq of_nat_add of_nat_mult of_nat_numeral)
    ultimately show ?thesis using False
      by (simp only: nat_digits_be.simps [of n] if_False digits_val_snoc)
  qed (simp add: nat_digits_be.simps [of n] digits_val_def)
qed

lemma nat_digits_be_small: "list_all (\<lambda>d. d < 10) (nat_digits_be n)"
proof (induction n rule: nat_digits_be.induct)
  case (1 n)
  then show ?case by (cases "n < 10") (simp_all add: nat_digits_be.simps [of n])
qed

lemma cut_digits_spec:
  "0 < p \<Longrightarrow> bd_int d \<noteq> 0 \<Longrightarrow> bd_int (cut_digits p d) \<noteq> 0"
  "0 < p \<Longrightarrow> \<bar>bd_int (cut_digits p d)\<bar> < 10 ^ p"
proof (induction p d rule: cut_digits.induct)
  case (1 p d)
  {
    case 1
    show ?case
    proof (cases "\<bar>bd_int d\<bar> < 10 ^ p")
      case True
      with 1 show ?thesis by (simp add: cut_digits.simps [of p d])
    next
      case False
      have "(10::int) ^ 1 \<le> 10 ^ p" using 1 by (intro power_increasing) auto
      with False have "10 \<le> \<bar>bd_int d\<bar>" by simp
      then have "sgn (bd_int d) * (\<bar>bd_int d\<bar> div 10) \<noteq> 0" by (auto simp: sgn_if)
      with False 1 "1.IH"(1) show ?thesis by (simp add: cut_digits.simps [of p d])
    qed
  next
    case 2
    with "1.IH"(2) show ?case by (cases "\<bar>bd_int d\<bar> < 10 ^ p") (simp_all add: cut_digits.simps [of p d])
  }
qed

lemma hex_index_char: "n < 16 \<Longrightarrow> hex_index (hex_char n) = Some n"
proof -
  have "\<forall>n \<in> set [0..<16]. hex_index (hex_char n) = Some n" by code_simp
  then show "n < 16 \<Longrightarrow> hex_index (hex_char n) = Some n" by simp
qed

lemma hex_char_not_x: "n < 16 \<Longrightarrow> hex_char n \<noteq> CHR ''x''"
proof -
  have "\<forall>n \<in> set [0..<16]. hex_char n \<noteq> CHR ''x''" by code_simp
  then show "n < 16 \<Longrightarrow> hex_char n \<noteq> CHR ''x''" by simp
qed

lemma those_hex_index: "list_all (\<lambda>d. d < 10) ds \<Longrightarrow> those (map hex_index (map hex_char ds)) = Some ds"
  by (induction ds) (auto simp: hex_index_char simp del: hex_char.simps)

lemma hex_char_not_minus: "n < 16 \<Longrightarrow> hex_char n \<noteq> CHR ''-''"
proof -
  have "\<forall>n \<in> set [0..<16]. hex_char n \<noteq> CHR ''-''" by code_simp
  then show "n < 16 \<Longrightarrow> hex_char n \<noteq> CHR ''-''" by simp
qed

lemma parse_int_other: "hd s \<noteq> CHR ''-'' \<Longrightarrow> parse_int s = parse_digits s"
  by (cases s rule: parse_int.cases) auto

lemma parse_int_digit_string: "parse_int (digit_string n) = Some n"
proof -
  let ?ds = "nat_digits_be (nat \<bar>n\<bar>)"
  have digs: "parse_digits (map hex_char ?ds) = Some \<bar>n\<bar>"
    using those_hex_index [OF nat_digits_be_small [of "nat \<bar>n\<bar>"]]
    by (simp add: parse_digits_def nat_digits_be_val del: hex_char.simps map_map)
  have ne: "?ds \<noteq> []" by (subst nat_digits_be.simps) simp
  then have "hd ?ds < 10"
    using nat_digits_be_small [of "nat \<bar>n\<bar>"] by (cases ?ds) auto
  then have "hd (map hex_char ?ds) \<noteq> CHR ''-''"
    using ne hex_char_not_minus [of "hd ?ds"] by (simp add: hd_map del: hex_char.simps)
  with digs show ?thesis
    by (cases "n < 0") (simp_all add: digit_string_def parse_int_other del: hex_char.simps)
qed

lemma unat_byte_bound: "unat (b :: 8 word) < 256"
  using unsigned_less [of b, where ?'a = nat] by simp

lemma hex_decode_encode: "hex_decode (hex_encode bs) = Some bs"
proof (induction bs)
  case (Cons b bs)
  have "unat b div 16 < 16" "unat b mod 16 < 16" using unat_byte_bound [of b] by auto
  moreover have "of_nat (16 * (unat b div 16) + unat b mod 16) = b" by simp
  ultimately show ?case using Cons by (simp add: hex_index_char del: hex_char.simps)
qed simp

lemma hex_encode_no_x: "list_all (\<lambda>c. c \<noteq> CHR ''x'') (hex_encode bs)"
proof (induction bs)
  case (Cons b bs)
  have "unat b div 16 < 16" "unat b mod 16 < 16" using unat_byte_bound [of b] by auto
  with Cons show ?case by (simp add: hex_char_not_x del: hex_char.simps)
qed simp

lemma le_val_of_digits:
  "0 \<le> n \<Longrightarrow> le_val (map (\<lambda>i. word_of_int (n div 256 ^ (k + i))) [0..<m]) = (n div 256 ^ k) mod 256 ^ m"
proof (induction m arbitrary: k)
  case (Suc m)
  let ?q = "n div 256 ^ k"
  have "map (\<lambda>i. word_of_int (n div 256 ^ (k + i)) :: 8 word) [0..<Suc m] =
      word_of_int ?q # map (\<lambda>i. word_of_int (n div 256 ^ (Suc k + i))) [0..<m]"
    by (simp add: upt_conv_Cons map_Suc_upt [symmetric] del: upt_Suc)
  moreover have "n div 256 ^ Suc k = ?q div 256"
    by (metis div_mult2_eq' div_mult_mult1_if mult.commute power_Suc zdiv_zmult2_eq zero_le_numeral)
  moreover have "?q mod 256 + 256 * ((?q div 256) mod 256 ^ m) = ?q mod 256 ^ Suc m"
    by (simp add: zmod_zmult2_eq)
  moreover have "le_val (map (\<lambda>i. word_of_int (n div 256 ^ (Suc k + i))) [0..<m]) =
      n div 256 ^ Suc k mod 256 ^ m"
    using Suc.prems by (rule Suc.IH)
  ultimately show ?case
    by (simp only: le_val.simps uint_word_of_int) simp
qed simp

lemma u256_bytes_le:
  "length (u256_bytes_le w) = 32" "le_val (u256_bytes_le w) = uint w"
proof -
  show "length (u256_bytes_le w) = 32" by (simp only: u256_bytes_le_def) simp
  have "le_val (u256_bytes_le w) = uint w mod 256 ^ 32"
    using le_val_of_digits [of "uint w" 0 32]
    by (simp only: u256_bytes_le_def power_0 div_by_1 uint_ge_0 add_0 simp_thms)
  also have "\<dots> = uint w" using uint_lt2p [of w] by (intro mod_pos_pos_trivial) auto
  finally show "le_val (u256_bytes_le w) = uint w" .
qed

interpretation ref_scalars: scalar_library ref_lib
proof (unfold_locales, goal_cases)
  case (3 n)
  show ?case using nat_bytes_le_short [of "nat \<bar>n\<bar>"] by (simp add: ref_lib_def)
qed (simp_all add: ref_lib_def int_sign_def nat_bytes_le_val nat_bytes_le_short int_bytes_le_val
    int_bytes_le_short nat_digits_be_val nat_digits_be_small cut_digits_spec hex_decode_encode
    hex_encode_no_x u256_bytes_le parse_int_digit_string)

section \<open>Properties\<close>

text \<open>Under the contract of \<open>num_bigint\<close>, converting a \<open>BigInt\<close> to \<open>u64\<close> answers every
  integer: \<open>Negative\<close> below zero, \<open>Overflow\<close> from \<open>2 ^ 64\<close> on, and in between the very same
  number, so the byte-shifting loop neither loses nor mixes bytes.\<close>

lemma u64_try_from_correct:
  assumes "scalar_library lib"
  shows "u64_try_from lib n =
    (if n < 0 then Err Negative else if 2 ^ 64 \<le> n then Err Overflow else Ok (word_of_int n))"
  using assms by (rule scalar_library.u64_try_from_cases)

text \<open>Every integer of the signed 256-bit range survives \<open>to_signed_u256\<close> followed by
  \<open>from_signed_u256\<close>: the padding of negative values is the two's complement one, and no
  assertion fails.\<close>

lemma signed_u256_roundtrip:
  assumes "scalar_library lib" and "- (2 ^ 255) \<le> n" and "n < 2 ^ 255"
  shows "\<exists>w. to_signed_u256 lib n = Ok w \<and> from_signed_u256 lib w = n"
  using assms by (rule scalar_library.signed_u256_inverse)

text \<open>\<open>BigDecimal::normalized\<close> never panics on a non-zero number, and its result is the
  canonical form of the number rounded to 34 significant digits: the same value with all
  trailing zeros moved into the exponent.\<close>

lemma normalized_canonical:
  assumes "scalar_library lib" and "bd_int d \<noteq> 0"
  shows "\<exists>r k. normalized lib d = Ok r
    \<and> bd_int (lib_with_prec lib d 34) = bd_int r * 10 ^ k
    \<and> bd_scale (lib_with_prec lib d 34) = bd_scale r + int k
    \<and> \<not> 10 dvd bd_int r \<and> \<bar>bd_int r\<bar> < 10 ^ 34"
  using scalar_library.normalized_nonzero [OF assms] unfolding MAX_SIGNIFICANT_DIGITS_def by metis

end
