(* ===== verification/Values.thy ===== *)
theory Values
  imports Scalars
begin

text \<open>
  Attribute values, entities and entity keys: \<open>graph/src/data/store/mod.rs\<close> and the key type of
  \<open>graph/src/components/store.rs\<close>. The GraphQL values and types of the \<open>graphql_parser\<close> crate
  appear through the constructors the code matches on; a GraphQL integer is an \<open>i64\<close> and a
  float its 64-bit pattern. \<open>QueryExecutionError\<close> is the enum of
  \<open>graph/src/data/query/error.rs\<close>, without the text of nested parser errors.
\<close>

section \<open>GraphQL values and types\<close>

type_synonym pos = "nat \<times> nat"

datatype qvalue =
    QVariable string
  | QInt "64 word"
  | QFloat "64 word"
  | QString string
  | QBoolean bool
  | QNull
  | QEnum string
  | QList "qvalue list"
  | QObject "(string \<times> qvalue) list"

datatype gtype = NamedType string | ListType gtype | NonNullType gtype

text \<open>
  Two pieces of message text stay unrendered: \<open>ValueParseError\<close> has only the scalar's name and
  \<open>AttributeTypeError\<close> the value and the type themselves.
\<close>

datatype query_execution_error =
    OperationNameRequired
  | OperationNotFound string
  | NotSupported string
  | NoRootSubscriptionObjectType
  | NonNullError pos string
  | ListValueError pos string
  | NamedTypeError string
  | AbstractTypeError string
  | InvalidArgumentError pos string qvalue
  | MissingArgumentError pos string
  | InvalidVariableTypeError pos string
  | MissingVariableError pos string
  | ResolveEntityError string string string string
  | ResolveEntitiesError string
  | OrderByNotSupportedError string string
  | OrderByNotSupportedForType string
  | FilterNotSupportedError string string
  | UnknownField pos string string
  | EmptyQuery
  | MultipleSubscriptionFields
  | SubgraphDeploymentIdError string
  | RangeArgumentsError "string list" "32 word"
  | InvalidFilterError
  | EntityFieldError string string
  | ListTypesError string "string list"
  | ListFilterError string
  | ValueParseError string
  | AttributeTypeError qvalue gtype
  | EntityParseError string
  | StoreError string
  | Timeout
  | EmptySelectionSet string
  | AmbiguousDerivedFromResult pos string string string
  | Unimplemented string
  | EnumCoercionError pos string qvalue string "string list"
  | ScalarCoercionError pos string qvalue string
  | TooComplex u64 u64
  | TooDeep "8 word"
  | TooExpensive
  | Throttled
  | UndefinedFragment string
  | IncorrectPrefetchResult qvalue qvalue
  | PanicError string
  | EventStreamError
  | FulltextQueryRequiresFilter
  | DeploymentReverted

section \<open>Node identifiers and assignment events\<close>

definition is_ascii_alphanumeric :: "char \<Rightarrow> bool" where
  "is_ascii_alphanumeric c \<longleftrightarrow>
     (CHR ''0'' \<le> c \<and> c \<le> CHR ''9'') \<or> (CHR ''A'' \<le> c \<and> c \<le> CHR ''Z'')
     \<or> (CHR ''a'' \<le> c \<and> c \<le> CHR ''z'')"

definition node_id_new :: "string \<Rightarrow> (string, unit) result" where
  "node_id_new s =
     (if length s > 63 then Err ()
      else if \<not> list_all (\<lambda>c. is_ascii_alphanumeric c \<or> c = CHR ''_'') s then Err ()
      else Ok s)"

datatype assignment_event =
    AddAssignment (ae_subgraph_id: string) (ae_node_id: string)
  | RemoveAssignment (ae_subgraph_id: string) (ae_node_id: string)

section \<open>Values\<close>

datatype value_type = BooleanT | BigIntT | BytesT | BigDecimalT | IntT | StringT | ListT

fun value_type_from_str :: "string \<Rightarrow> (value_type, string) result" where
  "value_type_from_str s =
     (if s = ''Boolean'' then Ok BooleanT
      else if s = ''BigInt'' then Ok BigIntT
      else if s = ''Bytes'' then Ok BytesT
      else if s = ''BigDecimal'' then Ok BigDecimalT
      else if s = ''Int'' then Ok IntT
      else if s = ''String'' \<or> s = ''ID'' then Ok StringT
      else if s = ''List'' then Ok ListT
      else Err s)"

declare value_type_from_str.simps [simp del]

definition is_scalar :: "string \<Rightarrow> bool" where
  "is_scalar s =
     (case value_type_from_str s of
        Ok vt \<Rightarrow> (case vt of ListT \<Rightarrow> False | _ \<Rightarrow> True)
      | _ \<Rightarrow> False)"

datatype val =
    VString string
  | VInt i32
  | VBigDecimal big_decimal
  | VBool bool
  | VList "val list"
  | VNull
  | VBytes bytes
  | VBigInt int

text \<open>\<open>?\<close> on a parser error turns it into a \<open>ValueParseError\<close> naming the scalar.\<close>

fun parse_error :: "string \<Rightarrow> ('a, unit) result \<Rightarrow> ('a, query_execution_error) result" where
  "parse_error n (Ok a) = Ok a"
| "parse_error n (Err ()) = Err (ValueParseError n)"
| "parse_error n Panic = Panic"

text \<open>
  \<open>Value::from_query_value\<close>, its match arms in order. An integer literal is an \<open>i64\<close> that the
  cast \<open>as i32\<close> truncates to its low 32 bits.
\<close>

fun from_query_value :: "scalar_lib \<Rightarrow> qvalue \<Rightarrow> gtype \<Rightarrow> (val, query_execution_error) result" where
  "from_query_value lib value (NonNullType t) = from_query_value lib value t"
| "from_query_value lib (QList values) (ListType ty) =
     and_then (try_map (\<lambda>value. from_query_value lib value ty) values) (\<lambda>vs. Ok (VList vs))"
| "from_query_value lib (QList values) (NamedType n) =
     and_then (try_map (\<lambda>value. from_query_value lib value (NamedType n)) values) (\<lambda>vs. Ok (VList vs))"
| "from_query_value lib (QEnum e) (NamedType _) = Ok (VString e)"
| "from_query_value lib (QString s) (NamedType n) =
     (if n = ''Bytes'' then and_then (parse_error ''Bytes'' (bytes_from_str lib s)) (\<lambda>b. Ok (VBytes b))
      else if n = ''BigInt'' then
        and_then (parse_error ''BigInt'' (bigint_from_str lib s)) (\<lambda>i. Ok (VBigInt i))
      else if n = ''BigDecimal'' then
        and_then (parse_error ''BigDecimal'' (bigdecimal_from_str lib s)) (\<lambda>d. Ok (VBigDecimal d))
      else Ok (VString s))"
| "from_query_value lib (QInt i) _ = Ok (VInt (ucast i))"
| "from_query_value lib (QBoolean b) _ = Ok (VBool b)"
| "from_query_value lib QNull _ = Ok VNull"
| "from_query_value lib value ty = Err (AttributeTypeError value ty)"

text \<open>\<open>From<Value> for query::Value\<close>; an \<open>i32\<close> widens to the \<open>i64\<close> of the same sign.\<close>

fun value_to_query :: "scalar_lib \<Rightarrow> val \<Rightarrow> qvalue" where
  "value_to_query lib (VString s) = QString s"
| "value_to_query lib (VInt i) = QInt (scast i)"
| "value_to_query lib (VBigDecimal d) = QString (lib_bigdecimal_to_string lib d)"
| "value_to_query lib (VBool b) = QBoolean b"
| "value_to_query lib VNull = QNull"
| "value_to_query lib (VList vs) = QList (map (value_to_query lib) vs)"
| "value_to_query lib (VBytes bs) = QString (bytes_to_string lib bs)"
| "value_to_query lib (VBigInt n) = QString (lib_bigint_to_string lib n)"

fun as_string :: "val \<Rightarrow> string option" where
  "as_string (VString s) = Some s"
| "as_string _ = None"

fun as_int :: "val \<Rightarrow> i32 option" where
  "as_int (VInt i) = Some i"
| "as_int _ = None"

fun as_big_decimal :: "val \<Rightarrow> big_decimal option" where
  "as_big_decimal (VBigDecimal d) = Some d"
| "as_big_decimal _ = None"

fun as_bool :: "val \<Rightarrow> bool option" where
  "as_bool (VBool b) = Some b"
| "as_bool _ = None"

fun as_list :: "val \<Rightarrow> val list option" where
  "as_list (VList vs) = Some vs"
| "as_list _ = None"

fun as_bytes :: "val \<Rightarrow> bytes option" where
  "as_bytes (VBytes b) = Some b"
| "as_bytes _ = None"

fun as_bigint :: "val \<Rightarrow> int option" where
  "as_bigint (VBigInt n) = Some n"
| "as_bigint _ = None"

fun type_name :: "val \<Rightarrow> string" where
  "type_name (VBigDecimal _) = ''BigDecimal''"
| "type_name (VBigInt _) = ''BigInt''"
| "type_name (VBool _) = ''Boolean''"
| "type_name (VBytes _) = ''Bytes''"
| "type_name (VInt _) = ''Int''"
| "type_name (VList []) = ''[Any]''"
| "type_name (VList (v # _)) = ''['' @ type_name v @ '']''"
| "type_name VNull = ''Null''"
| "type_name (VString _) = ''String''"

section \<open>Entities\<close>

type_synonym entity = "(string, val) hashmap"

datatype entity_error = MissingId | NonStringId

fun entity_id_of :: "entity \<Rightarrow> (string, entity_error) result" where
  "entity_id_of e =
     (case hm_get e ''id'' of
        None \<Rightarrow> Err MissingId
      | Some (VString s) \<Rightarrow> Ok s
      | Some _ \<Rightarrow> Err NonStringId)"

definition merge :: "entity \<Rightarrow> entity \<Rightarrow> entity" where
  "merge self update = fold (\<lambda>(key, value) e. hm_insert key value e) update self"

definition merge_remove_null_fields :: "entity \<Rightarrow> entity \<Rightarrow> entity" where
  "merge_remove_null_fields self update =
     fold (\<lambda>(key, value) e. if value = VNull then hm_remove key e else hm_insert key value e)
       update self"

section \<open>Entity keys\<close>

datatype entity_key = EntityKey (subgraph_id: string) (entity_type: string) (entity_id: string)

text \<open>The derived \<open>Ord\<close>: lexicographic in the order of the fields.\<close>

definition key_tuple :: "entity_key \<Rightarrow> string \<times> string \<times> string" where
  "key_tuple k = (subgraph_id k, entity_type k, entity_id k)"

instantiation entity_key :: linorder
begin

definition less_eq_entity_key :: "entity_key \<Rightarrow> entity_key \<Rightarrow> bool" where
  "less_eq_entity_key a b \<longleftrightarrow> key_tuple a \<le> key_tuple b"

definition less_entity_key :: "entity_key \<Rightarrow> entity_key \<Rightarrow> bool" where
  "less_entity_key a b \<longleftrightarrow> key_tuple a < key_tuple b"

instance
proof
  fix x y z :: entity_key
  show "x < y \<longleftrightarrow> x \<le> y \<and> \<not> y \<le> x"
    by (auto simp: less_eq_entity_key_def less_entity_key_def)
  show "x \<le> x" by (simp add: less_eq_entity_key_def)
  show "x \<le> y \<Longrightarrow> y \<le> z \<Longrightarrow> x \<le> z"
    unfolding less_eq_entity_key_def by (rule order_trans)
  show "x \<le> y \<Longrightarrow> y \<le> x \<Longrightarrow> x = y"
    by (cases x; cases y) (auto simp: less_eq_entity_key_def key_tuple_def dest: antisym)
  show "x \<le> y \<or> y \<le> x" by (auto simp: less_eq_entity_key_def)
qed

end

section \<open>Merging\<close>

lemma merge_lookup:
  "hm_wf update \<Longrightarrow> map_of (merge self update) k =
     (case map_of update k of Some v \<Rightarrow> Some v | None \<Rightarrow> map_of self k)"
proof (induction update arbitrary: self)
  case (Cons kv update)
  obtain k' v' where kv: "kv = (k', v')" by fastforce
  from Cons have "map_of (merge (hm_insert k' v' self) update) k =
      (case map_of update k of Some v \<Rightarrow> Some v | None \<Rightarrow> map_of (hm_insert k' v' self) k)"
    by (simp add: kv hm_wf_Cons)
  moreover have "merge self (kv # update) = merge (hm_insert k' v' self) update"
    by (simp add: merge_def kv)
  ultimately show ?case using Cons.prems
    by (auto simp: kv hm_wf_Cons map_simps split: option.splits)
qed (simp add: merge_def)

lemma merge_remove_null_lookup:
  "hm_wf update \<Longrightarrow> map_of (merge_remove_null_fields self update) k =
     (case map_of update k of
        Some v \<Rightarrow> (if v = VNull then None else Some v)
      | None \<Rightarrow> map_of self k)"
proof (induction update arbitrary: self)
  case (Cons kv update)
  obtain k' v' where kv: "kv = (k', v')" by fastforce
  let ?self = "if v' = VNull then hm_remove k' self else hm_insert k' v' self"
  from Cons have "map_of (merge_remove_null_fields ?self update) k =
      (case map_of update k of
         Some v \<Rightarrow> (if v = VNull then None else Some v)
       | None \<Rightarrow> map_of ?self k)"
    by (simp add: kv hm_wf_Cons)
  moreover have "merge_remove_null_fields self (kv # update) = merge_remove_null_fields ?self update"
    by (simp add: merge_remove_null_fields_def kv)
  ultimately show ?case using Cons.prems
    by (auto simp: kv hm_wf_Cons map_simps split: option.splits)
qed (simp add: merge_remove_null_fields_def)

lemma merge_wf [simp]: "hm_wf self \<Longrightarrow> hm_wf (merge self update)"
  unfolding merge_def by (induction update arbitrary: self) auto

lemma merge_remove_null_wf [simp]: "hm_wf self \<Longrightarrow> hm_wf (merge_remove_null_fields self update)"
  unfolding merge_remove_null_fields_def by (induction update arbitrary: self) auto

lemmas merge_lookups = merge_lookup merge_remove_null_lookup

text \<open>Two updates in a row are one merged update: what the entity cache relies on.\<close>

lemma merge_remove_null_merge:
  assumes "hm_wf u" and "hm_wf v"
  shows "map_of (merge_remove_null_fields e (merge u v)) =
    map_of (merge_remove_null_fields (merge_remove_null_fields e u) v)"
  using assms by (auto simp: fun_eq_iff merge_lookups split: option.splits)

lemma merge_remove_null_cong:
  "hm_wf u \<Longrightarrow> map_of e = map_of e' \<Longrightarrow>
     map_of (merge_remove_null_fields e u) = map_of (merge_remove_null_fields e' u)"
  by (auto simp: fun_eq_iff merge_lookups split: option.splits)

section \<open>Values that the GraphQL representation keeps\<close>

text \<open>
  \<open>fits v ty\<close>: the value is one that the GraphQL type \<open>ty\<close> can carry without a change of kind.
  Strings under a scalar name would be parsed, and decimals go through the printer of another
  library, so they are left out.
\<close>

fun fits :: "val \<Rightarrow> gtype \<Rightarrow> bool" where
  "fits v (NonNullType t) = fits v t"
| "fits (VList vs) (ListType t) = list_all (\<lambda>v. fits v t) vs"
| "fits (VList vs) (NamedType n) = list_all (\<lambda>v. fits v (NamedType n)) vs"
| "fits (VString s) (NamedType n) = (n \<notin> {''Bytes'', ''BigInt'', ''BigDecimal''})"
| "fits (VBytes b) (NamedType n) = (n = ''Bytes'')"
| "fits (VBigInt b) (NamedType n) = (n = ''BigInt'')"
| "fits (VInt i) _ = True"
| "fits (VBool b) _ = True"
| "fits VNull _ = True"
| "fits _ _ = False"

lemma ucast_scast_i32: "ucast (scast (i :: 32 word) :: 64 word) = i"
  by (rule bit_word_eqI) (auto simp: bit_simps)

context scalar_library
begin

lemma query_value_inverse: "fits v ty \<Longrightarrow> from_query_value lib (value_to_query lib v) ty = Ok v"
proof (induction v ty rule: fits.induct)
  case (2 vs t)
  then have "try_map (\<lambda>value. from_query_value lib value t) (map (value_to_query lib) vs) = Ok vs"
    by (auto simp: try_map_Ok_iff list_all2_map1 list_all2_same list_all_iff)
  then show ?case by simp
next
  case (3 vs n)
  then have "try_map (\<lambda>value. from_query_value lib value (NamedType n))
      (map (value_to_query lib) vs) = Ok vs"
    by (auto simp: try_map_Ok_iff list_all2_map1 list_all2_same list_all_iff)
  then show ?case by simp
qed (auto simp: bytes_inverse bigint_from_str_def bigint_str_inverse ucast_scast_i32)

end

section \<open>Properties\<close>

text \<open>Under the contract of the scalar libraries, storing a value as a GraphQL value and
  reading it back with the type it fits gives the same value, for lists and nested types too.\<close>

lemma query_value_roundtrip:
  assumes "scalar_library lib" and "fits v ty"
  shows "from_query_value lib (value_to_query lib v) ty = Ok v"
  using assms by (rule scalar_library.query_value_inverse)

end
