(* ===== verification/LfuCache.thy ===== *)
theory LfuCache
  imports Prelude
begin

text \<open>
  The least-frequently-used cache of \<open>graph/src/util/lfu_cache.rs\<close>. The queue it keeps its entries
  in is the \<open>PriorityQueue\<close> of the crate \<open>priority_queue\<close>: its methods are the fields of the
  record \<open>pq_ops\<close>, an argument of every definition here, and the locale \<open>priority_queue\<close> is its
  documented behaviour over an abstraction \<open>elems\<close>, the entry and priority stored under each key.
  Weights and counters are 64-bit words with the wrap-around of a release build. Locale
  \<open>kv_cache\<close> is what the entity cache needs of this component.
\<close>

section \<open>Entries, priorities and the queue\<close>

record ('k, 'v) cache_entry =
  ce_weight :: usize
  ce_key :: 'k
  ce_value :: 'v
  ce_will_stale :: bool

type_synonym priority = "bool \<times> u64"

text \<open>The order of \<open>(bool, Reverse<u64>)\<close>: stale entries first, then the least frequency.\<close>

fun prio_le :: "priority \<Rightarrow> priority \<Rightarrow> bool" where
  "prio_le (s, f) (s', f') \<longleftrightarrow> (\<not> s \<and> s') \<or> (s = s' \<and> f' \<le> f)"

type_synonym ('k, 'v) item = "('k, 'v) cache_entry \<times> priority"

record ('q, 'k, 'v) pq_ops =
  pq_new :: 'q
  pq_push :: "'q \<Rightarrow> ('k, 'v) cache_entry \<Rightarrow> priority \<Rightarrow> 'q"
  pq_pop :: "'q \<Rightarrow> (('k, 'v) item \<times> 'q) option"
  pq_get :: "'q \<Rightarrow> 'k \<Rightarrow> ('k, 'v) item option"
  pq_get_mut :: "'q \<Rightarrow> 'k \<Rightarrow> (('k, 'v) cache_entry \<Rightarrow> ('k, 'v) cache_entry) \<Rightarrow> 'q"
  pq_change_priority :: "'q \<Rightarrow> 'k \<Rightarrow> priority \<Rightarrow> 'q \<times> priority option"
  pq_change_priority_by :: "'q \<Rightarrow> 'k \<Rightarrow> (priority \<Rightarrow> priority) \<Rightarrow> 'q"
  pq_iter_mut :: "'q \<Rightarrow> (('k, 'v) item \<Rightarrow> ('k, 'v) item) \<Rightarrow> 'q"
  pq_len :: "'q \<Rightarrow> nat"
  pq_into_iter :: "'q \<Rightarrow> ('k, 'v) item list"
  pq_extend :: "'q \<Rightarrow> ('k, 'v) item list \<Rightarrow> 'q"

section \<open>The cache\<close>

record 'q lfu_cache =
  queue :: 'q
  total_weight :: usize
  stale_counter :: u64

definition STALE_PERIOD :: u64 where
  "STALE_PERIOD = 100"

text \<open>\<open>CacheEntry::weight\<close>, from the indirect weights of key and value and the entry's size.\<close>

definition entry_weight :: "('k \<Rightarrow> usize) \<Rightarrow> ('v \<Rightarrow> usize) \<Rightarrow> usize \<Rightarrow> 'k \<Rightarrow> 'v \<Rightarrow> usize" where
  "entry_weight key_weight value_weight size_of_self key value =
     value_weight value + key_weight key + size_of_self"

definition lfu_new :: "('q, 'k, 'v) pq_ops \<Rightarrow> 'q lfu_cache" where
  "lfu_new Q = \<lparr>queue = pq_new Q, total_weight = 0, stale_counter = 0\<rparr>"

definition lfu_get_mut ::
  "('q, 'k, 'v) pq_ops \<Rightarrow> 'q lfu_cache \<Rightarrow> 'k \<Rightarrow> 'q lfu_cache \<times> ('k, 'v) cache_entry option" where
  "lfu_get_mut Q c key =
     (let q1 = pq_change_priority_by Q (queue c) key (\<lambda>(s, f). (s, f + 1));
          q2 = pq_get_mut Q q1 key (\<lambda>e. e\<lparr>ce_will_stale := False\<rparr>)
      in (c\<lparr>queue := q2\<rparr>, map_option fst (pq_get Q q2 key)))"

definition lfu_insert ::
  "('q, 'k, 'v) pq_ops \<Rightarrow> ('k \<Rightarrow> 'v \<Rightarrow> usize) \<Rightarrow> 'q lfu_cache \<Rightarrow> 'k \<Rightarrow> 'v \<Rightarrow> 'q lfu_cache" where
  "lfu_insert Q w c key value =
     (let weight = w key value; (c1, r) = lfu_get_mut Q c key in
      case r of
        None \<Rightarrow>
          c1\<lparr>total_weight := total_weight c1 + weight,
             queue := pq_push Q (queue c1)
               \<lparr>ce_weight = weight, ce_key = key, ce_value = value, ce_will_stale = False\<rparr>
               (False, 1)\<rparr>
      | Some entry \<Rightarrow>
          c1\<lparr>total_weight := total_weight c1 - ce_weight entry + weight,
             queue := pq_get_mut Q (queue c1) key
               (\<lambda>e. e\<lparr>ce_weight := weight, ce_value := value\<rparr>)\<rparr>)"

definition lfu_get ::
  "('q, 'k, 'v) pq_ops \<Rightarrow> 'q lfu_cache \<Rightarrow> 'k \<Rightarrow> 'q lfu_cache \<times> 'v option" where
  "lfu_get Q c key = (let (c1, r) = lfu_get_mut Q c key in (c1, map_option ce_value r))"

text \<open>\<open>remove\<close>: raise the entry to the front of the queue and pop; the assertion may panic.\<close>

definition lfu_remove ::
  "('q, 'k, 'v) pq_ops \<Rightarrow> 'q lfu_cache \<Rightarrow> 'k \<Rightarrow> ('q lfu_cache \<times> 'v option, 'e) result" where
  "lfu_remove Q c key =
     (case pq_change_priority Q (queue c) key (True, 0) of
        (q1, None) \<Rightarrow> Ok (c\<lparr>queue := q1\<rparr>, None)
      | (q1, Some _) \<Rightarrow>
          (case pq_pop Q q1 of
             None \<Rightarrow> Ok (c\<lparr>queue := q1\<rparr>, None)
           | Some ((e, _), q2) \<Rightarrow>
               if ce_key e \<noteq> key then Panic
               else Ok (c\<lparr>queue := q2, total_weight := total_weight c - ce_weight e\<rparr>,
                        Some (ce_value e))))"

definition lfu_contains_key :: "('q, 'k, 'v) pq_ops \<Rightarrow> 'q lfu_cache \<Rightarrow> 'k \<Rightarrow> bool" where
  "lfu_contains_key Q c key \<longleftrightarrow> pq_get Q (queue c) key \<noteq> None"

definition lfu_is_empty :: "('q, 'k, 'v) pq_ops \<Rightarrow> 'q lfu_cache \<Rightarrow> bool" where
  "lfu_is_empty Q c \<longleftrightarrow> pq_len Q (queue c) = 0"

definition lfu_len :: "('q, 'k, 'v) pq_ops \<Rightarrow> 'q lfu_cache \<Rightarrow> nat" where
  "lfu_len Q c = pq_len Q (queue c)"

text \<open>The \<open>while\<close> loop of \<open>evict_with_period\<close>; \<open>None\<close> is a loop that never ends.\<close>

partial_function (option) evict_loop ::
  "('q, 'k, 'v) pq_ops \<Rightarrow> usize \<Rightarrow> usize \<Rightarrow> 'q lfu_cache \<Rightarrow>
     (usize \<times> 'q lfu_cache, unit) result option" where
  "evict_loop Q max_weight evicted c =
     (if total_weight c > max_weight then
        (case pq_pop Q (queue c) of
           None \<Rightarrow> Some Panic
         | Some ((entry, _), q) \<Rightarrow>
             evict_loop Q max_weight (evicted + ce_weight entry)
               (c\<lparr>queue := q, total_weight := total_weight c - ce_weight entry\<rparr>))
      else Some (Ok (evicted, c)))"

text \<open>The staleness round: what was not accessed since the last one becomes stale.\<close>

definition mark_stale :: "('q, 'k, 'v) pq_ops \<Rightarrow> 'q \<Rightarrow> 'q" where
  "mark_stale Q q =
     pq_iter_mut Q q (\<lambda>(e, (_, f)). (e\<lparr>ce_will_stale := True\<rparr>, (ce_will_stale e, f)))"

definition bump_stale_counter :: "('q, 'k, 'v) pq_ops \<Rightarrow> u64 \<Rightarrow> 'q lfu_cache \<Rightarrow> 'q lfu_cache" where
  "bump_stale_counter Q stale_period c =
     (let n = stale_counter c + 1 in
      if n = stale_period
      then c\<lparr>stale_counter := 0, queue := mark_stale Q (queue c)\<rparr>
      else c\<lparr>stale_counter := n\<rparr>)"

definition evict_with_period ::
  "('q, 'k, 'v) pq_ops \<Rightarrow> 'q lfu_cache \<Rightarrow> usize \<Rightarrow> u64 \<Rightarrow>
     ('q lfu_cache \<times> (usize \<times> usize \<times> usize) option, unit) result option" where
  "evict_with_period Q c max_weight stale_period =
     (if total_weight c \<le> max_weight then Some (Ok (c, None))
      else
        let c1 = bump_stale_counter Q stale_period c; old_weight = total_weight c1 in
        case evict_loop Q max_weight 0 c1 of
          None \<Rightarrow> None
        | Some r \<Rightarrow> Some (and_then r
            (\<lambda>(evicted, c2). Ok (c2, Some (evicted, old_weight, total_weight c2)))))"

definition evict ::
  "('q, 'k, 'v) pq_ops \<Rightarrow> 'q lfu_cache \<Rightarrow> usize \<Rightarrow>
     ('q lfu_cache \<times> (usize \<times> usize \<times> usize) option, unit) result option" where
  "evict Q c max_weight = evict_with_period Q c max_weight STALE_PERIOD"

text \<open>The entries of a cache; \<open>Extend for LfuCache\<close> adds entries to the queue and does nothing else.\<close>

definition lfu_into_iter :: "('q, 'k, 'v) pq_ops \<Rightarrow> 'q lfu_cache \<Rightarrow> ('k, 'v) item list" where
  "lfu_into_iter Q c = pq_into_iter Q (queue c)"

definition lfu_extend :: "('q, 'k, 'v) pq_ops \<Rightarrow> 'q lfu_cache \<Rightarrow> ('k, 'v) item list \<Rightarrow> 'q lfu_cache" where
  "lfu_extend Q c items = c\<lparr>queue := pq_extend Q (queue c) items\<rparr>"

section \<open>The contract of the queue\<close>

locale priority_queue =
  fixes Q :: "('q, 'k, 'v) pq_ops"
    and elems :: "'q \<Rightarrow> 'k \<Rightarrow> ('k, 'v) item option"
  assumes finite_elems: "finite (dom (elems q))"
    and elems_key: "elems q k = Some (e, p) \<Longrightarrow> ce_key e = k"
    and elems_new: "elems (pq_new Q) = Map.empty"
    and elems_push: "elems q (ce_key e) = None \<Longrightarrow>
      elems (pq_push Q q e p) = (elems q)(ce_key e \<mapsto> (e, p))"
    and pop_None: "pq_pop Q q = None \<longleftrightarrow> elems q = Map.empty"
    and pop_elem: "pq_pop Q q = Some ((e, p), q') \<Longrightarrow> elems q (ce_key e) = Some (e, p)"
    and pop_max: "pq_pop Q q = Some ((e, p), q') \<Longrightarrow> elems q k = Some (e', p') \<Longrightarrow> prio_le p' p"
    and pop_rest: "pq_pop Q q = Some ((e, p), q') \<Longrightarrow> elems q' = (elems q)(ce_key e := None)"
    and get_elems: "pq_get Q q k = elems q k"
    and elems_get_mut: "(\<And>e. ce_key (f e) = ce_key e) \<Longrightarrow>
      elems (pq_get_mut Q q k f) =
        (case elems q k of None \<Rightarrow> elems q | Some (e, p) \<Rightarrow> (elems q)(k \<mapsto> (f e, p)))"
    and change_priority_result:
      "snd (pq_change_priority Q q k p) = map_option snd (elems q k)"
    and elems_change_priority: "elems (fst (pq_change_priority Q q k p)) =
        (case elems q k of None \<Rightarrow> elems q | Some (e, _) \<Rightarrow> (elems q)(k \<mapsto> (e, p)))"
    and elems_change_priority_by: "elems (pq_change_priority_by Q q k g) =
        (case elems q k of None \<Rightarrow> elems q | Some (e, p) \<Rightarrow> (elems q)(k \<mapsto> (e, g p)))"
    and elems_iter_mut: "(\<And>e p. ce_key (fst (h (e, p))) = ce_key e) \<Longrightarrow>
      elems (pq_iter_mut Q q h) = (\<lambda>k. map_option h (elems q k))"
    and len_elems: "pq_len Q q = card (dom (elems q))"
    and into_iter_elems: "map_of (map (\<lambda>(e, p). (ce_key e, (e, p))) (pq_into_iter Q q)) = elems q"
    and into_iter_distinct: "distinct (map (ce_key \<circ> fst) (pq_into_iter Q q))"
    and elems_extend: "dom (elems q) \<inter> (ce_key \<circ> fst) ` set xs = {} \<Longrightarrow>
      distinct (map (ce_key \<circ> fst) xs) \<Longrightarrow>
      elems (pq_extend Q q xs) = elems q ++ map_of (map (\<lambda>(e, p). (ce_key e, (e, p))) xs)"
    and extend_entry: "elems (pq_extend Q q xs) k = Some (e, p) \<Longrightarrow>
      (\<exists>p'. elems q k = Some (e, p') \<or> (e, p') \<in> set xs)"
    and extend_priority: "elems (pq_extend Q q xs) k = Some (e, p) \<Longrightarrow>
      (\<exists>e'. elems q k = Some (e', p) \<or> (e', p) \<in> set xs)"

section \<open>What clients need of a cache\<close>

text \<open>
  A cache shows a map \<open>view\<close> of its values. \<open>inv n\<close> is its invariant with room for \<open>n\<close> more
  accesses: each access increments a 64-bit counter that must not wrap.
\<close>

locale kv_cache =
  fixes get :: "'c \<Rightarrow> 'k \<Rightarrow> 'c \<times> 'v option"
    and insert :: "'c \<Rightarrow> 'k \<Rightarrow> 'v \<Rightarrow> 'c"
    and remove :: "'c \<Rightarrow> 'k \<Rightarrow> ('c \<times> 'v option, 'e) result"
    and contains :: "'c \<Rightarrow> 'k \<Rightarrow> bool"
    and view :: "'c \<Rightarrow> 'k \<Rightarrow> 'v option"
    and inv :: "nat \<Rightarrow> 'c \<Rightarrow> bool"
  assumes inv_mono: "inv n c \<Longrightarrow> m \<le> n \<Longrightarrow> inv m c"
    and get_result: "inv (Suc n) c \<Longrightarrow> snd (get c k) = view c k"
    and get_view: "inv (Suc n) c \<Longrightarrow> view (fst (get c k)) = view c"
    and get_inv: "inv (Suc n) c \<Longrightarrow> inv n (fst (get c k))"
    and insert_view: "inv (Suc n) c \<Longrightarrow> view (insert c k v) = (view c)(k \<mapsto> v)"
    and insert_inv: "inv (Suc n) c \<Longrightarrow> inv n (insert c k v)"
    and remove_ok: "inv n c \<Longrightarrow> \<exists>c'. remove c k = Ok (c', view c k)
      \<and> view c' = (view c)(k := None) \<and> inv n c'"
    and contains_view: "inv n c \<Longrightarrow> contains c k \<longleftrightarrow> view c k \<noteq> None"

section \<open>The invariant\<close>

definition weight_sum :: "('k \<Rightarrow> ('k, 'v) item option) \<Rightarrow> usize" where
  "weight_sum m = (\<Sum>k \<in> dom m. ce_weight (fst (the (m k))))"

text \<open>
  The recorded total is the sum of the recorded weights, and every frequency is at least one with
  room for \<open>n\<close> more increments.
\<close>

definition freqs_ok :: "nat \<Rightarrow> ('k \<Rightarrow> ('k, 'v) item option) \<Rightarrow> bool" where
  "freqs_ok n m \<longleftrightarrow> (\<forall>k e s f. m k = Some (e, (s, f)) \<longrightarrow> 0 < unat f \<and> unat f + n < 2 ^ 64)"

definition lfu_inv ::
  "('q \<Rightarrow> 'k \<Rightarrow> ('k, 'v) item option) \<Rightarrow> nat \<Rightarrow> 'q lfu_cache \<Rightarrow> bool" where
  "lfu_inv el n c \<longleftrightarrow> n + 1 < 2 ^ 64 \<and> total_weight c = weight_sum (el (queue c))
     \<and> freqs_ok n (el (queue c))"

definition lfu_view :: "('q \<Rightarrow> 'k \<Rightarrow> ('k, 'v) item option) \<Rightarrow> 'q lfu_cache \<Rightarrow> 'k \<Rightarrow> 'v option" where
  "lfu_view el c k = map_option (ce_value \<circ> fst) (el (queue c) k)"

lemma weight_sum_empty [simp]: "weight_sum Map.empty = 0"
  by (simp add: weight_sum_def)

lemma weight_sum_cong:
  "dom m = dom m' \<Longrightarrow> (\<And>k. k \<in> dom m \<Longrightarrow> ce_weight (fst (the (m k))) = ce_weight (fst (the (m' k)))) \<Longrightarrow>
     weight_sum m = weight_sum m'"
  unfolding weight_sum_def by (intro sum.cong) auto

lemma weight_sum_remove:
  assumes "finite (dom m)" and "m k = Some (e, p)"
  shows "weight_sum m = ce_weight e + weight_sum (m(k := None))"
proof -
  have "weight_sum m = ce_weight (fst (the (m k))) + (\<Sum>j \<in> dom m - {k}. ce_weight (fst (the (m j))))"
    unfolding weight_sum_def using assms by (intro sum.remove) auto
  also have "(\<Sum>j \<in> dom m - {k}. ce_weight (fst (the (m j)))) = weight_sum (m(k := None))"
    unfolding weight_sum_def by (intro sum.cong) auto
  finally show ?thesis using assms by simp
qed

lemma weight_sum_upd:
  assumes "finite (dom m)"
  shows "weight_sum (m(k \<mapsto> (e, p))) = ce_weight e + weight_sum (m(k := None))"
  using weight_sum_remove [of "m(k \<mapsto> (e, p))" k e p] assms by simp

lemma freqs_ok_upd:
  "freqs_ok n m \<Longrightarrow> 0 < unat f \<Longrightarrow> unat f + n < 2 ^ 64 \<Longrightarrow> freqs_ok n (m(k \<mapsto> (e, (s, f))))"
  by (auto simp: freqs_ok_def)

lemma freqs_ok_mono: "freqs_ok n m \<Longrightarrow> m' \<subseteq>\<^sub>m m \<Longrightarrow> j \<le> n \<Longrightarrow> freqs_ok j m'"
  unfolding freqs_ok_def map_le_def by (metis add_le_mono domI le_less_trans order_refl)

lemma unat_Suc_freq: "unat (f :: u64) + Suc n < 2 ^ 64 \<Longrightarrow> unat (f + 1) = Suc (unat f)"
  by (simp add: unat_word_ariths)

lemma map_le_drop: "m(k := None) \<subseteq>\<^sub>m m"
  by (auto simp: map_le_def)

context priority_queue
begin

lemma elems_lfu_get_mut:
  "elems (queue (fst (lfu_get_mut Q c k))) =
     (case elems (queue c) k of
        None \<Rightarrow> elems (queue c)
      | Some (e, (s, f)) \<Rightarrow> (elems (queue c))(k \<mapsto> (e\<lparr>ce_will_stale := False\<rparr>, (s, f + 1))))"
  by (auto simp: lfu_get_mut_def Let_def elems_get_mut elems_change_priority_by split: option.splits)

lemma total_lfu_get_mut [simp]: "total_weight (fst (lfu_get_mut Q c k)) = total_weight c"
  by (simp add: lfu_get_mut_def Let_def)

lemma snd_lfu_get_mut:
  "snd (lfu_get_mut Q c k) = map_option (\<lambda>(e, p). e\<lparr>ce_will_stale := False\<rparr>) (elems (queue c) k)"
  by (auto simp: lfu_get_mut_def Let_def get_elems elems_get_mut elems_change_priority_by
      split: option.splits)

lemma lfu_inv_mono: "lfu_inv elems n c \<Longrightarrow> m \<le> n \<Longrightarrow> lfu_inv elems m c"
  using freqs_ok_mono [of n _ _ m] by (fastforce simp: lfu_inv_def)

lemma view_lfu_get_mut: "lfu_view elems (fst (lfu_get_mut Q c k)) = lfu_view elems c"
  by (auto simp: fun_eq_iff lfu_view_def elems_lfu_get_mut split: option.splits)

lemma inv_lfu_get_mut:
  assumes "lfu_inv elems (Suc n) c"
  shows "lfu_inv elems n (fst (lfu_get_mut Q c k))"
proof (cases "elems (queue c) k")
  case None
  then show ?thesis
    using assms lfu_inv_mono [of "Suc n" c n] by (simp add: lfu_inv_def elems_lfu_get_mut)
next
  case (Some ep)
  then obtain e s f where k: "elems (queue c) k = Some (e, (s, f))" by (cases ep) auto
  from assms have fr: "freqs_ok (Suc n) (elems (queue c))" and tw: "total_weight c = weight_sum (elems (queue c))"
    and n: "Suc n + 1 < 2 ^ 64"
    by (auto simp: lfu_inv_def)
  from fr k have f: "0 < unat f" "unat f + Suc n < 2 ^ 64" unfolding freqs_ok_def by blast+
  have "freqs_ok n (elems (queue c))" using freqs_ok_mono [OF fr map_le_refl] by simp
  then have "freqs_ok n ((elems (queue c))(k \<mapsto> (e\<lparr>ce_will_stale := False\<rparr>, (s, f + 1))))"
    using f by (intro freqs_ok_upd) (simp_all add: unat_Suc_freq)
  moreover have "weight_sum ((elems (queue c))(k \<mapsto> (e\<lparr>ce_will_stale := False\<rparr>, (s, f + 1)))) =
      weight_sum (elems (queue c))"
    using k finite_elems by (simp add: weight_sum_upd weight_sum_remove [of _ k e])
  ultimately show ?thesis
    using n tw k by (simp add: lfu_inv_def elems_lfu_get_mut)
qed

lemma view_lfu_get: "lfu_view elems (fst (lfu_get Q c k)) = lfu_view elems c"
  by (simp add: lfu_get_def Let_def case_prod_unfold view_lfu_get_mut)

lemma inv_lfu_get: "lfu_inv elems (Suc n) c \<Longrightarrow> lfu_inv elems n (fst (lfu_get Q c k))"
  by (simp add: lfu_get_def Let_def case_prod_unfold inv_lfu_get_mut)

lemma snd_lfu_get: "snd (lfu_get Q c k) = lfu_view elems c k"
  by (simp add: lfu_get_def Let_def case_prod_unfold snd_lfu_get_mut lfu_view_def option.map_comp comp_def)

lemma elems_lfu_insert:
  "elems (queue (lfu_insert Q w c k v)) =
     (elems (queue c))(k \<mapsto>
       (case elems (queue c) k of
          None \<Rightarrow> (\<lparr>ce_weight = w k v, ce_key = k, ce_value = v, ce_will_stale = False\<rparr>, (False, 1))
        | Some (e, (s, f)) \<Rightarrow>
            (e\<lparr>ce_will_stale := False, ce_weight := w k v, ce_value := v\<rparr>, (s, f + 1))))"
proof (cases "elems (queue c) k")
  case None
  then show ?thesis
    by (simp add: lfu_insert_def Let_def case_prod_unfold snd_lfu_get_mut elems_push elems_lfu_get_mut)
next
  case (Some ep)
  then obtain e s f where "elems (queue c) k = Some (e, (s, f))" by (cases ep) auto
  then show ?thesis
    by (simp add: lfu_insert_def Let_def case_prod_unfold snd_lfu_get_mut elems_get_mut elems_lfu_get_mut)
qed

lemma total_lfu_insert:
  "total_weight (lfu_insert Q w c k v) =
     (case elems (queue c) k of
        None \<Rightarrow> total_weight c + w k v
      | Some (e, _) \<Rightarrow> total_weight c - ce_weight e + w k v)"
  by (auto simp: lfu_insert_def Let_def case_prod_unfold snd_lfu_get_mut split: option.splits)

lemma view_lfu_insert: "lfu_view elems (lfu_insert Q w c k v) = (lfu_view elems c)(k \<mapsto> v)"
  by (auto simp: fun_eq_iff lfu_view_def elems_lfu_insert split: option.splits prod.splits)

lemma inv_lfu_insert:
  assumes "lfu_inv elems (Suc n) c"
  shows "lfu_inv elems n (lfu_insert Q w c k v)"
proof -
  from assms have fr: "freqs_ok (Suc n) (elems (queue c))"
    and tw: "total_weight c = weight_sum (elems (queue c))" and n: "Suc n + 1 < 2 ^ 64"
    by (auto simp: lfu_inv_def)
  have fr': "freqs_ok n (elems (queue c))" using freqs_ok_mono [OF fr map_le_refl] by simp
  show ?thesis
  proof (cases "elems (queue c) k")
    case None
    then have "(elems (queue c))(k := None) = elems (queue c)" by auto
    with None n tw fr' show ?thesis
      by (simp add: lfu_inv_def elems_lfu_insert total_lfu_insert weight_sum_upd finite_elems freqs_ok_upd)
  next
    case (Some ep)
    then obtain e s f where k: "elems (queue c) k = Some (e, (s, f))" by (cases ep) auto
    with fr have "0 < unat f" "unat f + Suc n < 2 ^ 64" unfolding freqs_ok_def by blast+
    then have "freqs_ok n (elems (queue (lfu_insert Q w c k v)))"
      using fr' k by (simp add: elems_lfu_insert freqs_ok_upd unat_Suc_freq)
    with k n tw show ?thesis
      by (simp add: lfu_inv_def elems_lfu_insert total_lfu_insert weight_sum_upd finite_elems
          weight_sum_remove [of _ k e])
  qed
qed

lemma lfu_remove_ok:
  assumes "lfu_inv elems n c"
  shows "\<exists>c'. lfu_remove Q c k = Ok (c', lfu_view elems c k)
    \<and> elems (queue c') = (elems (queue c))(k := None) \<and> lfu_inv elems n c'"
proof -
  obtain q1 r where cp: "pq_change_priority Q (queue c) k (True, 0) = (q1, r)" by fastforce
  have r: "r = map_option snd (elems (queue c) k)"
    using change_priority_result [of "queue c" k "(True, 0)"] cp by simp
  have q1: "elems q1 = (case elems (queue c) k of None \<Rightarrow> elems (queue c)
      | Some (e, _) \<Rightarrow> (elems (queue c))(k \<mapsto> (e, (True, 0))))"
    using elems_change_priority [of "queue c" k "(True, 0)"] cp by simp
  show ?thesis
  proof (cases "elems (queue c) k")
    case None
    then have "(elems (queue c))(k := None) = elems (queue c)" by auto
    with None assms r q1 cp show ?thesis
      by (simp add: lfu_remove_def lfu_view_def lfu_inv_def)
  next
    case (Some ep)
    then obtain e p where k: "elems (queue c) k = Some (e, p)" by (cases ep) auto
    then have "elems q1 k = Some (e, (True, 0))" using q1 by simp
    then have "pq_pop Q q1 \<noteq> None" using pop_None [of q1] by auto
    then obtain e' p' q2 where pop: "pq_pop Q q1 = Some ((e', p'), q2)" by fastforce
    have top: "prio_le (True, 0) p'"
      using pop_max [OF pop \<open>elems q1 k = Some (e, (True, 0))\<close>] .
    have "elems q1 (ce_key e') = Some (e', p')" by (rule pop_elem [OF pop])
    moreover have "p' = (True, 0)" using top by (cases p') auto
    moreover have "elems (queue c) (ce_key e') \<noteq> Some (e', (True, 0))"
      using assms unfolding lfu_inv_def freqs_ok_def by (metis less_irrefl unat_0)
    ultimately have "ce_key e' = k"
      using k q1 by (auto split: if_splits)
    with \<open>elems q1 (ce_key e') = Some (e', p')\<close> \<open>elems q1 k = _\<close> have e': "e' = e" by simp
    have q2: "elems q2 = (elems (queue c))(k := None)"
      using pop_rest [OF pop] q1 k \<open>ce_key e' = k\<close> by simp
    let ?c = "c\<lparr>queue := q2, total_weight := total_weight c - ce_weight e\<rparr>"
    have "lfu_remove Q c k = Ok (?c, lfu_view elems c k)"
      using cp r k pop \<open>ce_key e' = k\<close> e' by (simp add: lfu_remove_def lfu_view_def)
    moreover have "lfu_inv elems n ?c"
      using assms q2 k finite_elems weight_sum_remove [OF finite_elems k]
        freqs_ok_mono [OF _ map_le_drop, of n "elems (queue c)" n]
      by (auto simp: lfu_inv_def)
    ultimately show ?thesis using q2 by auto
  qed
qed

lemma view_drop: "elems (queue c') = (elems (queue c))(k := None) \<Longrightarrow>
    lfu_view elems c' = (lfu_view elems c)(k := None)"
  by (auto simp: lfu_view_def)

text \<open>
  The eviction loop on a cache whose total is off by \<open>D\<close>. The loop always ends; it panics only when the queue
  runs out while the total, then \<open>- D\<close>, is still too large.
\<close>

lemma evict_loop_run:
  assumes "total_weight c + D = weight_sum (elems (queue c))"
  shows "(\<exists>ev c'. evict_loop Q max_w evicted c = Some (Ok (ev, c'))
    \<and> total_weight c' \<le> max_w \<and> ev = evicted + (total_weight c - total_weight c')
    \<and> total_weight c' + D = weight_sum (elems (queue c'))
    \<and> elems (queue c') \<subseteq>\<^sub>m elems (queue c) \<and> stale_counter c' = stale_counter c
    \<and> (\<forall>k e p k' e' p'. elems (queue c) k = Some (e, p) \<and> elems (queue c') k = None
         \<and> elems (queue c') k' = Some (e', p') \<longrightarrow> prio_le p' p))
    \<or> evict_loop Q max_w evicted c = Some Panic \<and> max_w < - D"
  using assms
proof (induction "card (dom (elems (queue c)))" arbitrary: c evicted rule: less_induct)
  case less
  consider "total_weight c \<le> max_w" | "max_w < total_weight c" "elems (queue c) = Map.empty"
    | "max_w < total_weight c" "elems (queue c) \<noteq> Map.empty" by (cases "total_weight c \<le> max_w") (simp_all only: not_le, blast)
  then show ?case
  proof cases
    case 1
    then show ?thesis
      using less.prems by (subst evict_loop.simps) (auto simp: evict_loop.simps)
  next
    case 2
    then have "pq_pop Q (queue c) = None" "total_weight c = - D"
      using pop_None [of "queue c"] less.prems by (simp_all add: eq_neg_iff_add_eq_0)
    then show ?thesis using 2(1) by (subst (2) evict_loop.simps) simp
  next
    case 3
    then have "pq_pop Q (queue c) \<noteq> None" using pop_None [of "queue c"] by simp
    then obtain e p q where pop: "pq_pop Q (queue c) = Some ((e, p), q)" by fastforce
    let ?c = "c\<lparr>queue := q, total_weight := total_weight c - ce_weight e\<rparr>"
    have el: "elems (queue c) (ce_key e) = Some (e, p)" by (rule pop_elem [OF pop])
    have q: "elems q = (elems (queue c))(ce_key e := None)" by (rule pop_rest [OF pop])
    have step: "evict_loop Q max_w evicted c = evict_loop Q max_w (evicted + ce_weight e) ?c"
      using 3(1) pop by (subst evict_loop.simps) simp
    have "dom (elems q) = dom (elems (queue c)) - {ce_key e}" using q by auto
    then have "card (dom (elems q)) < card (dom (elems (queue c)))"
      by (simp only:) (rule card_Diff1_less [OF finite_elems domI [of "elems (queue c)", OF el]])
    then have smaller: "card (dom (elems (queue ?c))) < card (dom (elems (queue c)))" by simp
    have "total_weight ?c + D = weight_sum (elems (queue ?c))"
      using less.prems weight_sum_remove [OF finite_elems el] q by (simp add: algebra_simps)
    from less.hyps [OF smaller this, of "evicted + ce_weight e"] show ?thesis
    proof (elim disjE exE conjE)
      fix ev c'
      assume run: "evict_loop Q max_w (evicted + ce_weight e) ?c = Some (Ok (ev, c'))"
        and max: "total_weight c' \<le> max_w" and ev: "ev = evicted + ce_weight e + (total_weight ?c - total_weight c')"
        and sum: "total_weight c' + D = weight_sum (elems (queue c'))"
        and sub: "elems (queue c') \<subseteq>\<^sub>m elems (queue ?c)" and sc: "stale_counter c' = stale_counter ?c"
        and ord: "\<forall>k e p k' e' p'. elems (queue ?c) k = Some (e, p) \<and> elems (queue c') k = None
           \<and> elems (queue c') k' = Some (e', p') \<longrightarrow> prio_le p' p"
      have sub': "elems (queue c') \<subseteq>\<^sub>m elems (queue c)"
        using sub q map_le_drop map_le_trans by (metis select_convs(1) surjective update_convs(1,2))
      have ord': "prio_le p'' p'"
        if "elems (queue c) k = Some (e', p')" "elems (queue c') k = None"
          "elems (queue c') k' = Some (e'', p'')" for k e' p' k' e'' p''
      proof (cases "k = ce_key e")
        case True
        with that el have "p' = p" by simp
        moreover have "elems (queue c) k' = Some (e'', p'')"
          using that(3) sub' by (metis domI map_le_def)
        ultimately show ?thesis using pop_max [OF pop] by simp
      next
        case False
        then have "elems (queue ?c) k = Some (e', p')" using that(1) q by simp
        then show ?thesis using that ord by blast
      qed
      from ev have ev': "ev = evicted + (total_weight c - total_weight c')" by simp
      have "evict_loop Q max_w evicted c = Some (Ok (ev, c'))" "stale_counter c' = stale_counter c"
        using step run sc by simp_all
      then show ?thesis
        using max ev' sum sub' ord' by blast
    qed (use step in simp)
  qed
qed

lemma evict_loop_ok:
  assumes "total_weight c = weight_sum (elems (queue c))"
  shows "\<exists>ev c'. evict_loop Q max_w evicted c = Some (Ok (ev, c'))
    \<and> total_weight c' \<le> max_w \<and> ev = evicted + (total_weight c - total_weight c')
    \<and> total_weight c' = weight_sum (elems (queue c'))
    \<and> elems (queue c') \<subseteq>\<^sub>m elems (queue c) \<and> stale_counter c' = stale_counter c
    \<and> (\<forall>k e p k' e' p'. elems (queue c) k = Some (e, p) \<and> elems (queue c') k = None
         \<and> elems (queue c') k' = Some (e', p') \<longrightarrow> prio_le p' p)"
  using evict_loop_run [of c 0 max_w evicted] assms by simp

sublocale lfu: kv_cache "lfu_get Q" "lfu_insert Q w" "lfu_remove Q" "lfu_contains_key Q"
  "lfu_view elems" "lfu_inv elems" for w
proof (unfold_locales, goal_cases)
  case (1 n c m)
  then show ?case by (rule lfu_inv_mono)
next
  case (7 n c k)
  then show ?case using lfu_remove_ok [OF 7, of k] view_drop by blast
qed (simp_all add: snd_lfu_get view_lfu_get inv_lfu_get view_lfu_insert inv_lfu_insert
    lfu_contains_key_def get_elems lfu_view_def)

end

section \<open>A reference queue\<close>

text \<open>
  A queue as a plain list of items, the first item of a key being the one that counts. It shows
  that the contract can be met and is what the concrete runs below use.
\<close>

definition tag :: "('k, 'v) item \<Rightarrow> 'k \<times> ('k, 'v) item" where
  "tag x = (ce_key (fst x), x)"

definition list_elems :: "('k, 'v) item list \<Rightarrow> 'k \<Rightarrow> ('k, 'v) item option" where
  "list_elems q = map_of (map tag q)"

fun dedup :: "('k, 'v) item list \<Rightarrow> ('k, 'v) item list" where
  "dedup [] = []"
| "dedup (x # xs) = x # filter (\<lambda>y. ce_key (fst y) \<noteq> ce_key (fst x)) (dedup xs)"

fun best :: "('k, 'v) item \<Rightarrow> ('k, 'v) item list \<Rightarrow> ('k, 'v) item" where
  "best m [] = m"
| "best m (y # ys) = best (if prio_le (snd y) (snd m) then m else y) ys"

definition list_pop :: "('k, 'v) item list \<Rightarrow> (('k, 'v) item \<times> ('k, 'v) item list) option" where
  "list_pop q =
     (case dedup q of
        [] \<Rightarrow> None
      | x # xs \<Rightarrow> let m = best x xs in
          Some (m, filter (\<lambda>y. ce_key (fst y) \<noteq> ce_key (fst m)) q))"

definition on_key :: "'k \<Rightarrow> (('k, 'v) item \<Rightarrow> ('k, 'v) item) \<Rightarrow> ('k, 'v) item list \<Rightarrow> ('k, 'v) item list" where
  "on_key k g q = map (\<lambda>x. if ce_key (fst x) = k then g x else x) q"

definition list_pq :: "(('k, 'v) item list, 'k, 'v) pq_ops" where
  "list_pq =
     \<lparr> pq_new = [],
       pq_push = (\<lambda>q e p. (e, p) # q),
       pq_pop = list_pop,
       pq_get = list_elems,
       pq_get_mut = (\<lambda>q k f. on_key k (\<lambda>(e, p). (f e, p)) q),
       pq_change_priority =
         (\<lambda>q k p. (on_key k (\<lambda>(e, _). (e, p)) q, map_option snd (list_elems q k))),
       pq_change_priority_by = (\<lambda>q k g. on_key k (\<lambda>(e, p). (e, g p)) q),
       pq_iter_mut = (\<lambda>q h. map h q),
       pq_len = (\<lambda>q. length (dedup q)),
       pq_into_iter = dedup,
       pq_extend = (\<lambda>q xs. q @ xs) \<rparr>"

lemma list_elems_Nil [simp]: "list_elems [] = Map.empty"
  by (simp add: list_elems_def)

lemma list_elems_Cons: "list_elems (x # q) = (list_elems q)(ce_key (fst x) \<mapsto> x)"
  by (simp add: list_elems_def tag_def)

lemma list_elems_filter:
  "list_elems (filter (\<lambda>y. ce_key (fst y) \<noteq> k) q) = (list_elems q)(k := None)"
  by (induction q) (auto simp: list_elems_Cons)

lemma list_elems_dedup: "list_elems (dedup q) = list_elems q"
  by (induction q) (auto simp: list_elems_Cons list_elems_filter)

lemma distinct_dedup: "distinct (map (ce_key \<circ> fst) (dedup q))"
  by (induction q) (auto simp: distinct_map_filter)

lemma in_dedup: "x \<in> set (dedup q) \<Longrightarrow> list_elems q (ce_key (fst x)) = Some x"
  by (induction q) (auto simp: list_elems_Cons)

lemma dedup_in: "list_elems q k = Some x \<Longrightarrow> x \<in> set (dedup q) \<and> ce_key (fst x) = k"
  by (induction q) (auto simp: list_elems_Cons split: if_splits)

lemma dedup_keys: "(\<lambda>x. ce_key (fst x)) ` set (dedup q) = dom (list_elems q)"
proof (intro set_eqI iffI)
  fix k
  assume "k \<in> (\<lambda>x. ce_key (fst x)) ` set (dedup q)"
  then obtain x where "x \<in> set (dedup q)" "k = ce_key (fst x)" by blast
  with in_dedup [of x q] show "k \<in> dom (list_elems q)" by blast
next
  fix k
  assume "k \<in> dom (list_elems q)"
  then obtain x where "list_elems q k = Some x" by blast
  from dedup_in [OF this] show "k \<in> (\<lambda>x. ce_key (fst x)) ` set (dedup q)" by blast
qed

lemma prio_le_trans: "prio_le a b \<Longrightarrow> prio_le b c \<Longrightarrow> prio_le a c"
  by (cases a; cases b; cases c) auto

lemma prio_le_total: "\<not> prio_le a b \<Longrightarrow> prio_le b a"
  by (cases a; cases b) auto

lemma prio_le_refl [simp]: "prio_le a a"
  by (cases a) auto

lemma best_in: "best m ys \<in> insert m (set ys)"
  by (induction m ys rule: best.induct) auto

lemma best_max: "y \<in> insert m (set ys) \<Longrightarrow> prio_le (snd y) (snd (best m ys))"
proof (induction m ys arbitrary: y rule: best.induct)
  case (2 m z ys)
  let ?n = "if prio_le (snd z) (snd m) then m else z"
  have "prio_le (snd m) (snd ?n)" "prio_le (snd z) (snd ?n)"
    by (auto intro: prio_le_total)
  moreover have "prio_le (snd ?n) (snd (best ?n ys))" by (rule "2.IH") simp
  ultimately show ?case
    using "2.prems" "2.IH" [of y] by (auto intro: prio_le_trans split: if_splits)
qed simp

lemma list_pop_Some:
  assumes "list_pop q = Some (m, q')"
  shows "list_elems q (ce_key (fst m)) = Some m" "list_elems q' = (list_elems q)(ce_key (fst m) := None)"
    and "list_elems q k = Some y \<Longrightarrow> prio_le (snd y) (snd m)"
proof -
  obtain x xs where d: "dedup q = x # xs" and m: "m = best x xs"
    and q': "q' = filter (\<lambda>y. ce_key (fst y) \<noteq> ce_key (fst m)) q"
    using assms by (auto simp: list_pop_def Let_def split: list.splits)
  have "m \<in> set (dedup q)" using best_in [of x xs] d m by simp
  then show "list_elems q (ce_key (fst m)) = Some m" by (rule in_dedup)
  show "list_elems q' = (list_elems q)(ce_key (fst m) := None)"
    by (simp add: q' list_elems_filter)
  show "prio_le (snd y) (snd m)" if "list_elems q k = Some y"
    using dedup_in [OF that] d m best_max [of y x xs] by simp
qed

lemma list_elems_on_key:
  assumes "\<And>e p. ce_key (fst (g (e, p))) = ce_key e"
  shows "list_elems (on_key k g q) =
    (case list_elems q k of None \<Rightarrow> list_elems q | Some x \<Rightarrow> (list_elems q)(k \<mapsto> g x))"
proof (induction q)
  case (Cons x q)
  have "ce_key (fst (g x)) = ce_key (fst x)" using assms by (metis prod.collapse)
  with Cons show ?case
    by (auto simp: on_key_def list_elems_Cons fun_eq_iff split: option.splits)
qed (simp add: on_key_def)

lemma list_elems_map:
  "(\<And>e p. ce_key (fst (h (e, p))) = ce_key e) \<Longrightarrow>
     list_elems (map h q) = (\<lambda>k. map_option h (list_elems q k))"
proof (induction q)
  case (Cons x q)
  have "ce_key (fst (h x)) = ce_key (fst x)" using Cons.prems by (metis prod.collapse)
  with Cons show ?case by (auto simp: list_elems_Cons)
qed simp

lemma map_tag: "map (\<lambda>(e, p). (ce_key e, (e, p))) xs = map tag xs"
  by (auto simp: tag_def)

interpretation ref_queue: priority_queue "list_pq :: (('k, 'v) item list, 'k, 'v) pq_ops" list_elems
proof (unfold_locales, goal_cases)
  case (1 q)
  show ?case by (simp add: list_elems_def finite_dom_map_of)
next
  case (2 q k e p)
  then show ?case using dedup_in by fastforce
next
  case (5 q)
  show ?case
    using list_elems_dedup [of q] by (auto simp: list_pq_def list_pop_def Let_def split: list.splits)
      (metis list_elems_Cons map_upd_nonempty)
next
  case (6 q e p q')
  then show ?case using list_pop_Some(1) [of q "(e, p)" q'] by (simp add: list_pq_def)
next
  case (7 q e p q' k e' p')
  then show ?case using list_pop_Some(3) [of q "(e, p)" q' k "(e', p')"] by (simp add: list_pq_def)
next
  case (8 q e p q')
  then show ?case using list_pop_Some(2) [of q "(e, p)" q'] by (simp add: list_pq_def)
next
  case (15 q)
  have "card ((\<lambda>x. ce_key (fst x)) ` set (dedup q)) = length (dedup q)"
    using distinct_card [OF distinct_dedup [of q]] by (simp add: comp_def)
  then show ?case by (simp add: list_pq_def dedup_keys)
next
  case (17 q)
  show ?case by (simp add: list_pq_def distinct_dedup)
next
  case (19 q xs k e p)
  then show ?case by (auto simp: list_pq_def list_elems_def tag_def map_add_def split: option.splits dest!: map_of_SomeD) blast+
next
  case (20 q xs k e p)
  then show ?case by (auto simp: list_pq_def list_elems_def tag_def map_add_def split: option.splits dest!: map_of_SomeD)
next
  case (18 q xs)
  then show ?case
    by (simp add: list_pq_def map_tag list_elems_def)
      (intro map_add_comm, auto simp: dom_map_of_conv_image_fst tag_def image_image comp_def)
qed (auto simp: list_pq_def list_elems_Cons list_elems_on_key list_elems_map list_elems_dedup
    map_tag list_elems_def [symmetric] split: option.splits)

section \<open>Runs of the cache\<close>

text \<open>
  The states that the public operations of a cache lead to. The first number counts the accesses so far.
  The second is what \<open>Extend\<close> changed in the weight of the entries, which the recorded total does not
  follow. The entries of an extension come from another cache: nothing else has values of the type.
\<close>

definition queue_weight :: "('q, 'k, 'v) pq_ops \<Rightarrow> 'q \<Rightarrow> usize" where
  "queue_weight Q q = (\<Sum>(e, p) \<leftarrow> pq_into_iter Q q. ce_weight e)"

inductive lfu_run ::
  "('q, 'k, 'v) pq_ops \<Rightarrow> ('k \<Rightarrow> 'v \<Rightarrow> usize) \<Rightarrow> nat \<Rightarrow> usize \<Rightarrow> 'q lfu_cache \<Rightarrow> bool" for Q w where
  run_new: "lfu_run Q w 0 0 (lfu_new Q)"
| run_insert: "lfu_run Q w n D c \<Longrightarrow> lfu_run Q w (Suc n) D (lfu_insert Q w c k v)"
| run_get: "lfu_run Q w n D c \<Longrightarrow> lfu_run Q w (Suc n) D (fst (lfu_get Q c k))"
| run_remove: "lfu_run Q w n D c \<Longrightarrow> lfu_remove Q c k = (Ok (c', v) :: (_, unit) result) \<Longrightarrow>
    lfu_run Q w n D c'"
| run_evict: "lfu_run Q w n D c \<Longrightarrow> evict_with_period Q c max_weight period = Some (Ok (c', r)) \<Longrightarrow>
    lfu_run Q w n D c'"
| run_extend: "lfu_run Q w n D c \<Longrightarrow> lfu_run Q w n' D' other \<Longrightarrow> set items \<subseteq> set (lfu_into_iter Q other) \<Longrightarrow>
    c' = lfu_extend Q c items \<Longrightarrow>
    lfu_run Q w (n + n') (D + (queue_weight Q (queue c') - queue_weight Q (queue c))) c'"

text \<open>A cache whose total is off by \<open>D\<close> behaves as one with the right total, except for evictions.\<close>

definition shift :: "usize \<Rightarrow> 'q lfu_cache \<Rightarrow> 'q lfu_cache" where
  "shift D c = c\<lparr>total_weight := total_weight c + D\<rparr>"

lemma queue_shift [simp]: "queue (shift D c) = queue c"
  by (simp add: shift_def)

lemma total_shift [simp]: "total_weight (shift D c) = total_weight c + D"
  by (simp add: shift_def)

lemma view_shift [simp]: "lfu_view el (shift D c) = lfu_view el c"
  by (simp add: fun_eq_iff lfu_view_def)

lemma get_shift: "fst (lfu_get Q (shift D c) k) = shift D (fst (lfu_get Q c k))"
  by (simp add: lfu_get_def lfu_get_mut_def shift_def Let_def)

lemma insert_shift: "lfu_insert Q w (shift D c) k v = shift D (lfu_insert Q w c k v)"
  by (simp add: lfu_insert_def lfu_get_mut_def shift_def Let_def split: option.splits)

lemma remove_shift: "lfu_remove Q (shift D c) k = and_then (lfu_remove Q c k) (\<lambda>(c', v). Ok (shift D c', v))"
  by (simp add: lfu_remove_def shift_def split: option.splits prod.splits)

lemma bump_shift: "bump_stale_counter Q period (shift D c) = shift D (bump_stale_counter Q period c)"
  by (simp add: bump_stale_counter_def shift_def Let_def)

context priority_queue
begin

lemma queue_weight_elems: "queue_weight Q q = weight_sum (elems q)"
proof -
  have "(\<Sum>(e, p) \<leftarrow> xs. ce_weight e) = weight_sum (map_of (map (\<lambda>(e, p). (ce_key e, (e, p))) xs))"
    if "distinct (map (ce_key \<circ> fst) xs)" for xs :: "('k, 'v) item list"
    using that
  proof (induction xs)
    case (Cons x xs)
    obtain e p where x: "x = (e, p)" by (cases x)
    let ?m = "map_of (map (\<lambda>(e, p). (ce_key e, (e, p))) xs)"
    have "?m (ce_key e) = None"
      using Cons.prems by (auto simp: x map_of_eq_None_iff image_image split_beta)
    then have "?m(ce_key e := None) = ?m" by auto
    then show ?case
      using Cons weight_sum_upd [of ?m "ce_key e" e p] by (simp add: x finite_dom_map_of del: fun_upd_apply)
  qed simp
  from this [OF into_iter_distinct] show ?thesis by (simp add: queue_weight_def into_iter_elems)
qed

lemma into_iter_elem: "(e, p) \<in> set (pq_into_iter Q q) \<Longrightarrow> elems q (ce_key e) = Some (e, p)"
proof -
  assume mem: "(e, p) \<in> set (pq_into_iter Q q)"
  have "map_of (map (\<lambda>(e, p). (ce_key e, (e, p))) (pq_into_iter Q q)) (ce_key e) = Some (e, p)"
    by (rule map_of_is_SomeI) (use mem into_iter_distinct [of q] in \<open>auto simp: comp_def split_beta image_iff intro!: bexI [of _ "(e, p)"]\<close>)
  then show ?thesis by (simp add: into_iter_elems)
qed

lemma bump_stale_counter_inv:
  assumes "lfu_inv elems n c"
  shows "lfu_inv elems n (bump_stale_counter Q period c)"
    and "lfu_view elems (bump_stale_counter Q period c) = lfu_view elems c"
    and "total_weight (bump_stale_counter Q period c) = total_weight c"
proof -
  let ?h = "\<lambda>(e, (s, f)). (e\<lparr>ce_will_stale := True\<rparr>, (ce_will_stale e, f))"
  have el: "elems (mark_stale Q (queue c)) = (\<lambda>k. map_option ?h (elems (queue c) k))"
    unfolding mark_stale_def by (rule elems_iter_mut) (auto split: prod.splits)
  have dom: "dom (\<lambda>k. map_option ?h (elems (queue c) k)) = dom (elems (queue c))" by auto
  have "weight_sum (\<lambda>k. map_option ?h (elems (queue c) k)) = weight_sum (elems (queue c))"
    by (intro weight_sum_cong) (auto split: prod.splits)
  moreover have "freqs_ok n (\<lambda>k. map_option ?h (elems (queue c) k))"
    using assms by (auto simp: lfu_inv_def freqs_ok_def split: prod.splits)
  ultimately show "lfu_inv elems n (bump_stale_counter Q period c)"
    using assms by (simp add: lfu_inv_def bump_stale_counter_def Let_def el)
  show "lfu_view elems (bump_stale_counter Q period c) = lfu_view elems c"
    by (auto simp: fun_eq_iff lfu_view_def bump_stale_counter_def Let_def el option.map_comp
        comp_def case_prod_unfold)
  show "total_weight (bump_stale_counter Q period c) = total_weight c"
    by (simp add: bump_stale_counter_def Let_def)
qed

text \<open>The whole of \<open>evict_with_period\<close>; \<open>c1\<close> is the cache after the staleness round.\<close>

lemma evict_with_period_ok:
  fixes period :: u64
  assumes inv: "lfu_inv elems n c" and heavy: "max_w < total_weight c"
  defines "c1 \<equiv> bump_stale_counter Q period c"
  shows "\<exists>c'. evict_with_period Q c max_w period =
      Some (Ok (c', Some (total_weight c - total_weight c', total_weight c, total_weight c')))
    \<and> total_weight c' \<le> max_w \<and> lfu_inv elems n c' \<and> lfu_view elems c' \<subseteq>\<^sub>m lfu_view elems c
    \<and> (\<forall>k e p k' e' p'. elems (queue c1) k = Some (e, p) \<and> elems (queue c') k = None
         \<and> elems (queue c') k' = Some (e', p') \<longrightarrow> prio_le p' p)"
proof -
  have c1: "lfu_inv elems n c1" "lfu_view elems c1 = lfu_view elems c" "total_weight c1 = total_weight c"
    unfolding c1_def using bump_stale_counter_inv [OF inv] by auto
  then obtain ev c' where run: "evict_loop Q max_w 0 c1 = Some (Ok (ev, c'))"
    and max: "total_weight c' \<le> max_w" and ev: "ev = 0 + (total_weight c1 - total_weight c')"
    and sum: "total_weight c' = weight_sum (elems (queue c'))"
    and sub: "elems (queue c') \<subseteq>\<^sub>m elems (queue c1)"
    and ord: "\<forall>k e p k' e' p'. elems (queue c1) k = Some (e, p) \<and> elems (queue c') k = None
         \<and> elems (queue c') k' = Some (e', p') \<longrightarrow> prio_le p' p"
    using evict_loop_ok [of c1 max_w 0] by (auto simp: lfu_inv_def)
  have "evict_with_period Q c max_w period =
      Some (Ok (c', Some (total_weight c - total_weight c', total_weight c, total_weight c')))"
    using heavy run c1(3) ev by (simp add: evict_with_period_def Let_def c1_def)
  moreover have "lfu_inv elems n c'"
    using c1(1) sum freqs_ok_mono [OF _ sub, of n n] by (auto simp: lfu_inv_def)
  moreover have "lfu_view elems c' \<subseteq>\<^sub>m lfu_view elems c"
    using sub c1(2) [symmetric] by (auto simp: map_le_def lfu_view_def dom_def)
  ultimately show ?thesis using max ord by blast
qed

lemma evict_with_period_inv:
  assumes "lfu_inv elems n c" and "evict_with_period Q c max_w period = Some (Ok (c', r))"
  shows "lfu_inv elems n c'"
proof (cases "max_w < total_weight c")
  case True
  with evict_with_period_ok [OF assms(1) True, of period] assms(2) show ?thesis by auto
next
  case False
  with assms show ?thesis by (simp add: evict_with_period_def split: if_splits)
qed

text \<open>Eviction when the total is off.\<close>

lemma evict_shifted:
  assumes inv: "lfu_inv elems n (shift D c)"
  shows "\<exists>r. evict_with_period Q c max_w period = Some r
    \<and> (case r of Ok (c', x) \<Rightarrow> total_weight c' \<le> max_w \<and> lfu_inv elems n (shift D c')
       | Panic \<Rightarrow> max_w < - D | Err e \<Rightarrow> False)"
proof (cases "total_weight c \<le> max_w")
  case True
  then show ?thesis using inv by (simp add: evict_with_period_def)
next
  case False
  let ?c1 = "bump_stale_counter Q period c"
  have c1: "lfu_inv elems n (shift D ?c1)"
    using bump_stale_counter_inv(1) [OF inv] by (simp add: bump_shift)
  then have "total_weight ?c1 + D = weight_sum (elems (queue ?c1))" by (simp add: lfu_inv_def)
  from evict_loop_run [OF this, of max_w 0] show ?thesis
  proof (elim disjE exE conjE)
    fix ev c'
    assume run: "evict_loop Q max_w 0 ?c1 = Some (Ok (ev, c'))" and "total_weight c' \<le> max_w"
      and sum: "total_weight c' + D = weight_sum (elems (queue c'))" and sub: "elems (queue c') \<subseteq>\<^sub>m elems (queue ?c1)"
    moreover have "lfu_inv elems n (shift D c')"
      using c1 sum freqs_ok_mono [OF _ sub, of n n] by (auto simp: lfu_inv_def)
    ultimately show ?thesis using False by (simp add: evict_with_period_def Let_def)
  next
    assume "evict_loop Q max_w 0 ?c1 = Some Panic" and "max_w < - D"
    then show ?thesis using False by (simp add: evict_with_period_def Let_def)
  qed
qed

lemma extend_inv:
  assumes c: "lfu_inv elems m (shift D c)" and other: "lfu_inv elems m (shift D' other)"
    and items: "set items \<subseteq> set (lfu_into_iter Q other)" and c': "c' = lfu_extend Q c items"
  shows "lfu_inv elems m (shift (D + (queue_weight Q (queue c') - queue_weight Q (queue c))) c')"
proof -
  have "freqs_ok m (elems (queue c'))"
    unfolding freqs_ok_def
  proof (intro allI impI)
    fix k e s f
    assume "elems (queue c') k = Some (e, (s, f))"
    from extend_priority [OF this [unfolded c' lfu_extend_def, simplified]] obtain e'
      where "elems (queue c) k = Some (e', (s, f)) \<or> (e', (s, f)) \<in> set items" by blast
    then have "elems (queue c) k = Some (e', (s, f)) \<or> elems (queue other) (ce_key e') = Some (e', (s, f))"
      using items into_iter_elem [of e' "(s, f)" "queue other"] by (auto simp: lfu_into_iter_def)
    then show "0 < unat f \<and> unat f + m < 2 ^ 64"
      using c other by (auto simp: lfu_inv_def freqs_ok_def)
  qed
  moreover have "total_weight c' = total_weight c" by (simp add: c' lfu_extend_def)
  ultimately show ?thesis using c by (simp add: lfu_inv_def queue_weight_elems algebra_simps)
qed

lemma lfu_run_inv: "lfu_run Q w n D c \<Longrightarrow> n + m + 1 < 2 ^ 64 \<Longrightarrow> lfu_inv elems m (shift D c)"
proof (induction arbitrary: m rule: lfu_run.induct)
  case run_new
  then show ?case by (simp add: lfu_inv_def lfu_new_def elems_new freqs_ok_def)
next
  case (run_insert n D c k v)
  then have "lfu_inv elems (Suc m) (shift D c)" by simp
  from inv_lfu_insert [OF this] show ?case by (simp add: insert_shift)
next
  case (run_get n D c k)
  then have "lfu_inv elems (Suc m) (shift D c)" by simp
  from inv_lfu_get [OF this] show ?case by (simp add: get_shift)
next
  case (run_remove n D c k c' v)
  then have "lfu_inv elems m (shift D c)" by simp
  then obtain c2 where "lfu_remove Q (shift D c) k = (Ok (c2, lfu_view elems (shift D c) k) :: (_, unit) result)"
    and "lfu_inv elems m c2"
    using lfu_remove_ok [of m "shift D c" k] by blast
  then show ?case using run_remove.hyps by (simp add: remove_shift)
next
  case (run_evict n D c mw period c' r)
  then have "lfu_inv elems m (shift D c)" by simp
  from evict_shifted [OF this, of mw period] show ?case using run_evict.hyps by simp
next
  case (run_extend n D c n' D' other items c')
  then show ?case by (intro extend_inv [where other = other and D' = D' and items = items]) simp_all
qed

lemma lfu_run_remove_ok:
  assumes "lfu_run Q w n D c" and "n + 1 < 2 ^ 64"
  shows "\<exists>c'. lfu_remove Q c k = (Ok (c', lfu_view elems c k) :: (_, 'e) result) \<and>
    lfu_view elems c' = (lfu_view elems c)(k := None)"
proof -
  have "lfu_inv elems 0 (shift D c)" using lfu_run_inv [OF assms(1), of 0] assms(2) by simp
  from lfu_remove_ok [OF this, of k] obtain c2 where c2: "lfu_remove Q (shift D c) k = (Ok (c2, lfu_view elems c k) :: (_, 'e) result)"
      "elems (queue c2) = (elems (queue c))(k := None)" by auto
  then obtain c' where "lfu_remove Q c k = (Ok (c', lfu_view elems c k) :: (_, 'e) result)" "c2 = shift D c'"
    unfolding remove_shift and_then_Ok_iff by auto
  then show ?thesis using c2(2) view_drop [of c' c k] by simp
qed

lemma extend_new_elems:
  assumes "dom (elems q) = {}"
  shows "elems (pq_extend Q q (pq_into_iter Q q')) = elems q'"
proof -
  have "distinct (map (ce_key \<circ> fst) (pq_into_iter Q q'))"
    by (rule into_iter_distinct)
  then show ?thesis
    using elems_extend [of q "pq_into_iter Q q'"] assms by (simp add: into_iter_elems)
qed

lemma extend_then_remove:
  fixes k :: 'k and v :: 'v and w :: "'k \<Rightarrow> 'v \<Rightarrow> usize"
  defines "other \<equiv> lfu_insert Q w (lfu_new Q) k v"
  shows "\<exists>c'. lfu_remove Q (lfu_extend Q (lfu_new Q) (lfu_into_iter Q other)) k = Ok (c', Some v)
    \<and> total_weight c' = - w k v \<and> elems (queue c') = Map.empty"
proof -
  let ?e = "\<lparr>ce_weight = w k v, ce_key = k, ce_value = v, ce_will_stale = False\<rparr>"
  let ?x = "lfu_extend Q (lfu_new Q) (lfu_into_iter Q other)"
  have new: "elems (queue (lfu_new Q)) = Map.empty" by (simp add: lfu_new_def elems_new)
  have x: "elems (queue ?x) = [k \<mapsto> (?e, (False, 1))]" "total_weight ?x = 0"
    using extend_new_elems [of "queue (lfu_new Q)" "queue other"] new
    by (simp_all add: lfu_extend_def lfu_into_iter_def other_def elems_lfu_insert lfu_new_def elems_new)
  \<comment> \<open>The same queue with a correct total satisfies the invariant, so removal is as usual.\<close>
  let ?y = "?x\<lparr>total_weight := w k v\<rparr>"
  have "lfu_inv elems 0 ?y"
    using x by (simp add: lfu_inv_def weight_sum_upd freqs_ok_def)
  then obtain y where y: "lfu_remove Q ?y k = (Ok (y, Some v) :: (_, unit) result)"
      "elems (queue y) = Map.empty" "total_weight y = 0"
    using lfu_remove_ok [of 0 ?y k] x by (auto simp: lfu_view_def lfu_inv_def)
  from y(1) have "lfu_remove Q ?x k = Ok (y\<lparr>total_weight := total_weight y - w k v\<rparr>, Some v)"
    using x(2) by (auto simp: lfu_remove_def split: prod.splits option.splits if_splits)
  with y show ?thesis by auto
qed

end

section \<open>Properties\<close>

text \<open>C2. In every state that the public operations lead to (with fewer than \<open>2 ^ 64 - 1\<close> accesses), the recorded
  total is the sum of the entries' weights, less what \<open>Extend\<close> added (\<open>D\<close>); the assertion in \<open>remove\<close>
  holds; eviction ends, and it ends at or below the weight asked for without a panic, unless that weight is
  less than \<open>- D\<close>. So it never panics when nothing came in through \<open>Extend\<close>.\<close>

theorem lfu_run_safe:
  assumes "priority_queue Q elems" and "lfu_run Q w n D c" and "n + 1 < 2 ^ 64"
  shows "total_weight c = weight_sum (elems (queue c)) - D
    \<and> (\<forall>k. is_ok (lfu_remove Q c k :: (_, unit) result))
    \<and> (\<forall>mw period. \<exists>r. evict_with_period Q c mw period = Some r
         \<and> (case r of Ok (c', x) \<Rightarrow> total_weight c' \<le> mw | Panic \<Rightarrow> mw < - D | Err e \<Rightarrow> False))"
proof (intro conjI allI)
  have inv: "lfu_inv elems 0 (shift D c)"
    using priority_queue.lfu_run_inv [OF assms(1,2), of 0] assms(3) by simp
  then show "total_weight c = weight_sum (elems (queue c)) - D"
    by (simp add: lfu_inv_def eq_diff_eq)
  show "is_ok (lfu_remove Q c k :: (_, unit) result)" for k
  proof -
    obtain c' where "lfu_remove Q c k = (Ok (c', lfu_view elems c k) :: (_, unit) result)"
      using priority_queue.lfu_run_remove_ok [OF assms, of k] by blast
    then show ?thesis by simp
  qed
  show "\<exists>r. evict_with_period Q c mw period = Some r
      \<and> (case r of Ok (c', x) \<Rightarrow> total_weight c' \<le> mw | Panic \<Rightarrow> mw < - D | Err e \<Rightarrow> False)" for mw period
    using priority_queue.evict_shifted [OF assms(1) inv, of mw period] by (force split: result.splits)
qed

definition demo_weight :: "nat \<Rightarrow> nat \<Rightarrow> usize" where
  "demo_weight k v = of_nat v + 8"

definition demo_cache :: "(nat, nat) item list lfu_cache" where
  "demo_cache =
     lfu_insert list_pq demo_weight (lfu_insert list_pq demo_weight (lfu_new list_pq) 1 10) 2 20"

lemma demo_run: "lfu_run list_pq demo_weight 2 0 demo_cache"
  using run_insert [OF run_insert [OF run_new]] unfolding demo_cache_def numeral_2_eq_2 by fast

text \<open>A cache with one more entry, which came in through \<open>Extend\<close>.\<close>

definition demo_extended :: "(nat, nat) item list lfu_cache" where
  "demo_extended = lfu_extend list_pq demo_cache
     (lfu_into_iter list_pq (lfu_insert list_pq demo_weight (lfu_new list_pq) 3 30))"

lemma demo_extended_run: "lfu_run list_pq demo_weight 3 38 demo_extended"
proof -
  have "lfu_run list_pq demo_weight (2 + 1)
      (0 + (queue_weight list_pq (queue demo_extended) - queue_weight list_pq (queue demo_cache))) demo_extended"
    by (rule run_extend [OF demo_run run_insert [OF run_new, folded One_nat_def] subset_refl]) (simp add: demo_extended_def)
  moreover have "queue_weight list_pq (queue demo_extended) - queue_weight list_pq (queue demo_cache) = 38" by code_simp
  ultimately show ?thesis by simp
qed

theorem lfu_run_safe_witness:
  "(\<exists>r. evict_with_period list_pq demo_cache 30 1 = Some r
      \<and> (case r of Ok (c', x) \<Rightarrow> total_weight c' \<le> 30 | Panic \<Rightarrow> False | Err e \<Rightarrow> False))
   \<and> total_weight demo_extended = weight_sum (list_elems (queue demo_extended)) - 38
   \<and> is_ok (lfu_remove list_pq demo_extended 3 :: (_, unit) result)"
proof -
  note plain = lfu_run_safe [OF ref_queue.priority_queue_axioms demo_run]
  have "\<exists>r. evict_with_period list_pq demo_cache 30 1 = Some r
      \<and> (case r of Ok (c', x) \<Rightarrow> total_weight c' \<le> 30 | Panic \<Rightarrow> (30 :: usize) < - 0 | Err e \<Rightarrow> False)"
    using plain by simp
  then have "\<exists>r. evict_with_period list_pq demo_cache 30 1 = Some r
      \<and> (case r of Ok (c', x) \<Rightarrow> total_weight c' \<le> 30 | Panic \<Rightarrow> False | Err e \<Rightarrow> False)"
    by (simp only: neg_0_equal_iff_equal minus_zero word_not_simps)
  then show ?thesis
    using lfu_run_safe [OF ref_queue.priority_queue_axioms demo_extended_run] by simp
qed

text \<open>C14. Seen through its lookups the cache is a map: \<open>insert\<close> binds its key and no other,
  \<open>get\<close> returns what is bound and changes nothing, \<open>remove\<close> returns what was bound and unbinds it.\<close>

theorem lfu_refines_map:
  assumes "priority_queue Q elems" and "lfu_run Q w n D c" and "n + 1 < 2 ^ 64"
  shows "snd (lfu_get Q c k) = lfu_view elems c k
    \<and> lfu_view elems (fst (lfu_get Q c k)) = lfu_view elems c
    \<and> lfu_view elems (lfu_insert Q w c k v) = (lfu_view elems c)(k \<mapsto> v)
    \<and> (\<exists>c'. lfu_remove Q c k = (Ok (c', lfu_view elems c k) :: (_, unit) result)
         \<and> lfu_view elems c' = (lfu_view elems c)(k := None))"
  using priority_queue.snd_lfu_get [OF assms(1)] priority_queue.view_lfu_get [OF assms(1)]
    priority_queue.view_lfu_insert [OF assms(1)] priority_queue.lfu_run_remove_ok [OF assms]
  by blast

theorem lfu_refines_map_witness:
  "snd (lfu_get list_pq demo_cache 2) = lfu_view list_elems demo_cache 2
    \<and> lfu_view list_elems (lfu_insert list_pq demo_weight demo_cache 2 5) =
        (lfu_view list_elems demo_cache)(2 \<mapsto> 5)"
  using lfu_refines_map [OF ref_queue.priority_queue_axioms demo_run, of 2 5] by (intro conjI) simp_all

text \<open>When the cache is too heavy, eviction returns the weight it took out, the weight before
  and the weight after, only drops entries, and drops them in the order of their priority after the
  staleness round: everything that stays is at most as evictable as anything that went, so stale
  entries go first and then those of least frequency.\<close>

lemma evict_order:
  assumes "priority_queue Q elems" and "lfu_run Q w n 0 c" and "n + 1 < 2 ^ 64"
    and "mw < total_weight c"
  shows "\<exists>c'. evict_with_period Q c mw period =
      Some (Ok (c', Some (total_weight c - total_weight c', total_weight c, total_weight c')))
    \<and> total_weight c' \<le> mw \<and> lfu_view elems c' \<subseteq>\<^sub>m lfu_view elems c
    \<and> (\<forall>k e p k' e' p'. elems (queue (bump_stale_counter Q period c)) k = Some (e, p)
         \<and> elems (queue c') k = None \<and> elems (queue c') k' = Some (e', p') \<longrightarrow> prio_le p' p)"
  using priority_queue.evict_with_period_ok [OF assms(1) _ assms(4), of 0 period]
    priority_queue.lfu_run_inv [OF assms(1,2), of 0] assms(3)
  by (auto simp: shift_def)

text \<open>\<open>Extend for LfuCache\<close> puts entries into the queue without adding their weight to the
  total. After extending an empty cache with a one-entry cache and removing that entry again, the
  total has wrapped below zero, and the next eviction finds an empty queue and panics.\<close>

lemma extend_breaks_total_weight:
  assumes "priority_queue Q elems" and "max_weight < - w k v"
  shows "\<exists>c'. lfu_remove Q (lfu_extend Q (lfu_new Q) (lfu_into_iter Q (lfu_insert Q w (lfu_new Q) k v))) k =
      (Ok (c', Some v) :: (_, unit) result)
    \<and> total_weight c' = - w k v \<and> evict Q c' max_weight = Some Panic"
proof -
  obtain c' where c': "lfu_remove Q (lfu_extend Q (lfu_new Q) (lfu_into_iter Q (lfu_insert Q w (lfu_new Q) k v))) k =
      (Ok (c', Some v) :: (_, unit) result)"
    and tw: "total_weight c' = - w k v" and el: "elems (queue c') = Map.empty"
    using priority_queue.extend_then_remove [OF assms(1)] by fastforce
  let ?c1 = "bump_stale_counter Q STALE_PERIOD c'"
  have "elems (queue ?c1) = Map.empty" "total_weight ?c1 = - w k v"
    using el tw priority_queue.elems_iter_mut [OF assms(1),
        of "\<lambda>(e, (_, f)). (e\<lparr>ce_will_stale := True\<rparr>, (ce_will_stale e, f))" "queue c'"]
    by (auto simp: bump_stale_counter_def Let_def mark_stale_def split: prod.splits)
  then have "evict_loop Q max_weight 0 ?c1 = Some Panic"
    using assms(2) priority_queue.pop_None [OF assms(1), of "queue ?c1"]
    by (subst evict_loop.simps) simp
  then have "evict Q c' max_weight = Some Panic"
    using assms(2) tw by (simp add: evict_def evict_with_period_def Let_def not_le)
  with c' tw show ?thesis by blast
qed

end
