(* ===== verification/EntityCache.thy ===== *)
theory EntityCache
  imports Values LfuCache
begin

text \<open>
  The entity cache of \<open>graph/src/components/store.rs\<close>: what mappings have set and removed since the
  last block, over a cache of what the store holds, and its translation into the modifications that
  are written to the store. The store itself is the trait \<open>Store\<close>: the two methods the cache calls
  are the fields of \<open>store_ops\<close>, and locale \<open>entity_store\<close> is what they promise about the
  contents \<open>db\<close> of the store. An \<open>Err\<close> ends the processing of a block and drops the cache, so an
  error result carries no cache.
\<close>

section \<open>Operations, modifications and the store\<close>

datatype entity_operation =
    SetOp entity_key entity
  | RemoveOp entity_key

datatype entity_modification =
    InsertMod entity_key entity
  | OverwriteMod entity_key entity
  | RemoveMod entity_key

fun mod_entity_key :: "entity_modification \<Rightarrow> entity_key" where
  "mod_entity_key (InsertMod key _) = key"
| "mod_entity_key (OverwriteMod key _) = key"
| "mod_entity_key (RemoveMod key) = key"

fun mod_is_remove :: "entity_modification \<Rightarrow> bool" where
  "mod_is_remove (RemoveMod _) = True"
| "mod_is_remove _ = False"

record store_ops =
  store_get :: "entity_key \<Rightarrow> (entity option, query_execution_error) result"
  store_get_many :: "string \<Rightarrow> (string, string list) btreemap \<Rightarrow>
    ((string, entity list) btreemap, query_execution_error) result"

section \<open>The cache\<close>

record 'q entity_cache =
  current :: "'q lfu_cache"
  updates :: "(entity_key, entity option) btreemap"

type_synonym 'q entity_queue = "('q, entity_key, entity option) pq_ops"
type_synonym entity_weight = "entity_key \<Rightarrow> entity option \<Rightarrow> usize"

definition ec_new :: "'q entity_queue \<Rightarrow> 'q entity_cache" where
  "ec_new Q = \<lparr>current = lfu_new Q, updates = []\<rparr>"

definition ec_with_current :: "'q lfu_cache \<Rightarrow> 'q entity_cache" where
  "ec_with_current c = \<lparr>current = c, updates = []\<rparr>"

text \<open>\<open>LfuCache::get_entity\<close>: a cached lookup, without the \<open>__typename\<close> the store adds.\<close>

definition get_entity ::
  "'q entity_queue \<Rightarrow> entity_weight \<Rightarrow> store_ops \<Rightarrow> 'q lfu_cache \<Rightarrow> entity_key \<Rightarrow>
     ('q lfu_cache \<times> entity option, query_execution_error) result" where
  "get_entity Q w st c key =
     (case lfu_get Q c key of
        (c1, None) \<Rightarrow>
          and_then (store_get st key) (\<lambda>entity.
            let entity = map_option (hm_remove ''__typename'') entity
            in Ok (lfu_insert Q w c1 key entity, entity))
      | (c1, Some data) \<Rightarrow> Ok (c1, data))"

definition ec_get ::
  "'q entity_queue \<Rightarrow> entity_weight \<Rightarrow> store_ops \<Rightarrow> 'q entity_cache \<Rightarrow> entity_key \<Rightarrow>
     ('q entity_cache \<times> entity option, query_execution_error) result" where
  "ec_get Q w st ec key =
     and_then (get_entity Q w st (current ec) key) (\<lambda>(c1, cur).
       let ec1 = ec\<lparr>current := c1\<rparr> in
       case (cur, map_of (updates ec) key) of
         (cur, None) \<Rightarrow> Ok (ec1, cur)
       | (_, Some None) \<Rightarrow> Ok (ec1, None)
       | (None, Some upd) \<Rightarrow> Ok (ec1, upd)
       | (Some cur, Some (Some upd)) \<Rightarrow> Ok (ec1, Some (merge_remove_null_fields cur upd)))"

definition ec_remove :: "'q entity_cache \<Rightarrow> entity_key \<Rightarrow> 'q entity_cache" where
  "ec_remove ec key = ec\<lparr>updates := bt_insert key None (updates ec)\<rparr>"

text \<open>\<open>entity.entry(field).or_insert(Value::Null)\<close> for every field of the removed entity.\<close>

definition null_missing :: "string list \<Rightarrow> entity \<Rightarrow> entity" where
  "null_missing names entity =
     fold (\<lambda>field e. if map_of e field = None then hm_insert field VNull e else e) names entity"

definition ec_set ::
  "'q entity_queue \<Rightarrow> entity_weight \<Rightarrow> store_ops \<Rightarrow> 'q entity_cache \<Rightarrow> entity_key \<Rightarrow> entity \<Rightarrow>
     ('q entity_cache, query_execution_error) result" where
  "ec_set Q w st ec key entity =
     (case map_of (updates ec) key of
        None \<Rightarrow> Ok (ec\<lparr>updates := bt_insert key (Some entity) (updates ec)\<rparr>)
      | Some (Some prev_update) \<Rightarrow>
          Ok (ec\<lparr>updates := bt_insert key (Some (merge prev_update entity)) (updates ec)\<rparr>)
      | Some None \<Rightarrow>
          and_then (get_entity Q w st (current ec) key) (\<lambda>(c1, cur).
            let entity1 = (case cur of None \<Rightarrow> entity | Some e \<Rightarrow> null_missing (map fst e) entity)
            in Ok (ec\<lparr>current := c1, updates := bt_insert key (Some entity1) (updates ec)\<rparr>)))"

fun ec_step ::
  "'q entity_queue \<Rightarrow> entity_weight \<Rightarrow> store_ops \<Rightarrow> entity_operation \<Rightarrow> 'q entity_cache \<Rightarrow>
     ('q entity_cache, query_execution_error) result" where
  "ec_step Q w st (SetOp key data) ec = ec_set Q w st ec key data"
| "ec_step Q w st (RemoveOp key) ec = Ok (ec_remove ec key)"

definition ec_append ::
  "'q entity_queue \<Rightarrow> entity_weight \<Rightarrow> store_ops \<Rightarrow> 'q entity_cache \<Rightarrow> entity_operation list \<Rightarrow>
     ('q entity_cache, query_execution_error) result" where
  "ec_append Q w st ec operations = try_fold (ec_step Q w st) operations ec"

definition ec_extend ::
  "'q entity_queue \<Rightarrow> entity_weight \<Rightarrow> store_ops \<Rightarrow> 'q entity_cache \<Rightarrow> 'q entity_cache \<Rightarrow>
     ('q entity_cache, query_execution_error) result" where
  "ec_extend Q w st ec other =
     try_fold (\<lambda>(key, update) ec.
         case update of
           Some update \<Rightarrow> ec_set Q w st ec key update
         | None \<Rightarrow> Ok (ec_remove ec key))
       (updates other) (ec\<lparr>current := lfu_extend Q (current ec) (lfu_into_iter Q (current other))\<rparr>)"

section \<open>Modifications\<close>

definition missing_by_subgraph ::
  "'q entity_queue \<Rightarrow> 'q lfu_cache \<Rightarrow> entity_key list \<Rightarrow>
     (string, (string, string list) btreemap) btreemap" where
  "missing_by_subgraph Q c keys =
     fold (\<lambda>key. bt_entry [] (subgraph_id key)
         (bt_entry [] (entity_type key) (\<lambda>ids. ids @ [entity_id key])))
       (filter (\<lambda>key. \<not> lfu_contains_key Q c key) keys) []"

text \<open>The loops that put what \<open>get_many\<close> returns into the cache; \<open>entity.id().unwrap()\<close> may panic.\<close>

definition cache_entity ::
  "'q entity_queue \<Rightarrow> entity_weight \<Rightarrow> string \<Rightarrow> string \<Rightarrow> entity \<Rightarrow> 'q lfu_cache \<Rightarrow>
     ('q lfu_cache, query_execution_error) result" where
  "cache_entity Q w sg ty entity c =
     (case entity_id_of entity of
        Ok i \<Rightarrow> Ok (lfu_insert Q w c (EntityKey sg ty i) (Some entity))
      | _ \<Rightarrow> Panic)"

definition cache_entities ::
  "'q entity_queue \<Rightarrow> entity_weight \<Rightarrow> string \<Rightarrow> (string, entity list) btreemap \<Rightarrow> 'q lfu_cache \<Rightarrow>
     ('q lfu_cache, query_execution_error) result" where
  "cache_entities Q w sg res c =
     try_fold (\<lambda>(ty, es). try_fold (cache_entity Q w sg ty) es) res c"

definition load_missing ::
  "'q entity_queue \<Rightarrow> entity_weight \<Rightarrow> store_ops \<Rightarrow> (string, (string, string list) btreemap) btreemap \<Rightarrow>
     'q lfu_cache \<Rightarrow> ('q lfu_cache, query_execution_error) result" where
  "load_missing Q w st missing c =
     try_fold (\<lambda>(sg, keys) c. and_then (store_get_many st sg keys) (\<lambda>res. cache_entities Q w sg res c))
       missing c"

text \<open>One round of the loop over \<open>updates\<close>: the cache afterwards and the modification, if any.\<close>

definition modification_for ::
  "'q entity_queue \<Rightarrow> entity_weight \<Rightarrow> entity_key \<Rightarrow> entity option \<Rightarrow> 'q lfu_cache \<Rightarrow>
     ('q lfu_cache \<times> entity_modification option, query_execution_error) result" where
  "modification_for Q w key update c =
     and_then (lfu_remove Q c key) (\<lambda>(c1, r).
       case (Option.bind r (\<lambda>entity. entity), update) of
         (None, Some upd) \<Rightarrow>
           let data = merge_remove_null_fields [] upd
           in Ok (lfu_insert Q w c1 key (Some data), Some (InsertMod key data))
       | (Some cur, Some upd) \<Rightarrow>
           let data = merge_remove_null_fields cur upd
           in Ok (lfu_insert Q w c1 key (Some data),
                  if \<not> hm_eq cur data then Some (OverwriteMod key data) else None)
       | (Some _, None) \<Rightarrow> Ok (lfu_insert Q w c1 key None, Some (RemoveMod key))
       | (None, None) \<Rightarrow> Ok (c1, None))"

definition push_modification ::
  "'q entity_queue \<Rightarrow> entity_weight \<Rightarrow> entity_key \<times> entity option \<Rightarrow>
     entity_modification list \<times> 'q lfu_cache \<Rightarrow>
     (entity_modification list \<times> 'q lfu_cache, query_execution_error) result" where
  "push_modification Q w = (\<lambda>(key, update) (mods, c).
     and_then (modification_for Q w key update c) (\<lambda>(c1, m).
       Ok (case m of None \<Rightarrow> mods | Some m \<Rightarrow> mods @ [m], c1)))"

definition as_modifications ::
  "'q entity_queue \<Rightarrow> entity_weight \<Rightarrow> store_ops \<Rightarrow> 'q entity_cache \<Rightarrow>
     (entity_modification list \<times> 'q lfu_cache, query_execution_error) result" where
  "as_modifications Q w st ec =
     and_then
       (load_missing Q w st (missing_by_subgraph Q (current ec) (map fst (updates ec))) (current ec))
       (\<lambda>c. try_fold (push_modification Q w) (updates ec) ([], c))"

section \<open>The contract of the store\<close>

text \<open>Rows are compared without the \<open>__typename\<close> that the store adds to what it returns.\<close>

type_synonym row = "string \<rightharpoonup> val"
type_synonym db = "entity_key \<Rightarrow> row option"

definition visible :: "entity \<Rightarrow> row" where
  "visible e = (map_of e)(''__typename'' := None)"

locale entity_store =
  fixes st :: store_ops and db :: db
  assumes get_ok: "\<exists>r. store_get st k = Ok r \<and> map_option visible r = db k \<and> pred_option hm_wf r"
    and get_many_ok: "\<exists>res. store_get_many st sg ids = Ok res
      \<and> (\<forall>(ty, es) \<in> set res. \<forall>e \<in> set es. hm_wf e
           \<and> (\<exists>i. entity_id_of e = Ok i \<and> db (EntityKey sg ty i) = Some (visible e)))
      \<and> (\<forall>(ty, is) \<in> set ids. \<forall>i \<in> set is. db (EntityKey sg ty i) \<noteq> None \<longrightarrow>
           (\<exists>es e. (ty, es) \<in> set res \<and> e \<in> set es \<and> entity_id_of e = Ok i))
      \<and> (\<Sum>(ty, es) \<leftarrow> res. length es) \<le> (\<Sum>(ty, is) \<leftarrow> ids. length is)"

section \<open>The specification: operations on the contents of the store\<close>

text \<open>An update that mentions \<open>__typename\<close> does not store it.\<close>

definition merged :: "row option \<Rightarrow> entity \<Rightarrow> row" where
  "merged r upd f =
     (if f = ''__typename'' then None
      else case map_of upd f of
        None \<Rightarrow> Option.bind r (\<lambda>m. m f)
      | Some v \<Rightarrow> if v = VNull then None else Some v)"

fun spec_op :: "entity_operation \<Rightarrow> db \<Rightarrow> db" where
  "spec_op (SetOp key data) s = s(key \<mapsto> merged (s key) data)"
| "spec_op (RemoveOp key) s = s(key := None)"

definition spec_ops :: "entity_operation list \<Rightarrow> db \<Rightarrow> db" where
  "spec_ops operations s = fold spec_op operations s"

text \<open>What the store does with a modification.\<close>

fun mod_row :: "entity_modification \<Rightarrow> row option" where
  "mod_row (InsertMod _ data) = Some (visible data)"
| "mod_row (OverwriteMod _ data) = Some (visible data)"
| "mod_row (RemoveMod _) = None"

definition apply_mods :: "entity_modification list \<Rightarrow> db \<Rightarrow> db" where
  "apply_mods mods s = fold (\<lambda>m s. s(mod_entity_key m := mod_row m)) mods s"

fun op_wf :: "entity_operation \<Rightarrow> bool" where
  "op_wf (SetOp key data) \<longleftrightarrow> hm_wf data"
| "op_wf (RemoveOp key) \<longleftrightarrow> True"

fun op_untyped :: "entity_operation \<Rightarrow> bool" where
  "op_untyped (SetOp key data) \<longleftrightarrow> map_of data ''__typename'' = None"
| "op_untyped (RemoveOp key) \<longleftrightarrow> True"

section \<open>Coherence of the cache with the store\<close>

declare entity_id_of.simps [simp del]

text \<open>
  \<open>coherent view d\<close>: what the cache shows is what the store holds. \<open>tracks upd d s\<close>: the
  accumulated updates lead from the store contents \<open>d\<close> to the specified state \<open>s\<close>.
\<close>

definition coherent :: "(entity_key \<Rightarrow> entity option option) \<Rightarrow> db \<Rightarrow> bool" where
  "coherent view d \<longleftrightarrow>
     (\<forall>k r. view k = Some r \<longrightarrow> map_option visible r = d k \<and> pred_option hm_wf r)"

definition after_update :: "row option \<Rightarrow> entity option option \<Rightarrow> row option" where
  "after_update r upd =
     (case upd of None \<Rightarrow> r | Some None \<Rightarrow> None | Some (Some u) \<Rightarrow> Some (merged r u))"

definition tracks :: "(entity_key \<rightharpoonup> entity option) \<Rightarrow> db \<Rightarrow> db \<Rightarrow> bool" where
  "tracks upd d s \<longleftrightarrow> (\<forall>k. s k = after_update (d k) (upd k)
     \<and> (\<forall>u. upd k = Some (Some u) \<longrightarrow> hm_wf u))"

lemma visible_typename [simp]: "visible e ''__typename'' = None"
  by (simp add: visible_def)

lemma coherentD:
  "coherent view d \<Longrightarrow> view k = Some r \<Longrightarrow> map_option visible r = d k \<and> pred_option hm_wf r"
  by (auto simp: coherent_def)

lemma coherent_upd:
  "coherent view d \<Longrightarrow> map_option visible r = x \<Longrightarrow> pred_option hm_wf r \<Longrightarrow>
     coherent (view(k \<mapsto> r)) (d(k := x))"
  by (auto simp: coherent_def)

lemma coherent_drop: "coherent view d \<Longrightarrow> coherent (view(k := None)) (d(k := x))"
  by (auto simp: coherent_def)

lemma coherent_submap: "coherent view d \<Longrightarrow> view' \<subseteq>\<^sub>m view \<Longrightarrow> coherent view' d"
  by (auto simp: coherent_def map_le_def dom_def)

lemma merged_merge: "hm_wf u \<Longrightarrow> hm_wf v \<Longrightarrow> merged r (merge u v) = merged (Some (merged r u)) v"
  by (auto simp: fun_eq_iff merged_def merge_lookup split: option.splits)

lemma visible_merge_remove_null:
  assumes "hm_wf u" and "map_option visible cur = r"
  shows "visible (merge_remove_null_fields (case cur of None \<Rightarrow> [] | Some e \<Rightarrow> e) u) = merged r u"
  using assms
  by (cases cur) (auto simp: fun_eq_iff visible_def merged_def merge_lookups split: option.splits)

lemma map_of_null_missing:
  "map_of (null_missing names e) f =
     (case map_of e f of Some v \<Rightarrow> Some v | None \<Rightarrow> if f \<in> set names then Some VNull else None)"
  unfolding null_missing_def
  by (induction names arbitrary: e) (auto simp: map_simps split: option.splits)

lemma null_missing_wf [simp]: "hm_wf e \<Longrightarrow> hm_wf (null_missing names e)"
  unfolding null_missing_def by (induction names arbitrary: e) auto

text \<open>Setting an entity after its removal forgets every field of the old one.\<close>

lemma merged_null_missing:
  "merged (Some (visible e)) (null_missing (map fst e) data) = merged None data"
proof
  fix f
  have "map_of e f = None" if "f \<notin> fst ` set e" using that by (simp add: map_of_eq_None_iff)
  then show "merged (Some (visible e)) (null_missing (map fst e) data) f = merged None data f"
    by (auto simp: merged_def map_of_null_missing visible_def split: option.splits)
qed

lemma tracksD:
  assumes "tracks upd d s"
  shows "s k = after_update (d k) (upd k)" and "upd k = Some (Some u) \<Longrightarrow> hm_wf u"
  using assms by (auto simp: tracks_def)

lemma tracks_upd:
  "tracks upd d s \<Longrightarrow> x = after_update (d k) (Some u) \<Longrightarrow> pred_option hm_wf u \<Longrightarrow>
     tracks (upd(k \<mapsto> u)) d (s(k := x))"
  by (auto simp: tracks_def)

section \<open>The operations track the specification\<close>

text \<open>The queue of the LFU cache at the entity cache's types, with the weights of its entries.\<close>

locale entity_queue = priority_queue Q elems
  for Q :: "'q entity_queue" and elems :: "'q \<Rightarrow> entity_key \<Rightarrow> (entity_key, entity option) item option" +
  fixes w :: entity_weight

locale entity_env = entity_queue Q elems w + entity_store st db
  for Q :: "'q entity_queue" and elems :: "'q \<Rightarrow> entity_key \<Rightarrow> (entity_key, entity option) item option"
    and w :: entity_weight and st :: store_ops and db :: db
begin

lemma get_entity_ok:
  assumes "lfu_inv elems (Suc (Suc n)) c" and "coherent (lfu_view elems c) db"
  shows "\<exists>c1 r. get_entity Q w st c key = Ok (c1, r) \<and> lfu_inv elems n c1
    \<and> coherent (lfu_view elems c1) db \<and> map_option visible r = db key \<and> pred_option hm_wf r"
proof -
  obtain c0 r0 where g: "lfu_get Q c key = (c0, r0)" by fastforce
  have r0: "r0 = lfu_view elems c key" and c0: "lfu_view elems c0 = lfu_view elems c"
      "lfu_inv elems (Suc n) c0"
    using lfu.get_result [OF assms(1), of key] lfu.get_view [OF assms(1), of key]
      lfu.get_inv [OF assms(1), of key] g by auto
  show ?thesis
  proof (cases r0)
    case (Some r)
    then show ?thesis
      using g c0 r0 assms(2) lfu.inv_mono [OF c0(2), of n] coherentD [OF assms(2), of key r]
      by (auto simp: get_entity_def)
  next
    case None
    obtain r where r: "store_get st key = Ok r" "map_option visible r = db key" "pred_option hm_wf r"
      using get_ok by blast
    let ?r = "map_option (hm_remove ''__typename'') r"
    have v: "map_option visible ?r = db key" "pred_option hm_wf ?r"
      using r(2,3) by (cases r; force simp: visible_def map_simps fun_eq_iff)+
    then have "coherent ((lfu_view elems c)(key \<mapsto> ?r)) db"
      using coherent_upd [OF assms(2) v, of key] by simp
    then show ?thesis
      using None g r(1) c0 v lfu.insert_view [OF c0(2), of w key ?r]
        lfu.insert_inv [OF c0(2), of w key ?r]
      by (simp add: get_entity_def Let_def)
  qed
qed

text \<open>One operation: the cache stays coherent and the updates track the specification.\<close>

lemma ec_step_ok:
  assumes "lfu_inv elems (Suc (Suc n)) (current ec)" and "coherent (lfu_view elems (current ec)) db"
    and "tracks (map_of (updates ec)) db s" and "op_wf oper"
  shows "\<exists>ec'. ec_step Q w st oper ec = Ok ec' \<and> lfu_inv elems n (current ec')
    \<and> coherent (lfu_view elems (current ec')) db \<and> tracks (map_of (updates ec')) db (spec_op oper s)
    \<and> (\<exists>key u. updates ec' = bt_insert key u (updates ec))"
proof -
  have keep: "lfu_inv elems n (current ec)" using lfu.inv_mono [OF assms(1)] by simp
  show ?thesis
  proof (cases oper)
    case (RemoveOp key)
    then show ?thesis
      using keep assms tracks_upd [OF assms(3), of None key None]
      by (auto simp: ec_remove_def after_update_def map_simps)
  next
    case (SetOp key data)
    then have wf: "hm_wf data" using assms(4) by (simp add: )
    note track = tracks_upd [OF assms(3), of _ key "Some _"]
    consider "map_of (updates ec) key = None" | u where "map_of (updates ec) key = Some (Some u)"
      | "map_of (updates ec) key = Some None"
      by (cases "map_of (updates ec) key") (auto split: option.splits)
    then show ?thesis
    proof cases
      case 1
      then have "s key = db key" using tracksD(1) [OF assms(3), of key] by (simp add: after_update_def)
      then show ?thesis
        using SetOp 1 wf keep assms(2) track [of "Some (merged (s key) data)" data]
        by (auto simp: ec_set_def after_update_def map_simps)
    next
      case 2
      then have "s key = Some (merged (db key) u)" and u: "hm_wf u"
        using tracksD [OF assms(3), of key] by (auto simp: after_update_def)
      then have "merged (db key) (merge u data) = merged (s key) data"
        using wf by (simp add: merged_merge )
      then show ?thesis
        using SetOp 2 keep assms(2) merge_wf [OF u]
          track [of "Some (merged (s key) data)" "merge u data"]
        by (auto simp: ec_set_def after_update_def map_simps)
    next
      case 3
      then have sk: "s key = None" using tracksD(1) [OF assms(3), of key] by (simp add: after_update_def)
      obtain c1 r where g: "get_entity Q w st (current ec) key = Ok (c1, r)"
        and c1: "lfu_inv elems n c1" "coherent (lfu_view elems c1) db" and r: "map_option visible r = db key"
        using get_entity_ok [OF assms(1,2)] by blast
      let ?u = "case r of None \<Rightarrow> data | Some e \<Rightarrow> null_missing (map fst e) data"
      have "merged (db key) ?u = merged None data" and "hm_wf ?u"
        using r wf null_missing_wf [OF wf]
        by (cases r; auto simp: merged_null_missing simp flip: r)+
      then show ?thesis
        using SetOp 3 g c1 sk track [of "Some (merged None data)" ?u]
        by (auto simp: ec_set_def after_update_def map_simps)
    qed
  qed
qed

lemma ec_append_ok:
  assumes "lfu_inv elems (2 * length ops + n) (current ec)" and "coherent (lfu_view elems (current ec)) db"
    and "tracks (map_of (updates ec)) db s" and "list_all op_wf ops" and "bt_wf (updates ec)"
  shows "\<exists>ec'. ec_append Q w st ec ops = Ok ec' \<and> lfu_inv elems n (current ec')
    \<and> coherent (lfu_view elems (current ec')) db \<and> tracks (map_of (updates ec')) db (spec_ops ops s)
    \<and> bt_wf (updates ec') \<and> length (updates ec') \<le> length ops + length (updates ec)"
  using assms unfolding ec_append_def spec_ops_def
proof (induction ops arbitrary: ec s)
  case (Cons oper ops)
  obtain ec1 key u where ec1: "ec_step Q w st oper ec = Ok ec1"
    "lfu_inv elems (2 * length ops + n) (current ec1)" "coherent (lfu_view elems (current ec1)) db"
    "tracks (map_of (updates ec1)) db (spec_op oper s)" and u: "updates ec1 = bt_insert key u (updates ec)"
    using ec_step_ok [of "2 * length ops + n" ec s oper] Cons.prems by auto
  have "length (updates ec1) \<le> Suc (length (updates ec))" "bt_wf (updates ec1)"
    using Cons.prems(5) by (simp_all add: u length_bt_insert)
  then show ?case using Cons.IH [OF ec1(2-4)] Cons.prems ec1(1) by fastforce
qed auto

lemma ec_get_ok:
  assumes "lfu_inv elems (Suc (Suc n)) (current ec)" and "coherent (lfu_view elems (current ec)) db"
    and "tracks (map_of (updates ec)) db s"
  shows "\<exists>ec' r. ec_get Q w st ec key = Ok (ec', r) \<and> updates ec' = updates ec
    \<and> lfu_inv elems n (current ec') \<and> coherent (lfu_view elems (current ec')) db
    \<and> (if db key = None \<and> map_of (updates ec) key \<noteq> None
       then r = the (map_of (updates ec) key) \<and> map_option (merged None) r = s key
       else map_option visible r = s key)"
proof -
  obtain c1 r where g: "get_entity Q w st (current ec) key = Ok (c1, r)"
    and r: "map_option visible r = db key" "pred_option hm_wf r"
    and c1: "lfu_inv elems n c1" "coherent (lfu_view elems c1) db"
    using get_entity_ok [OF assms(1,2)] by blast
  note s = tracksD [OF assms(3), of key]
  show ?thesis
  proof (cases "map_of (updates ec) key")
    case None
    then show ?thesis
      using g r c1 s(1) by (cases r) (auto simp: ec_get_def Let_def after_update_def)
  next
    case (Some up)
    show ?thesis
    proof (cases up)
      case None
      then show ?thesis using Some g c1 s(1) by (cases r) (auto simp: ec_get_def after_update_def)
    next
      case (Some u)
      then have "hm_wf u" using s(2) \<open>map_of (updates ec) key = Some up\<close> by simp
      then have "visible (merge_remove_null_fields (case r of None \<Rightarrow> [] | Some e \<Rightarrow> e) u) =
          merged (db key) u"
        using r by (intro visible_merge_remove_null) auto
      then show ?thesis
        using Some \<open>map_of (updates ec) key = Some up\<close> g r(1) c1 s(1)
        by (cases r) (auto simp: ec_get_def after_update_def)
    qed
  qed
qed

end

section \<open>Loading what the updates need\<close>

definition ids_for ::
  "(string, (string, string list) btreemap) btreemap \<Rightarrow> string \<Rightarrow> string \<Rightarrow> string list" where
  "ids_for m sg ty =
     (case map_of m sg of
        None \<Rightarrow> []
      | Some ids \<Rightarrow> (case map_of ids ty of None \<Rightarrow> [] | Some is \<Rightarrow> is))"

definition wants :: "(string, (string, string list) btreemap) btreemap \<Rightarrow> entity_key \<Rightarrow> bool" where
  "wants m key \<longleftrightarrow> entity_id key \<in> set (ids_for m (subgraph_id key) (entity_type key))"

definition wanted_ids :: "(string, string list) btreemap \<Rightarrow> nat" where
  "wanted_ids ids = (\<Sum>(ty, is) \<leftarrow> ids. length is)"

definition wanted :: "(string, (string, string list) btreemap) btreemap \<Rightarrow> nat" where
  "wanted m = (\<Sum>(sg, ids) \<leftarrow> m. wanted_ids ids)"

abbreviation add_missing where
  "add_missing key \<equiv> bt_entry [] (subgraph_id key)
     (bt_entry [] (entity_type key) (\<lambda>ids. ids @ [entity_id key]))"

definition nested_wf :: "(string, (string, string list) btreemap) btreemap \<Rightarrow> bool" where
  "nested_wf m \<longleftrightarrow> bt_wf m \<and> (\<forall>sg ids. map_of m sg = Some ids \<longrightarrow> bt_wf ids)"

lemma nested_wf_add: "nested_wf m \<Longrightarrow> nested_wf (add_missing key m)"
  by (auto simp: nested_wf_def map_simps split: option.splits)

lemma nested_wf_Cons:
  assumes "nested_wf ((sg, ids) # m)"
  shows "bt_wf ids" and "nested_wf m" and "map_of m sg = None"
proof -
  from assms have m: "\<forall>k \<in> fst ` set m. sg < k" "bt_wf m"
    and ids: "\<And>sg' ids'. map_of ((sg, ids) # m) sg' = Some ids' \<Longrightarrow> bt_wf ids'"
    unfolding nested_wf_def by (auto simp only: bt_wf_Cons)
  from m show none: "map_of m sg = None" by (auto simp: map_of_eq_None_iff)
  show "bt_wf ids" using ids [of sg] by simp
  have "bt_wf ids'" if "map_of m sg' = Some ids'" for sg' ids'
    using ids [of sg'] that none by (cases "sg' = sg") auto
  with m show "nested_wf m" by (simp add: nested_wf_def)
qed

lemma ids_for_add:
  "ids_for (add_missing key m) sg ty =
     ids_for m sg ty @ (if sg = subgraph_id key \<and> ty = entity_type key then [entity_id key] else [])"
  by (auto simp: ids_for_def map_simps split: option.splits)

lemma wants_add: "wants (add_missing key m) key' \<longleftrightarrow> wants m key' \<or> key' = key"
  by (auto simp: wants_def ids_for_add intro: entity_key.expand)

lemma wanted_ids_add:
  "bt_wf ids \<Longrightarrow> wanted_ids (bt_entry [] ty (\<lambda>is. is @ [i]) ids) = Suc (wanted_ids ids)"
  using sum_bt_entry [where h = length and n = 1, of ids "[]" ty] by (simp add: wanted_ids_def)

lemma wanted_add:
  assumes "nested_wf m"
  shows "wanted (add_missing key m) = Suc (wanted m)"
proof -
  have "wanted_ids (bt_entry [] (entity_type key) (\<lambda>is. is @ [entity_id key]) ids) = wanted_ids ids + 1"
    if "ids = [] \<or> map_of m (subgraph_id key) = Some ids" for ids
    using that assms wanted_ids_add by (auto simp: nested_wf_def)
  then show ?thesis
    using sum_bt_entry [where h = wanted_ids and n = 1, of m "[]" "subgraph_id key"] assms
    by (simp add: wanted_def nested_wf_def wanted_ids_def)
qed

lemma missing_by_subgraph_spec:
  "nested_wf (missing_by_subgraph Q c keys)
   \<and> (\<forall>key. wants (missing_by_subgraph Q c keys) key \<longleftrightarrow> key \<in> set keys \<and> \<not> lfu_contains_key Q c key)
   \<and> wanted (missing_by_subgraph Q c keys) \<le> length keys"
proof -
  have "nested_wf (fold add_missing ks m) \<and> (\<forall>key. wants (fold add_missing ks m) key \<longleftrightarrow> wants m key \<or> key \<in> set ks)
      \<and> wanted (fold add_missing ks m) = wanted m + length ks" if "nested_wf m" for ks m
    using that by (induction ks arbitrary: m) (auto simp: nested_wf_add wants_add wanted_add)
  from this [of "[]" "filter (\<lambda>key. \<not> lfu_contains_key Q c key) keys"] show ?thesis
    by (auto simp: missing_by_subgraph_def nested_wf_def wants_def ids_for_def wanted_def)
qed

context entity_env
begin

text \<open>Entities as \<open>get_many\<close> returns them, under the type they are listed with.\<close>

definition stored_as :: "string \<Rightarrow> string \<Rightarrow> entity \<Rightarrow> bool" where
  "stored_as sg ty e \<longleftrightarrow> hm_wf e
     \<and> (\<exists>i. entity_id_of e = Ok i \<and> db (EntityKey sg ty i) = Some (visible e))"

lemma try_fold_cache_entity:
  assumes "lfu_inv elems (length es + n) c" and "coherent (lfu_view elems c) db"
    and "\<forall>e \<in> set es. stored_as sg ty e"
  shows "\<exists>c'. try_fold (cache_entity Q w sg ty) es c = Ok c' \<and> lfu_inv elems n c'
    \<and> coherent (lfu_view elems c') db \<and> dom (lfu_view elems c) \<subseteq> dom (lfu_view elems c')
    \<and> (\<forall>e i. e \<in> set es \<longrightarrow> entity_id_of e = Ok i \<longrightarrow> EntityKey sg ty i \<in> dom (lfu_view elems c'))"
  using assms
proof (induction es arbitrary: c)
  case (Cons e es)
  then obtain i where i: "entity_id_of e = Ok i" "db (EntityKey sg ty i) = Some (visible e)" "hm_wf e"
    by (auto simp: stored_as_def)
  let ?k = "EntityKey sg ty i"
  let ?c = "lfu_insert Q w c ?k (Some e)"
  have step: "cache_entity Q w sg ty e c = Ok ?c" using i(1) by (simp add: cache_entity_def)
  have inv: "lfu_inv elems (Suc (length es + n)) c" using Cons.prems(1) by simp
  have "db(?k := Some (visible e)) = db" using i(2) by (auto simp: fun_eq_iff)
  then have "coherent (lfu_view elems ?c) db" "lfu_inv elems (length es + n) ?c"
    using lfu.insert_view [OF inv] lfu.insert_inv [OF inv] i(3)
      coherent_upd [OF Cons.prems(2), of "Some e" "Some (visible e)" ?k] by auto
  from Cons.IH [OF this(2,1)] Cons.prems(3) obtain c' where
    c': "try_fold (cache_entity Q w sg ty) es ?c = Ok c'" "lfu_inv elems n c'"
      "coherent (lfu_view elems c') db" "dom (lfu_view elems ?c) \<subseteq> dom (lfu_view elems c')"
      "\<forall>e i. e \<in> set es \<longrightarrow> entity_id_of e = Ok i \<longrightarrow> EntityKey sg ty i \<in> dom (lfu_view elems c')"
    by auto
  moreover have "dom (lfu_view elems ?c) = insert ?k (dom (lfu_view elems c))"
    using lfu.insert_view [OF inv] by simp
  ultimately show ?case using i(1) step by auto
qed auto

lemma cache_entities_ok:
  assumes "lfu_inv elems ((\<Sum>(ty, es) \<leftarrow> res. length es) + n) c" and "coherent (lfu_view elems c) db"
    and "\<forall>(ty, es) \<in> set res. \<forall>e \<in> set es. stored_as sg ty e"
  shows "\<exists>c'. cache_entities Q w sg res c = Ok c' \<and> lfu_inv elems n c'
    \<and> coherent (lfu_view elems c') db \<and> dom (lfu_view elems c) \<subseteq> dom (lfu_view elems c')
    \<and> (\<forall>ty es e i. (ty, es) \<in> set res \<longrightarrow> e \<in> set es \<longrightarrow> entity_id_of e = Ok i \<longrightarrow>
          EntityKey sg ty i \<in> dom (lfu_view elems c'))"
  using assms unfolding cache_entities_def
proof (induction res arbitrary: c)
  case (Cons te res)
  obtain ty es where te: "te = (ty, es)" by fastforce
  obtain c1 where c1: "try_fold (cache_entity Q w sg ty) es c = Ok c1"
      "lfu_inv elems ((\<Sum>(ty, es) \<leftarrow> res. length es) + n) c1" "coherent (lfu_view elems c1) db"
      "dom (lfu_view elems c) \<subseteq> dom (lfu_view elems c1)"
      "\<forall>e i. e \<in> set es \<longrightarrow> entity_id_of e = Ok i \<longrightarrow> EntityKey sg ty i \<in> dom (lfu_view elems c1)"
    using try_fold_cache_entity [of es "(\<Sum>(ty, es) \<leftarrow> res. length es) + n" c sg ty] Cons.prems te
    by (auto simp: add.assoc)
  obtain c' where c': "try_fold (\<lambda>(ty, es). try_fold (cache_entity Q w sg ty) es) res c1 = Ok c'"
      "lfu_inv elems n c'" "coherent (lfu_view elems c') db"
      "dom (lfu_view elems c1) \<subseteq> dom (lfu_view elems c')"
      "\<forall>ty es e i. (ty, es) \<in> set res \<longrightarrow> e \<in> set es \<longrightarrow> entity_id_of e = Ok i \<longrightarrow>
          EntityKey sg ty i \<in> dom (lfu_view elems c')"
    using Cons.IH [OF c1(2,3)] Cons.prems(3) by auto
  have "try_fold (\<lambda>(ty, es). try_fold (cache_entity Q w sg ty) es) (te # res) c = Ok c'"
    using c1(1) c'(1) te by simp
  moreover have "dom (lfu_view elems c) \<subseteq> dom (lfu_view elems c')"
    using c1(4) c'(4) by (rule order_trans)
  moreover have "\<forall>ty es e i. (ty, es) \<in> set (te # res) \<longrightarrow> e \<in> set es \<longrightarrow> entity_id_of e = Ok i \<longrightarrow>
          EntityKey sg ty i \<in> dom (lfu_view elems c')"
    using c1(5) c'(4,5) unfolding te list.set insert_iff prod.inject by blast
  ultimately show ?case using c'(2,3) by blast
qed auto

lemma load_missing_ok:
  assumes "lfu_inv elems (wanted m + n) c" and "coherent (lfu_view elems c) db" and "nested_wf m"
  shows "\<exists>c'. load_missing Q w st m c = Ok c' \<and> lfu_inv elems n c'
    \<and> coherent (lfu_view elems c') db \<and> dom (lfu_view elems c) \<subseteq> dom (lfu_view elems c')
    \<and> (\<forall>key. wants m key \<longrightarrow> db key \<noteq> None \<longrightarrow> key \<in> dom (lfu_view elems c'))"
  using assms
proof (induction m arbitrary: c)
  case Nil
  then show ?case by (auto simp: load_missing_def wanted_def wants_def ids_for_def)
next
  case (Cons si m)
  obtain sg ids where si: "si = (sg, ids)" by fastforce
  note wf = nested_wf_Cons [OF Cons.prems(3) [unfolded si]]
  obtain res where res: "store_get_many st sg ids = Ok res"
      "\<forall>(ty, es) \<in> set res. \<forall>e \<in> set es. stored_as sg ty e"
      "\<forall>(ty, is) \<in> set ids. \<forall>i \<in> set is. db (EntityKey sg ty i) \<noteq> None \<longrightarrow>
           (\<exists>es e. (ty, es) \<in> set res \<and> e \<in> set es \<and> entity_id_of e = Ok i)"
      "(\<Sum>(ty, es) \<leftarrow> res. length es) \<le> wanted_ids ids"
    using get_many_ok [of sg ids] unfolding stored_as_def wanted_ids_def by blast
  have "lfu_inv elems ((\<Sum>(ty, es) \<leftarrow> res. length es) + (wanted m + n)) c"
    using Cons.prems(1) res(4) by (elim lfu.inv_mono) (simp add: si wanted_def)
  from cache_entities_ok [OF this Cons.prems(2) res(2)] obtain c1 where
    c1: "cache_entities Q w sg res c = Ok c1" "lfu_inv elems (wanted m + n) c1"
      "coherent (lfu_view elems c1) db" "dom (lfu_view elems c) \<subseteq> dom (lfu_view elems c1)"
      "\<forall>ty es e i. (ty, es) \<in> set res \<longrightarrow> e \<in> set es \<longrightarrow> entity_id_of e = Ok i \<longrightarrow>
          EntityKey sg ty i \<in> dom (lfu_view elems c1)" by blast
  have here: "key \<in> dom (lfu_view elems c1)"
    if "subgraph_id key = sg" "wants (si # m) key" "db key \<noteq> None" for key
  proof -
    obtain ty i where key: "key = EntityKey sg ty i" using \<open>subgraph_id key = sg\<close> by (cases key) auto
    with that(2) obtain "is" where "map_of ids ty = Some is" "i \<in> set is"
      by (cases "map_of ids ty") (auto simp: wants_def ids_for_def si)
    then have "(ty, is) \<in> set ids" "i \<in> set is" by (auto dest: map_of_SomeD)
    with res(3) that(3) key c1(5) show ?thesis by blast
  qed
  obtain c' where c': "load_missing Q w st m c1 = Ok c'" "lfu_inv elems n c'"
      "coherent (lfu_view elems c') db" "dom (lfu_view elems c1) \<subseteq> dom (lfu_view elems c')"
      "\<forall>key. wants m key \<longrightarrow> db key \<noteq> None \<longrightarrow> key \<in> dom (lfu_view elems c')"
    using Cons.IH [OF c1(2,3) wf(2)] by blast
  have "wants m key" if "wants (si # m) key" "subgraph_id key \<noteq> sg" for key
    using that by (simp add: wants_def ids_for_def si)
  with here c'(4,5) have
    "\<forall>key. wants (si # m) key \<longrightarrow> db key \<noteq> None \<longrightarrow> key \<in> dom (lfu_view elems c')" by blast
  moreover have "load_missing Q w st (si # m) c = Ok c'"
    using c'(1) c1(1) res(1) by (simp add: load_missing_def si)
  moreover have "dom (lfu_view elems c) \<subseteq> dom (lfu_view elems c')"
    using c1(4) c'(4) by (rule order_trans)
  ultimately show ?case using c'(2,3) by blast
qed

end

section \<open>Turning updates into modifications\<close>

text \<open>A modification fits what is stored: it inserts what is missing, overwrites or removes what is there.\<close>

fun mod_fits :: "entity_modification \<Rightarrow> row option \<Rightarrow> bool" where
  "mod_fits (InsertMod _ _) r \<longleftrightarrow> r = None"
| "mod_fits (OverwriteMod _ _) r \<longleftrightarrow> r \<noteq> None"
| "mod_fits (RemoveMod _) r \<longleftrightarrow> r \<noteq> None"

definition mentions_typename :: "entity option \<Rightarrow> bool" where
  "mentions_typename upd \<longleftrightarrow> (case upd of None \<Rightarrow> False | Some u \<Rightarrow> map_of u ''__typename'' \<noteq> None)"

lemma visible_eq_iff:
  "map_of e ''__typename'' = map_of e' ''__typename'' \<Longrightarrow> visible e = visible e' \<longleftrightarrow> hm_eq e e'"
  by (auto simp: visible_def hm_eq_iff fun_eq_iff split: if_splits) metis

lemma hm_eq_visible: "hm_eq e e' \<Longrightarrow> visible e = visible e'"
  by (simp add: visible_def hm_eq_iff)

lemma apply_mods_Cons: "apply_mods (m # ms) d = apply_mods ms (d(mod_entity_key m := mod_row m))"
  by (simp add: apply_mods_def)

lemma apply_mods_append: "apply_mods (ms @ ms') d = apply_mods ms' (apply_mods ms d)"
  by (simp add: apply_mods_def)

context entity_queue
begin

lemma modification_for_ok:
  assumes "lfu_inv elems (Suc n) c" and coh: "coherent (lfu_view elems c) d"
    and upd: "pred_option hm_wf upd"
    and complete: "d key \<noteq> None \<Longrightarrow> lfu_view elems c key \<noteq> None"
  defines "r \<equiv> after_update (d key) (Some upd)"
  shows "\<exists>c' m. modification_for Q w key upd c = Ok (c', m) \<and> lfu_inv elems n c'
    \<and> coherent (lfu_view elems c') (d(key := r))
    \<and> (\<forall>k. k \<noteq> key \<longrightarrow> lfu_view elems c' k = lfu_view elems c k)
    \<and> (case m of None \<Rightarrow> r = d key
       | Some m \<Rightarrow> mod_entity_key m = key \<and> mod_row m = r \<and> mod_fits m (d key)
           \<and> (\<not> mentions_typename upd \<longrightarrow> r \<noteq> d key))"
proof -
  obtain c1 where rem: "lfu_remove Q c key = (Ok (c1, lfu_view elems c key) :: (_, query_execution_error) result)"
    and v1: "lfu_view elems c1 = (lfu_view elems c)(key := None)" and inv1: "lfu_inv elems (Suc n) c1"
    using lfu_remove_ok [OF assms(1), of key] view_drop [of _ c key] by metis
  let ?cur = "Option.bind (lfu_view elems c key) (\<lambda>e. e)"
  have "map_option visible ?cur = d key \<and> pred_option hm_wf ?cur"
  proof (cases "lfu_view elems c key")
    case None
    then have "d key = None" using complete by blast
    then show ?thesis by (simp add: None)
  next
    case (Some x)
    then show ?thesis using coherentD [OF coh Some] by simp
  qed
  then have cur: "map_option visible ?cur = d key" "pred_option hm_wf ?cur" by blast+
  have ins: "lfu_inv elems n (lfu_insert Q w c1 key x)"
      "lfu_view elems (lfu_insert Q w c1 key x) = (lfu_view elems c)(key \<mapsto> x)"
      "map_option visible x = r \<Longrightarrow> pred_option hm_wf x \<Longrightarrow>
         coherent (lfu_view elems (lfu_insert Q w c1 key x)) (d(key := r))" for x
    using lfu.insert_inv [OF inv1, of w key x] lfu.insert_view [OF inv1, of w key x] v1
      coherent_upd [OF coh, of x r key] by simp_all
  show ?thesis
  proof (cases upd)
    case None
    show ?thesis
    proof (cases ?cur)
      case None
      then show ?thesis using \<open>upd = None\<close> rem v1 cur lfu.inv_mono [OF inv1, of n] coherent_drop [OF coh, of key r]
        by (simp add: modification_for_def r_def after_update_def)
    next
      case (Some e)
      then show ?thesis using \<open>upd = None\<close> rem ins [of None] cur(1) [symmetric]
        by (auto simp: modification_for_def r_def after_update_def)
    qed
  next
    case (Some u)
    let ?data = "merge_remove_null_fields (case ?cur of None \<Rightarrow> [] | Some e \<Rightarrow> e) u"
    have data: "visible ?data = merged (d key) u"
      using upd Some cur(1) by (intro visible_merge_remove_null) auto
    have data_wf: "hm_wf ?data" using cur(2) by (cases ?cur) simp_all
    from data have r: "r = Some (visible ?data)" by (simp add: r_def after_update_def Some)
    show ?thesis
    proof (cases ?cur)
      case None
      then show ?thesis using Some rem ins [of "Some ?data"] r data_wf cur(1)
        by (auto simp: modification_for_def Let_def)
    next
      case (Some e)
      have "hm_wf u" using upd \<open>upd = Some u\<close> by (simp add: )
      then have "map_of ?data ''__typename'' = map_of e ''__typename''" if "\<not> mentions_typename upd"
        using that Some \<open>upd = Some u\<close> by (auto simp: mentions_typename_def merge_lookups)
      then have "\<not> hm_eq e ?data \<Longrightarrow> \<not> mentions_typename upd \<Longrightarrow> visible ?data \<noteq> visible e"
        using visible_eq_iff [of e ?data] by metis
      moreover have "d key = Some (visible e)" using cur(1) Some by simp
      ultimately show ?thesis
        using Some \<open>upd = Some u\<close> rem ins [of "Some ?data"] r data_wf hm_eq_visible [of e ?data]
        by (auto simp: modification_for_def Let_def)
    qed
  qed
qed

lemma push_modifications_ok:
  assumes "lfu_inv elems (length upd + n) c" and "coherent (lfu_view elems c) d"
    and "distinct (map fst upd)" and "\<forall>(k, u) \<in> set upd. pred_option hm_wf u"
    and "\<forall>(k, u) \<in> set upd. d k \<noteq> None \<longrightarrow> lfu_view elems c k \<noteq> None"
  shows "\<exists>ms c'. try_fold (push_modification Q w) upd (mods, c) = Ok (mods @ ms, c') \<and> lfu_inv elems n c'
    \<and> apply_mods ms d = (\<lambda>k. after_update (d k) (map_of upd k))
    \<and> coherent (lfu_view elems c') (apply_mods ms d)
    \<and> distinct (map mod_entity_key ms) \<and> set (map mod_entity_key ms) \<subseteq> set (map fst upd)
    \<and> (\<forall>m \<in> set ms. mod_fits m (d (mod_entity_key m))
         \<and> ((\<forall>(k, u) \<in> set upd. \<not> mentions_typename u) \<longrightarrow> mod_row m \<noteq> d (mod_entity_key m)))"
  using assms
proof (induction upd arbitrary: mods c d)
  case Nil
  then show ?case by (simp add: apply_mods_def after_update_def)
next
  case (Cons ku upd)
  obtain key u where ku: "ku = (key, u)" by fastforce
  let ?r = "after_update (d key) (Some u)"
  let ?d = "d(key := ?r)"
  have inv: "lfu_inv elems (Suc (length upd + n)) c" using Cons.prems(1) by simp
  obtain c1 m where c1: "modification_for Q w key u c = Ok (c1, m)" "lfu_inv elems (length upd + n) c1"
      "coherent (lfu_view elems c1) ?d" and same: "\<forall>k. k \<noteq> key \<longrightarrow> lfu_view elems c1 k = lfu_view elems c k"
    and m: "case m of None \<Rightarrow> ?r = d key
       | Some m \<Rightarrow> mod_entity_key m = key \<and> mod_row m = ?r \<and> mod_fits m (d key)
           \<and> (\<not> mentions_typename u \<longrightarrow> ?r \<noteq> d key)"
    using modification_for_ok [OF inv Cons.prems(2), of u key] Cons.prems(4,5) ku by auto
  let ?ms = "case m of None \<Rightarrow> [] | Some m \<Rightarrow> [m]"
  have step: "push_modification Q w ku (mods, c) = Ok (mods @ ?ms, c1)"
    using c1(1) by (simp add: push_modification_def ku split: option.splits)
  have dkey: "apply_mods ?ms d = ?d" using m by (cases m) (auto simp: apply_mods_def)
  have nk: "key \<notin> set (map fst upd)" using Cons.prems(3) ku by simp
  then have "k \<noteq> key" if "(k, v) \<in> set upd" for k v using that by force
  then have rest: "\<forall>(k, u) \<in> set upd. ?d k \<noteq> None \<longrightarrow> lfu_view elems c1 k \<noteq> None"
    using Cons.prems(5) same by fastforce
  have "distinct (map fst upd)" and "\<forall>(k, u) \<in> set upd. pred_option hm_wf u"
    using Cons.prems(3,4) by auto
  then obtain ms c' where
    IH: "try_fold (push_modification Q w) upd (mods @ ?ms, c1) = Ok ((mods @ ?ms) @ ms, c')"
      "lfu_inv elems n c'" "apply_mods ms ?d = (\<lambda>k. after_update (?d k) (map_of upd k))"
      "coherent (lfu_view elems c') (apply_mods ms ?d)" "distinct (map mod_entity_key ms)"
      "set (map mod_entity_key ms) \<subseteq> set (map fst upd)"
      "\<forall>m \<in> set ms. mod_fits m (?d (mod_entity_key m))
         \<and> ((\<forall>(k, u) \<in> set upd. \<not> mentions_typename u) \<longrightarrow> mod_row m \<noteq> ?d (mod_entity_key m))"
    using Cons.IH [OF c1(2,3) _ _ rest, of "mods @ ?ms"] by blast
  have off: "mod_entity_key m' \<noteq> key" if "m' \<in> set ms" for m' using that IH(6) nk by auto
  have "apply_mods (?ms @ ms) d = (\<lambda>k. after_update (d k) (map_of (ku # upd) k))"
    unfolding apply_mods_append dkey IH(3) using nk
    by (auto simp: ku fun_eq_iff after_update_def map_of_eq_None_iff [THEN iffD2])
  moreover have "coherent (lfu_view elems c') (apply_mods (?ms @ ms) d)"
    using IH(4) dkey by (simp add: apply_mods_append)
  moreover have "distinct (map mod_entity_key (?ms @ ms))"
    using IH(5) off m by (cases m) force+
  moreover have "set (map mod_entity_key (?ms @ ms)) \<subseteq> set (map fst (ku # upd))"
    using IH(6) m ku by (cases m) auto
  moreover have "\<forall>m \<in> set (?ms @ ms). mod_fits m (d (mod_entity_key m))
         \<and> ((\<forall>(k, u) \<in> set (ku # upd). \<not> mentions_typename u) \<longrightarrow> mod_row m \<noteq> d (mod_entity_key m))"
    using IH(7) off m ku by (cases m) auto
  moreover have "try_fold (push_modification Q w) (ku # upd) (mods, c) = Ok (mods @ (?ms @ ms), c')"
    using IH(1) step by simp
  ultimately show ?case using IH(2) by blast
qed

end

context entity_env
begin

lemma as_modifications_ok:
  assumes "lfu_inv elems (2 * length (updates ec) + n) (current ec)"
    and "coherent (lfu_view elems (current ec)) db"
    and "tracks (map_of (updates ec)) db s" and "bt_wf (updates ec)"
  shows "\<exists>mods c'. as_modifications Q w st ec = Ok (mods, c') \<and> lfu_inv elems n c'
    \<and> apply_mods mods db = s \<and> coherent (lfu_view elems c') s \<and> distinct (map mod_entity_key mods)
    \<and> (\<forall>m \<in> set mods. mod_fits m (db (mod_entity_key m))
         \<and> ((\<forall>(k, u) \<in> set (updates ec). \<not> mentions_typename u) \<longrightarrow> mod_row m \<noteq> db (mod_entity_key m)))"
proof -
  let ?keys = "map fst (updates ec)"
  let ?m = "missing_by_subgraph Q (current ec) ?keys"
  have m: "nested_wf ?m" "wanted ?m \<le> length (updates ec)"
    and wants: "\<And>key. wants ?m key \<longleftrightarrow> key \<in> set ?keys \<and> \<not> lfu_contains_key Q (current ec) key"
    using missing_by_subgraph_spec [of Q "current ec" ?keys] by auto
  have "lfu_inv elems (wanted ?m + (length (updates ec) + n)) (current ec)"
    using assms(1) m(2) by (elim lfu.inv_mono) simp
  from load_missing_ok [OF this assms(2) m(1)] obtain c where
    c: "load_missing Q w st ?m (current ec) = Ok c" "lfu_inv elems (length (updates ec) + n) c"
      "coherent (lfu_view elems c) db" "dom (lfu_view elems (current ec)) \<subseteq> dom (lfu_view elems c)"
      "\<forall>key. wants ?m key \<longrightarrow> db key \<noteq> None \<longrightarrow> key \<in> dom (lfu_view elems c)" by blast
  have present: "lfu_view elems c key \<noteq> None" if "key \<in> set ?keys" "db key \<noteq> None" for key
    using that c(4,5) wants lfu.contains_view [OF assms(1), of key] by blast
  have upd: "map_of (updates ec) k = Some u" if "(k, u) \<in> set (updates ec)" for k u
    using that bt_mem_iff [OF assms(4)] by blast
  have "\<forall>(k, u) \<in> set (updates ec). pred_option hm_wf u"
    using upd tracksD(2) [OF assms(3)] by (fastforce split: option.splits simp: pred_option_def)
  moreover have "\<forall>(k, u) \<in> set (updates ec). db k \<noteq> None \<longrightarrow> lfu_view elems c k \<noteq> None"
    using present by force
  ultimately obtain ms c' where
    loop: "try_fold (push_modification Q w) (updates ec) ([], c) = Ok ([] @ ms, c')" "lfu_inv elems n c'"
      "apply_mods ms db = (\<lambda>k. after_update (db k) (map_of (updates ec) k))"
      "coherent (lfu_view elems c') (apply_mods ms db)" "distinct (map mod_entity_key ms)"
      "\<forall>m \<in> set ms. mod_fits m (db (mod_entity_key m))
         \<and> ((\<forall>(k, u) \<in> set (updates ec). \<not> mentions_typename u) \<longrightarrow> mod_row m \<noteq> db (mod_entity_key m))"
    using push_modifications_ok [OF c(2,3) bt_wf_distinct [OF assms(4)], of "[]"] by blast
  have "s = apply_mods ms db" using loop(3) tracksD(1) [OF assms(3)] by auto
  with c(1) loop show ?thesis by (auto simp: as_modifications_def)
qed

lemma block_ok:
  assumes "lfu_inv elems (4 * length ops + n) c" and "coherent (lfu_view elems c) db" and "list_all op_wf ops"
  shows "\<exists>ec mods c'. ec_append Q w st (ec_with_current c) ops = Ok ec
    \<and> as_modifications Q w st ec = Ok (mods, c') \<and> lfu_inv elems n c'
    \<and> apply_mods mods db = spec_ops ops db \<and> coherent (lfu_view elems c') (spec_ops ops db)
    \<and> distinct (map mod_entity_key mods)
    \<and> (\<forall>m \<in> set mods. mod_fits m (db (mod_entity_key m))
         \<and> ((\<forall>(k, u) \<in> set (updates ec). \<not> mentions_typename u) \<longrightarrow> mod_row m \<noteq> db (mod_entity_key m)))"
proof -
  have "lfu_inv elems (2 * length ops + (2 * length ops + n)) (current (ec_with_current c))"
    using assms(1) by (simp add: ec_with_current_def)
  then obtain ec where ec: "ec_append Q w st (ec_with_current c) ops = Ok ec"
      "lfu_inv elems (2 * length ops + n) (current ec)" "coherent (lfu_view elems (current ec)) db"
      "tracks (map_of (updates ec)) db (spec_ops ops db)" "bt_wf (updates ec)"
      "length (updates ec) \<le> length ops"
    using ec_append_ok [of ops "2 * length ops + n" "ec_with_current c" db] assms(2,3)
    by (auto simp: ec_with_current_def tracks_def after_update_def)
  moreover have "lfu_inv elems (2 * length (updates ec) + n) (current ec)"
    using ec(2,6) by (elim lfu.inv_mono) simp
  ultimately show ?thesis using as_modifications_ok [of ec n "spec_ops ops db"] by blast
qed

end

section \<open>Updates of a fresh cache never mention the type name\<close>

definition typename_free :: "(entity_key \<Rightarrow> entity option option) \<Rightarrow> bool" where
  "typename_free view \<longleftrightarrow> (\<forall>k e. view k = Some (Some e) \<longrightarrow> map_of e ''__typename'' = None)"

context entity_queue
begin

lemma get_entity_typename_free:
  assumes "lfu_inv elems (Suc (Suc n)) c" and "typename_free (lfu_view elems c)"
    and "get_entity Q w st c key = Ok (c1, r)"
  shows "typename_free (lfu_view elems c1)" and "\<And>e. r = Some e \<Longrightarrow> map_of e ''__typename'' = None"
proof -
  obtain c0 r0 where g: "lfu_get Q c key = (c0, r0)" by fastforce
  have r0: "r0 = lfu_view elems c key" and c0: "lfu_view elems c0 = lfu_view elems c"
      "lfu_inv elems (Suc n) c0"
    using lfu.get_result [OF assms(1), of key] lfu.get_view [OF assms(1), of key]
      lfu.get_inv [OF assms(1), of key] g by auto
  have *: "typename_free (lfu_view elems c1) \<and> (\<forall>e. r = Some e \<longrightarrow> map_of e ''__typename'' = None)"
  proof (cases r0)
    case None
    then obtain x where x: "store_get st key = Ok x" "r = map_option (hm_remove ''__typename'') x"
        "c1 = lfu_insert Q w c0 key r"
      using assms(3) g by (auto simp: get_entity_def Let_def and_then_Ok_iff)
    then show ?thesis
      using assms(2) c0 lfu.insert_view [OF c0(2), of w key r]
      by (auto simp: typename_free_def map_simps split: if_splits)
  next
    case (Some y)
    then have "c1 = c0" "r = y" using assms(3) g by (auto simp: get_entity_def)
    then show ?thesis using assms(2) c0(1) r0 Some by (auto simp: typename_free_def)
  qed
  then show "typename_free (lfu_view elems c1)" "\<And>e. r = Some e \<Longrightarrow> map_of e ''__typename'' = None" by auto
qed

end

lemma mentions_typename_simps [simp]:
  "\<not> mentions_typename None"
  "mentions_typename (Some u) \<longleftrightarrow> map_of u ''__typename'' \<noteq> None"
  by (simp_all add: mentions_typename_def)

definition updates_free :: "'q entity_cache \<Rightarrow> bool" where
  "updates_free ec \<longleftrightarrow> (\<forall>k u. map_of (updates ec) k = Some u \<longrightarrow> \<not> mentions_typename u)"

lemma updates_free_insert:
  "updates_free ec \<Longrightarrow> \<not> mentions_typename u \<Longrightarrow>
     updates_free (ec\<lparr>updates := bt_insert key u (updates ec)\<rparr>)"
  "updates_free ec \<Longrightarrow> \<not> mentions_typename u \<Longrightarrow>
     updates_free (ec\<lparr>current := c, updates := bt_insert key u (updates ec)\<rparr>)"
  by (auto simp: updates_free_def map_simps)

context entity_env
begin

lemma ec_step_free:
  assumes "lfu_inv elems (Suc (Suc n)) (current ec)" and "typename_free (lfu_view elems (current ec))"
    and "updates_free ec" and "op_wf oper \<and> op_untyped oper" and "ec_step Q w st oper ec = Ok ec'"
  shows "typename_free (lfu_view elems (current ec')) \<and> updates_free ec'"
proof (cases oper)
  case (RemoveOp key)
  then show ?thesis using assms updates_free_insert(1) [of ec None key] by (auto simp: ec_remove_def)
next
  case (SetOp key data)
  then have wf: "hm_wf data" "map_of data ''__typename'' = None" using assms(4) by simp_all
  note ins = updates_free_insert [OF assms(3), of "Some _"]
  consider "map_of (updates ec) key = None" | u where "map_of (updates ec) key = Some (Some u)"
    | "map_of (updates ec) key = Some None"
    by (cases "map_of (updates ec) key") (auto split: option.splits)
  then show ?thesis
  proof cases
    case 1
    then show ?thesis using assms(2,5) wf SetOp ins(1) [of data] by (auto simp: ec_set_def)
  next
    case 2
    then have "\<not> mentions_typename (Some u)" using assms(3) unfolding updates_free_def by blast
    then have "map_of (merge u data) ''__typename'' = None"
      using wf by (simp add: merge_lookup)
    then show ?thesis using 2 assms(2,5) SetOp ins(1) [of "merge u data"] by (auto simp: ec_set_def)
  next
    case 3
    then obtain c1 r where g: "get_entity Q w st (current ec) key = Ok (c1, r)"
      and ec': "ec' = ec\<lparr>current := c1, updates := bt_insert key
        (Some (case r of None \<Rightarrow> data | Some e \<Rightarrow> null_missing (map fst e) data)) (updates ec)\<rparr>"
      using assms(5) SetOp by (auto simp: ec_set_def Let_def and_then_Ok_iff)
    note free = get_entity_typename_free [OF assms(1,2) g]
    have "map_of (case r of None \<Rightarrow> data | Some e \<Rightarrow> null_missing (map fst e) data) ''__typename'' = None"
    proof (cases r)
      case (Some e)
      then have "''__typename'' \<notin> fst ` set e" using free(2) by (simp add: map_of_eq_None_iff)
      then show ?thesis using wf Some by (simp add: map_of_null_missing)
    qed (simp add: wf)
    then show ?thesis using free(1) ec' ins(2) by simp
  qed
qed

lemma ec_append_free:
  assumes "lfu_inv elems (2 * length ops + n) (current ec)" and "coherent (lfu_view elems (current ec)) db"
    and "tracks (map_of (updates ec)) db s" and "list_all op_wf ops" and "list_all op_untyped ops"
    and "typename_free (lfu_view elems (current ec))" and "updates_free ec"
    and "ec_append Q w st ec ops = Ok ec'"
  shows "updates_free ec'"
  using assms unfolding ec_append_def
proof (induction ops arbitrary: ec s)
  case (Cons oper ops)
  have inv: "lfu_inv elems (Suc (Suc (2 * length ops + n))) (current ec)" using Cons.prems(1) by simp
  obtain ec1 where ec1: "ec_step Q w st oper ec = Ok ec1"
    "lfu_inv elems (2 * length ops + n) (current ec1)" "coherent (lfu_view elems (current ec1)) db"
    "tracks (map_of (updates ec1)) db (spec_op oper s)"
    using ec_step_ok [OF inv] Cons.prems by auto
  have "typename_free (lfu_view elems (current ec1))" "updates_free ec1"
    using ec_step_free [OF inv Cons.prems(6,7) _ ec1(1)] Cons.prems(4,5) by auto
  then show ?case using Cons.IH [OF ec1(2-4)] Cons.prems(4,5,8) ec1(1) by simp
qed simp

end

section \<open>Properties\<close>

text \<open>C1. One block: the operations of a mapping, appended to a cache that agrees with the store,
  are turned into modifications whose effect on the store is exactly that of the operations one
  after the other; no entity is in two modifications; inserts are of missing entities, overwrites
  and removals of existing ones; and the cache handed to the next block agrees with the new store.\<close>

theorem as_modifications_refines:
  assumes "priority_queue Q elems" and "entity_store st db"
    and "lfu_inv elems (4 * length ops) c" and "coherent (lfu_view elems c) db" and "list_all op_wf ops"
  shows "\<exists>mods c'. and_then (ec_append Q w st (ec_with_current c) ops) (as_modifications Q w st) = Ok (mods, c')
    \<and> apply_mods mods db = spec_ops ops db \<and> coherent (lfu_view elems c') (spec_ops ops db)
    \<and> distinct (map mod_entity_key mods) \<and> (\<forall>m \<in> set mods. mod_fits m (db (mod_entity_key m)))"
proof -
  have env: "entity_env Q elems st db"
    using assms(1,2) by (simp add: entity_env_def entity_queue_def)
  obtain ec mods c' where "ec_append Q w st (ec_with_current c) ops = Ok ec"
      "as_modifications Q w st ec = Ok (mods, c')" "apply_mods mods db = spec_ops ops db"
      "coherent (lfu_view elems c') (spec_ops ops db)" "distinct (map mod_entity_key mods)"
      "\<forall>m \<in> set mods. mod_fits m (db (mod_entity_key m))"
    using entity_env.block_ok [OF env, of ops 0 c w] assms(3-5) by auto
  then show ?thesis by auto
qed

text \<open>A store with one row, for the witnesses.\<close>

definition demo_key :: "string \<Rightarrow> entity_key" where
  "demo_key i = EntityKey ''sg'' ''Token'' i"

definition demo_row :: entity where
  "demo_row = [(''id'', VString ''a''), (''n'', VInt 1)]"

definition demo_stored :: entity where
  "demo_stored = (''__typename'', VString ''Token'') # demo_row"

definition demo_db :: db where
  "demo_db = [demo_key ''a'' \<mapsto> map_of demo_row]"

definition demo_store :: store_ops where
  "demo_store = \<lparr>
     store_get = (\<lambda>k. Ok (if k = demo_key ''a'' then Some demo_stored else None)),
     store_get_many = (\<lambda>sg ids. Ok
       (if sg = ''sg'' \<and> list_ex (\<lambda>(ty, is). ty = ''Token'' \<and> ''a'' \<in> set is) ids
        then [(''Token'', [demo_stored])] else [])) \<rparr>"

lemma demo_rows [simp]:
  "visible demo_stored = map_of demo_row" "hm_wf demo_stored" "entity_id_of demo_stored = Ok ''a''"
  "map_of demo_row ''__typename'' = None"
  by (simp_all add: demo_stored_def demo_row_def visible_def fun_eq_iff hm_wf_def entity_id_of.simps)

lemma demo_count:
  "(ty, is) \<in> set ids \<Longrightarrow> i \<in> set is \<Longrightarrow> Suc 0 \<le> (\<Sum>(ty, is) \<leftarrow> ids. length is)"
  by (induction ids) (force simp: Suc_le_eq)+

interpretation demo_entities: entity_store demo_store demo_db
proof (unfold_locales, goal_cases)
  case (2 sg ids)
  show ?case
  proof (cases "sg = ''sg'' \<and> list_ex (\<lambda>(ty, is). ty = ''Token'' \<and> ''a'' \<in> set is) ids")
    case True
    then show ?thesis
      using demo_count [of "''Token''" _ ids "''a''"]
      by (auto simp: demo_store_def demo_db_def demo_key_def list_ex_iff split: if_splits)
  next
    case False
    then show ?thesis
      by (auto simp: demo_store_def demo_db_def demo_key_def list_ex_iff split: if_splits)
  qed
qed (auto simp: demo_store_def demo_db_def split: if_splits)

definition demo_ops :: "entity_operation list" where
  "demo_ops =
     [SetOp (demo_key ''a'') [(''n'', VInt 2)], RemoveOp (demo_key ''a''),
      SetOp (demo_key ''a'') [(''id'', VString ''a'')], SetOp (demo_key ''b'') [(''id'', VString ''b''), (''n'', VNull)]]"

definition demo_entity_weight :: entity_weight where
  "demo_entity_weight k e = 8"

lemma demo_start:
  "lfu_inv list_elems (4 * length demo_ops) (lfu_new list_pq :: (entity_key, entity option) item list lfu_cache)"
  "coherent (lfu_view list_elems (lfu_new list_pq)) d" "list_all op_wf demo_ops" "list_all op_untyped demo_ops"
  by (simp_all add: lfu_inv_def lfu_new_def ref_queue.elems_new freqs_ok_def demo_ops_def coherent_def
      lfu_view_def hm_wf_def)

theorem as_modifications_refines_witness:
  "\<exists>mods c'. and_then (ec_append list_pq demo_entity_weight demo_store (ec_with_current (lfu_new list_pq)) demo_ops)
        (as_modifications list_pq demo_entity_weight demo_store) = Ok (mods, c')
     \<and> apply_mods mods demo_db = spec_ops demo_ops demo_db
     \<and> coherent (lfu_view list_elems c') (spec_ops demo_ops demo_db)"
  using as_modifications_refines
    [OF ref_queue.priority_queue_axioms demo_entities.entity_store_axioms demo_start(1-3), of demo_entity_weight]
  by auto

text \<open>C12. From a fresh cache, when no operation sets \<open>__typename\<close>, every modification changes what is
  stored: entities that end up as they are in the store produce none.\<close>

theorem as_modifications_minimal:
  assumes "priority_queue Q elems" and "entity_store st db"
    and "4 * length ops + 1 < 2 ^ 64" and "list_all op_wf ops" and "list_all op_untyped ops"
  shows "\<exists>mods c'. and_then (ec_append Q w st (ec_new Q) ops) (as_modifications Q w st) = Ok (mods, c')
    \<and> (\<forall>m \<in> set mods. mod_row m \<noteq> db (mod_entity_key m))"
proof -
  have env: "entity_env Q elems st db"
    using assms(1,2) by (simp add: entity_env_def entity_queue_def)
  have new: "elems (pq_new Q) = Map.empty" using assms(1) by (rule priority_queue.elems_new)
  then have inv: "lfu_inv elems n (lfu_new Q)" if "n \<le> 4 * length ops" for n
    using assms(3) that by (simp add: lfu_inv_def lfu_new_def freqs_ok_def)
  have v: "lfu_view elems (lfu_new Q) = Map.empty" using new by (simp add: lfu_view_def lfu_new_def fun_eq_iff)
  have ec_new: "ec_new Q = ec_with_current (lfu_new Q)" by (simp add: ec_new_def ec_with_current_def)
  obtain ec mods c' where ec: "ec_append Q w st (ec_new Q) ops = Ok ec"
      "as_modifications Q w st ec = Ok (mods, c')" and mods: "\<forall>m \<in> set mods.
         (\<forall>(k, u) \<in> set (updates ec). \<not> mentions_typename u) \<longrightarrow> mod_row m \<noteq> db (mod_entity_key m)"
    using entity_env.block_ok [OF env, of ops 0 "lfu_new Q" w] inv assms(4) v ec_new
    by (auto simp: coherent_def)
  have "updates_free ec"
    using entity_env.ec_append_free [OF env _ _ _ assms(4,5) _ _ ec(1), of 0 db] inv v
    by (simp add: ec_new_def coherent_def typename_free_def updates_free_def tracks_def after_update_def)
  moreover have "bt_wf (updates ec)"
    using entity_env.ec_append_ok [OF env, of ops 0 "ec_new Q" db w] inv v assms(4) ec(1)
    by (auto simp: ec_new_def coherent_def tracks_def after_update_def)
  ultimately have "\<forall>(k, u) \<in> set (updates ec). \<not> mentions_typename u"
    using bt_mem_iff [of "updates ec"] unfolding updates_free_def by fast
  with ec mods show ?thesis by auto
qed

theorem as_modifications_minimal_witness:
  "\<exists>mods c'. and_then (ec_append list_pq demo_entity_weight demo_store (ec_new list_pq) demo_ops)
        (as_modifications list_pq demo_entity_weight demo_store) = Ok (mods, c')
     \<and> (\<forall>m \<in> set mods. mod_row m \<noteq> demo_db (mod_entity_key m))"
  by (rule as_modifications_minimal
      [OF ref_queue.priority_queue_axioms demo_entities.entity_store_axioms _ demo_start(3,4)])
    (simp add: demo_ops_def)

text \<open>C13. A mapping reads its own writes: after any operations, \<open>get\<close> returns the entity as the
  operations leave it. An entity that is not in the store yet is returned as it was set, with the
  null fields that are dropped when it is written.\<close>

theorem entity_cache_get:
  assumes "priority_queue Q elems" and "entity_store st db"
    and "lfu_inv elems (2 * length ops + 2) c" and "coherent (lfu_view elems c) db" and "list_all op_wf ops"
  shows "\<exists>ec ec' r. ec_append Q w st (ec_with_current c) ops = Ok ec \<and> ec_get Q w st ec key = Ok (ec', r)
    \<and> (if db key = None \<and> map_of (updates ec) key \<noteq> None
       then map_option (merged None) r = spec_ops ops db key
       else map_option visible r = spec_ops ops db key)"
proof -
  have env: "entity_env Q elems st db"
    using assms(1,2) by (simp add: entity_env_def entity_queue_def)
  obtain ec where ec: "ec_append Q w st (ec_with_current c) ops = Ok ec"
    "lfu_inv elems (Suc (Suc 0)) (current ec)" "coherent (lfu_view elems (current ec)) db"
    "tracks (map_of (updates ec)) db (spec_ops ops db)"
    using entity_env.ec_append_ok [OF env, of ops 2 "ec_with_current c" db w] assms(3-5)
    by (auto simp: ec_with_current_def tracks_def after_update_def numeral_2_eq_2)
  from entity_env.ec_get_ok [OF env ec(2-4), of w key] obtain ec' r where
    "ec_get Q w st ec key = Ok (ec', r)" and "if db key = None \<and> map_of (updates ec) key \<noteq> None
       then r = the (map_of (updates ec) key) \<and> map_option (merged None) r = spec_ops ops db key
       else map_option visible r = spec_ops ops db key" by blast
  then have "ec_get Q w st ec key = Ok (ec', r)
    \<and> (if db key = None \<and> map_of (updates ec) key \<noteq> None
       then map_option (merged None) r = spec_ops ops db key
       else map_option visible r = spec_ops ops db key)" by (auto split: if_splits)
  with ec(1) show ?thesis by blast
qed

theorem entity_cache_get_witness:
  "\<exists>ec ec' r. ec_append list_pq demo_entity_weight demo_store (ec_with_current (lfu_new list_pq)) demo_ops = Ok ec
     \<and> ec_get list_pq demo_entity_weight demo_store ec (demo_key ''a'') = Ok (ec', r)
     \<and> map_option visible r = spec_ops demo_ops demo_db (demo_key ''a'')"
proof -
  have "lfu_inv list_elems (2 * length demo_ops + 2)
      (lfu_new list_pq :: (entity_key, entity option) item list lfu_cache)"
    using ref_queue.lfu_inv_mono [OF demo_start(1)] by (simp add: demo_ops_def)
  from entity_cache_get [OF ref_queue.priority_queue_axioms demo_entities.entity_store_axioms this
      demo_start(2,3), of demo_entity_weight "demo_key ''a''"]
  show ?thesis by (simp add: demo_db_def)
qed

text \<open>\<open>get_entity\<close> strips \<open>__typename\<close>, which is for queries and not for mappings, but
  \<open>as_modifications\<close> caches what \<open>get_many\<close> returns as it is: after a block that sets an entity
  not yet cached, the next block's mapping is given the entity with its \<open>__typename\<close>.\<close>

lemma as_modifications_caches_typename:
  assumes "priority_queue Q elems" and "store_get_many st sg [(ty, [i])] = Ok [(ty, [e])]"
    and "entity_id_of e = Ok i" and "map_of e ''__typename'' = Some v"
    and "hm_wf u" and "map_of u ''__typename'' = None"
  shows "\<exists>mods c' ec' e'.
    and_then (ec_set Q w st (ec_new Q) (EntityKey sg ty i) u) (as_modifications Q w st) = Ok (mods, c')
    \<and> ec_get Q w st (ec_with_current c') (EntityKey sg ty i) = Ok (ec', Some e')
    \<and> map_of e' ''__typename'' = Some v"
proof -
  let ?k = "EntityKey sg ty i"
  let ?c0 = "lfu_insert Q w (lfu_new Q) ?k (Some e)"
  let ?data = "merge_remove_null_fields e u"
  note pq = priority_queue.lfu_remove_ok [OF assms(1)] priority_queue.view_drop [OF assms(1)]
  have new: "elems (pq_new Q) = Map.empty" using assms(1) by (rule priority_queue.elems_new)
  then have inv0: "lfu_inv elems (Suc n) (lfu_new Q)" if "n < 9" for n
    using that by (simp add: lfu_inv_def lfu_new_def freqs_ok_def)
  have v0: "lfu_view elems (lfu_new Q) = Map.empty" using new by (simp add: lfu_view_def lfu_new_def fun_eq_iff)
  have "missing_by_subgraph Q (lfu_new Q) [?k] = [(sg, [(ty, [i])])]"
    using new priority_queue.get_elems [OF assms(1)]
    by (simp add: missing_by_subgraph_def lfu_contains_key_def lfu_new_def bt_entry_def)
  then have load: "load_missing Q w st (missing_by_subgraph Q (lfu_new Q) [?k]) (lfu_new Q) = Ok ?c0"
    using assms(2,3) by (simp add: load_missing_def cache_entities_def cache_entity_def)
  have c0: "lfu_view elems ?c0 = [?k \<mapsto> Some e]" "lfu_inv elems (Suc 1) ?c0"
    using priority_queue.view_lfu_insert [OF assms(1), of w "lfu_new Q" ?k "Some e"] v0
      priority_queue.inv_lfu_insert [OF assms(1) inv0 [of "Suc 1"], of w ?k "Some e"] by simp_all
  obtain c1 where c1: "lfu_remove Q ?c0 ?k = (Ok (c1, Some (Some e)) :: (_, query_execution_error) result)"
      "lfu_inv elems (Suc 1) c1"
    using pq(1) [OF c0(2), of ?k] c0(1) by auto
  let ?c2 = "lfu_insert Q w c1 ?k (Some ?data)"
  have c2: "lfu_view elems ?c2 ?k = Some (Some ?data)"
    using priority_queue.view_lfu_insert [OF assms(1), of w c1 ?k "Some ?data"] by simp
  have "\<exists>mods. and_then (ec_set Q w st (ec_new Q) ?k u) (as_modifications Q w st) = Ok (mods, ?c2)"
    using load c1(1)
    by (simp add: ec_set_def ec_new_def as_modifications_def push_modification_def modification_for_def Let_def)
  moreover obtain c3 where "lfu_get Q ?c2 ?k = (c3, Some (Some ?data))"
    using priority_queue.snd_lfu_get [OF assms(1), of ?c2 ?k] c2 by (metis prod.collapse)
  moreover have "map_of ?data ''__typename'' = Some v"
    using assms(4-6) by (simp add: merge_lookups)
  ultimately show ?thesis by (auto simp: ec_get_def get_entity_def ec_with_current_def)
qed

end
