(* ===== verification/EthTypes.thy ===== *)
theory EthTypes
  imports Scalars
begin

text \<open>
  Blocks, calls, logs and triggers of \<open>graph/src/components/ethereum/types.rs\<close>. Addresses and hashes
  are byte lists; of the types of the crate \<open>web3\<close> the records keep the fields that the code here
  reads. The main result is that the comparison of triggers, although it is not a total order on its
  own, sorts the triggers of a block by transaction, events before calls, block triggers last.
\<close>

type_synonym address = bytes
type_synonym h256 = bytes

section \<open>Blocks, logs and calls\<close>

record eth_log =
  log_address :: address
  log_topics :: "h256 list"
  log_data :: bytes
  log_block_hash :: "h256 option"
  log_block_number :: "u64 option"
  log_transaction_hash :: "h256 option"
  log_transaction_index :: "u64 option"
  log_index :: "u256 option"

record transaction =
  tx_hash :: h256
  tx_index :: "u64 option"

record light_block =
  bl_hash :: "h256 option"
  bl_parent_hash :: h256
  bl_number :: "u64 option"
  bl_transactions :: "transaction list"
  bl_uncles :: "h256 list"

record transaction_receipt =
  rc_block_hash :: "h256 option"
  rc_logs :: "eth_log list"

record eth_block =
  eb_block :: light_block
  eb_transaction_receipts :: "transaction_receipt list"

record eth_call =
  call_from :: address
  call_to :: address
  call_value :: u256
  call_gas_used :: u256
  call_input :: bytes
  call_output :: bytes
  call_block_number :: u64
  call_block_hash :: h256
  call_transaction_hash :: "h256 option"
  call_transaction_index :: u64

record block_with_calls =
  bc_block :: eth_block
  bc_calls :: "eth_call list"

datatype block_finality = Final light_block | NonFinal block_with_calls

datatype block_pointer = BlockPtr (ptr_hash: h256) (ptr_number: u64)

definition light_number :: "light_block \<Rightarrow> (u64, 'e) result" where
  "light_number b = expect (bl_number b)"

definition transaction_for_log :: "light_block \<Rightarrow> eth_log \<Rightarrow> transaction option" where
  "transaction_for_log b lg =
     Option.bind (log_transaction_hash lg) (\<lambda>h. find (\<lambda>tx. tx_hash tx = h) (bl_transactions b))"

definition transaction_for_call :: "light_block \<Rightarrow> eth_call \<Rightarrow> transaction option" where
  "transaction_for_call b c =
     Option.bind (call_transaction_hash c) (\<lambda>h. find (\<lambda>tx. tx_hash tx = h) (bl_transactions b))"

definition parent_ptr :: "light_block \<Rightarrow> (block_pointer option, 'e) result" where
  "parent_ptr b =
     and_then (light_number b) (\<lambda>n.
       Ok (if n = 0 then None else Some (BlockPtr (bl_parent_hash b) (n - 1))))"

fun finality_light_block :: "block_finality \<Rightarrow> light_block" where
  "finality_light_block (Final b) = b"
| "finality_light_block (NonFinal b) = eb_block (bc_block b)"

fun finality_number :: "block_finality \<Rightarrow> (u64, 'e) result" where
  "finality_number (Final b) = light_number b"
| "finality_number (NonFinal b) = light_number (eb_block (bc_block b))"

section \<open>Block pointers\<close>

definition ptr_of_block :: "light_block \<Rightarrow> (block_pointer, 'e) result" where
  "ptr_of_block b =
     and_then (expect (bl_hash b)) (\<lambda>h. and_then (expect (bl_number b)) (\<lambda>n. Ok (BlockPtr h n)))"

definition ptr_of_eth_block :: "eth_block \<Rightarrow> (block_pointer, 'e) result" where
  "ptr_of_eth_block b =
     and_then (expect (bl_hash (eb_block b))) (\<lambda>h.
     and_then (expect (bl_number (eb_block b))) (\<lambda>n. Ok (BlockPtr h n)))"

definition ptr_of_u64 :: "h256 \<Rightarrow> u64 \<Rightarrow> (block_pointer, 'e) result" where
  "ptr_of_u64 h number = (if number \<ge> push_bit 63 1 then Panic else Ok (BlockPtr h number))"

definition ptr_of_i64 :: "h256 \<Rightarrow> 64 word \<Rightarrow> (block_pointer, 'e) result" where
  "ptr_of_i64 h number = (if sint number < 0 then Panic else Ok (BlockPtr h number))"

definition ptr_of_call :: "eth_call \<Rightarrow> block_pointer" where
  "ptr_of_call c = BlockPtr (call_block_hash c) (call_block_number c)"

fun ptr_of_finality :: "block_finality \<Rightarrow> (block_pointer, 'e) result" where
  "ptr_of_finality (Final b) = ptr_of_block b"
| "ptr_of_finality (NonFinal b) = ptr_of_eth_block (bc_block b)"

section \<open>Calls from traces\<close>

record call_action =
  ca_from :: address
  ca_to :: address
  ca_value :: u256
  ca_input :: bytes

datatype trace_action = ActionCall call_action | ActionOther
datatype trace_result = ResCall u256 bytes | ResOther

record trace =
  tr_error :: "string option"
  tr_action :: trace_action
  tr_result :: "trace_result option"
  tr_transaction_position :: "u64 option"
  tr_block_number :: u64
  tr_block_hash :: h256
  tr_transaction_hash :: "h256 option"

definition try_from_trace :: "trace \<Rightarrow> eth_call option" where
  "try_from_trace t =
     (if tr_error t \<noteq> None then None
      else case tr_action t of
        ActionCall c \<Rightarrow>
          if length (ca_input c) \<ge> 4 then
            (case tr_result t of
               Some (ResCall gas_used output) \<Rightarrow>
                 (case tr_transaction_position t of
                    None \<Rightarrow> None
                  | Some i \<Rightarrow> Some
                      \<lparr>call_from = ca_from c, call_to = ca_to c, call_value = ca_value c,
                       call_gas_used = gas_used, call_input = ca_input c, call_output = output,
                       call_block_number = tr_block_number t, call_block_hash = tr_block_hash t,
                       call_transaction_hash = tr_transaction_hash t, call_transaction_index = i\<rparr>)
             | _ \<Rightarrow> None)
          else None
      | ActionOther \<Rightarrow> None)"

section \<open>Triggers and their order\<close>

datatype block_trigger_type = EveryBlock | WithCallTo address

datatype trigger =
    BlockTrigger block_pointer block_trigger_type
  | CallTrigger eth_call
  | LogTrigger eth_log

fun trigger_eq :: "trigger \<Rightarrow> trigger \<Rightarrow> bool" where
  "trigger_eq (BlockTrigger p k) (BlockTrigger p' k') \<longleftrightarrow> p = p' \<and> k = k'"
| "trigger_eq (CallTrigger a) (CallTrigger b) \<longleftrightarrow> a = b"
| "trigger_eq (LogTrigger a) (LogTrigger b) \<longleftrightarrow>
     log_transaction_hash a = log_transaction_hash b \<and> log_index a = log_index b"
| "trigger_eq _ _ \<longleftrightarrow> False"

fun trigger_block_number :: "trigger \<Rightarrow> (u64, 'e) result" where
  "trigger_block_number (BlockTrigger p _) = Ok (ptr_number p)"
| "trigger_block_number (CallTrigger c) = Ok (call_block_number c)"
| "trigger_block_number (LogTrigger l) = expect (log_block_number l)"

fun trigger_block_hash :: "trigger \<Rightarrow> (h256, 'e) result" where
  "trigger_block_hash (BlockTrigger p _) = Ok (ptr_hash p)"
| "trigger_block_hash (CallTrigger c) = Ok (call_block_hash c)"
| "trigger_block_hash (LogTrigger l) = expect (log_block_hash l)"

datatype ordering = Less | Equal | Greater

definition cmp_of :: "'a::linorder \<Rightarrow> 'a \<Rightarrow> ordering" where
  "cmp_of a b = (if a < b then Less else if a = b then Equal else Greater)"

text \<open>\<open>Ord for Option\<close>: \<open>None\<close> is below every \<open>Some\<close>.\<close>

fun cmp_option :: "'a::linorder option \<Rightarrow> 'a option \<Rightarrow> ordering" where
  "cmp_option None None = Equal"
| "cmp_option None (Some _) = Less"
| "cmp_option (Some _) None = Greater"
| "cmp_option (Some a) (Some b) = cmp_of a b"

text \<open>\<open>Ord for EthereumTrigger\<close>; comparing a call with a log that has no index panics.\<close>

fun trigger_cmp :: "trigger \<Rightarrow> trigger \<Rightarrow> (ordering, 'e) result" where
  "trigger_cmp (BlockTrigger _ _) (BlockTrigger _ _) = Ok Equal"
| "trigger_cmp (BlockTrigger _ _) _ = Ok Greater"
| "trigger_cmp _ (BlockTrigger _ _) = Ok Less"
| "trigger_cmp (CallTrigger a) (CallTrigger b) =
     Ok (cmp_of (call_transaction_index a) (call_transaction_index b))"
| "trigger_cmp (LogTrigger a) (LogTrigger b) = Ok (cmp_option (log_index a) (log_index b))"
| "trigger_cmp (CallTrigger a) (LogTrigger b) =
     and_then (expect (log_transaction_index b)) (\<lambda>i.
       Ok (if call_transaction_index a = i then Greater else cmp_of (call_transaction_index a) i))"
| "trigger_cmp (LogTrigger a) (CallTrigger b) =
     and_then (expect (log_transaction_index a)) (\<lambda>i.
       Ok (if i = call_transaction_index b then Less else cmp_of i (call_transaction_index b)))"

text \<open>
  \<open>Vec::sort\<close> is a stable sort that calls the comparison; for a comparison that is a total preorder
  every stable sort gives the same list, and this is the insertion sort.
\<close>

fun insert_trigger :: "trigger \<Rightarrow> trigger list \<Rightarrow> (trigger list, 'e) result" where
  "insert_trigger t [] = Ok [t]"
| "insert_trigger t (u # us) =
     and_then (trigger_cmp t u) (\<lambda>c.
       if c = Greater then and_then (insert_trigger t us) (\<lambda>vs. Ok (u # vs)) else Ok (t # u # us))"

fun sort_triggers :: "trigger list \<Rightarrow> (trigger list, 'e) result" where
  "sort_triggers [] = Ok []"
| "sort_triggers (t # ts) = and_then (sort_triggers ts) (insert_trigger t)"

record block_with_triggers =
  bt_block :: block_finality
  bt_triggers :: "trigger list"

definition block_with_triggers_new ::
  "trigger list \<Rightarrow> block_finality \<Rightarrow> (block_with_triggers, 'e) result" where
  "block_with_triggers_new triggers b =
     and_then (sort_triggers triggers) (\<lambda>ts. Ok \<lparr>bt_block = b, bt_triggers = ts\<rparr>)"

section \<open>The order as a key\<close>

text \<open>
  The position of a trigger in its block: block triggers last; before them by transaction, the logs
  of a transaction before its calls, logs by their index.
\<close>

fun trigger_key :: "trigger \<Rightarrow> nat \<times> nat \<times> nat \<times> nat" where
  "trigger_key (LogTrigger l) =
     (0, unat (the (log_transaction_index l)), 0, unat (the (log_index l)))"
| "trigger_key (CallTrigger c) = (0, unat (call_transaction_index c), 1, 0)"
| "trigger_key (BlockTrigger _ _) = (1, 0, 0, 0)"

text \<open>
  Logs of one block, as the Ethereum node reports them: they carry their indexes, and the log index
  counts through the block, so it grows with the transaction index.
\<close>

definition logs_of :: "trigger list \<Rightarrow> eth_log list" where
  "logs_of ts = List.map_filter (\<lambda>t. case t of LogTrigger l \<Rightarrow> Some l | _ \<Rightarrow> None) ts"

definition log_indexed :: "eth_log \<Rightarrow> bool" where
  "log_indexed l \<longleftrightarrow> log_transaction_index l \<noteq> None \<and> log_index l \<noteq> None"

definition logs_in_order :: "eth_log \<Rightarrow> eth_log \<Rightarrow> bool" where
  "logs_in_order a b \<longleftrightarrow>
     (the (log_index a) < the (log_index b) \<longrightarrow> the (log_transaction_index a) \<le> the (log_transaction_index b))
     \<and> (the (log_index a) = the (log_index b) \<longrightarrow> the (log_transaction_index a) = the (log_transaction_index b))"

definition block_logs :: "trigger list \<Rightarrow> bool" where
  "block_logs ts \<longleftrightarrow> list_all log_indexed (logs_of ts)
     \<and> list_all (\<lambda>a. list_all (logs_in_order a) (logs_of ts)) (logs_of ts)"

lemma logs_of_Cons: "logs_of (t # ts) = (case t of LogTrigger l \<Rightarrow> l # logs_of ts | _ \<Rightarrow> logs_of ts)"
  by (auto simp: logs_of_def map_filter_simps split: trigger.splits)

lemma set_logs_of: "l \<in> set (logs_of ts) \<longleftrightarrow> LogTrigger l \<in> set ts"
  by (induction ts) (auto simp: logs_of_Cons split: trigger.splits, simp add: logs_of_def map_filter_simps)

lemma block_logs_mono: "block_logs ts \<Longrightarrow> set us \<subseteq> set ts \<Longrightarrow> block_logs us"
proof -
  assume "block_logs ts" and "set us \<subseteq> set ts"
  moreover from this(2) have "set (logs_of us) \<subseteq> set (logs_of ts)" by (auto simp: set_logs_of)
  ultimately show ?thesis unfolding block_logs_def list_all_iff by blast
qed

text \<open>Under this hypothesis the comparison is the comparison of keys.\<close>

lemma trigger_cmp_key:
  assumes "block_logs ts" and "t \<in> set ts" and "u \<in> set ts"
  shows "trigger_cmp t u = Ok (cmp_of (trigger_key t) (trigger_key u))"
proof -
  have ix: "log_transaction_index l \<noteq> None" "log_index l \<noteq> None" if "LogTrigger l \<in> set ts" for l
    using assms(1) that by (auto simp: block_logs_def list_all_iff set_logs_of log_indexed_def)
  have ord: "logs_in_order a b" if "LogTrigger a \<in> set ts" "LogTrigger b \<in> set ts" for a b
    using assms(1) that by (auto simp: block_logs_def list_all_iff set_logs_of)
  show ?thesis
  proof (cases t; cases u)
    fix a b assume tu: "t = LogTrigger a" "u = LogTrigger b"
    then obtain i j k l where "log_transaction_index a = Some i" "log_index a = Some j"
        "log_transaction_index b = Some k" "log_index b = Some l"
      using ix [of a] ix [of b] assms(2,3) by auto
    moreover have "logs_in_order a b" "logs_in_order b a" using ord tu assms(2,3) by auto
    ultimately show ?thesis
      using tu by (auto simp: cmp_of_def logs_in_order_def word_less_nat_alt word_le_nat_alt word_unat_eq_iff)
  next
    fix a b assume "t = LogTrigger a" "u = CallTrigger b"
    then show ?thesis using ix [of a] assms(2)
      by (auto simp: cmp_of_def word_less_nat_alt word_unat_eq_iff)
  next
    fix a b assume "t = CallTrigger a" "u = LogTrigger b"
    then show ?thesis using ix [of b] assms(3)
      by (auto simp: cmp_of_def word_less_nat_alt word_unat_eq_iff)
  qed (auto simp: cmp_of_def word_less_nat_alt word_unat_eq_iff)
qed

lemma insert_trigger_key:
  assumes "block_logs (t # ts)"
  shows "insert_trigger t ts = Ok (insort_key trigger_key t ts)"
  using assms
proof (induction ts)
  case (Cons u us)
  have "block_logs (t # us)" by (rule block_logs_mono [OF Cons.prems]) auto
  then show ?case
    by (auto simp: trigger_cmp_key [OF Cons.prems] cmp_of_def Cons.IH)
qed simp

lemma sort_triggers_key: "block_logs ts \<Longrightarrow> sort_triggers ts = Ok (sort_key trigger_key ts)"
proof (induction ts)
  case (Cons t ts)
  have "block_logs ts" by (rule block_logs_mono [OF Cons.prems]) auto
  moreover have "block_logs (t # sort_key trigger_key ts)" by (rule block_logs_mono [OF Cons.prems]) auto
  ultimately show ?case by (simp add: Cons.IH insert_trigger_key)
qed simp

section \<open>Properties\<close>

text \<open>C19. For triggers of one block, sorting never panics and gives the stable sort by position in the
  block: by transaction, the events of a transaction before its calls and in the order of their log
  index, and all block triggers at the end in the order they were in.\<close>

theorem trigger_order:
  assumes "block_logs ts"
  shows "block_with_triggers_new ts b = Ok \<lparr>bt_block = b, bt_triggers = sort_key trigger_key ts\<rparr>
    \<and> sorted (map trigger_key (sort_key trigger_key ts))
    \<and> (\<forall>k. filter (\<lambda>t. trigger_key t = k) (sort_key trigger_key ts) = filter (\<lambda>t. trigger_key t = k) ts)"
  by (auto simp: block_with_triggers_new_def sort_key_stable sort_triggers_key [OF assms])

definition demo_log :: "u64 \<Rightarrow> u256 \<Rightarrow> eth_log" where
  "demo_log tx i = \<lparr>log_address = [], log_topics = [], log_data = [], log_block_hash = Some [], log_block_number = Some 0,
     log_transaction_hash = Some [], log_transaction_index = Some tx, log_index = Some i\<rparr>"

definition demo_call :: "u64 \<Rightarrow> eth_call" where
  "demo_call tx = \<lparr>call_from = [], call_to = [], call_value = 0, call_gas_used = 0, call_input = [], call_output = [],
     call_block_number = 0, call_block_hash = [], call_transaction_hash = None, call_transaction_index = tx\<rparr>"

definition demo_light :: light_block where
  "demo_light = \<lparr>bl_hash = Some [], bl_parent_hash = [], bl_number = Some 0, bl_transactions = [], bl_uncles = []\<rparr>"

theorem trigger_order_witness:
  "block_with_triggers_new
     [CallTrigger (demo_call 3), BlockTrigger (BlockPtr [] 1) EveryBlock, CallTrigger (demo_call 2),
      LogTrigger (demo_log 2 5), LogTrigger (demo_log 1 1)] (Final demo_light) =
   (Ok \<lparr>bt_block = Final demo_light, bt_triggers =
     [LogTrigger (demo_log 1 1), LogTrigger (demo_log 2 5), CallTrigger (demo_call 2),
      CallTrigger (demo_call 3), BlockTrigger (BlockPtr [] 1) EveryBlock]\<rparr> :: (_, unit) result)"
  using trigger_order [where b = "Final demo_light" and 'a = unit, of
      "[CallTrigger (demo_call 3), BlockTrigger (BlockPtr [] 1) EveryBlock, CallTrigger (demo_call 2),
      LogTrigger (demo_log 2 5), LogTrigger (demo_log 1 1)]"]
  by (simp add: block_logs_def logs_of_Cons logs_of_def map_filter_simps log_indexed_def logs_in_order_def
      demo_log_def demo_call_def)

text \<open>A call that comes out of a trace has at least the four bytes of a function selector, so the
  call filter never slices past the end of its input.\<close>

lemma traced_call_has_selector:
  "pred_option (\<lambda>c. 4 \<le> length (call_input c)) (try_from_trace t)"
  by (auto simp: try_from_trace_def split: trace_action.splits trace_result.splits option.splits)

end
