(* ===== verification/DataSources.thy ===== *)
theory DataSources
  imports EthTypes Values
begin

text \<open>
  The data sources of a subgraph and the templates they are created from
  (\<open>graph/src/data/subgraph/mod.rs\<close>), and the lookup of events and functions in a contract's ABI
  (\<open>graph/src/util/ethereum.rs\<close>). The types of the crate \<open>ethabi\<close> appear with the fields the code
  reads; a contract maps names to the overloaded events and functions of that name, and the order in
  which the crate iterates over them is the order of the association list. The hash function of
  \<open>tiny_keccak\<close> is the parameter \<open>keccak\<close>, the text of a parameter type as \<open>ethabi\<close> prints it
  the parameter \<open>kind_text\<close> and the parser of hexadecimal addresses the parameter \<open>h160_from_str\<close>.
\<close>

section \<open>Contract interfaces\<close>

datatype param_type =
    ParamAddress
  | ParamBytes
  | ParamInt nat
  | ParamUint nat
  | ParamBool
  | ParamString
  | ParamArray param_type
  | ParamFixedBytes nat
  | ParamFixedArray param_type nat
  | ParamTuple "param_type list"

record event_param =
  ep_name :: string
  ep_kind :: param_type
  ep_indexed :: bool

record abi_event =
  evt_name :: string
  evt_inputs :: "event_param list"

datatype state_mutability = PureFunction | ViewFunction | NonPayable | Payable

record function_param =
  fp_name :: string
  fp_kind :: param_type

record contract_function =
  cf_name :: string
  cf_inputs :: "function_param list"
  cf_outputs :: "function_param list"
  cf_mutability :: state_mutability

record contract =
  ct_functions :: "(string, contract_function list) hashmap"
  ct_events :: "(string, abi_event list) hashmap"

text \<open>\<open>Contract::events\<close> and \<open>Contract::functions\<close>: the overloads of every name in turn.\<close>

definition contract_events :: "contract \<Rightarrow> abi_event list" where
  "contract_events c = concat (map snd (ct_events c))"

definition contract_functions :: "contract \<Rightarrow> contract_function list" where
  "contract_functions c = concat (map snd (ct_functions c))"

section \<open>Data sources\<close>

record mapping_abi =
  ma_name :: string
  ma_contract :: contract
  ma_link :: string

datatype block_handler_filter = CallBlockFilter

record block_handler =
  bh_handler :: string
  bh_filter :: "block_handler_filter option"

record call_handler =
  chd_function :: string
  chd_handler :: string

record event_handler =
  eh_event :: string
  eh_topic0 :: "h256 option"
  eh_handler :: string

record source =
  src_address :: "address option"
  src_abi :: string
  src_start_block :: u64

record mapping =
  mp_kind :: string
  mp_api_version :: string
  mp_language :: string
  mp_entities :: "string list"
  mp_abis :: "mapping_abi list"
  mp_block_handlers :: "block_handler list"
  mp_call_handlers :: "call_handler list"
  mp_event_handlers :: "event_handler list"
  mp_runtime :: bytes
  mp_link :: string

record data_source_template =
  tp_kind :: string
  tp_network :: "string option"
  tp_name :: string
  tp_source_abi :: string
  tp_mapping :: mapping

record data_source =
  ds_kind :: string
  ds_network :: "string option"
  ds_name :: string
  ds_source :: source
  ds_mapping :: mapping
  ds_context :: "entity option"
  ds_templates :: "data_source_template list"

definition has_call_handler :: "mapping \<Rightarrow> bool" where
  "has_call_handler m \<longleftrightarrow> mp_call_handlers m \<noteq> []"

definition has_block_handler_with_call_filter :: "mapping \<Rightarrow> bool" where
  "has_block_handler_with_call_filter m \<longleftrightarrow>
     list_ex (\<lambda>h. case bh_filter h of Some CallBlockFilter \<Rightarrow> True | _ \<Rightarrow> False) (mp_block_handlers m)"

section \<open>Data sources created by mappings\<close>

record template_info =
  ti_data_source :: string
  ti_template :: data_source_template
  ti_params :: "string list"
  ti_context :: "entity option"

definition data_source_try_from :: "(string \<Rightarrow> address option) \<Rightarrow> template_info \<Rightarrow> (data_source, string) result" where
  "data_source_try_from h160_from_str info =
     (let template = ti_template info in
      case ti_params info of
        [] \<Rightarrow> Err (''Failed to create data source from template `'' @ tp_name template
                    @ ''`: address parameter is missing'')
      | param # _ \<Rightarrow>
          (case h160_from_str (trim_start_0x param) of
             None \<Rightarrow> Err (''Failed to create data source from template `'' @ tp_name template
                          @ ''`, invalid address provided'')
           | Some addr \<Rightarrow>
               Ok \<lparr>ds_kind = tp_kind template, ds_network = tp_network template, ds_name = tp_name template,
                   ds_source = \<lparr>src_address = Some addr, src_abi = tp_source_abi template, src_start_block = 0\<rparr>,
                   ds_mapping = tp_mapping template, ds_context = ti_context info, ds_templates = []\<rparr>))"

section \<open>Signatures\<close>

text \<open>\<open>str::replace(pat, "")\<close> for a pattern that is not empty.\<close>

function remove_pattern :: "string \<Rightarrow> string \<Rightarrow> string" where
  "remove_pattern pat s =
     (if pat = [] \<or> s = [] then s
      else if take (length pat) s = pat then remove_pattern pat (drop (length pat) s)
      else hd s # remove_pattern pat (tl s))"
  by pat_completeness auto
termination
  by (relation "measure (\<lambda>(pat, s). length s)") auto

declare remove_pattern.simps [simp del]

definition char_bytes :: "string \<Rightarrow> bytes" where
  "char_bytes s = map of_char s"

definition string_to_h256 :: "(bytes \<Rightarrow> bytes) \<Rightarrow> string \<Rightarrow> h256" where
  "string_to_h256 keccak s = keccak (char_bytes (remove_pattern '' '' s))"

definition topic0 :: "(bytes \<Rightarrow> bytes) \<Rightarrow> event_handler \<Rightarrow> h256" where
  "topic0 keccak h =
     (case eh_topic0 h of
        Some t \<Rightarrow> t
      | None \<Rightarrow> string_to_h256 keccak (remove_pattern ''indexed '' (eh_event h)))"

definition size_text :: "nat \<Rightarrow> string" where
  "size_text n = digit_string (int n)"

fun event_param_type_signature :: "param_type \<Rightarrow> string" and tuple_signature :: "param_type list \<Rightarrow> string list" where
  "event_param_type_signature ParamAddress = ''address''"
| "event_param_type_signature ParamBytes = ''bytes''"
| "event_param_type_signature (ParamInt n) = ''int'' @ size_text n"
| "event_param_type_signature (ParamUint n) = ''uint'' @ size_text n"
| "event_param_type_signature ParamBool = ''bool''"
| "event_param_type_signature ParamString = ''string''"
| "event_param_type_signature (ParamArray inner) = event_param_type_signature inner @ ''[]''"
| "event_param_type_signature (ParamFixedBytes n) = ''bytes'' @ size_text n"
| "event_param_type_signature (ParamFixedArray inner n) =
     event_param_type_signature inner @ ''['' @ size_text n @ '']''"
| "event_param_type_signature (ParamTuple components) =
     ''('' @ join_with '','' (tuple_signature components) @ '')''"
| "tuple_signature [] = []"
| "tuple_signature (c # cs) = event_param_type_signature c # tuple_signature cs"

definition ambiguous_event_signature :: "abi_event \<Rightarrow> string" where
  "ambiguous_event_signature event =
     evt_name event @ ''('' @ join_with '','' (map (\<lambda>i. event_param_type_signature (ep_kind i)) (evt_inputs event)) @ '')''"

definition event_signature :: "abi_event \<Rightarrow> string" where
  "event_signature event =
     evt_name event @ ''('' @ join_with '','' (map (\<lambda>i.
         (if ep_indexed i then ''indexed '' else []) @ event_param_type_signature (ep_kind i)) (evt_inputs event)) @ '')''"

text \<open>\<open>&signature[0..signature.find("(").unwrap_or(0)]\<close>\<close>

definition signature_name :: "string \<Rightarrow> string" where
  "signature_name signature = (if CHR ''('' \<in> set signature then takeWhile (\<lambda>c. c \<noteq> CHR ''('') signature else [])"

definition contract_event_with_signature :: "contract \<Rightarrow> string \<Rightarrow> abi_event option" where
  "contract_event_with_signature c signature =
     (case find (\<lambda>e. event_signature e = signature) (contract_events c) of
        Some e \<Rightarrow> Some e
      | None \<Rightarrow>
          (case filter (\<lambda>e. evt_name e = signature_name signature) (contract_events c) of
             [e] \<Rightarrow> if ambiguous_event_signature e = signature then Some e else None
           | _ \<Rightarrow> None))"

definition contract_function_with_signature ::
  "(param_type \<Rightarrow> string) \<Rightarrow> contract \<Rightarrow> string \<Rightarrow> contract_function option" where
  "contract_function_with_signature kind_text c target_signature =
     find (\<lambda>f. target_signature =
         cf_name f @ ''('' @ join_with '','' (map (\<lambda>i. kind_text (fp_kind i)) (cf_inputs f)) @ '')'')
       (filter (\<lambda>f. cf_mutability f \<in> {Payable, NonPayable}) (contract_functions c))"

section \<open>The topic of a handler is the hash of the event it finds\<close>

lemma remove_pattern_simps [simp]:
  "remove_pattern pat [] = []"
  "remove_pattern [] s = s"
  by (simp_all add: remove_pattern.simps)

text \<open>Where a character of the pattern is missing nothing is removed.\<close>

lemma remove_pattern_absent: "x \<in> set pat \<Longrightarrow> x \<notin> set s \<Longrightarrow> remove_pattern pat s = s"
proof (induction s)
  case (Cons c s)
  have "take (length pat) (c # s) \<noteq> pat" using Cons.prems by (metis in_set_takeD)
  then show ?case using Cons by (subst remove_pattern.simps) auto
qed simp

text \<open>A pattern that ends with a character found nowhere before it is removed where it stands.\<close>

lemma remove_pattern_skip:
  assumes "x \<notin> set xs" and "x \<notin> set p"
  shows "remove_pattern (p @ [x]) (xs @ (p @ [x]) @ ys) = xs @ remove_pattern (p @ [x]) ys"
  using assms(1)
proof (induction xs)
  case Nil
  show ?case by (subst remove_pattern.simps) simp
next
  case (Cons c xs)
  let ?s = "c # xs @ (p @ [x]) @ ys"
  have "take (length (p @ [x])) ?s \<noteq> p @ [x]"
  proof
    assume eq: "take (length (p @ [x])) ?s = p @ [x]"
    have "?s ! length p = (take (length (p @ [x])) ?s) ! length p" by (rule nth_take [symmetric]) simp
    then have "?s ! length p = x" unfolding eq by simp
    moreover have "?s = (c # xs @ p) @ x # ys" by simp
    then have "?s ! length p = (c # xs @ p) ! length p" by (simp only: nth_append) simp
    moreover have "(c # xs @ p) ! length p \<in> set (c # xs @ p)" by (rule nth_mem) simp
    ultimately show False using Cons.prems assms(2) by auto
  qed
  then show ?case using Cons by (subst remove_pattern.simps) auto
qed

definition plain :: "string \<Rightarrow> bool" where
  "plain s \<longleftrightarrow> CHR '' '' \<notin> set s"

lemma plain_simps [simp]:
  "plain []" "plain (c # s) \<longleftrightarrow> c \<noteq> CHR '' '' \<and> plain s" "plain (s @ t) \<longleftrightarrow> plain s \<and> plain t"
  by (auto simp: plain_def)

lemma plain_join: "list_all plain ss \<Longrightarrow> plain sep \<Longrightarrow> plain (join_with sep ss)"
  by (induction sep ss rule: join_with.induct) auto

lemma plain_size_text [simp]: "plain (size_text n)"
proof -
  have "hex_char d \<noteq> CHR '' ''" if "d < 10" for d
    using that by (auto simp: less_Suc_eq_0_disj numeral_eq_Suc)
  then show ?thesis
    using nat_digits_be_small [of n] unfolding plain_def size_text_def digit_string_def list_all_iff
    by (simp del: hex_char.simps) (metis imageE)
qed

lemma plain_type_signature [simp]:
  "plain (event_param_type_signature k)" and "list_all plain (tuple_signature ks)"
  by (induction k and ks rule: event_param_type_signature_tuple_signature.induct) (auto intro!: plain_join)

lemma remove_indexed_join:
  assumes "\<And>i. plain (g i)" and "plain xs"
  shows "remove_pattern ''indexed '' (xs @ join_with '','' (map (\<lambda>i. (if P i then ''indexed '' else []) @ g i) is) @ '')'')
    = xs @ join_with '','' (map g is) @ '')''"
  using assms(2)
proof (induction "is" arbitrary: xs rule: induct_list012)
  case 1
  then show ?case unfolding list.map join_with.simps append_Nil by (intro remove_pattern_absent [of "CHR '' ''"]) (auto simp: plain_def)
next
  case (2 i)
  have "remove_pattern ''indexed '' (g i @ '')'') = g i @ '')''" "remove_pattern ''indexed '' (xs @ g i @ '')'') = xs @ g i @ '')''"
    using assms(1) [of i] 2 by (intro remove_pattern_absent [of "CHR '' ''"]; simp add: plain_def)+
  then show ?case
    using remove_pattern_skip [of "CHR '' ''" xs "''indexed''" "g i @ '')''"] 2 by (simp add: plain_def)
next
  case (3 i j "is")
  let ?rest = "join_with '','' (map (\<lambda>i. (if P i then ''indexed '' else []) @ g i) (j # is)) @ '')''"
  have IH: "remove_pattern ''indexed '' (ys @ ?rest) = ys @ join_with '','' (map g (j # is)) @ '')''" if "plain ys" for ys
    using 3(2) [OF that] .
  show ?case
  proof (cases "P i")
    case True
    then show ?thesis
      using remove_pattern_skip [of "CHR '' ''" xs "''indexed''" "g i @ '','' @ ?rest"] IH [of "g i @ '',''"] assms(1) 3(3)
      by (simp add: plain_def)
  next
    case False
    then show ?thesis using IH [of "xs @ g i @ '',''"] assms(1) 3(3) by simp
  qed
qed

lemma remove_indexed_event_signature:
  assumes "plain (evt_name e)"
  shows "remove_pattern ''indexed '' (event_signature e) = ambiguous_event_signature e"
  using remove_indexed_join [of "\<lambda>i. event_param_type_signature (ep_kind i)" "evt_name e @ ''(''" ep_indexed "evt_inputs e"] assms
  by (simp add: event_signature_def ambiguous_event_signature_def)

lemma plain_ambiguous: "plain (evt_name e) \<Longrightarrow> plain (ambiguous_event_signature e)"
  by (auto simp: ambiguous_event_signature_def list_all_iff intro!: plain_join)

text \<open>The event that is found has the signature, or is the only one of its name and has it without
  its \<open>indexed\<close> hints.\<close>

lemma contract_event_found:
  assumes "contract_event_with_signature c signature = Some e"
  shows "e \<in> set (contract_events c)" and "signature \<in> {event_signature e, ambiguous_event_signature e}"
  using assms
  by (auto simp: contract_event_with_signature_def find_Some_iff dest: filter_eq_ConsD
      split: option.splits list.splits if_splits)

text \<open>C34. The topic that a handler's logs are selected by is the hash of the signature, without
  \<open>indexed\<close> hints, of the very event whose ABI decodes them: the manifest's text and the contract's
  interface cannot name different events. Event names contain no blank.\<close>

theorem handler_topic_is_event_hash:
  assumes "contract_event_with_signature c (eh_event h) = Some e" and "plain (evt_name e)" and "eh_topic0 h = None"
  shows "e \<in> set (contract_events c) \<and> topic0 keccak h = keccak (char_bytes (ambiguous_event_signature e))"
proof -
  have ambiguous: "plain (ambiguous_event_signature e)" using assms(2) by (rule plain_ambiguous)
  have "remove_pattern ''indexed '' (eh_event h) = ambiguous_event_signature e"
    using contract_event_found(2) [OF assms(1)] remove_indexed_event_signature [OF assms(2)]
      remove_pattern_absent [of "CHR '' ''" "''indexed ''" "ambiguous_event_signature e"] ambiguous
    by (auto simp: plain_def)
  moreover have "remove_pattern '' '' (ambiguous_event_signature e) = ambiguous_event_signature e"
    using ambiguous by (intro remove_pattern_absent [of "CHR '' ''"]) (auto simp: plain_def)
  ultimately show ?thesis
    using contract_event_found(1) [OF assms(1)] assms(3) by (simp add: topic0_def string_to_h256_def)
qed

definition demo_abi :: contract where
  "demo_abi = \<lparr>ct_functions = [(''pay'', [\<lparr>cf_name = ''pay'', cf_inputs = [], cf_outputs = [], cf_mutability = Payable\<rparr>])],
     ct_events = [(''Sold'', [\<lparr>evt_name = ''Sold'',
       evt_inputs = [\<lparr>ep_name = ''to'', ep_kind = ParamAddress, ep_indexed = True\<rparr>,
         \<lparr>ep_name = ''n'', ep_kind = ParamUint 256, ep_indexed = False\<rparr>]\<rparr>])]\<rparr>"

definition demo_handler :: "string \<Rightarrow> event_handler" where
  "demo_handler event = \<lparr>eh_event = event, eh_topic0 = None, eh_handler = ''handleSold''\<rparr>"

theorem handler_topic_is_event_hash_witness:
  "topic0 rev (demo_handler ''Sold(address,uint256)'') = rev (char_bytes ''Sold(address,uint256)'')
   \<and> topic0 rev (demo_handler ''Sold(indexed address,uint256)'') = rev (char_bytes ''Sold(address,uint256)'')"
proof -
  let ?e = "hd (contract_events demo_abi)"
  have sig: "event_signature ?e = ''Sold(indexed address,uint256)''" "ambiguous_event_signature ?e = ''Sold(address,uint256)''"
    by code_simp+
  have found: "contract_event_with_signature demo_abi (eh_event (demo_handler ''Sold(address,uint256)'')) = Some ?e"
      "contract_event_with_signature demo_abi (eh_event (demo_handler ''Sold(indexed address,uint256)'')) = Some ?e"
    by code_simp+
  have "plain (evt_name ?e)" "eh_topic0 (demo_handler s) = None" for s
    by (simp_all add: demo_abi_def contract_events_def demo_handler_def)
  then show ?thesis
    using handler_topic_is_event_hash [OF found(1), of rev] handler_topic_is_event_hash [OF found(2), of rev] sig(2) by simp
qed

end
