(* ===== verification/EthFilters.thy ===== *)
theory EthFilters
  imports DataSources
begin

text \<open>
  The filters that decide which logs, calls and blocks trigger a subgraph
  (\<open>graph/src/components/ethereum/adapter.rs\<close>), built from its data sources. The undirected graph of the crate \<open>petgraph\<close> in the log filter
  is the record \<open>log_graph\<close> of its nodes and edges; the order in which it iterates over them is not
  specified and is the parameter \<open>iter\<close>. The hash function of \<open>tiny_keccak\<close> is the parameter
  \<open>keccak\<close>. Hash sets are sets.
\<close>

section \<open>The log filter\<close>

datatype log_filter_node = ContractNode address | EventNode h256

record log_graph =
  lg_nodes :: "log_filter_node list"
  lg_edges :: "(log_filter_node \<times> log_filter_node) list"

record get_logs_filter =
  gl_contracts :: "address list"
  gl_event_signatures :: "h256 list"

record log_filter =
  contracts_and_events_graph :: log_graph
  wildcard_events :: "h256 set"

definition log_filter_default :: log_filter where
  "log_filter_default = \<lparr>contracts_and_events_graph = \<lparr>lg_nodes = [], lg_edges = []\<rparr>, wildcard_events = {}\<rparr>"

definition add_edge :: "log_filter_node \<Rightarrow> log_filter_node \<Rightarrow> log_graph \<Rightarrow> log_graph" where
  "add_edge s t g =
     \<lparr>lg_nodes = List.insert t (List.insert s (lg_nodes g)),
      lg_edges = (if (s, t) \<in> set (lg_edges g) \<or> (t, s) \<in> set (lg_edges g) then lg_edges g
                  else lg_edges g @ [(s, t)])\<rparr>"

definition neighbors :: "log_graph \<Rightarrow> log_filter_node \<Rightarrow> log_filter_node list" where
  "neighbors g n =
     List.map_filter (\<lambda>(s, t). if s = n then Some t else if t = n then Some s else None) (lg_edges g)"

definition remove_node :: "log_filter_node \<Rightarrow> log_graph \<Rightarrow> log_graph" where
  "remove_node n g =
     \<lparr>lg_nodes = filter (\<lambda>m. m \<noteq> n) (lg_nodes g),
      lg_edges = filter (\<lambda>(s, t). s \<noteq> n \<and> t \<noteq> n) (lg_edges g)\<rparr>"

definition log_filter_matches :: "log_filter \<Rightarrow> eth_log \<Rightarrow> bool" where
  "log_filter_matches self lg =
     (case log_topics lg of
        [] \<Rightarrow> False
      | sig # _ \<Rightarrow>
          let contract = ContractNode (log_address lg); event = EventNode sig in
          list_ex (\<lambda>(s, t). (s = contract \<and> t = event) \<or> (t = contract \<and> s = event))
            (lg_edges (contracts_and_events_graph self))
          \<or> sig \<in> wildcard_events self)"

definition log_filter_add :: "address option \<Rightarrow> h256 \<Rightarrow> log_filter \<Rightarrow> log_filter" where
  "log_filter_add addr event_sig this =
     (case addr of
        Some contract \<Rightarrow> this\<lparr>contracts_and_events_graph :=
          add_edge (ContractNode contract) (EventNode event_sig) (contracts_and_events_graph this)\<rparr>
      | None \<Rightarrow> this\<lparr>wildcard_events := insert event_sig (wildcard_events this)\<rparr>)"

definition log_filter_from_data_sources :: "(bytes \<Rightarrow> bytes) \<Rightarrow> data_source list \<Rightarrow> log_filter" where
  "log_filter_from_data_sources keccak dss =
     fold (\<lambda>ds. fold (\<lambda>h. log_filter_add (src_address (ds_source ds)) (topic0 keccak h))
         (mp_event_handlers (ds_mapping ds))) dss log_filter_default"

definition log_filter_extend :: "log_filter \<Rightarrow> log_filter \<Rightarrow> log_filter" where
  "log_filter_extend self other =
     self\<lparr>contracts_and_events_graph :=
            fold (\<lambda>(s, t). add_edge s t) (lg_edges (contracts_and_events_graph other))
              (contracts_and_events_graph self),
          wildcard_events := wildcard_events self \<union> wildcard_events other\<rparr>"

definition log_filter_is_empty :: "log_filter \<Rightarrow> bool" where
  "log_filter_is_empty self \<longleftrightarrow>
     length (lg_edges (contracts_and_events_graph self)) = 0 \<and> wildcard_events self = {}"

text \<open>\<open>Iterator::max_by_key\<close>: the last of the elements with the greatest key.\<close>

fun max_by_key :: "('a \<Rightarrow> nat) \<Rightarrow> 'a list \<Rightarrow> 'a option" where
  "max_by_key f [] = None"
| "max_by_key f (x # xs) =
     (case max_by_key f xs of
        None \<Rightarrow> Some x
      | Some y \<Rightarrow> if f x > f y then Some x else Some y)"

fun push_neighbor :: "log_filter_node \<Rightarrow> get_logs_filter \<Rightarrow> get_logs_filter" where
  "push_neighbor (ContractNode a) f = f\<lparr>gl_contracts := gl_contracts f @ [a]\<rparr>"
| "push_neighbor (EventNode e) f = f\<lparr>gl_event_signatures := gl_event_signatures f @ [e]\<rparr>"

definition vertex_filter ::
  "(log_filter_node list \<Rightarrow> log_filter_node list) \<Rightarrow> log_graph \<Rightarrow> log_filter_node \<Rightarrow>
     (get_logs_filter, unit) result" where
  "vertex_filter iter g max_vertex =
     (let start = (case max_vertex of
            ContractNode a \<Rightarrow> \<lparr>gl_contracts = [a], gl_event_signatures = []\<rparr>
          | EventNode e \<Rightarrow> \<lparr>gl_contracts = [], gl_event_signatures = [e]\<rparr>);
          f = fold push_neighbor (iter (neighbors g max_vertex)) start
      in if \<not> (length (gl_contracts f) > 0 \<and> length (gl_event_signatures f) > 0) then Panic
         else if \<not> (length (gl_contracts f) = 1 \<or> length (gl_event_signatures f) = 1) then Panic
         else Ok f)"

text \<open>The \<open>while\<close> loop over the graph; \<open>None\<close> is a loop that never ends.\<close>

partial_function (option) get_logs_loop ::
  "(log_filter_node list \<Rightarrow> log_filter_node list) \<Rightarrow> get_logs_filter list \<Rightarrow> log_graph \<Rightarrow>
     (get_logs_filter list, unit) result option" where
  "get_logs_loop iter filters g =
     (if length (lg_edges g) > 0 then
        (case max_by_key (\<lambda>n. length (iter (neighbors g n))) (iter (lg_nodes g)) of
           None \<Rightarrow> Some Panic
         | Some max_vertex \<Rightarrow>
             (case vertex_filter iter g max_vertex of
                Ok f \<Rightarrow> get_logs_loop iter (filters @ [f]) (remove_node max_vertex g)
              | r \<Rightarrow> Some Panic))
      else Some (Ok filters))"

definition eth_get_logs_filters ::
  "(log_filter_node list \<Rightarrow> log_filter_node list) \<Rightarrow> (h256 set \<Rightarrow> h256 list) \<Rightarrow> log_filter \<Rightarrow>
     (get_logs_filter list, unit) result option" where
  "eth_get_logs_filters iter set_iter self =
     get_logs_loop iter
       (map (\<lambda>e. \<lparr>gl_contracts = [], gl_event_signatures = [e]\<rparr>) (set_iter (wildcard_events self)))
       (contracts_and_events_graph self)"

section \<open>The graph is bipartite\<close>

text \<open>Every edge goes from a contract to an event, and its ends are nodes of the graph.\<close>

definition graph_wf :: "log_graph \<Rightarrow> bool" where
  "graph_wf g \<longleftrightarrow> distinct (lg_edges g)
     \<and> (\<forall>(s, t) \<in> set (lg_edges g). s \<in> set (lg_nodes g) \<and> t \<in> set (lg_nodes g)
          \<and> (\<exists>a e. s = ContractNode a \<and> t = EventNode e))"

lemma graph_wfD:
  "graph_wf g \<Longrightarrow> (s, t) \<in> set (lg_edges g) \<Longrightarrow>
     s \<in> set (lg_nodes g) \<and> t \<in> set (lg_nodes g) \<and> (\<exists>a e. s = ContractNode a \<and> t = EventNode e)"
  by (auto simp: graph_wf_def)

lemma graph_wf_add_edge: "graph_wf g \<Longrightarrow> graph_wf (add_edge (ContractNode a) (EventNode e) g)"
  by (auto simp: graph_wf_def add_edge_def)

lemma graph_wf_remove: "graph_wf g \<Longrightarrow> graph_wf (remove_node n g)"
  by (auto simp: graph_wf_def remove_node_def)

lemma edges_add_edge:
  "graph_wf g \<Longrightarrow> set (lg_edges (add_edge (ContractNode a) (EventNode e) g)) =
     insert (ContractNode a, EventNode e) (set (lg_edges g))"
  by (auto simp: add_edge_def dest: graph_wfD)

lemma graph_wf_add_edges:
  "graph_wf g \<Longrightarrow> (\<And>s t. (s, t) \<in> set es \<Longrightarrow> \<exists>a e. s = ContractNode a \<and> t = EventNode e) \<Longrightarrow>
     graph_wf (fold (\<lambda>(s, t). add_edge s t) es g)
     \<and> set (lg_edges (fold (\<lambda>(s, t). add_edge s t) es g)) = set (lg_edges g) \<union> set es"
proof (induction es arbitrary: g)
  case (Cons st es)
  obtain a e where st: "st = (ContractNode a, EventNode e)"
    using Cons.prems(2) by (metis list.set_intros(1) surj_pair)
  let ?g = "add_edge (ContractNode a) (EventNode e) g"
  have "graph_wf ?g" using Cons.prems(1) by (rule graph_wf_add_edge)
  with Cons.IH [OF this] Cons.prems(2) edges_add_edge [OF Cons.prems(1), of a e] show ?case
    by (auto simp: st)
qed simp

lemma set_neighbors:
  "m \<in> set (neighbors g n) \<longleftrightarrow> (n, m) \<in> set (lg_edges g) \<or> (m, n) \<in> set (lg_edges g)"
  by (force simp: neighbors_def set_map_filter split: if_splits)

lemma max_by_key_None: "max_by_key f xs = None \<longleftrightarrow> xs = []"
  by (cases xs) (auto split: option.splits)

lemma max_by_key_Some:
  "max_by_key f xs = Some x \<Longrightarrow> x \<in> set xs \<and> (\<forall>y \<in> set xs. f y \<le> f x)"
proof (induction xs arbitrary: x)
  case (Cons a xs)
  show ?case
  proof (cases "max_by_key f xs")
    case None
    then show ?thesis using Cons.prems by (simp add: max_by_key_None)
  next
    case (Some y)
    then show ?thesis using Cons.prems Cons.IH [OF Some] by (auto split: if_splits intro: order_trans less_imp_le)
  qed
qed simp

lemma fold_push_neighbor:
  "fold push_neighbor ns f = f\<lparr>
     gl_contracts := gl_contracts f @ List.map_filter (\<lambda>n. case n of ContractNode a \<Rightarrow> Some a | _ \<Rightarrow> None) ns,
     gl_event_signatures := gl_event_signatures f @ List.map_filter (\<lambda>n. case n of EventNode e \<Rightarrow> Some e | _ \<Rightarrow> None) ns\<rparr>"
proof (induction ns arbitrary: f)
  case (Cons n ns)
  then show ?case by (cases n) (auto simp: map_filter_simps)
qed (simp add: map_filter_simps)

lemma contract_nodes:
  "a \<in> set (List.map_filter (\<lambda>n. case n of ContractNode a \<Rightarrow> Some a | _ \<Rightarrow> None) ns) \<longleftrightarrow>
     ContractNode a \<in> set ns"
  by (induction ns) (auto simp: map_filter_simps split: log_filter_node.splits)

lemma event_nodes:
  "e \<in> set (List.map_filter (\<lambda>n. case n of EventNode e \<Rightarrow> Some e | _ \<Rightarrow> None) ns) \<longleftrightarrow>
     EventNode e \<in> set ns"
  by (induction ns) (auto simp: map_filter_simps split: log_filter_node.splits)

text \<open>A vertex with neighbours becomes the filter of exactly its edges, and the sanity checks hold.\<close>

lemma vertex_filter_ok:
  assumes wf: "graph_wf g" and iter: "\<And>xs. set (iter xs) = set xs" and n: "neighbors g n \<noteq> []"
  shows "\<exists>f. vertex_filter iter g n = Ok f \<and> gl_contracts f \<noteq> [] \<and> gl_event_signatures f \<noteq> []
    \<and> (\<forall>a e. a \<in> set (gl_contracts f) \<and> e \<in> set (gl_event_signatures f) \<longleftrightarrow>
         (ContractNode a, EventNode e) \<in> set (lg_edges g) \<and> n \<in> {ContractNode a, EventNode e})"
proof -
  let ?ns = "iter (neighbors g n)"
  let ?contracts = "List.map_filter (\<lambda>n. case n of ContractNode a \<Rightarrow> Some a | _ \<Rightarrow> None) ?ns"
  let ?events = "List.map_filter (\<lambda>n. case n of EventNode e \<Rightarrow> Some e | _ \<Rightarrow> None) ?ns"
  have ns: "m \<in> set ?ns \<longleftrightarrow> (n, m) \<in> set (lg_edges g) \<or> (m, n) \<in> set (lg_edges g)" for m
    by (simp add: iter set_neighbors)
  have contracts: "a \<in> set ?contracts \<longleftrightarrow> ContractNode a \<in> set ?ns" for a
    by (rule contract_nodes)
  have events: "e \<in> set ?events \<longleftrightarrow> EventNode e \<in> set ?ns" for e
    by (rule event_nodes)
  obtain m where m: "m \<in> set ?ns" using n iter [of "neighbors g n"] by (cases "neighbors g n") auto
  show ?thesis
  proof (cases n)
    case (ContractNode c)
    have edge: "EventNode e \<in> set ?ns \<longleftrightarrow> (n, EventNode e) \<in> set (lg_edges g)" for e
      using ns [of "EventNode e"] graph_wfD [OF wf, of "EventNode e" n] by auto
    have "ContractNode a \<notin> set ?ns" for a
      using ns [of "ContractNode a"] graph_wfD [OF wf, of n "ContractNode a"]
        graph_wfD [OF wf, of "ContractNode a" n] ContractNode by auto
    then have "?contracts = []" using contracts by (meson last_in_set)
    moreover obtain e where "m = EventNode e"
      using m \<open>\<And>a. ContractNode a \<notin> set ?ns\<close> by (cases m rule: log_filter_node.exhaust) auto
    then have "e \<in> set ?events" using m events by simp
    then have "?events \<noteq> []" by (auto simp only: list.set empty_iff)
    ultimately show ?thesis
      using ContractNode events edge
      by (auto simp: vertex_filter_def Let_def fold_push_neighbor)
  next
    case (EventNode ev)
    have edge: "ContractNode a \<in> set ?ns \<longleftrightarrow> (ContractNode a, n) \<in> set (lg_edges g)" for a
      using ns [of "ContractNode a"] graph_wfD [OF wf, of n "ContractNode a"] by auto
    have "EventNode e \<notin> set ?ns" for e
      using ns [of "EventNode e"] graph_wfD [OF wf, of n "EventNode e"]
        graph_wfD [OF wf, of "EventNode e" n] EventNode by auto
    then have "?events = []" using events by (meson last_in_set)
    moreover obtain a where "m = ContractNode a"
      using m \<open>\<And>e. EventNode e \<notin> set ?ns\<close> by (cases m rule: log_filter_node.exhaust) auto
    then have "a \<in> set ?contracts" using m contracts by simp
    then have "?contracts \<noteq> []" by (auto simp only: list.set empty_iff)
    ultimately show ?thesis
      using EventNode contracts edge
      by (auto simp: vertex_filter_def Let_def fold_push_neighbor)
  qed
qed

definition covers :: "get_logs_filter \<Rightarrow> address \<Rightarrow> h256 \<Rightarrow> bool" where
  "covers f a e \<longleftrightarrow> a \<in> set (gl_contracts f) \<and> e \<in> set (gl_event_signatures f)"

lemma get_logs_loop_ok:
  assumes "graph_wf g" and iter: "\<And>xs. set (iter xs) = set xs"
  shows "\<exists>fs. get_logs_loop iter filters g = Some (Ok (filters @ fs))
    \<and> (\<forall>f \<in> set fs. gl_contracts f \<noteq> [] \<and> gl_event_signatures f \<noteq> [])
    \<and> (\<forall>a e. (\<exists>f \<in> set fs. covers f a e) \<longleftrightarrow> (ContractNode a, EventNode e) \<in> set (lg_edges g))"
  using assms(1)
proof (induction "length (lg_edges g)" arbitrary: filters g rule: less_induct)
  case less
  show ?case
  proof (cases "lg_edges g")
    case Nil
    then show ?thesis by (subst get_logs_loop.simps) auto
  next
    case (Cons st es)
    obtain s t where st: "(s, t) \<in> set (lg_edges g)" using Cons by (cases st) auto
    let ?key = "\<lambda>n. length (iter (neighbors g n))"
    have s: "s \<in> set (iter (lg_nodes g))" using graph_wfD [OF less.prems st] iter by simp
    then obtain n where n: "max_by_key ?key (iter (lg_nodes g)) = Some n"
      by (cases "max_by_key ?key (iter (lg_nodes g))") (auto simp: max_by_key_None)
    have "t \<in> set (iter (neighbors g s))" using st by (simp add: iter set_neighbors)
    then have "0 < ?key s" by (cases "iter (neighbors g s)") auto
    also have "?key s \<le> ?key n" using max_by_key_Some [OF n] s by blast
    finally have "iter (neighbors g n) \<noteq> []" by auto
    then have nn: "neighbors g n \<noteq> []" using iter [of "neighbors g n"] by force
    obtain f where f: "vertex_filter iter g n = Ok f" "gl_contracts f \<noteq> []" "gl_event_signatures f \<noteq> []"
        and cov: "\<And>a e. covers f a e \<longleftrightarrow>
         (ContractNode a, EventNode e) \<in> set (lg_edges g) \<and> n \<in> {ContractNode a, EventNode e}"
      using vertex_filter_ok [OF less.prems iter nn] unfolding covers_def by blast
    obtain m where "m \<in> set (neighbors g n)" using nn by (cases "neighbors g n") auto
    then have "\<exists>p \<in> set (lg_edges g). \<not> (case p of (s, t) \<Rightarrow> s \<noteq> n \<and> t \<noteq> n)"
      using set_neighbors [of m g n] by auto
    then have "length (lg_edges (remove_node n g)) < length (lg_edges g)"
      unfolding remove_node_def by (auto intro: length_filter_less)
    from less.hyps [OF this graph_wf_remove [OF less.prems], of "filters @ [f]"] obtain fs where
      fs: "get_logs_loop iter (filters @ [f]) (remove_node n g) = Some (Ok ((filters @ [f]) @ fs))"
        "\<forall>f \<in> set fs. gl_contracts f \<noteq> [] \<and> gl_event_signatures f \<noteq> []"
        "\<forall>a e. (\<exists>f \<in> set fs. covers f a e) \<longleftrightarrow>
           (ContractNode a, EventNode e) \<in> set (lg_edges (remove_node n g))"
      by blast
    have "get_logs_loop iter filters g = Some (Ok (filters @ (f # fs)))"
      using n f(1) fs(1) Cons by (subst get_logs_loop.simps) simp
    moreover have "(\<exists>f \<in> set (f # fs). covers f a e) \<longleftrightarrow> (ContractNode a, EventNode e) \<in> set (lg_edges g)" for a e
      using cov [of a e] fs(3) by (auto simp: remove_node_def)
    ultimately show ?thesis using f(2,3) fs(2) by (intro exI [of _ "f # fs"]) auto
  qed
qed

section \<open>Filters that the program builds\<close>

inductive built :: "(bytes \<Rightarrow> bytes) \<Rightarrow> data_source list \<Rightarrow> log_filter \<Rightarrow> bool" for keccak where
  built_from: "built keccak dss (log_filter_from_data_sources keccak dss)"
| built_extend: "built keccak dss f \<Longrightarrow> built keccak dss' f' \<Longrightarrow> built keccak (dss @ dss') (log_filter_extend f f')"

text \<open>What a data source asks for: an event, at its address or anywhere.\<close>

definition wants_event :: "(bytes \<Rightarrow> bytes) \<Rightarrow> data_source \<Rightarrow> address \<Rightarrow> h256 \<Rightarrow> bool" where
  "wants_event keccak ds a e \<longleftrightarrow> src_address (ds_source ds) \<in> {None, Some a}
     \<and> e \<in> topic0 keccak ` set (mp_event_handlers (ds_mapping ds))"

definition filter_wants :: "log_filter \<Rightarrow> address \<Rightarrow> h256 \<Rightarrow> bool" where
  "filter_wants f a e \<longleftrightarrow>
     (ContractNode a, EventNode e) \<in> set (lg_edges (contracts_and_events_graph f)) \<or> e \<in> wildcard_events f"

definition log_filter_wf :: "log_filter \<Rightarrow> bool" where
  "log_filter_wf f \<longleftrightarrow> graph_wf (contracts_and_events_graph f) \<and> finite (wildcard_events f)"

lemma log_filter_wf_default [simp]: "log_filter_wf log_filter_default"
  by (simp add: log_filter_wf_def log_filter_default_def graph_wf_def)

lemma log_filter_add_ok:
  assumes "log_filter_wf f"
  shows "log_filter_wf (log_filter_add addr e f)"
    and "filter_wants (log_filter_add addr e f) a e' \<longleftrightarrow> filter_wants f a e' \<or> (addr \<in> {None, Some a} \<and> e' = e)"
  using assms graph_wf_add_edge edges_add_edge
  by (cases addr; auto simp: log_filter_add_def log_filter_wf_def filter_wants_def)+

lemma fold_log_filter_add:
  "log_filter_wf f \<Longrightarrow> log_filter_wf (fold (\<lambda>h. log_filter_add addr (topic0 keccak h)) hs f)
     \<and> (\<forall>a e. filter_wants (fold (\<lambda>h. log_filter_add addr (topic0 keccak h)) hs f) a e \<longleftrightarrow>
          filter_wants f a e \<or> (addr \<in> {None, Some a} \<and> e \<in> topic0 keccak ` set hs))"
proof (induction hs arbitrary: f)
  case (Cons h hs)
  note step = log_filter_add_ok [OF Cons.prems, of addr "topic0 keccak h"]
  show ?case using Cons.IH [OF step(1)] step(2) by auto
qed simp

lemma log_filter_from_data_sources_ok:
  "log_filter_wf (log_filter_from_data_sources keccak dss)
   \<and> (\<forall>a e. filter_wants (log_filter_from_data_sources keccak dss) a e \<longleftrightarrow>
        (\<exists>ds \<in> set dss. wants_event keccak ds a e))"
proof -
  let ?step = "\<lambda>ds. fold (\<lambda>h. log_filter_add (src_address (ds_source ds)) (topic0 keccak h))
         (mp_event_handlers (ds_mapping ds))"
  have "log_filter_wf (fold ?step dss f) \<and> (\<forall>a e. filter_wants (fold ?step dss f) a e \<longleftrightarrow>
      filter_wants f a e \<or> (\<exists>ds \<in> set dss. wants_event keccak ds a e))" if "log_filter_wf f" for f
    using that
  proof (induction dss arbitrary: f)
    case (Cons ds dss)
    note step = fold_log_filter_add [OF Cons.prems, of "src_address (ds_source ds)" keccak
        "mp_event_handlers (ds_mapping ds)"]
    show ?case using Cons.IH [OF conjunct1 [OF step]] step by (auto simp: wants_event_def)
  qed simp
  from this [of log_filter_default] show ?thesis
    by (auto simp: log_filter_from_data_sources_def log_filter_default_def log_filter_wf_def
        graph_wf_def filter_wants_def)
qed

lemma log_filter_extend_ok:
  assumes "log_filter_wf f" and "log_filter_wf f'"
  shows "log_filter_wf (log_filter_extend f f')"
    and "filter_wants (log_filter_extend f f') a e \<longleftrightarrow> filter_wants f a e \<or> filter_wants f' a e"
proof -
  have "\<exists>a e. s = ContractNode a \<and> t = EventNode e"
    if "(s, t) \<in> set (lg_edges (contracts_and_events_graph f'))" for s t
    using assms(2) that graph_wfD by (auto simp: log_filter_wf_def)
  then have "graph_wf (fold (\<lambda>(s, t). add_edge s t) (lg_edges (contracts_and_events_graph f')) (contracts_and_events_graph f))
     \<and> set (lg_edges (fold (\<lambda>(s, t). add_edge s t) (lg_edges (contracts_and_events_graph f')) (contracts_and_events_graph f))) =
       set (lg_edges (contracts_and_events_graph f)) \<union> set (lg_edges (contracts_and_events_graph f'))"
    using assms(1) by (intro graph_wf_add_edges) (auto simp: log_filter_wf_def)
  then show "log_filter_wf (log_filter_extend f f')"
      "filter_wants (log_filter_extend f f') a e \<longleftrightarrow> filter_wants f a e \<or> filter_wants f' a e"
    using assms by (auto simp: log_filter_extend_def log_filter_wf_def filter_wants_def)
qed

lemma built_ok:
  "built keccak dss f \<Longrightarrow> log_filter_wf f
     \<and> (\<forall>a e. filter_wants f a e \<longleftrightarrow> (\<exists>ds \<in> set dss. wants_event keccak ds a e))"
proof (induction rule: built.induct)
  case (built_from dss)
  show ?case by (rule log_filter_from_data_sources_ok)
next
  case (built_extend dss f dss' f')
  then show ?case using log_filter_extend_ok [of f f'] by auto
qed

lemma log_filter_matches_wants:
  assumes "log_filter_wf f"
  shows "log_filter_matches f lg \<longleftrightarrow>
    (case log_topics lg of [] \<Rightarrow> False | sig # _ \<Rightarrow> filter_wants f (log_address lg) sig)"
proof -
  have "(EventNode e, ContractNode a) \<notin> set (lg_edges (contracts_and_events_graph f))" for a e
    using assms graph_wfD by (fastforce simp: log_filter_wf_def)
  then show ?thesis
    by (auto simp: log_filter_matches_def Let_def filter_wants_def list_ex_iff split: list.splits)
qed

text \<open>What \<open>eth_getLogs\<close> returns for a filter; an empty list stands for no restriction.\<close>

definition get_logs_returns :: "get_logs_filter \<Rightarrow> eth_log \<Rightarrow> bool" where
  "get_logs_returns f lg \<longleftrightarrow> (gl_contracts f = [] \<or> log_address lg \<in> set (gl_contracts f))
     \<and> (gl_event_signatures f = []
        \<or> (case log_topics lg of [] \<Rightarrow> False | sig # _ \<Rightarrow> sig \<in> set (gl_event_signatures f)))"

section \<open>Properties of the log filter\<close>

text \<open>C31. A log filter built from data sources, and extended by others, matches a log exactly when one
  of the data sources has a handler for its first topic and no address or the log's address.\<close>

theorem log_filter_exact:
  assumes "built keccak dss f"
  shows "log_filter_matches f lg \<longleftrightarrow>
    (\<exists>ds \<in> set dss. \<exists>h \<in> set (mp_event_handlers (ds_mapping ds)).
       take 1 (log_topics lg) = [topic0 keccak h] \<and> src_address (ds_source ds) \<in> {None, Some (log_address lg)})"
  using built_ok [OF assms] log_filter_matches_wants [of f lg]
  by (auto simp: wants_event_def split: list.splits)

lemma get_logs_filters_parts:
  assumes "log_filter_wf f" and "\<forall>xs. set (iter xs) = set xs"
  shows "\<exists>gs. eth_get_logs_filters iter set_iter f =
        Some (Ok (map (\<lambda>e. \<lparr>gl_contracts = [], gl_event_signatures = [e]\<rparr>) (set_iter (wildcard_events f)) @ gs))
    \<and> (\<forall>g \<in> set gs. gl_contracts g \<noteq> [] \<and> gl_event_signatures g \<noteq> [])
    \<and> (\<forall>a e. (\<exists>g \<in> set gs. covers g a e) \<longleftrightarrow>
         (ContractNode a, EventNode e) \<in> set (lg_edges (contracts_and_events_graph f)))"
  using assms get_logs_loop_ok [of "contracts_and_events_graph f" iter]
  unfolding eth_get_logs_filters_def log_filter_wf_def by blast

lemma get_logs_filters_ok:
  assumes wf: "log_filter_wf f" and "\<forall>xs. set (iter xs) = set xs" and "\<forall>X. finite X \<longrightarrow> set (set_iter X) = X"
  shows "\<exists>fs. eth_get_logs_filters iter set_iter f = Some (Ok fs)
    \<and> (\<forall>lg. (\<exists>g \<in> set fs. get_logs_returns g lg) \<longleftrightarrow> log_filter_matches f lg)"
proof -
  let ?wild = "map (\<lambda>e. \<lparr>gl_contracts = [], gl_event_signatures = [e]\<rparr>) (set_iter (wildcard_events f))"
  obtain fs where fs: "eth_get_logs_filters iter set_iter f = Some (Ok (?wild @ fs))"
      "\<forall>g \<in> set fs. gl_contracts g \<noteq> [] \<and> gl_event_signatures g \<noteq> []"
      "\<forall>a e. (\<exists>g \<in> set fs. covers g a e) \<longleftrightarrow>
         (ContractNode a, EventNode e) \<in> set (lg_edges (contracts_and_events_graph f))"
    using get_logs_filters_parts [OF assms(1,2)] by blast
  have wild: "set (set_iter (wildcard_events f)) = wildcard_events f"
    using wf assms(3) by (simp add: log_filter_wf_def)
  have "(\<exists>g \<in> set (?wild @ fs). get_logs_returns g lg) \<longleftrightarrow> log_filter_matches f lg" for lg
  proof (cases "log_topics lg")
    case Nil
    then show ?thesis using fs(2) log_filter_matches_wants [OF wf] by (auto simp: get_logs_returns_def)
  next
    case (Cons sig rest)
    have "(\<exists>g \<in> set fs. get_logs_returns g lg) \<longleftrightarrow> (\<exists>g \<in> set fs. covers g (log_address lg) sig)"
      using fs(2) Cons by (auto simp: get_logs_returns_def covers_def)
    moreover have "(\<exists>g \<in> set ?wild. get_logs_returns g lg) \<longleftrightarrow> sig \<in> wildcard_events f"
      using Cons wild by (auto simp: get_logs_returns_def)
    ultimately show ?thesis
      using fs(3) Cons log_filter_matches_wants [OF wf, of lg] by (auto simp: filter_wants_def)
  qed
  with fs(1) show ?thesis by auto
qed

text \<open>C15. The filters for \<open>eth_getLogs\<close> are computed without failing a sanity check, in finitely many
  rounds whatever order the graph is iterated in, and together they return exactly the logs that the
  log filter matches: no false positives, nothing missed.\<close>

theorem get_logs_filters_exact:
  assumes "built keccak dss f" and "\<forall>xs. set (iter xs) = set xs" and "\<forall>X. finite X \<longrightarrow> set (set_iter X) = X"
  shows "\<exists>fs. eth_get_logs_filters iter set_iter f = Some (Ok fs)
    \<and> (\<forall>lg. (\<exists>g \<in> set fs. get_logs_returns g lg) \<longleftrightarrow> log_filter_matches f lg)"
  using built_ok [OF assms(1)] get_logs_filters_ok [OF _ assms(2,3)] by blast

definition demo_source :: "address option \<Rightarrow> string list \<Rightarrow> data_source" where
  "demo_source addr events =
     \<lparr>ds_kind = ''ethereum/contract'', ds_network = None, ds_name = ''ds'', ds_source = \<lparr>src_address = addr, src_abi = ''abi'', src_start_block = 5\<rparr>,
      ds_mapping = \<lparr>mp_kind = ''ethereum/events'', mp_api_version = ''0.0.4'', mp_language = ''wasm/assemblyscript'',
        mp_entities = [], mp_abis = [], mp_block_handlers = [\<lparr>bh_handler = ''b'', bh_filter = Some CallBlockFilter\<rparr>],
        mp_call_handlers = [\<lparr>chd_function = ''f()'', chd_handler = ''c''\<rparr>],
        mp_event_handlers = map (\<lambda>e. \<lparr>eh_event = e, eh_topic0 = Some (char_bytes e), eh_handler = ''h''\<rparr>) events,
        mp_runtime = [], mp_link = ''link''\<rparr>, ds_context = None, ds_templates = []\<rparr>"

definition demo_sources :: "data_source list" where
  "demo_sources = [demo_source (Some [1]) [''A'', ''B''], demo_source (Some [2]) [''A''], demo_source None [''C'']]"

theorem log_filter_exact_witness:
  "built (\<lambda>b. b) demo_sources (log_filter_from_data_sources (\<lambda>b. b) demo_sources)
   \<and> log_filter_matches (log_filter_from_data_sources (\<lambda>b. b) demo_sources)
       ((demo_log 0 0)\<lparr>log_address := [2], log_topics := [char_bytes ''A'']\<rparr>)
   \<and> \<not> log_filter_matches (log_filter_from_data_sources (\<lambda>b. b) demo_sources)
       ((demo_log 0 0)\<lparr>log_address := [2], log_topics := [char_bytes ''B'']\<rparr>)"
  using built_from [of "\<lambda>b. b" demo_sources]
  unfolding log_filter_exact [OF built_from]
  by (simp add: demo_sources_def demo_source_def topic0_def demo_log_def char_bytes_def)

theorem get_logs_filters_exact_witness:
  "\<exists>fs. eth_get_logs_filters rev sorted_list_of_set
        (log_filter_from_data_sources (\<lambda>b. b) demo_sources) = Some (Ok fs)
    \<and> (\<forall>lg. (\<exists>g \<in> set fs. get_logs_returns g lg) \<longleftrightarrow>
         log_filter_matches (log_filter_from_data_sources (\<lambda>b. b) demo_sources) lg)"
  by (rule get_logs_filters_exact [OF built_from]) simp_all

section \<open>The call filter\<close>

type_synonym call_filter = "(address, u64 \<times> bytes set) hashmap"

record block_filter =
  bf_contract_addresses :: "(u64 \<times> address) set"
  bf_trigger_every_block :: bool

text \<open>The slice \<open>input[..4]\<close> panics on a shorter input.\<close>

definition call_filter_matches :: "call_filter \<Rightarrow> eth_call \<Rightarrow> (bool, 'e) result" where
  "call_filter_matches self call =
     (case map_of self (call_to call) of
        None \<Rightarrow> Ok False
      | Some (_, sigs) \<Rightarrow>
          if sigs = {} then Ok True
          else if length (call_input call) < 4 then Panic
          else Ok (take 4 (call_input call) \<in> sigs))"

definition call_filter_add :: "u64 \<times> address \<times> bytes \<Rightarrow> call_filter \<Rightarrow> call_filter" where
  "call_filter_add = (\<lambda>(start_block, addr, sig) lookup.
     let lookup1 = (if map_of lookup addr = None then hm_insert addr (start_block, {}) lookup else lookup)
     in case map_of lookup1 addr of
          Some (b, sigs) \<Rightarrow> hm_insert addr (if b > start_block then start_block else b, insert sig sigs) lookup1
        | None \<Rightarrow> lookup1)"

definition call_filter_from_iter :: "(u64 \<times> address \<times> bytes) list \<Rightarrow> call_filter" where
  "call_filter_from_iter xs = fold call_filter_add xs []"

definition call_signatures :: "(bytes \<Rightarrow> bytes) \<Rightarrow> data_source \<Rightarrow> (u64 \<times> address \<times> bytes) list" where
  "call_signatures keccak ds =
     (case src_address (ds_source ds) of
        None \<Rightarrow> []
      | Some addr \<Rightarrow>
          map (\<lambda>h. (src_start_block (ds_source ds), addr, take 4 (keccak (char_bytes (chd_function h)))))
            (mp_call_handlers (ds_mapping ds)))"

definition call_filter_from_data_sources :: "(bytes \<Rightarrow> bytes) \<Rightarrow> data_source list \<Rightarrow> call_filter" where
  "call_filter_from_data_sources keccak dss = call_filter_from_iter (concat (map (call_signatures keccak) dss))"

definition call_filter_extend :: "call_filter \<Rightarrow> call_filter \<Rightarrow> call_filter" where
  "call_filter_extend self other =
     fold (\<lambda>(addr, (proposed, new_sigs)) m.
         case map_of m addr of
           Some (existing, sigs) \<Rightarrow> hm_insert addr (min proposed existing, sigs \<union> new_sigs) m
         | None \<Rightarrow> hm_insert addr (proposed, new_sigs) m)
       other self"

definition call_filter_is_empty :: "call_filter \<Rightarrow> bool" where
  "call_filter_is_empty self \<longleftrightarrow> self = []"

definition call_filter_start_blocks :: "call_filter \<Rightarrow> u64 list" where
  "call_filter_start_blocks self = map fst (filter (\<lambda>(b, _). b > 0) (map snd self))"

definition call_filter_from_block_filter :: "((u64 \<times> address) set \<Rightarrow> (u64 \<times> address) list) \<Rightarrow> block_filter \<Rightarrow> call_filter" where
  "call_filter_from_block_filter set_iter bf =
     fold (\<lambda>(b, addr). hm_insert addr (b, {})) (set_iter (bf_contract_addresses bf)) []"

section \<open>The block filter\<close>

definition block_filter_default :: block_filter where
  "block_filter_default = \<lparr>bf_contract_addresses = {}, bf_trigger_every_block = False\<rparr>"

text \<open>
  \<open>find\<close> over the other filter's hash set takes the first pair with the address in iteration order;
  \<open>set_iter\<close> is that order.
\<close>

definition block_filter_extend ::
  "((u64 \<times> address) set \<Rightarrow> (u64 \<times> address) list) \<Rightarrow> block_filter \<Rightarrow> block_filter \<Rightarrow> block_filter" where
  "block_filter_extend set_iter self other =
     \<lparr>bf_contract_addresses =
        fold (\<lambda>(b, addr) addresses.
            case find (\<lambda>(_, other_addr). addr = other_addr) (set_iter (bf_contract_addresses other)) of
              Some (other_b, addr) \<Rightarrow> insert (min other_b b, addr) addresses
            | None \<Rightarrow> insert (b, addr) addresses)
          (set_iter (bf_contract_addresses self)) {},
      bf_trigger_every_block = (bf_trigger_every_block self \<or> bf_trigger_every_block other)\<rparr>"

definition block_filter_of :: "data_source \<Rightarrow> address \<Rightarrow> block_filter" where
  "block_filter_of ds addr =
     \<lparr>bf_contract_addresses =
        (if list_ex (\<lambda>h. bh_filter h = Some CallBlockFilter) (mp_block_handlers (ds_mapping ds))
         then {(src_start_block (ds_source ds), addr)} else {}),
      bf_trigger_every_block = list_ex (\<lambda>h. bh_filter h = None) (mp_block_handlers (ds_mapping ds))\<rparr>"

definition block_filter_from_data_sources ::
  "((u64 \<times> address) set \<Rightarrow> (u64 \<times> address) list) \<Rightarrow> data_source list \<Rightarrow> block_filter" where
  "block_filter_from_data_sources set_iter dss =
     fold (\<lambda>ds f. case src_address (ds_source ds) of
         None \<Rightarrow> f
       | Some addr \<Rightarrow> block_filter_extend set_iter f (block_filter_of ds addr)) dss block_filter_default"

definition block_filter_start_blocks ::
  "((u64 \<times> address) set \<Rightarrow> (u64 \<times> address) list) \<Rightarrow> block_filter \<Rightarrow> u64 list" where
  "block_filter_start_blocks set_iter self = map fst (filter (\<lambda>(b, _). b > 0) (set_iter (bf_contract_addresses self)))"

section \<open>Triggers in a block\<close>

definition parse_log_triggers :: "log_filter \<Rightarrow> eth_block \<Rightarrow> trigger list" where
  "parse_log_triggers lf b =
     concat (map (\<lambda>receipt. map LogTrigger (filter (log_filter_matches lf) (rc_logs receipt)))
       (eb_transaction_receipts b))"

fun try_filter :: "('a \<Rightarrow> (bool, 'e) result) \<Rightarrow> 'a list \<Rightarrow> ('a list, 'e) result" where
  "try_filter p [] = Ok []"
| "try_filter p (x # xs) =
     and_then (p x) (\<lambda>b. and_then (try_filter p xs) (\<lambda>ys. Ok (if b then x # ys else ys)))"

definition parse_call_triggers :: "call_filter \<Rightarrow> block_with_calls \<Rightarrow> (trigger list, 'e) result" where
  "parse_call_triggers cf b =
     and_then (try_filter (call_filter_matches cf) (bc_calls b)) (\<lambda>cs. Ok (map CallTrigger cs))"

definition parse_block_triggers ::
  "((u64 \<times> address) set \<Rightarrow> (u64 \<times> address) list) \<Rightarrow> block_filter \<Rightarrow> block_with_calls \<Rightarrow> (trigger list, 'e) result" where
  "parse_block_triggers set_iter bf b =
     and_then (ptr_of_eth_block (bc_block b)) (\<lambda>ptr.
     and_then (try_filter (call_filter_matches (call_filter_from_block_filter set_iter bf)) (bc_calls b)) (\<lambda>cs.
       Ok (map (\<lambda>c. BlockTrigger ptr (WithCallTo (call_to c))) cs
           @ (if bf_trigger_every_block bf then [BlockTrigger ptr EveryBlock] else []))))"

definition triggers_in_nonfinal_block ::
  "((u64 \<times> address) set \<Rightarrow> (u64 \<times> address) list) \<Rightarrow> log_filter \<Rightarrow> call_filter \<Rightarrow> block_filter \<Rightarrow>
     block_with_calls \<Rightarrow> (block_with_triggers, 'e) result" where
  "triggers_in_nonfinal_block set_iter lf cf bf full_block =
     and_then (parse_call_triggers cf full_block) (\<lambda>calls.
     and_then (parse_block_triggers set_iter bf full_block) (\<lambda>blocks.
       block_with_triggers_new (parse_log_triggers lf (bc_block full_block) @ calls @ blocks)
         (NonFinal full_block)))"

section \<open>Properties of the call and block filters\<close>

inductive call_built :: "(bytes \<Rightarrow> bytes) \<Rightarrow> data_source list \<Rightarrow> call_filter \<Rightarrow> bool" for keccak where
  call_built_from: "call_built keccak dss (call_filter_from_data_sources keccak dss)"
| call_built_extend: "call_built keccak dss f \<Longrightarrow> call_built keccak dss' f' \<Longrightarrow>
    call_built keccak (dss @ dss') (call_filter_extend f f')"

definition call_wants :: "call_filter \<Rightarrow> address \<Rightarrow> bytes \<Rightarrow> bool" where
  "call_wants f a sig \<longleftrightarrow> (case map_of f a of None \<Rightarrow> False | Some (_, sigs) \<Rightarrow> sig \<in> sigs)"

definition call_filter_wf :: "call_filter \<Rightarrow> bool" where
  "call_filter_wf f \<longleftrightarrow> hm_wf f \<and> (\<forall>a b sigs. map_of f a = Some (b, sigs) \<longrightarrow> sigs \<noteq> {})"

lemma call_filter_add_ok:
  assumes "call_filter_wf f"
  shows "call_filter_wf (call_filter_add (b, a, sig) f)"
    and "call_wants (call_filter_add (b, a, sig) f) a' sig' \<longleftrightarrow> call_wants f a' sig' \<or> (a' = a \<and> sig' = sig)"
proof -
  obtain b' sigs where eq: "call_filter_add (b, a, sig) f = hm_insert a (b', insert sig sigs)
      (if map_of f a = None then hm_insert a (b, {}) f else f)"
    and sigs: "sigs = (case map_of f a of None \<Rightarrow> {} | Some (_, s) \<Rightarrow> s)"
    by (cases "map_of f a") (auto simp: call_filter_add_def Let_def map_simps)
  show "call_filter_wf (call_filter_add (b, a, sig) f)"
    using assms by (auto simp: eq call_filter_wf_def map_simps split: if_splits)
  show "call_wants (call_filter_add (b, a, sig) f) a' sig' \<longleftrightarrow> call_wants f a' sig' \<or> (a' = a \<and> sig' = sig)"
    by (auto simp: eq call_wants_def sigs map_simps split: option.splits)
qed

lemma call_filter_from_iter_ok:
  "call_filter_wf (call_filter_from_iter xs)
   \<and> (\<forall>a sig. call_wants (call_filter_from_iter xs) a sig \<longleftrightarrow> (\<exists>b. (b, a, sig) \<in> set xs))"
proof -
  have "call_filter_wf (fold call_filter_add xs f)
      \<and> (\<forall>a sig. call_wants (fold call_filter_add xs f) a sig \<longleftrightarrow> call_wants f a sig \<or> (\<exists>b. (b, a, sig) \<in> set xs))"
    if "call_filter_wf f" for f
    using that
  proof (induction xs arbitrary: f)
    case (Cons x xs)
    obtain b a sig where x: "x = (b, a, sig)" by (metis prod_cases3)
    note step = call_filter_add_ok [OF Cons.prems, of b a sig]
    show ?case using Cons.IH [OF step(1)] step(2) by (auto simp: x)
  qed simp
  from this [of "[]"] show ?thesis
    by (simp add: call_filter_from_iter_def call_filter_wf_def call_wants_def)
qed

lemma call_filter_extend_ok:
  assumes "call_filter_wf f" and "call_filter_wf f'"
  shows "call_filter_wf (call_filter_extend f f')
    \<and> (\<forall>a sig. call_wants (call_filter_extend f f') a sig \<longleftrightarrow> call_wants f a sig \<or> call_wants f' a sig)"
  using assms unfolding call_filter_extend_def
proof (induction f' arbitrary: f)
  case (Cons x f')
  obtain a b sigs where x: "x = (a, (b, sigs))" by (metis prod_cases3)
  let ?f = "case map_of f a of
           Some (existing, s) \<Rightarrow> hm_insert a (min b existing, s \<union> sigs) f
         | None \<Rightarrow> hm_insert a (b, sigs) f"
  have wf': "hm_wf f'" "map_of f' a = None" using Cons.prems(2) by (auto simp: call_filter_wf_def x hm_wf_Cons)
  have "map_of (x # f') a = Some (b, sigs)" by (simp add: x)
  then have "sigs \<noteq> {}" using Cons.prems(2) unfolding call_filter_wf_def by blast
  then have f: "call_filter_wf ?f"
      "call_wants ?f a' sig \<longleftrightarrow> call_wants f a' sig \<or> (a' = a \<and> sig \<in> sigs)" for a' sig
    using Cons.prems(1) by (auto simp: call_filter_wf_def call_wants_def map_simps split: option.splits if_splits)
  have "call_filter_wf f'"
    using Cons.prems(2) wf' by (auto simp: call_filter_wf_def x split: if_splits) (metis option.distinct(1))
  moreover have "call_wants (x # f') a' sig \<longleftrightarrow> call_wants f' a' sig \<or> (a' = a \<and> sig \<in> sigs)" for a' sig
    using wf'(2) by (auto simp: call_wants_def x)
  ultimately show ?case using Cons.IH [OF f(1)] f(2) by (simp add: x) blast
qed (auto simp: call_wants_def)

lemma call_built_ok:
  "call_built keccak dss f \<Longrightarrow> call_filter_wf f \<and> (\<forall>a sig. call_wants f a sig \<longleftrightarrow>
     (\<exists>ds \<in> set dss. \<exists>b. (b, a, sig) \<in> set (call_signatures keccak ds)))"
proof (induction rule: call_built.induct)
  case (call_built_from dss)
  show ?case using call_filter_from_iter_ok [of "concat (map (call_signatures keccak) dss)"]
    by (auto simp: call_filter_from_data_sources_def)
next
  case (call_built_extend dss f dss' f')
  then show ?case using call_filter_extend_ok [of f f'] by auto
qed

text \<open>A call filter built from data sources, and extended by others, accepts a call that carries a
  selector exactly when a data source for the called address has a handler for the function.\<close>

lemma call_filter_exact:
  assumes "call_built keccak dss f" and "4 \<le> length (call_input c)"
  shows "call_filter_matches f c = Ok (\<exists>ds \<in> set dss. src_address (ds_source ds) = Some (call_to c)
    \<and> (\<exists>h \<in> set (mp_call_handlers (ds_mapping ds)).
         take 4 (keccak (char_bytes (chd_function h))) = take 4 (call_input c)))"
proof -
  note ok = call_built_ok [OF assms(1)]
  have "call_filter_matches f c = Ok (call_wants f (call_to c) (take 4 (call_input c)))"
    using conjunct1 [OF ok] assms(2)
    by (auto simp: call_filter_matches_def call_wants_def call_filter_wf_def split: option.splits)
  also have "call_wants f (call_to c) (take 4 (call_input c)) \<longleftrightarrow>
      (\<exists>ds \<in> set dss. \<exists>b. (b, call_to c, take 4 (call_input c)) \<in> set (call_signatures keccak ds))"
    using ok by blast
  also have "\<dots> \<longleftrightarrow> (\<exists>ds \<in> set dss. src_address (ds_source ds) = Some (call_to c)
    \<and> (\<exists>h \<in> set (mp_call_handlers (ds_mapping ds)).
         take 4 (keccak (char_bytes (chd_function h))) = take 4 (call_input c)))"
    by (auto simp: call_signatures_def image_iff split: option.splits) metis+
  finally show ?thesis .
qed

text \<open>Extending a block filter only keeps addresses that it already has, so folding over data
  sources from the empty filter ends without any: no block handler with a call filter is ever
  triggered, whatever the manifest says.\<close>

lemma block_filter_loses_addresses:
  assumes "set_iter {} = []"
  shows "bf_contract_addresses (block_filter_from_data_sources set_iter dss) = {}
    \<and> bf_trigger_every_block (block_filter_from_data_sources set_iter dss) =
        (\<exists>ds \<in> set dss. src_address (ds_source ds) \<noteq> None
           \<and> list_ex (\<lambda>h. bh_filter h = None) (mp_block_handlers (ds_mapping ds)))"
proof -
  let ?step = "\<lambda>ds f. case src_address (ds_source ds) of
         None \<Rightarrow> f
       | Some addr \<Rightarrow> block_filter_extend set_iter f (block_filter_of ds addr)"
  have "bf_contract_addresses (fold ?step dss f) = {}
      \<and> bf_trigger_every_block (fold ?step dss f) = (bf_trigger_every_block f
          \<or> (\<exists>ds \<in> set dss. src_address (ds_source ds) \<noteq> None
               \<and> list_ex (\<lambda>h. bh_filter h = None) (mp_block_handlers (ds_mapping ds))))"
    if "bf_contract_addresses f = {}" for f
    using that
  proof (induction dss arbitrary: f)
    case (Cons ds dss)
    have "bf_contract_addresses (?step ds f) = {}"
      using Cons.prems assms by (auto simp: block_filter_extend_def split: option.splits)
    from Cons.IH [OF this] show ?case
      by (auto simp: block_filter_extend_def block_filter_of_def split: option.splits)
  qed simp
  from this [of block_filter_default] show ?thesis
    by (simp add: block_filter_from_data_sources_def block_filter_default_def)
qed

end
