(* ===== verification/BlockScan.thy ===== *)
theory BlockScan
  imports EthFilters
begin

text \<open>
  Scanning a range of blocks for triggers (\<open>blocks_with_triggers\<close> and \<open>triggers_in_block\<close> of
  \<open>graph/src/components/ethereum/adapter.rs\<close>). The Ethereum node is the record \<open>eth_adapter\<close> of the
  methods of the trait \<open>EthereumAdapter\<close> that are called; locale \<open>ethereum_node\<close> states what they
  return for blocks that are final. Futures are their results; the results of the scans are
  concatenated in the order they were started.
\<close>

record eth_adapter =
  logs_in_block_range :: "u64 \<Rightarrow> u64 \<Rightarrow> log_filter \<Rightarrow> (eth_log list, string) result"
  calls_in_block_range :: "u64 \<Rightarrow> u64 \<Rightarrow> call_filter \<Rightarrow> (eth_call list, string) result"
  block_range_to_ptrs :: "u64 \<Rightarrow> u64 \<Rightarrow> (block_pointer list, string) result"
  block_hash_by_block_number :: "u64 \<Rightarrow> (h256 option, string) result"
  load_blocks :: "h256 set \<Rightarrow> (light_block list, string) result"
  is_on_main_chain :: "block_pointer \<Rightarrow> (bool, string) result"
  calls_in_block :: "u64 \<Rightarrow> h256 \<Rightarrow> (eth_call list, string) result"

type_synonym pair_iter = "(u64 \<times> address) set \<Rightarrow> (u64 \<times> address) list"

section \<open>Scanning a range\<close>

text \<open>The futures pushed to \<open>trigger_futs\<close>, concatenated.\<close>

definition scan_triggers ::
  "pair_iter \<Rightarrow> eth_adapter \<Rightarrow> u64 \<Rightarrow> u64 \<Rightarrow> log_filter \<Rightarrow> call_filter \<Rightarrow> block_filter \<Rightarrow>
     (trigger list, string) result" where
  "scan_triggers set_iter A from to lf cf bf =
     and_then (if \<not> log_filter_is_empty lf
               then and_then (logs_in_block_range A from to lf) (\<lambda>ls. Ok (map LogTrigger ls)) else Ok [])
       (\<lambda>logs.
     and_then (if \<not> call_filter_is_empty cf
               then and_then (calls_in_block_range A from to cf) (\<lambda>cs. Ok (map CallTrigger cs)) else Ok [])
       (\<lambda>calls.
     and_then (if bf_trigger_every_block bf
               then and_then (block_range_to_ptrs A from to)
                      (\<lambda>ptrs. Ok (map (\<lambda>ptr. BlockTrigger ptr EveryBlock) ptrs))
               else if bf_contract_addresses bf \<noteq> {}
               then and_then (calls_in_block_range A from to (call_filter_from_block_filter set_iter bf))
                      (\<lambda>cs. Ok (map (\<lambda>c. BlockTrigger (ptr_of_call c) (WithCallTo (call_to c))) cs))
               else Ok [])
       (\<lambda>blocks. Ok (logs @ calls @ blocks))))"

definition add_to_group :: "trigger \<Rightarrow> (u64, trigger list) hashmap \<Rightarrow> ((u64, trigger list) hashmap, string) result" where
  "add_to_group t m =
     and_then (trigger_block_number t) (\<lambda>n.
       Ok (hm_insert n ((case map_of m n of None \<Rightarrow> [] | Some ts \<Rightarrow> ts) @ [t]) m))"

definition triggers_by_block :: "trigger list \<Rightarrow> ((u64, trigger list) hashmap, string) result" where
  "triggers_by_block ts = try_fold add_to_group ts []"

text \<open>The closure over the loaded blocks, which takes their triggers out of the map.\<close>

definition take_block ::
  "light_block \<Rightarrow> block_with_triggers list \<times> (u64, trigger list) hashmap \<Rightarrow>
     (block_with_triggers list \<times> (u64, trigger list) hashmap, string) result" where
  "take_block b = (\<lambda>(blocks, m).
     and_then (light_number b) (\<lambda>n.
       case map_of m n of
         Some ts \<Rightarrow> and_then (block_with_triggers_new ts (Final b)) (\<lambda>bt. Ok (blocks @ [bt], hm_remove n m))
       | None \<Rightarrow> Err ''block not found in triggers_by_block''))"

definition block_key :: "block_with_triggers \<Rightarrow> u64" where
  "block_key b = (case (finality_number (bt_block b) :: (u64, unit) result) of Ok n \<Rightarrow> n | _ \<Rightarrow> 0)"

definition blocks_with_triggers ::
  "pair_iter \<Rightarrow> eth_adapter \<Rightarrow> u64 \<Rightarrow> u64 \<Rightarrow> log_filter \<Rightarrow> call_filter \<Rightarrow> block_filter \<Rightarrow>
     (block_with_triggers list, string) result" where
  "blocks_with_triggers set_iter A from to lf cf bf =
     and_then (scan_triggers set_iter A from to lf cf bf) (\<lambda>triggers.
     and_then (block_hash_by_block_number A to) (\<lambda>to_hash_opt.
     case to_hash_opt of
       None \<Rightarrow> Err ''Block not found in the chain''
     | Some to_hash \<Rightarrow>
         and_then (try_map trigger_block_hash triggers) (\<lambda>hashes.
         and_then (triggers_by_block triggers) (\<lambda>m.
         let block_hashes = insert to_hash (set hashes);
             m1 = (if map_of m to = None then hm_insert to [] m else m)
         in and_then (load_blocks A block_hashes) (\<lambda>blocks.
            and_then (try_fold take_block blocks ([], m1)) (\<lambda>(bts, _).
            Ok (sort_key block_key bts)))))))"

definition triggers_in_block ::
  "pair_iter \<Rightarrow> eth_adapter \<Rightarrow> log_filter \<Rightarrow> call_filter \<Rightarrow> block_filter \<Rightarrow> block_finality \<Rightarrow>
     (block_with_triggers, string) result" where
  "triggers_in_block set_iter A lf cf bf eb =
     (case eb of
        Final b \<Rightarrow>
          and_then (light_number b) (\<lambda>n.
          and_then (blocks_with_triggers set_iter A n n lf cf bf) (\<lambda>blocks.
            if length blocks > 1 then Panic
            else case blocks of
              [] \<Rightarrow> block_with_triggers_new [] eb
            | bt # _ \<Rightarrow> Ok bt))
      | NonFinal full_block \<Rightarrow> triggers_in_nonfinal_block set_iter lf cf bf full_block)"

section \<open>A node with a final chain\<close>

text \<open>
  \<open>chain n\<close> is the block with number \<open>n\<close>, final up to \<open>limit\<close>. The node answers for ranges of final
  blocks: what it returns lies in the range and names its block, and logs carry their indexes.
\<close>

definition on_chain :: "(u64 \<Rightarrow> light_block) \<Rightarrow> u64 \<Rightarrow> u64 \<Rightarrow> trigger \<Rightarrow> bool" where
  "on_chain chain from to t \<longleftrightarrow> (\<exists>n h. from \<le> n \<and> n \<le> to \<and> bl_hash (chain n) = Some h
     \<and> trigger_block_number t = (Ok n :: (_, unit) result) \<and> trigger_block_hash t = (Ok h :: (_, unit) result))"

locale ethereum_node =
  fixes A :: eth_adapter and chain :: "u64 \<Rightarrow> light_block" and limit :: u64
  assumes chain_number: "bl_number (chain n) = Some n"
    and chain_hash: "\<exists>h. bl_hash (chain n) = Some h"
    and chain_inj: "bl_hash (chain n) = bl_hash (chain m) \<Longrightarrow> n = m"
    and logs_range: "from \<le> to \<Longrightarrow> to \<le> limit \<Longrightarrow> log_filter_wf lf \<Longrightarrow> \<exists>ls. logs_in_block_range A from to lf = Ok ls
      \<and> (\<forall>l \<in> set ls. on_chain chain from to (LogTrigger l))
      \<and> (\<forall>n. block_logs (map LogTrigger (filter (\<lambda>l. log_block_number l = Some n) ls)))"
    and calls_range: "from \<le> to \<Longrightarrow> to \<le> limit \<Longrightarrow> \<exists>cs. calls_in_block_range A from to cf = Ok cs
      \<and> (\<forall>c \<in> set cs. on_chain chain from to (CallTrigger c))"
    and ptrs_range: "from \<le> to \<Longrightarrow> to \<le> limit \<Longrightarrow> \<exists>ps. block_range_to_ptrs A from to = Ok ps
      \<and> (\<forall>p \<in> set ps. on_chain chain from to (BlockTrigger p EveryBlock))"
    and hash_by_number: "n \<le> limit \<Longrightarrow> block_hash_by_block_number A n = Ok (bl_hash (chain n))"
    and load_chain: "(\<And>h. h \<in> hs \<Longrightarrow> \<exists>n \<le> limit. bl_hash (chain n) = Some h) \<Longrightarrow>
      \<exists>bs. load_blocks A hs = Ok bs \<and> distinct bs \<and> set bs = {chain n | n. \<exists>h \<in> hs. bl_hash (chain n) = Some h}"

section \<open>Grouping by block number\<close>

definition number_of :: "trigger \<Rightarrow> u64" where
  "number_of t = (case (trigger_block_number t :: (u64, unit) result) of Ok n \<Rightarrow> n | _ \<Rightarrow> 0)"

definition hash_of :: "trigger \<Rightarrow> h256" where
  "hash_of t = (case (trigger_block_hash t :: (h256, unit) result) of Ok h \<Rightarrow> h | _ \<Rightarrow> [])"

lemma trigger_block_number_poly:
  "trigger_block_number t = (Ok n :: (_, unit) result) \<Longrightarrow> trigger_block_number t = Ok n"
  by (cases t) (auto elim: expect.elims)

lemma trigger_block_hash_poly:
  "trigger_block_hash t = (Ok h :: (_, unit) result) \<Longrightarrow> trigger_block_hash t = Ok h"
  by (cases t) (auto elim: expect.elims)

lemma on_chain_simps:
  assumes "on_chain chain from to t"
  shows "trigger_block_number t = Ok (number_of t)" and "trigger_block_hash t = Ok (hash_of t)"
    and "bl_hash (chain (number_of t)) = Some (hash_of t)"
    and "from \<le> number_of t" and "number_of t \<le> to"
  using assms trigger_block_number_poly trigger_block_hash_poly
  by (auto simp: on_chain_def number_of_def hash_of_def)

lemma triggers_by_block_ok:
  assumes "\<And>t. t \<in> set ts \<Longrightarrow> trigger_block_number t = (Ok (number_of t) :: (_, string) result)"
  shows "\<exists>m. triggers_by_block ts = Ok m \<and> hm_wf m
    \<and> (\<forall>n. map_of m n = (if n \<in> number_of ` set ts then Some (filter (\<lambda>t. number_of t = n) ts) else None))"
  using assms unfolding triggers_by_block_def
proof (induction ts rule: rev_induct)
  case (snoc t ts)
  then obtain m where m: "try_fold add_to_group ts [] = Ok m" "hm_wf m"
    "\<forall>n. map_of m n = (if n \<in> number_of ` set ts then Some (filter (\<lambda>t. number_of t = n) ts) else None)"
    by auto
  have t: "trigger_block_number t = (Ok (number_of t) :: (_, string) result)" using snoc.prems by simp
  have "filter (\<lambda>u. number_of u = number_of t) ts = []" if "number_of t \<notin> number_of ` set ts"
    using that by (auto simp: filter_empty_conv image_iff)
  then have old: "(case map_of m (number_of t) of None \<Rightarrow> [] | Some us \<Rightarrow> us) = filter (\<lambda>u. number_of u = number_of t) ts"
    using m(3) by simp
  have "add_to_group t m = Ok (hm_insert (number_of t) (filter (\<lambda>u. number_of u = number_of t) ts @ [t]) m)"
    by (simp add: add_to_group_def t old)
  then show ?case
    using m by (simp add: try_fold_append map_simps)
qed simp

lemma block_logs_logs:
  "block_logs ts \<Longrightarrow> (\<And>l. LogTrigger l \<in> set us \<Longrightarrow> LogTrigger l \<in> set ts) \<Longrightarrow> block_logs us"
  unfolding block_logs_def list_all_iff by (simp add: set_logs_of)

lemma sort_key_map: "sort_key f (map g xs) = map g (sort_key (\<lambda>x. f (g x)) xs)"
proof (induction xs)
  case (Cons x xs)
  have "insort_key f (g x) (map g ys) = map g (insort_key (\<lambda>x. f (g x)) x ys)" for ys
    by (induction ys) auto
  with Cons show ?case by simp
qed simp

section \<open>What a scan returns\<close>

text \<open>The triggers of one block, in order, with the block.\<close>

definition scanned :: "(u64 \<Rightarrow> light_block) \<Rightarrow> trigger list \<Rightarrow> u64 \<Rightarrow> block_with_triggers" where
  "scanned chain ts n =
     \<lparr>bt_block = Final (chain n), bt_triggers = sort_key trigger_key (filter (\<lambda>t. number_of t = n) ts)\<rparr>"

context ethereum_node
begin

lemma light_number_chain [simp]: "light_number (chain n) = Ok n"
  by (simp add: light_number_def chain_number)

lemma scan_ok:
  assumes "from \<le> to" and "to \<le> limit" and "log_filter_wf lf"
  shows "\<exists>ts. scan_triggers set_iter A from to lf cf bf = Ok ts \<and> (\<forall>t \<in> set ts. on_chain chain from to t)
    \<and> (\<forall>n. block_logs (filter (\<lambda>t. number_of t = n) ts))"
proof -
  obtain ls where ls: "logs_in_block_range A from to lf = Ok ls" "\<forall>l \<in> set ls. on_chain chain from to (LogTrigger l)"
      "\<forall>n. block_logs (map LogTrigger (filter (\<lambda>l. log_block_number l = Some n) ls))"
    using logs_range [OF assms] by blast
  obtain cs where cs: "calls_in_block_range A from to cf = Ok cs" "\<forall>c \<in> set cs. on_chain chain from to (CallTrigger c)"
    using calls_range [OF assms(1,2)] by blast
  obtain ps where ps: "block_range_to_ptrs A from to = Ok ps"
      "\<forall>p \<in> set ps. on_chain chain from to (BlockTrigger p EveryBlock)"
    using ptrs_range [OF assms(1,2)] by blast
  obtain ds where ds: "calls_in_block_range A from to (call_filter_from_block_filter set_iter bf) = Ok ds"
      "\<forall>c \<in> set ds. on_chain chain from to (CallTrigger c)"
    using calls_range [OF assms(1,2)] by blast
  let ?logs = "if log_filter_is_empty lf then [] else map LogTrigger ls"
  let ?calls = "if call_filter_is_empty cf then [] else map CallTrigger cs"
  let ?blocks = "if bf_trigger_every_block bf then map (\<lambda>ptr. BlockTrigger ptr EveryBlock) ps
    else if bf_contract_addresses bf \<noteq> {} then map (\<lambda>c. BlockTrigger (ptr_of_call c) (WithCallTo (call_to c))) ds else []"
  let ?ts = "?logs @ ?calls @ ?blocks"
  have "scan_triggers set_iter A from to lf cf bf = Ok ?ts"
    by (simp add: scan_triggers_def ls(1) cs(1) ps(1) ds(1))
  moreover have "\<forall>t \<in> set ?ts. on_chain chain from to t"
    using ls(2) cs(2) ps(2) ds(2) by (auto simp: on_chain_def ptr_of_call_def)
  moreover have "block_logs (filter (\<lambda>t. number_of t = n) ?ts)" for n
  proof (rule block_logs_logs [OF spec [OF ls(3), of n]])
    fix l assume "LogTrigger l \<in> set (filter (\<lambda>t. number_of t = n) ?ts)"
    then have l: "l \<in> set ls" "number_of (LogTrigger l) = n" by (auto split: if_splits)
    then have "log_block_number l = Some n" using ls(2) on_chain_simps(1) [where 'a = unit, of chain "from" to "LogTrigger l"]
      by (cases "log_block_number l") auto
    with l show "LogTrigger l \<in> set (map LogTrigger (filter (\<lambda>l. log_block_number l = Some n) ls))" by simp
  qed
  ultimately show ?thesis by blast
qed

lemma take_blocks_ok:
  assumes "distinct ns" and "\<And>n. n \<in> set ns \<Longrightarrow> map_of m n = Some (g n) \<and> block_logs (g n)" and "hm_wf m"
  shows "\<exists>m'. try_fold take_block (map chain ns) (acc, m) =
    Ok (acc @ map (\<lambda>n. \<lparr>bt_block = Final (chain n), bt_triggers = sort_key trigger_key (g n)\<rparr>) ns, m')"
  using assms
proof (induction ns arbitrary: acc m)
  case (Cons n ns)
  have "take_block (chain n) (acc, m) =
      Ok (acc @ [\<lparr>bt_block = Final (chain n), bt_triggers = sort_key trigger_key (g n)\<rparr>], hm_remove n m)"
    using Cons.prems(2) [of n] by (simp add: take_block_def block_with_triggers_new_def sort_triggers_key)
  moreover have "map_of (hm_remove n m) k = Some (g k) \<and> block_logs (g k)" if "k \<in> set ns" for k
    using that Cons.prems(1,2) by (auto simp: map_simps)
  ultimately show ?case
    using Cons.IH [of "hm_remove n m" "acc @ [\<lparr>bt_block = Final (chain n), bt_triggers = sort_key trigger_key (g n)\<rparr>]"]
      Cons.prems(1,3) by simp
qed simp

lemma blocks_with_triggers_ok:
  assumes "from \<le> to" and "to \<le> limit" and "log_filter_wf lf"
  shows "\<exists>ts. scan_triggers set_iter A from to lf cf bf = Ok ts \<and> (\<forall>t \<in> set ts. on_chain chain from to t)
    \<and> blocks_with_triggers set_iter A from to lf cf bf =
        Ok (map (scanned chain ts) (sorted_list_of_set (insert to (number_of ` set ts))))"
proof -
  obtain ts where ts: "scan_triggers set_iter A from to lf cf bf = Ok ts" "\<forall>t \<in> set ts. on_chain chain from to t"
      "\<forall>n. block_logs (filter (\<lambda>t. number_of t = n) ts)"
    using scan_ok [OF assms] by blast
  obtain h where h: "bl_hash (chain to) = Some h" using chain_hash by blast
  obtain m where m: "triggers_by_block ts = Ok m" "hm_wf m"
      "\<forall>n. map_of m n = (if n \<in> number_of ` set ts then Some (filter (\<lambda>t. number_of t = n) ts) else None)"
    using triggers_by_block_ok [of ts] ts(2) on_chain_simps(1) by blast
  have hashes: "try_map trigger_block_hash ts = (Ok (map hash_of ts) :: (_, string) result)"
    using ts(2) on_chain_simps(2) by (intro try_map_Ok_total) blast
  let ?nums = "insert to (number_of ` set ts)"
  let ?hs = "insert h (set (map hash_of ts))"
  have hs: "(\<exists>h' \<in> ?hs. bl_hash (chain n) = Some h') \<longleftrightarrow> n \<in> ?nums" for n
    using ts(2) on_chain_simps(3) [of chain "from" to] h chain_inj by (auto simp: image_iff) (metis+)
  have "\<exists>n \<le> limit. bl_hash (chain n) = Some h'" if "h' \<in> ?hs" for h'
    using that h ts(2) on_chain_simps(3,5) [of chain "from" to] assms(2) order.trans by auto blast
  from load_chain [of ?hs, OF this] obtain bs where
    bs: "load_blocks A ?hs = Ok bs" "distinct bs" "set bs = {chain n | n. n \<in> ?nums}"
    unfolding hs by blast
  define ns where "ns = map (\<lambda>b. the (bl_number b)) bs"
  have bs_ns: "bs = map chain ns"
    unfolding ns_def map_map using bs(3) chain_number by (intro map_idI [symmetric]) auto
  have ns: "distinct ns" "set ns = ?nums"
  proof -
    show "distinct ns" using bs(2) unfolding bs_ns distinct_map by blast
    have "set ns = (\<lambda>b. the (bl_number b)) ` {chain n | n. n \<in> ?nums}" by (simp add: ns_def bs(3))
    also have "{chain n | n. n \<in> ?nums} = chain ` ?nums" by blast
    finally show "set ns = ?nums" unfolding image_image chain_number by simp
  qed
  let ?m1 = "if map_of m to = None then hm_insert to [] m else m"
  have m1: "map_of ?m1 n = Some (filter (\<lambda>t. number_of t = n) ts)" if "n \<in> ?nums" for n
  proof (cases "n \<in> number_of ` set ts")
    case True
    then show ?thesis using m(3) by (auto simp: map_simps)
  next
    case False
    then have "filter (\<lambda>t. number_of t = n) ts = []" by (auto simp: filter_empty_conv)
    moreover have "n = to" using False that by blast
    ultimately show ?thesis using False m(3) by (simp add: map_simps)
  qed
  have m1_wf: "hm_wf ?m1" using m(2) by simp
  obtain m' where loop: "try_fold take_block bs ([], ?m1) = Ok (map (scanned chain ts) ns, m')"
    using take_blocks_ok [of ns ?m1 "\<lambda>n. filter (\<lambda>t. number_of t = n) ts" "[]"] ns m1 m1_wf ts(3)
    by (auto simp: bs_ns scanned_def [abs_def])
  have "block_key (scanned chain ts n) = n" for n by (simp add: block_key_def scanned_def)
  then have "sort_key block_key (map (scanned chain ts) ns) = map (scanned chain ts) (sorted_list_of_set ?nums)"
    using ns by (simp add: sort_key_map sorted_list_of_set_sort_remdups distinct_remdups_id flip: ns(2))
  then have "blocks_with_triggers set_iter A from to lf cf bf =
      Ok (map (scanned chain ts) (sorted_list_of_set ?nums))"
    using ts(1) m(1) bs(1) h hashes loop by (simp add: blocks_with_triggers_def hash_by_number [OF assms(2)] Let_def)
  with ts show ?thesis by blast
qed

end

section \<open>Properties\<close>

text \<open>C16. For a range of final blocks the scan returns, in increasing order, exactly the blocks that
  have a trigger and always the last block of the range; every block carries precisely its own
  triggers in their order, and no block lies outside the range.\<close>

theorem blocks_with_triggers_complete:
  assumes "ethereum_node A chain limit" and "from \<le> to" and "to \<le> limit" and "log_filter_wf lf"
  shows "\<exists>ts. scan_triggers set_iter A from to lf cf bf = Ok ts
    \<and> blocks_with_triggers set_iter A from to lf cf bf =
        Ok (map (scanned chain ts) (sorted_list_of_set (insert to (number_of ` set ts))))
    \<and> insert to (number_of ` set ts) \<subseteq> {from..to}"
proof -
  obtain ts where ts: "scan_triggers set_iter A from to lf cf bf = Ok ts" "\<forall>t \<in> set ts. on_chain chain from to t"
      "blocks_with_triggers set_iter A from to lf cf bf =
        Ok (map (scanned chain ts) (sorted_list_of_set (insert to (number_of ` set ts))))"
    using ethereum_node.blocks_with_triggers_ok [OF assms, of set_iter cf bf] by blast
  moreover have "insert to (number_of ` set ts) \<subseteq> {from..to}"
    using ts(2) on_chain_simps(4,5) [of chain "from" to] assms(2) by auto
  ultimately show ?thesis by blast
qed

definition demo_hash :: "u64 \<Rightarrow> h256" where
  "demo_hash n = replicate (unat n) 0"

definition demo_chain :: "u64 \<Rightarrow> light_block" where
  "demo_chain n = \<lparr>bl_hash = Some (demo_hash n), bl_parent_hash = demo_hash (n - 1), bl_number = Some n, bl_transactions = [], bl_uncles = []\<rparr>"

definition demo_node :: eth_adapter where
  "demo_node = \<lparr>
     logs_in_block_range = (\<lambda>from to lf. Ok []),
     calls_in_block_range = (\<lambda>from to cf. Ok []),
     block_range_to_ptrs = (\<lambda>from to. Ok (if from \<le> to then [BlockPtr (demo_hash from) from] else [])),
     block_hash_by_block_number = (\<lambda>n. Ok (Some (demo_hash n))),
     load_blocks = (\<lambda>hs. Ok (map demo_chain (sorted_list_of_set {n. demo_hash n \<in> hs}))),
     is_on_main_chain = (\<lambda>p. Ok (ptr_hash p = demo_hash (ptr_number p))),
     calls_in_block = (\<lambda>n h. Ok []) \<rparr>"

lemma demo_hash_eq [simp]: "demo_hash n = demo_hash m \<longleftrightarrow> n = m"
  by (auto simp: demo_hash_def replicate_eq_replicate word_unat_eq_iff)

interpretation demo_ethereum: ethereum_node demo_node demo_chain limit for limit
proof (unfold_locales, goal_cases)
  case (8 hs)
  have "inj demo_chain" by (auto simp: inj_def demo_chain_def)
  then show ?case
    by (auto simp: demo_node_def demo_chain_def distinct_map intro: inj_on_subset)
qed (auto simp: demo_node_def demo_chain_def on_chain_def block_logs_def logs_of_def map_filter_simps)

theorem blocks_with_triggers_complete_witness:
  "\<exists>ts. scan_triggers sorted_list_of_set demo_node 3 7 log_filter_default [] (block_filter_default\<lparr>bf_trigger_every_block := True\<rparr>) = Ok ts
    \<and> blocks_with_triggers sorted_list_of_set demo_node 3 7 log_filter_default [] (block_filter_default\<lparr>bf_trigger_every_block := True\<rparr>) =
        Ok (map (scanned demo_chain ts) (sorted_list_of_set (insert 7 (number_of ` set ts))))"
  using blocks_with_triggers_complete [OF demo_ethereum.ethereum_node_axioms [of 7], of 3 7
      log_filter_default sorted_list_of_set "[]" "block_filter_default\<lparr>bf_trigger_every_block := True\<rparr>"] log_filter_wf_default by auto

text \<open>Re-scanning one final block, as is done for data sources created in it, returns that block
  with its triggers and never fails the check that there is at most one.\<close>

lemma triggers_in_final_block:
  assumes "ethereum_node A chain limit" and "n \<le> limit" and "log_filter_wf lf"
  shows "\<exists>ts. scan_triggers set_iter A n n lf cf bf = Ok ts
    \<and> triggers_in_block set_iter A lf cf bf (Final (chain n)) = Ok (scanned chain ts n)"
proof -
  obtain ts where ts: "scan_triggers set_iter A n n lf cf bf = Ok ts" "\<forall>t \<in> set ts. on_chain chain n n t"
      "blocks_with_triggers set_iter A n n lf cf bf =
        Ok (map (scanned chain ts) (sorted_list_of_set (insert n (number_of ` set ts))))"
    using ethereum_node.blocks_with_triggers_ok [OF assms(1) order.refl assms(2,3), of set_iter cf bf] by blast
  have "insert n (number_of ` set ts) = {n}" using ts(2) on_chain_simps(4,5) [of chain n n] by force
  then have "blocks_with_triggers set_iter A n n lf cf bf = Ok [scanned chain ts n]"
    using ts(3) by (simp only: sorted_list_of_set_insert) simp
  then show ?thesis
    using ts(1) ethereum_node.light_number_chain [OF assms(1), where 'a = string]
    by (simp add: triggers_in_block_def)
qed

end
