(* ===== verification/StoreQuery.thy ===== *)
theory StoreQuery
  imports Values
begin

text \<open>
  Store queries of \<open>graph/src/components/store.rs\<close>: filters and their conjunction, ranges, windows and
  the builder methods of \<open>EntityQuery\<close>, with \<open>simplify\<close>, which turns a window over one parent into
  a filter. What a filter means is decided by the database, so the meaning of the comparisons is a
  parameter; locale \<open>comparison_semantics\<close> states what \<open>simplify\<close> relies on. The query's logger is
  left out.
\<close>

section \<open>Filters\<close>

datatype entity_filter =
    FAnd "entity_filter list"
  | FOr "entity_filter list"
  | FEqual string val
  | FNot string val
  | FGreaterThan string val
  | FLessThan string val
  | FGreaterOrEqual string val
  | FLessOrEqual string val
  | FIn string "val list"
  | FNotIn string "val list"
  | FContains string val
  | FNotContains string val
  | FStartsWith string val
  | FNotStartsWith string val
  | FEndsWith string val
  | FNotEndsWith string val

definition new_equal :: "string \<Rightarrow> val \<Rightarrow> entity_filter" where
  "new_equal attribute_name attribute_value = FEqual attribute_name attribute_value"

definition new_in :: "string \<Rightarrow> val list \<Rightarrow> entity_filter" where
  "new_in attribute_name attribute_values = FIn attribute_name attribute_values"

definition and_maybe :: "entity_filter \<Rightarrow> entity_filter option \<Rightarrow> entity_filter" where
  "and_maybe self other =
     (case other of
        None \<Rightarrow> self
      | Some other \<Rightarrow>
          (case (self, other) of
             (FAnd fs1, FAnd fs2) \<Rightarrow> FAnd (fs1 @ fs2)
           | (FAnd fs1, f2) \<Rightarrow> FAnd (fs1 @ [f2])
           | (f1, FAnd fs2) \<Rightarrow> FAnd (fs2 @ [f1])
           | (f1, f2) \<Rightarrow> FAnd [f1, f2]))"

section \<open>Order, range and windows\<close>

datatype entity_order =
    Ascending string value_type
  | Descending string value_type
  | DefaultOrder
  | Unordered

record entity_range =
  rg_first :: "32 word option"
  rg_skip :: "32 word"

definition range_first :: "32 word \<Rightarrow> entity_range" where
  "range_first n = \<lparr>rg_first = Some n, rg_skip = 0\<rparr>"

datatype window_attribute = ScalarAttr string | ListAttr string

fun window_attribute_name :: "window_attribute \<Rightarrow> string" where
  "window_attribute_name (ScalarAttr name) = name"
| "window_attribute_name (ListAttr name) = name"

datatype parent_link = ListLink "string list list" | ScalarLink "string list"

datatype child_multiplicity = Single | Many

datatype entity_link = Direct window_attribute child_multiplicity | ParentLink parent_link

record entity_window =
  w_child_type :: string
  w_ids :: "string list"
  w_link :: entity_link

datatype entity_collection = AllOf "string list" | WindowOf "entity_window list"

section \<open>Queries\<close>

record entity_query =
  q_subgraph_id :: string
  q_block :: i32
  q_collection :: entity_collection
  q_filter :: "entity_filter option"
  q_order :: entity_order
  q_range :: entity_range
  q_query_id :: "string option"

definition BLOCK_NUMBER_MAX :: i32 where
  "BLOCK_NUMBER_MAX = 2147483647"

definition query_new :: "string \<Rightarrow> i32 \<Rightarrow> entity_collection \<Rightarrow> entity_query" where
  "query_new sg blk coll =
     \<lparr>q_subgraph_id = sg, q_block = blk, q_collection = coll, q_filter = None, q_order = DefaultOrder,
      q_range = range_first 100, q_query_id = None\<rparr>"

definition query_filter :: "entity_query \<Rightarrow> entity_filter \<Rightarrow> entity_query" where
  "query_filter q f = q\<lparr>q_filter := Some f\<rparr>"

definition query_order :: "entity_query \<Rightarrow> entity_order \<Rightarrow> entity_query" where
  "query_order q ord = q\<lparr>q_order := ord\<rparr>"

definition query_range :: "entity_query \<Rightarrow> entity_range \<Rightarrow> entity_query" where
  "query_range q r = q\<lparr>q_range := r\<rparr>"

definition query_first :: "entity_query \<Rightarrow> 32 word \<Rightarrow> entity_query" where
  "query_first q n = q\<lparr>q_range := (q_range q)\<lparr>rg_first := Some n\<rparr>\<rparr>"

definition query_skip :: "entity_query \<Rightarrow> 32 word \<Rightarrow> entity_query" where
  "query_skip q n = q\<lparr>q_range := (q_range q)\<lparr>rg_skip := n\<rparr>\<rparr>"

fun window_filter :: "window_attribute \<Rightarrow> string \<Rightarrow> entity_filter" where
  "window_filter (ScalarAttr name) i = FEqual name (VString i)"
| "window_filter (ListAttr name) i = FContains name (VList [VString i])"

definition simplify :: "entity_query \<Rightarrow> entity_query" where
  "simplify q =
     (case q_collection q of
        WindowOf [window] \<Rightarrow>
          (case (w_ids window, w_link window) of
             ([i], Direct attribute _) \<Rightarrow>
               q\<lparr>q_filter := Some (and_maybe (window_filter attribute i) (q_filter q)),
                 q_collection := AllOf [w_child_type window]\<rparr>
           | _ \<Rightarrow> q)
      | _ \<Rightarrow> q)"

section \<open>What a query selects\<close>

text \<open>\<open>cmp\<close> decides the comparisons, \<open>parents\<close> which children a parent link gives to which parents.\<close>

fun holds :: "(entity_filter \<Rightarrow> entity \<Rightarrow> bool) \<Rightarrow> entity_filter \<Rightarrow> entity \<Rightarrow> bool" where
  "holds cmp (FAnd fs) e \<longleftrightarrow> list_all (\<lambda>f. holds cmp f e) fs"
| "holds cmp (FOr fs) e \<longleftrightarrow> list_ex (\<lambda>f. holds cmp f e) fs"
| "holds cmp f e \<longleftrightarrow> cmp f e"

fun points_to :: "window_attribute \<Rightarrow> entity \<Rightarrow> string \<Rightarrow> bool" where
  "points_to (ScalarAttr a) e i \<longleftrightarrow> map_of e a = Some (VString i)"
| "points_to (ListAttr a) e i \<longleftrightarrow> (case map_of e a of Some (VList vs) \<Rightarrow> VString i \<in> set vs | _ \<Rightarrow> False)"

definition linked :: "(entity_window \<Rightarrow> entity \<Rightarrow> string \<Rightarrow> bool) \<Rightarrow> entity_window \<Rightarrow> entity \<Rightarrow> string \<Rightarrow> bool" where
  "linked parents window e i \<longleftrightarrow>
     (case w_link window of Direct attribute _ \<Rightarrow> points_to attribute e i | ParentLink _ \<Rightarrow> parents window e i)"

definition selects ::
  "(entity_filter \<Rightarrow> entity \<Rightarrow> bool) \<Rightarrow> (entity_window \<Rightarrow> entity \<Rightarrow> string \<Rightarrow> bool) \<Rightarrow>
     entity_query \<Rightarrow> string \<Rightarrow> entity \<Rightarrow> bool" where
  "selects cmp parents q ty e \<longleftrightarrow>
     pred_option (\<lambda>f. holds cmp f e) (q_filter q)
     \<and> (case q_collection q of
          AllOf types \<Rightarrow> ty \<in> set types
        | WindowOf ws \<Rightarrow> \<exists>window \<in> set ws. ty = w_child_type window
            \<and> (\<exists>i \<in> set (w_ids window). linked parents window e i))"

locale comparison_semantics =
  fixes cmp :: "entity_filter \<Rightarrow> entity \<Rightarrow> bool"
  assumes cmp_equal: "cmp (FEqual a v) e \<longleftrightarrow> map_of e a = Some v"
    and cmp_contains: "cmp (FContains a (VList vs)) e \<longleftrightarrow>
      (case map_of e a of Some (VList us) \<Rightarrow> set vs \<subseteq> set us | _ \<Rightarrow> False)"

lemma holds_and_maybe:
  "holds cmp (and_maybe f g) e \<longleftrightarrow> holds cmp f e \<and> pred_option (\<lambda>g. holds cmp g e) g"
proof (cases g)
  case (Some h)
  then show ?thesis by (cases f; cases h) (auto simp: and_maybe_def)
qed (simp add: and_maybe_def)

context comparison_semantics
begin

lemma holds_window_filter: "holds cmp (window_filter a i) e \<longleftrightarrow> points_to a e i"
  by (cases a) (auto simp: cmp_equal cmp_contains split: option.splits val.splits)

lemma selects_simplify: "selects cmp parents (simplify q) ty e \<longleftrightarrow> selects cmp parents q ty e"
  by (auto simp: simplify_def selects_def holds_and_maybe holds_window_filter linked_def
      split: entity_collection.splits list.splits entity_link.splits)

end

fun demo_cmp :: "entity_filter \<Rightarrow> entity \<Rightarrow> bool" where
  "demo_cmp (FEqual a v) e \<longleftrightarrow> map_of e a = Some v"
| "demo_cmp (FContains a (VList vs)) e \<longleftrightarrow>
     (case map_of e a of Some (VList us) \<Rightarrow> set vs \<subseteq> set us | _ \<Rightarrow> False)"
| "demo_cmp _ e \<longleftrightarrow> False"

interpretation demo_semantics: comparison_semantics demo_cmp
  by unfold_locales simp_all

section \<open>Properties\<close>

text \<open>A query and its simplification select the same entities: replacing the window over a
  single parent by a filter on the child attribute loses nothing and adds nothing.\<close>

lemma simplify_preserves_selection:
  assumes "comparison_semantics cmp"
  shows "selects cmp parents (simplify q) ty e \<longleftrightarrow> selects cmp parents q ty e"
  using assms by (rule comparison_semantics.selects_simplify)

end
