(* ===== verification/StoreEvents.thy ===== *)
theory StoreEvents
  imports EntityCache StoreQuery
begin

text \<open>
  Change events of \<open>graph/src/components/store.rs\<close>: the events made from modifications and metadata
  operations, the filter by entity type and the throttling of events while a deployment is syncing.
  A \<open>HashSet\<close> of changes is a set. The global counter of event tags is passed explicitly. Time is
  counted in nanoseconds, and the source stream of the throttle is the list of what its polls return,
  an exhausted list being a stream that has ended (the source is fused).
\<close>

section \<open>Changes and events\<close>

datatype entity_change_operation = ChangeSet | ChangeRemoved

record entity_change =
  ch_subgraph_id :: string
  ch_entity_type :: string
  ch_entity_id :: string
  ch_operation :: entity_change_operation

definition SUBGRAPHS_ID :: string where
  "SUBGRAPHS_ID = ''subgraphs''"

datatype metadata_operation =
    MetaSet string string entity
  | MetaRemove string string
  | AbortUnless string entity_query "string list"
  | MetaUpdate string string entity

definition meta_entity_key :: "string \<Rightarrow> string \<Rightarrow> entity_key" where
  "meta_entity_key ent i = EntityKey SUBGRAPHS_ID ent i"

definition mod_is_meta :: "entity_modification \<Rightarrow> bool" where
  "mod_is_meta m \<longleftrightarrow> subgraph_id (mod_entity_key m) = SUBGRAPHS_ID"

definition change_from_key :: "entity_key \<Rightarrow> entity_change_operation \<Rightarrow> entity_change" where
  "change_from_key key operation =
     \<lparr>ch_subgraph_id = subgraph_id key, ch_entity_type = entity_type key,
      ch_entity_id = entity_id key, ch_operation = operation\<rparr>"

definition subgraph_entity_pair :: "entity_change \<Rightarrow> string \<times> string" where
  "subgraph_entity_pair ch = (ch_subgraph_id ch, ch_entity_type ch)"

fun change_of_metadata :: "metadata_operation \<Rightarrow> entity_change option" where
  "change_of_metadata (MetaSet ent i _) = Some (change_from_key (meta_entity_key ent i) ChangeSet)"
| "change_of_metadata (MetaUpdate ent i _) = Some (change_from_key (meta_entity_key ent i) ChangeSet)"
| "change_of_metadata (MetaRemove ent i) = Some (change_from_key (meta_entity_key ent i) ChangeRemoved)"
| "change_of_metadata (AbortUnless _ _ _) = None"

record store_event =
  ev_tag :: usize
  ev_changes :: "entity_change set"

text \<open>\<open>StoreEvent::new\<close>; the first component is the new value of \<open>NEXT_TAG\<close>.\<close>

definition store_event_new :: "usize \<Rightarrow> entity_change list \<Rightarrow> usize \<times> store_event" where
  "store_event_new next_tag changes = (next_tag + 1, \<lparr>ev_tag = next_tag, ev_changes = set changes\<rparr>)"

definition event_from_metadata :: "usize \<Rightarrow> metadata_operation list \<Rightarrow> usize \<times> store_event" where
  "event_from_metadata next_tag operations =
     store_event_new next_tag (List.map_filter change_of_metadata operations)"

fun change_of_mod :: "entity_modification \<Rightarrow> entity_change" where
  "change_of_mod (InsertMod key _) = change_from_key key ChangeSet"
| "change_of_mod (OverwriteMod key _) = change_from_key key ChangeSet"
| "change_of_mod (RemoveMod key) = change_from_key key ChangeRemoved"

definition event_from_mods :: "usize \<Rightarrow> entity_modification list \<Rightarrow> usize \<times> store_event" where
  "event_from_mods next_tag mods = store_event_new next_tag (map change_of_mod mods)"

definition accumulate :: "store_event option \<Rightarrow> store_event \<Rightarrow> store_event option" where
  "accumulate ev1 ev2 =
     (case ev1 of
        Some e \<Rightarrow> Some (e\<lparr>ev_changes := ev_changes e \<union> ev_changes ev2\<rparr>)
      | None \<Rightarrow> Some ev2)"

definition event_extend :: "store_event \<Rightarrow> store_event \<Rightarrow> store_event" where
  "event_extend self other = self\<lparr>ev_changes := ev_changes self \<union> ev_changes other\<rparr>"

definition event_eq :: "store_event \<Rightarrow> store_event \<Rightarrow> bool" where
  "event_eq self other \<longleftrightarrow> ev_changes self = ev_changes other"

text \<open>The predicate of \<open>filter_by_entities\<close>.\<close>

definition concerns :: "(string \<times> string) list \<Rightarrow> store_event \<Rightarrow> bool" where
  "concerns entities event \<longleftrightarrow>
     (\<exists>change \<in> ev_changes event. list_ex (\<lambda>(sg, ty). sg = ch_subgraph_id change \<and> ty = ch_entity_type change) entities)"

section \<open>Throttling\<close>

text \<open>What polling a stream gives: nothing yet, an event, an error; the end of a stream is \<open>PEnd\<close>.\<close>

datatype stream_poll = PNotReady | PEvent store_event | PErr | PEnd

record throttle =
  th_synced :: bool
  th_last_refreshed :: nat
  th_pending :: "store_event option"
  th_had_err :: bool
  th_deadline :: nat

text \<open>
  What one call of \<open>poll\<close> sees of its surroundings: the clock, the store's answer about the
  deployment, and whether polling the timer fails.
\<close>

record poll_env =
  pe_now :: nat
  pe_store_synced :: "(bool, unit) result"
  pe_timer_err :: bool

definition SYNC_REFRESH_FREQ :: nat where
  "SYNC_REFRESH_FREQ = 4"

text \<open>\<open>Duration::checked_mul\<close>: a duration holds fewer than \<open>2 ^ 64\<close> seconds.\<close>

definition duration_checked_mul :: "nat \<Rightarrow> nat \<Rightarrow> nat option" where
  "duration_checked_mul d n = (if d * n < 2 ^ 64 * 10 ^ 9 then Some (d * n) else None)"

definition check_synced :: "string \<Rightarrow> (bool, unit) result \<Rightarrow> bool" where
  "check_synced deployment answer \<longleftrightarrow>
     deployment \<noteq> SUBGRAPHS_ID \<and> (case answer of Ok b \<Rightarrow> b | _ \<Rightarrow> False)"

definition throttle_while_syncing ::
  "string \<Rightarrow> nat \<Rightarrow> poll_env \<Rightarrow> (throttle \<times> nat, unit) result" where
  "throttle_while_syncing deployment interval env =
     and_then (expect (duration_checked_mul interval SYNC_REFRESH_FREQ)) (\<lambda>synced_check_interval.
       Ok (\<lparr>th_synced = check_synced deployment (pe_store_synced env),
            th_last_refreshed = pe_now env, th_pending = None, th_had_err = False,
            th_deadline = pe_now env + interval\<rparr>,
           synced_check_interval))"

fun source_poll :: "stream_poll list \<Rightarrow> stream_poll \<times> stream_poll list" where
  "source_poll [] = (PEnd, [])"
| "source_poll (PEnd # src) = (PEnd, [])"
| "source_poll (p # src) = (p, src)"

fun ready :: "store_event option \<Rightarrow> stream_poll" where
  "ready None = PEnd"
| "ready (Some e) = PEvent e"

text \<open>The \<open>loop\<close> that takes events off the source: the answer, what is pending, \<open>had_err\<close>, the source.\<close>

fun throttle_loop ::
  "bool \<Rightarrow> store_event option \<Rightarrow> stream_poll list \<Rightarrow>
     stream_poll \<times> store_event option \<times> bool \<times> stream_poll list" where
  "throttle_loop should_send pending (PNotReady # src) =
     (if should_send \<and> pending \<noteq> None then (ready pending, None, False, src)
      else (PNotReady, pending, False, src))"
| "throttle_loop should_send pending (PEvent e # src) =
     throttle_loop should_send (accumulate pending e) src"
| "throttle_loop should_send pending (PErr # src) =
     (if pending \<noteq> None then (ready pending, None, True, src)
      else (PErr, pending, False, src))"
| "throttle_loop should_send pending (PEnd # src) = (ready pending, None, False, [])"
| "throttle_loop should_send pending [] = (ready pending, None, False, [])"

definition throttle_poll ::
  "string \<Rightarrow> nat \<Rightarrow> nat \<Rightarrow> poll_env \<Rightarrow> throttle \<Rightarrow> stream_poll list \<Rightarrow>
     stream_poll \<times> throttle \<times> stream_poll list" where
  "throttle_poll deployment interval synced_check_interval env th src =
     (if th_had_err th then (PErr, th\<lparr>th_had_err := False\<rparr>, src)
      else
        let th1 = (if \<not> th_synced th \<and> pe_now env - th_last_refreshed th > synced_check_interval
                   then th\<lparr>th_synced := check_synced deployment (pe_store_synced env),
                           th_last_refreshed := pe_now env\<rparr>
                   else th)
        in if th_synced th1 then (let (r, src1) = source_poll src in (r, th1, src1))
           else
             let should_send = (pe_timer_err env \<or> th_deadline th1 \<le> pe_now env);
                 th2 = (if should_send then th1\<lparr>th_deadline := pe_now env + interval\<rparr> else th1);
                 (r, pending, had_err, src1) = throttle_loop should_send (th_pending th2) src
             in (r, th2\<lparr>th_pending := pending, th_had_err := had_err\<rparr>, src1))"

text \<open>A consumer polls again and again: the answers in order, the state and the rest of the source.\<close>

fun throttle_run ::
  "string \<Rightarrow> nat \<Rightarrow> nat \<Rightarrow> poll_env list \<Rightarrow> throttle \<Rightarrow> stream_poll list \<Rightarrow>
     stream_poll list \<times> throttle \<times> stream_poll list" where
  "throttle_run dep interval sci [] th src = ([], th, src)"
| "throttle_run dep interval sci (env # envs) th src =
     (let (r, th1, src1) = throttle_poll dep interval sci env th src;
          (rs, th2, src2) = throttle_run dep interval sci envs th1 src1
      in (r # rs, th2, src2))"

section \<open>Nothing is lost while syncing\<close>

fun poll_changes :: "stream_poll \<Rightarrow> entity_change set" where
  "poll_changes (PEvent e) = ev_changes e"
| "poll_changes _ = {}"

text \<open>The changes of the events that a stream has still to give; nothing comes after its end.\<close>

fun stream_changes :: "stream_poll list \<Rightarrow> entity_change set" where
  "stream_changes [] = {}"
| "stream_changes (PEnd # src) = {}"
| "stream_changes (p # src) = poll_changes p \<union> stream_changes src"

fun pending_changes :: "store_event option \<Rightarrow> entity_change set" where
  "pending_changes None = {}"
| "pending_changes (Some e) = ev_changes e"

lemma poll_changes_ready [simp]: "poll_changes (ready p) = pending_changes p"
  by (cases p) auto

lemma pending_changes_accumulate [simp]:
  "pending_changes (accumulate p e) = pending_changes p \<union> ev_changes e"
  by (cases p) (auto simp: accumulate_def)

lemma throttle_loop_changes:
  "throttle_loop b pending src = (r, pending', had_err, src') \<Longrightarrow>
     poll_changes r \<union> pending_changes pending' \<union> stream_changes src' =
       pending_changes pending \<union> stream_changes src"
  by (induction b pending src rule: throttle_loop.induct) (auto split: if_splits)

lemma throttle_loop_end:
  "throttle_loop b pending src = (PEnd, pending', had_err, src') \<Longrightarrow> pending' = None \<and> src' = []"
  by (induction b pending src rule: throttle_loop.induct) (auto elim: ready.elims split: if_splits)

lemma source_poll_changes:
  "source_poll src = (r, src') \<Longrightarrow> poll_changes r \<union> stream_changes src' = stream_changes src"
  by (induction src rule: source_poll.induct) auto

lemma throttle_poll_cases:
  assumes "throttle_poll dep interval sci env th src = (r, th', src')"
    and "\<not> th_synced th" and "\<not> th_synced th'"
  shows "(r = PErr \<and> src' = src \<and> th_pending th' = th_pending th)
    \<or> (\<exists>b had_err. throttle_loop b (th_pending th) src = (r, th_pending th', had_err, src'))"
  using assms by (auto simp: throttle_poll_def Let_def split: if_splits prod.splits)

lemma throttle_poll_changes:
  assumes "throttle_poll dep interval sci env th src = (r, th', src')"
    and "\<not> th_synced th" and "\<not> th_synced th'"
  shows "poll_changes r \<union> pending_changes (th_pending th') \<union> stream_changes src' =
    pending_changes (th_pending th) \<union> stream_changes src"
  using throttle_poll_cases [OF assms]
proof
  assume "\<exists>b had_err. throttle_loop b (th_pending th) src = (r, th_pending th', had_err, src')"
  then show ?thesis using throttle_loop_changes by blast
qed auto

lemma throttle_poll_synced:
  assumes "throttle_poll dep interval sci env th src = (r, th', src')" and "th_synced th"
  shows "th_synced th' \<and> th_pending th' = th_pending th
    \<and> (\<not> th_had_err th \<longrightarrow> source_poll src = (r, src') \<and> \<not> th_had_err th')"
  using assms by (auto simp: throttle_poll_def Let_def split: if_splits prod.splits)

lemma throttle_run_synced:
  "throttle_run dep interval sci envs th src = (rs, th', src') \<Longrightarrow> th_synced th \<Longrightarrow> th_synced th'"
  by (induction envs arbitrary: th src rs)
    (auto simp: Let_def split: prod.splits dest: throttle_poll_synced)

section \<open>Properties\<close>

text \<open>C20. While the deployment is not found to be synced, throttling loses no change and makes none
  up: at any time the changes delivered, those pending and those still in the source are the changes
  that were pending and in the source at the start.\<close>

theorem throttle_conserves_changes:
  assumes "throttle_run dep interval sci envs th src = (rs, th', src')" and "\<not> th_synced th'"
  shows "(\<Union>r \<in> set rs. poll_changes r) \<union> pending_changes (th_pending th') \<union> stream_changes src' =
    pending_changes (th_pending th) \<union> stream_changes src"
  using assms
proof (induction envs arbitrary: th src rs)
  case (Cons env envs)
  obtain r th1 src1 where p: "throttle_poll dep interval sci env th src = (r, th1, src1)"
    by (metis prod_cases3)
  obtain rs1 where rs: "rs = r # rs1" and run: "throttle_run dep interval sci envs th1 src1 = (rs1, th', src')"
    using Cons.prems(1) p by (auto simp: Let_def split: prod.splits)
  have "\<not> th_synced th1" using throttle_run_synced [OF run] Cons.prems(2) by blast
  moreover have "\<not> th_synced th" using throttle_poll_synced [OF p] \<open>\<not> th_synced th1\<close> by blast
  ultimately show ?case using throttle_poll_changes [OF p] Cons.IH [OF run Cons.prems(2)] rs by auto
qed auto

text \<open>A deployment that syncs: two events are pending when the check finds it synced.\<close>

definition demo_change :: "string \<Rightarrow> entity_change" where
  "demo_change i = change_from_key (EntityKey ''sg'' ''Token'' i) ChangeSet"

definition demo_event :: "string \<Rightarrow> store_event" where
  "demo_event i = snd (store_event_new 7 [demo_change i])"

definition demo_throttle :: throttle where
  "demo_throttle = \<lparr>th_synced = False, th_last_refreshed = 0, th_pending = None, th_had_err = False,
     th_deadline = 10\<rparr>"

definition demo_env :: "nat \<Rightarrow> bool \<Rightarrow> poll_env" where
  "demo_env now b = \<lparr>pe_now = now, pe_store_synced = Ok b, pe_timer_err = False\<rparr>"

theorem throttle_conserves_changes_witness:
  "\<not> th_synced (fst (snd (throttle_run ''sg'' 10 40 [demo_env 5 False, demo_env 12 False] demo_throttle
       [PEvent (demo_event ''a''), PNotReady, PEvent (demo_event ''b''), PNotReady])))
   \<and> (\<Union>r \<in> set (fst (throttle_run ''sg'' 10 40 [demo_env 5 False, demo_env 12 False] demo_throttle
       [PEvent (demo_event ''a''), PNotReady, PEvent (demo_event ''b''), PNotReady])). poll_changes r) =
     {demo_change ''a'', demo_change ''b''}"
proof -
  let ?src = "[PEvent (demo_event ''a''), PNotReady, PEvent (demo_event ''b''), PNotReady]"
  obtain rs th' src' where run: "throttle_run ''sg'' 10 40 [demo_env 5 False, demo_env 12 False] demo_throttle ?src
      = (rs, th', src')" by (metis prod_cases3)
  then have "\<not> th_synced th'" "th_pending th' = None" "src' = []"
    by (auto simp: throttle_poll_def demo_env_def demo_throttle_def accumulate_def)
  moreover from throttle_conserves_changes [OF run this(1)] this
  have "(\<Union>r \<in> set rs. poll_changes r) = {demo_change ''a'', demo_change ''b''}"
    by (auto simp: demo_throttle_def demo_event_def store_event_new_def)
  ultimately show ?thesis using run by simp
qed

text \<open>When the check finds that the deployment has synced in the meantime, the throttle passes
  the source through and forgets what is pending: from then on a consumer gets exactly what the source
  still has, and the accumulated event stays in \<open>pending_event\<close> for ever.\<close>

lemma throttle_drops_pending:
  assumes "th_pending th = Some ev" and "\<not> th_had_err th" and "\<not> th_synced th"
    and "sci < pe_now env - th_last_refreshed th" and "check_synced dep (pe_store_synced env)"
    and "throttle_run dep interval sci (env # envs) th src = (rs, th', src')"
  shows "th_pending th' = Some ev
    \<and> (\<Union>r \<in> set rs. poll_changes r) \<union> stream_changes src' = stream_changes src"
proof -
  have passes: "th_pending th2 = th_pending th1
      \<and> (\<Union>r \<in> set rs. poll_changes r) \<union> stream_changes src2 = stream_changes src1"
    if "throttle_run dep interval sci envs th1 src1 = (rs, th2, src2)" "th_synced th1" "\<not> th_had_err th1"
    for envs th1 src1 rs th2 src2
    using that
  proof (induction envs arbitrary: th1 src1 rs)
    case (Cons e envs)
    obtain r th3 src3 where p: "throttle_poll dep interval sci e th1 src1 = (r, th3, src3)"
      by (metis prod_cases3)
    obtain rs1 where rs: "rs = r # rs1" and run: "throttle_run dep interval sci envs th3 src3 = (rs1, th2, src2)"
      using Cons.prems(1) p by (auto simp: Let_def split: prod.splits)
    note sy = throttle_poll_synced [OF p Cons.prems(2)]
    then show ?case using Cons.IH [OF run] Cons.prems(3) rs source_poll_changes [of src1 r src3] by auto
  qed simp
  let ?th = "th\<lparr>th_synced := True, th_last_refreshed := pe_now env\<rparr>"
  have "throttle_poll dep interval sci env th src = (fst (source_poll src), ?th, snd (source_poll src))"
    using assms(2-5) by (simp add: throttle_poll_def Let_def case_prod_unfold)
  then obtain rs1 where rs: "rs = fst (source_poll src) # rs1"
    and run: "throttle_run dep interval sci envs ?th (snd (source_poll src)) = (rs1, th', src')"
    using assms(6) by (auto simp: Let_def split: prod.splits)
  from passes [OF run] have "th_pending th' = Some ev"
      "(\<Union>r \<in> set rs1. poll_changes r) \<union> stream_changes src' = stream_changes (snd (source_poll src))"
    using assms(1,2) by simp_all
  then show ?thesis
    using source_poll_changes [of src "fst (source_poll src)" "snd (source_poll src)"] rs by auto
qed

end
