(* ===== verification/Assignments.thy ===== *)
theory Assignments
  imports StoreEvents
begin

text \<open>
  Subgraph names and deployment ids (\<open>graph/src/data/subgraph/mod.rs\<close>) and the store's default
  methods that keep the assignments of deployments to nodes in step with subgraph versions
  (\<open>graph/src/components/store.rs\<close>). A \<open>HashSet\<close> of ids that is iterated over is a list without
  repetitions in some order. \<open>Store::find\<close> is a parameter.
\<close>

section \<open>Names and ids\<close>

text \<open>\<open>s.len()\<close> counts bytes; a string of the model is a list of bytes.\<close>

definition deployment_id_new :: "string \<Rightarrow> (string, string) result" where
  "deployment_id_new s =
     (if length s > 46 then Err s
      else if \<not> list_all (\<lambda>c. is_ascii_alphanumeric c \<or> c = CHR ''_'') s then Err s
      else Ok s)"

definition to_ipfs_link :: "string \<Rightarrow> string" where
  "to_ipfs_link s = ''/ipfs/'' @ s"

definition is_meta :: "string \<Rightarrow> bool" where
  "is_meta s \<longleftrightarrow> s = SUBGRAPHS_ID"

fun split_on :: "char \<Rightarrow> string \<Rightarrow> string list" where
  "split_on c [] = [[]]"
| "split_on c (x # xs) =
     (if x = c then [] # split_on c xs
      else (case split_on c xs of [] \<Rightarrow> [[x]] | p # ps \<Rightarrow> (x # p) # ps))"

definition is_ascii_alphabetic :: "char \<Rightarrow> bool" where
  "is_ascii_alphabetic c \<longleftrightarrow>
     (CHR ''a'' \<le> c \<and> c \<le> CHR ''z'') \<or> (CHR ''A'' \<le> c \<and> c \<le> CHR ''Z'')"

definition name_part_ok :: "string \<Rightarrow> bool" where
  "name_part_ok part \<longleftrightarrow>
     part \<noteq> [] \<and> length part \<le> 32 \<and> part \<noteq> ''graphql''
     \<and> is_ascii_alphanumeric (hd part) \<and> is_ascii_alphanumeric (last part)
     \<and> list_ex is_ascii_alphabetic part"

definition subgraph_name_new :: "string \<Rightarrow> (string, unit) result" where
  "subgraph_name_new s =
     (if s = [] \<or> length s > 255 then Err ()
      else if \<not> list_all (\<lambda>c. is_ascii_alphanumeric c \<or> c = CHR ''-'' \<or> c = CHR ''_'' \<or> c = CHR ''/'') s
      then Err ()
      else if \<not> list_all name_part_ok (split_on (CHR ''/'') s) then Err ()
      else Ok s)"

lemma split_on_not_Nil [simp]: "split_on c s \<noteq> []"
  by (induction s) (auto split: list.splits)

lemma split_on_append: "split_on c (a @ c # b) = split_on c a @ split_on c b"
  by (induction a) (auto split: list.splits)

lemma split_on_single: "c \<notin> set a \<Longrightarrow> split_on c a = [a]"
  by (induction a) auto

section \<open>Typed entities of the subgraph of subgraphs\<close>

definition typed_query :: "string \<Rightarrow> entity_query" where
  "typed_query tyname =
     query_range (query_new SUBGRAPHS_ID BLOCK_NUMBER_MAX (AllOf [tyname])) \<lparr>rg_first = None, rg_skip = 0\<rparr>"

definition typed_subgraph_entity_pair :: "string \<Rightarrow> string \<times> string" where
  "typed_subgraph_entity_pair tyname = (SUBGRAPHS_ID, tyname)"

definition typed_key :: "string \<Rightarrow> string \<Rightarrow> entity_key" where
  "typed_key tyname i =
     (let (sg, ty) = typed_subgraph_entity_pair tyname in EntityKey sg ty i)"

definition set_metadata_operation :: "string \<Rightarrow> string \<Rightarrow> entity \<Rightarrow> metadata_operation" where
  "set_metadata_operation tyname i data = MetaSet tyname i data"

definition update_metadata_operation :: "string \<Rightarrow> string \<Rightarrow> entity \<Rightarrow> metadata_operation" where
  "update_metadata_operation tyname i data = MetaUpdate tyname i data"

definition ASSIGNMENT :: string where
  "ASSIGNMENT = ''SubgraphDeploymentAssignment''"

record assignment_entity =
  asg_node_id :: string
  asg_cost :: u64

definition assignment_new :: "string \<Rightarrow> assignment_entity" where
  "assignment_new node = \<lparr>asg_node_id = node, asg_cost = 1\<rparr>"

definition assignment_write_operations :: "assignment_entity \<Rightarrow> string \<Rightarrow> metadata_operation list" where
  "assignment_write_operations a i =
     [set_metadata_operation ASSIGNMENT i
        [(''id'', VString i), (''nodeId'', VString (asg_node_id a)), (''cost'', VBigInt (uint (asg_cost a)))]]"

definition is_deployed :: "store_ops \<Rightarrow> string \<Rightarrow> (bool, query_execution_error) result" where
  "is_deployed st i =
     (if i = SUBGRAPHS_ID then Ok True
      else and_then (store_get st (typed_key ''SubgraphDeployment'' i)) (\<lambda>e. Ok (e \<noteq> None)))"

definition is_deployment_synced :: "store_ops \<Rightarrow> string \<Rightarrow> (bool, query_execution_error) result" where
  "is_deployment_synced st i =
     and_then (store_get st (typed_key ''SubgraphDeployment'' i)) (\<lambda>e.
       case e of
         Some entity \<Rightarrow> (case map_of entity ''synced'' of Some (VBool True) \<Rightarrow> Ok True | _ \<Rightarrow> Ok False)
       | None \<Rightarrow> Ok False)"

section \<open>Version summaries\<close>

record version_summary =
  vs_id :: string
  vs_subgraph_id :: string
  vs_deployment_id :: string
  vs_pending :: bool
  vs_current :: bool

text \<open>\<open>Result::unwrap\<close> of \<open>Entity::id\<close> and \<open>Option::unwrap\<close> of a string attribute.\<close>

definition entity_id_unwrap :: "entity \<Rightarrow> (string, 'e) result" where
  "entity_id_unwrap e = (case entity_id_of e of Ok i \<Rightarrow> Ok i | _ \<Rightarrow> Panic)"

definition attr_unwrap :: "entity \<Rightarrow> string \<Rightarrow> (string, 'e) result" where
  "attr_unwrap e a = expect (Option.bind (map_of e a) as_string)"

text \<open>The closures with \<open>assert_eq!\<close>: is the version this subgraph's current (or pending) one?\<close>

fun has_version :: "string \<Rightarrow> string \<Rightarrow> string \<Rightarrow> entity list \<Rightarrow> (bool, 'e) result" where
  "has_version field version sg [] = Ok False"
| "has_version field version sg (e # es) =
     (if map_of e field = Some (VString version)
      then and_then (entity_id_unwrap e) (\<lambda>i. if i = sg then Ok True else Panic)
      else has_version field version sg es)"

definition summary_of :: "entity list \<Rightarrow> entity \<Rightarrow> (version_summary, 'e) result" where
  "summary_of subgraphs version =
     and_then (entity_id_unwrap version) (\<lambda>i.
     and_then (attr_unwrap version ''subgraph'') (\<lambda>sg.
     and_then (has_version ''currentVersion'' i sg subgraphs) (\<lambda>is_current.
     and_then (has_version ''pendingVersion'' i sg subgraphs) (\<lambda>is_pending.
     and_then (attr_unwrap version ''deployment'') (\<lambda>d.
     case deployment_id_new d of
       Ok dep \<Rightarrow> Ok \<lparr>vs_id = i, vs_subgraph_id = sg, vs_deployment_id = dep,
                     vs_pending = is_pending, vs_current = is_current\<rparr>
     | _ \<Rightarrow> Panic)))))"

definition version_or_filter :: "string list \<Rightarrow> entity_filter" where
  "version_or_filter version_ids =
     FOr [new_in ''currentVersion'' (map VString version_ids), new_in ''pendingVersion'' (map VString version_ids)]"

definition read_subgraph_version_summaries ::
  "(entity_query \<Rightarrow> (entity list, 'e) result) \<Rightarrow> string list \<Rightarrow>
     (version_summary list \<times> metadata_operation list, 'e) result" where
  "read_subgraph_version_summaries store_find deployment_ids =
     (let version_filter = new_in ''deployment'' (map VString deployment_ids);
          version_query = query_filter (typed_query ''SubgraphVersion'') version_filter
      in and_then (store_find version_query) (\<lambda>versions.
         and_then (try_map entity_id_unwrap versions) (\<lambda>version_ids.
         let subgraph_query = query_filter (typed_query ''Subgraph'') (version_or_filter version_ids)
         in and_then (store_find subgraph_query) (\<lambda>subgraphs.
            and_then (try_map entity_id_unwrap subgraphs) (\<lambda>subgraph_ids.
            and_then (try_map (summary_of subgraphs) versions) (\<lambda>summaries.
            Ok (summaries,
                [AbortUnless ''Same set of subgraph versions must match filter'' version_query version_ids,
                 AbortUnless ''Same set of subgraphs must have these versions as current or pending''
                   subgraph_query (remdups subgraph_ids)])))))))"

section \<open>Reconciling assignments\<close>

definition should_have_assignment :: "version_summary \<Rightarrow> bool" where
  "should_have_assignment v \<longleftrightarrow> vs_pending v \<or> vs_current v"

definition assigned_deployments :: "version_summary list \<Rightarrow> string list" where
  "assigned_deployments vs = remdups (map vs_deployment_id (filter should_have_assignment vs))"

definition reconcile_assignments ::
  "version_summary list \<Rightarrow> version_summary list \<Rightarrow> string option \<Rightarrow> (metadata_operation list, unit) result" where
  "reconcile_assignments versions_before versions_after node_id =
     (let before = assigned_deployments versions_before;
          after = assigned_deployments versions_after;
          removed = filter (\<lambda>d. d \<notin> set after) before;
          added = filter (\<lambda>d. d \<notin> set before) after
      in and_then (try_map (\<lambda>d. and_then (expect node_id) (\<lambda>node.
                      Ok (assignment_write_operations (assignment_new node) d))) added)
           (\<lambda>writes. Ok (map (MetaRemove ASSIGNMENT) removed @ concat writes)))"

section \<open>Effect on the assignments\<close>

text \<open>The node of every assigned deployment, and what a metadata operation does to it.\<close>

type_synonym assignments = "string \<rightharpoonup> string"

fun apply_assignment_op :: "metadata_operation \<Rightarrow> assignments \<Rightarrow> assignments" where
  "apply_assignment_op (MetaSet ty i data) m =
     (if ty = ASSIGNMENT then m(i := Option.bind (map_of data ''nodeId'') as_string) else m)"
| "apply_assignment_op (MetaRemove ty i) m = (if ty = ASSIGNMENT then m(i := None) else m)"
| "apply_assignment_op _ m = m"

definition wanted_deployments :: "version_summary list \<Rightarrow> string set" where
  "wanted_deployments vs = {vs_deployment_id v | v. v \<in> set vs \<and> should_have_assignment v}"

lemma set_assigned_deployments: "set (assigned_deployments vs) = wanted_deployments vs"
  by (auto simp: assigned_deployments_def wanted_deployments_def)

lemma fold_removes:
  "fold apply_assignment_op (map (MetaRemove ASSIGNMENT) ds) m = (\<lambda>d. if d \<in> set ds then None else m d)"
  by (induction ds arbitrary: m) (auto simp: fun_eq_iff)

lemma fold_writes:
  "fold apply_assignment_op
     (concat (map (\<lambda>d. assignment_write_operations (assignment_new node) d) ds)) m =
   (\<lambda>d. if d \<in> set ds then Some node else m d)"
  by (induction ds arbitrary: m)
    (auto simp: fun_eq_iff assignment_write_operations_def assignment_new_def set_metadata_operation_def)

lemma try_map_const_Panic: "try_map (\<lambda>d. Panic) ds = (if ds = [] then Ok [] else Panic)"
  by (cases ds) auto

section \<open>Properties\<close>

text \<open>C21. Reconciling produces operations that leave exactly the deployments of current or pending
  versions assigned, the newly assigned ones to the given node and the others as they were. Without
  a node it panics exactly when a deployment has to be added.\<close>

theorem reconcile_assignments_correct:
  assumes "dom m = wanted_deployments versions_before"
  shows "(case reconcile_assignments versions_before versions_after node_id of
      Ok ops \<Rightarrow> (let m' = fold apply_assignment_op ops m in
        dom m' = wanted_deployments versions_after
        \<and> (\<forall>d \<in> dom m'. m' d = (if d \<in> dom m then m d else node_id)))
    | Err e \<Rightarrow> False
    | Panic \<Rightarrow> node_id = None \<and> \<not> wanted_deployments versions_after \<subseteq> wanted_deployments versions_before)"
proof (cases node_id)
  case None
  then show ?thesis using assms
    by (auto simp: reconcile_assignments_def Let_def try_map_const_Panic fold_removes filter_empty_conv
        set_assigned_deployments dom_def split: if_splits)
next
  case (Some node)
  let ?added = "filter (\<lambda>d. d \<notin> set (assigned_deployments versions_before)) (assigned_deployments versions_after)"
  let ?removed = "filter (\<lambda>d. d \<notin> set (assigned_deployments versions_after)) (assigned_deployments versions_before)"
  have "reconcile_assignments versions_before versions_after node_id =
      Ok (map (MetaRemove ASSIGNMENT) ?removed
        @ concat (map (\<lambda>d. assignment_write_operations (assignment_new node) d) ?added))"
    unfolding reconcile_assignments_def Let_def Some by (simp add: try_map_Ok_total)
  then show ?thesis using assms Some
    by (auto simp: fold_removes fold_writes set_assigned_deployments dom_def)
qed

theorem reconcile_assignments_correct_witness:
  "(let before = [\<lparr>vs_id = ''v1'', vs_subgraph_id = ''s'', vs_deployment_id = ''d1'', vs_pending = False, vs_current = True\<rparr>];
        after = [\<lparr>vs_id = ''v2'', vs_subgraph_id = ''s'', vs_deployment_id = ''d2'', vs_pending = True, vs_current = False\<rparr>]
    in dom [''d1'' \<mapsto> ''n1''] = wanted_deployments before
       \<and> (case reconcile_assignments before after (Some ''n2'') of
            Ok ops \<Rightarrow> dom (fold apply_assignment_op ops [''d1'' \<mapsto> ''n1'']) = wanted_deployments after
          | _ \<Rightarrow> False))"
proof -
  let ?before = "[\<lparr>vs_id = ''v1'', vs_subgraph_id = ''s'', vs_deployment_id = ''d1'', vs_pending = False, vs_current = True\<rparr>]"
  let ?after = "[\<lparr>vs_id = ''v2'', vs_subgraph_id = ''s'', vs_deployment_id = ''d2'', vs_pending = True, vs_current = False\<rparr>]"
  have d: "dom [''d1'' \<mapsto> ''n1''] = wanted_deployments ?before"
    by (auto simp: wanted_deployments_def should_have_assignment_def)
  show ?thesis
    using reconcile_assignments_correct [OF d, of ?after "Some ''n2''"] d
    by (simp add: Let_def split: result.splits)
qed

text \<open>To keep URLs unambiguous, \<open>graphql\<close> is reserved: no name that has it as one of its
  components, wherever it stands, is accepted.\<close>

lemma subgraph_name_reserved:
  "subgraph_name_new (a @ ''/graphql/'' @ b) = Err () \<and> subgraph_name_new (a @ ''/graphql'') = Err ()
   \<and> subgraph_name_new (''graphql/'' @ b) = Err () \<and> subgraph_name_new ''graphql'' = Err ()"
proof -
  have g: "split_on (CHR ''/'') ''graphql'' = [''graphql'']" by (simp add: split_on_single)
  have rej: "subgraph_name_new s = Err ()" if "''graphql'' \<in> set (split_on (CHR ''/'') s)" for s
    using that by (auto simp: subgraph_name_new_def list_all_iff name_part_ok_def)
  have "split_on (CHR ''/'') (a @ CHR ''/'' # ''graphql'' @ CHR ''/'' # b) =
      split_on (CHR ''/'') a @ [''graphql''] @ split_on (CHR ''/'') b"
    by (simp only: split_on_append g)
  moreover have "split_on (CHR ''/'') (a @ CHR ''/'' # ''graphql'') = split_on (CHR ''/'') a @ [''graphql'']"
    by (simp only: split_on_append g)
  moreover have "split_on (CHR ''/'') (''graphql'' @ CHR ''/'' # b) = [''graphql''] @ split_on (CHR ''/'') b"
    by (simp only: split_on_append g)
  ultimately show ?thesis
    using rej [of "a @ CHR ''/'' # ''graphql'' @ CHR ''/'' # b"] rej [of "a @ CHR ''/'' # ''graphql''"]
      rej [of "''graphql'' @ CHR ''/'' # b"] rej [of "''graphql''"] g by simp
qed

end
