(* ===== verification/Floats.thy ===== *)
theory Floats
  imports Prelude "HOL-Library.Log_Nat"
begin

text \<open>
  The fragment of Rust's \<open>f64\<close> the code computes with: non-negative doubles, as the rational they
  denote, infinity and NaN. Results are rounded to 53 significant bits, ties to even; the exponent
  range is left unbounded (the quotients computed here lie between \<open>2 ^ -64\<close> and \<open>2 ^ 64\<close>).
\<close>

datatype f64 = Finite rat | Infinity | NaN

text \<open>The power of two just below a positive rational.\<close>

definition binade :: "rat \<Rightarrow> int" where
  "binade x =
     (let (n, d) = quotient_of x; k = bitlen n - bitlen d
      in if (if 0 \<le> k then 2 ^ nat k \<le> x else 1 \<le> x * 2 ^ nat (- k)) then k else k - 1)"

definition round_even :: "rat \<Rightarrow> int" where
  "round_even x =
     (let l = \<lfloor>x\<rfloor>; r = x - of_int l
      in if r < 1 / 2 then l else if r > 1 / 2 then l + 1 else if even l then l else l + 1)"

definition round_f64 :: "rat \<Rightarrow> rat" where
  "round_f64 x =
     (if x = 0 then 0
      else let s = 52 - binade x
           in if 0 \<le> s then of_int (round_even (x * 2 ^ nat s)) / 2 ^ nat s
              else of_int (round_even (x / 2 ^ nat (- s))) * 2 ^ nat (- s))"

text \<open>\<open>n as f64\<close>, division, \<open>f64::max\<close> and \<open>f64::min\<close> (a NaN gives the other operand), and the
  truncating and saturating cast \<open>as u64\<close>.\<close>

definition f64_of :: "u64 \<Rightarrow> f64" where
  "f64_of n = Finite (round_f64 (of_nat (unat n)))"

fun f64_div :: "f64 \<Rightarrow> f64 \<Rightarrow> f64" where
  "f64_div (Finite a) (Finite b) =
     (if b = 0 then (if a = 0 then NaN else Infinity) else Finite (round_f64 (a / b)))"
| "f64_div (Finite a) Infinity = Finite 0"
| "f64_div Infinity (Finite b) = Infinity"
| "f64_div _ _ = NaN"

fun f64_max :: "f64 \<Rightarrow> f64 \<Rightarrow> f64" where
  "f64_max (Finite a) (Finite b) = Finite (max a b)"
| "f64_max NaN y = y"
| "f64_max x NaN = x"
| "f64_max _ _ = Infinity"

fun f64_min :: "f64 \<Rightarrow> f64 \<Rightarrow> f64" where
  "f64_min (Finite a) (Finite b) = Finite (min a b)"
| "f64_min NaN y = y"
| "f64_min x NaN = x"
| "f64_min Infinity y = y"
| "f64_min x Infinity = x"

fun f64_as_u64 :: "f64 \<Rightarrow> u64" where
  "f64_as_u64 (Finite a) = (if a \<ge> 2 ^ 64 then - 1 else of_int \<lfloor>a\<rfloor>)"
| "f64_as_u64 Infinity = - 1"
| "f64_as_u64 NaN = 0"

section \<open>Integers up to 53 bits are exact\<close>

lemma round_even_of_int [simp]: "round_even (of_int i) = i"
  by (simp add: round_even_def)

lemma binade_of_nat:
  assumes "0 < n"
  shows "binade (of_nat n) = bitlen (int n) - 1" and "0 \<le> bitlen (int n) - 1"
proof -
  have q: "quotient_of (of_nat n) = (int n, 1)"
    by simp
  have pos: "bitlen (int n) > 0" using assms bitlen_le_iff_power [of "int n" 0] by simp
  then show "0 \<le> bitlen (int n) - 1" by simp
  have "2 ^ nat (bitlen (int n) - 1) \<le> int n" using bitlen_bounds [of "int n"] assms by simp
  then have "(2 ^ nat (bitlen (int n) - 1) :: rat) \<le> of_nat n"
    by (metis (mono_tags, opaque_lifting) of_int_le_iff of_int_numeral of_int_of_nat_eq of_int_power)
  moreover have "bitlen 1 = 1" by code_simp
  ultimately show "binade (of_nat n) = bitlen (int n) - 1"
    using pos by (simp add: binade_def q)
qed

lemma round_f64_exact:
  assumes "n < 2 ^ 53"
  shows "round_f64 (of_nat n) = of_nat n"
proof (cases "n = 0")
  case False
  let ?s = "52 - (bitlen (int n) - 1)"
  have "bitlen (int n) \<le> 53" using assms False bitlen_le_iff_power [of "int n" 53] by simp
  then have s: "0 \<le> ?s" by simp
  have "round_even (of_nat n * 2 ^ nat ?s) = int n * 2 ^ nat ?s"
    using round_even_of_int [of "int n * 2 ^ nat ?s"] by simp
  then show ?thesis
    using False s binade_of_nat [of n] by (simp add: round_f64_def Let_def)
qed (simp add: round_f64_def)

lemma f64_of_exact: "unat n < 2 ^ 53 \<Longrightarrow> f64_of n = Finite (of_nat (unat n))"
  unfolding f64_of_def using round_f64_exact [of "unat n"] by simp

text \<open>Clamping between one and an exact integer, then truncating.\<close>

lemma clamp_bounds:
  assumes "1 \<le> m" and "unat m < 2 ^ 53"
  shows "1 \<le> f64_as_u64 (f64_min (f64_max x (Finite 1)) (f64_of m))
    \<and> f64_as_u64 (f64_min (f64_max x (Finite 1)) (f64_of m)) \<le> m"
proof -
  have one: "(1::rat) \<le> of_nat (unat m)"
    using assms(1) by (metis of_nat_1 of_nat_le_iff unat_1 word_le_nat_alt)
  have cast: "1 \<le> f64_as_u64 (Finite a) \<and> f64_as_u64 (Finite a) \<le> m" if a: "1 \<le> a" "a \<le> of_nat (unat m)" for a
  proof -
    let ?f = "nat \<lfloor>a\<rfloor>"
    have f: "1 \<le> ?f" "?f \<le> unat m" using a by (simp_all add: le_nat_iff le_floor_iff nat_le_iff floor_le_iff)
    moreover have "of_int \<lfloor>a\<rfloor> = (of_nat ?f :: u64)"
      using f(1) by (metis int_nat_eq of_int_of_nat_eq nat_0_iff not_one_le_zero linear)
    moreover have "unat (of_nat ?f :: u64) = ?f"
      using f(2) unsigned_less [of m, where 'a = nat] by (simp add: unat_of_nat take_bit_nat_eq_self_iff del: unsigned_less)
    moreover have "a < 2 ^ 64"
    proof -
      have "(of_nat (unat m) :: rat) < of_nat (2 ^ 53)" using assms(2) by (simp only: of_nat_less_iff)
      then show ?thesis using a(2) by simp
    qed
    ultimately show ?thesis by (simp add: word_le_nat_alt)
  qed
  show ?thesis
    using one cast assms(2) by (cases x) (simp_all add: f64_of_exact del: f64_as_u64.simps)
qed

end
