(* ===== verification/BlockStream.thy ===== *)
theory BlockStream
  imports BlockScan Assignments Floats
begin

text \<open>
  The block stream of a subgraph (\<open>chain/ethereum/src/block_stream.rs\<close>): it compares the subgraph's
  block pointer with the chain head, decides whether to revert, scan a range of final blocks or
  take the next block below the head, and hands the blocks out one at a time.

  A future is its result: a reconciliation step sees one environment (\<open>bs_env\<close>: the chain store, the
  subgraph store and the Ethereum node when it runs), and the loop of \<open>next_blocks\<close> sees one per
  iteration; when the environments run out, the future is not ready. What is written to the store
  is returned as a list of \<open>store_write\<close>s; a write that fails leaves none.
\<close>

section \<open>State\<close>

record bs_config =
  MAX_BLOCK_RANGE_SIZE :: u64
  TARGET_TRIGGERS_PER_BLOCK_RANGE :: u64

datatype reconciliation_step =
    RevertBlock block_pointer
  | ProcessDescendantBlocks "block_with_triggers list" u64
  | Retry
  | StepDone

datatype step_outcome =
    YieldBlocks "block_with_triggers list" u64
  | MoreSteps
  | OutcomeDone
  | OutcomeRevert

record bs_context =
  cx_subgraph_id :: string
  cx_reorg_threshold :: u64
  cx_log_filter :: log_filter
  cx_call_filter :: call_filter
  cx_block_filter :: block_filter
  cx_start_blocks :: "u64 list"
  cx_include_calls_in_blocks :: bool
  cx_previous_triggers_per_block :: f64
  cx_previous_block_range_size :: u64

datatype blocks_found = Blocks "block_with_triggers list" u64 | NextRevert | NextDone

text \<open>The state \<open>Reconciliation\<close> holds the future, which holds the context it was made from.\<close>

datatype bs_state =
    New
  | Reconciliation bs_context
  | YieldingBlocks "block_with_triggers list"
  | RetryAfterDelay u64
  | Idle
  | Transition

record block_stream =
  bs_state :: bs_state
  bs_consecutive_err_count :: "32 word"
  bs_ctx :: bs_context

definition block_stream_new ::
  "string \<Rightarrow> log_filter \<Rightarrow> call_filter \<Rightarrow> block_filter \<Rightarrow> u64 list \<Rightarrow> bool \<Rightarrow> u64 \<Rightarrow> block_stream" where
  "block_stream_new sg_id lf cf bf start_blocks include_calls reorg_threshold =
     \<lparr>bs_state = New, bs_consecutive_err_count = 0,
      bs_ctx = \<lparr>cx_subgraph_id = sg_id, cx_reorg_threshold = reorg_threshold, cx_log_filter = lf,
        cx_call_filter = cf, cx_block_filter = bf, cx_start_blocks = start_blocks,
        cx_include_calls_in_blocks = include_calls,
        cx_previous_triggers_per_block = Finite 1000000, cx_previous_block_range_size = 1\<rparr>\<rparr>"

record bs_env =
  be_adapter :: eth_adapter
  be_chain_head_ptr :: "(block_pointer option, string) result"
  be_ancestor_block :: "block_pointer \<Rightarrow> u64 \<Rightarrow> (eth_block option, string) result"
  be_block_ptr :: "(block_pointer option, string) result"
  be_revert_block_operations :: "block_pointer \<Rightarrow> block_pointer \<Rightarrow> (unit, string) result"
  be_find :: "entity_query \<Rightarrow> (entity list, string) result"
  be_apply_metadata_operations :: "metadata_operation list \<Rightarrow> (unit, string) result"

datatype store_write =
    RevertBlockOperations block_pointer block_pointer
  | ApplyMetadataOperations "metadata_operation list"

text \<open>\<open>Result::unwrap\<close>.\<close>

fun unwrap :: "('a, 'e) result \<Rightarrow> ('a, 'e) result" where
  "unwrap (Ok a) = Ok a"
| "unwrap _ = Panic"

section \<open>The next step\<close>

definition range_from :: "block_pointer option \<Rightarrow> u64" where
  "range_from subgraph_ptr = (case subgraph_ptr of None \<Rightarrow> 0 | Some ptr \<Rightarrow> ptr_number ptr + 1)"

definition next_start_block :: "u64 list \<Rightarrow> u64 \<Rightarrow> u64" where
  "next_start_block start_blocks from =
     (case filter (\<lambda>block_num. block_num > from) start_blocks of
        [] \<Rightarrow> - 1
      | b # bs \<Rightarrow> fold min bs b)"

definition range_to_limit :: "u64 list \<Rightarrow> u64 \<Rightarrow> u64 \<Rightarrow> u64 \<Rightarrow> u64" where
  "range_to_limit start_blocks from head_number reorg_threshold =
     min (head_number - reorg_threshold) (next_start_block start_blocks from - 1)"

definition scan_range_size :: "bs_config \<Rightarrow> bs_context \<Rightarrow> u64" where
  "scan_range_size cfg ctx =
     (let max_range_size = min (MAX_BLOCK_RANGE_SIZE cfg) (cx_previous_block_range_size ctx * 10)
      in if cx_previous_triggers_per_block ctx = Finite 0 then max_range_size
         else f64_as_u64
           (f64_min (f64_max (f64_div (f64_of (TARGET_TRIGGERS_PER_BLOCK_RANGE cfg))
                                (cx_previous_triggers_per_block ctx)) (Finite 1))
              (f64_of max_range_size)))"

definition range_to :: "bs_config \<Rightarrow> bs_context \<Rightarrow> u64 \<Rightarrow> u64 \<Rightarrow> u64 \<Rightarrow> u64" where
  "range_to cfg ctx from head_number reorg_threshold =
     min (from + scan_range_size cfg ctx - 1)
       (range_to_limit (cx_start_blocks ctx) from head_number reorg_threshold)"

text \<open>Beyond the reorg threshold: ask the node whether the pointer is final, then scan forward.\<close>

definition far_step ::
  "pair_iter \<Rightarrow> bs_config \<Rightarrow> bs_context \<Rightarrow> bs_env \<Rightarrow> block_pointer \<Rightarrow> block_pointer option \<Rightarrow> u64 \<Rightarrow>
     (reconciliation_step, string) result" where
  "far_step set_iter cfg ctx env head_ptr subgraph_ptr reorg_threshold =
     and_then (case subgraph_ptr of None \<Rightarrow> Ok True | Some ptr \<Rightarrow> is_on_main_chain (be_adapter env) ptr) (\<lambda>on_main.
       if \<not> on_main then and_then (expect subgraph_ptr) (\<lambda>ptr. Ok (RevertBlock ptr))
       else
         let from = range_from subgraph_ptr;
             to = range_to cfg ctx from (ptr_number head_ptr) reorg_threshold
         in and_then (blocks_with_triggers set_iter (be_adapter env) from to (cx_log_filter ctx)
                        (cx_call_filter ctx) (cx_block_filter ctx)) (\<lambda>blocks.
              Ok (ProcessDescendantBlocks blocks (scan_range_size cfg ctx))))"

text \<open>Within the reorg threshold: the ancestor of the head just above the pointer decides.\<close>

definition near_step ::
  "pair_iter \<Rightarrow> bs_context \<Rightarrow> bs_env \<Rightarrow> block_pointer \<Rightarrow> block_pointer \<Rightarrow> (reconciliation_step, string) result" where
  "near_step set_iter ctx env head_ptr subgraph_ptr =
     and_then (unwrap (be_ancestor_block env head_ptr (ptr_number head_ptr - ptr_number subgraph_ptr - 1)))
       (\<lambda>head_ancestor_opt. case head_ancestor_opt of
          None \<Rightarrow> Ok Retry
        | Some head_ancestor \<Rightarrow>
            if bl_parent_hash (eb_block head_ancestor) = ptr_hash subgraph_ptr then
              and_then
                (if \<not> cx_include_calls_in_blocks ctx \<or> eb_transaction_receipts head_ancestor = []
                 then Ok \<lparr>bc_block = head_ancestor, bc_calls = []\<rparr>
                 else and_then (expect (bl_number (eb_block head_ancestor))) (\<lambda>n.
                      and_then (expect (bl_hash (eb_block head_ancestor))) (\<lambda>h.
                      and_then (calls_in_block (be_adapter env) n h) (\<lambda>calls.
                      Ok \<lparr>bc_block = head_ancestor, bc_calls = calls\<rparr>)))) (\<lambda>block.
              and_then (triggers_in_block set_iter (be_adapter env) (cx_log_filter ctx) (cx_call_filter ctx)
                          (cx_block_filter ctx) (NonFinal block)) (\<lambda>bt.
              Ok (ProcessDescendantBlocks [bt] 1)))
            else Ok (RevertBlock subgraph_ptr))"

definition get_next_step ::
  "pair_iter \<Rightarrow> bs_config \<Rightarrow> bs_context \<Rightarrow> bs_env \<Rightarrow> (reconciliation_step, string) result" where
  "get_next_step set_iter cfg ctx env =
     and_then (unwrap (be_chain_head_ptr env)) (\<lambda>head_ptr_opt.
     and_then (unwrap (be_block_ptr env)) (\<lambda>subgraph_ptr.
     case head_ptr_opt of
       None \<Rightarrow> Ok StepDone
     | Some head_ptr \<Rightarrow>
         let reorg_threshold = min (cx_reorg_threshold ctx) (ptr_number head_ptr)
         in case subgraph_ptr of
              None \<Rightarrow> far_step set_iter cfg ctx env head_ptr None reorg_threshold
            | Some ptr \<Rightarrow>
                if ptr_number ptr \<ge> ptr_number head_ptr then Ok StepDone
                else if ptr_number head_ptr - ptr_number ptr > reorg_threshold
                then far_step set_iter cfg ctx env head_ptr (Some ptr) reorg_threshold
                else near_step set_iter ctx env head_ptr ptr))"

text \<open>The gauge \<open>blocks_behind\<close> that \<open>get_next_step\<close> sets before it compares the pointers.\<close>

definition blocks_behind :: "bs_env \<Rightarrow> u64 option" where
  "blocks_behind env =
     (case (be_chain_head_ptr env, be_block_ptr env) of
        (Ok (Some head_ptr), Ok (Some ptr)) \<Rightarrow> Some (ptr_number head_ptr - ptr_number ptr)
      | _ \<Rightarrow> None)"

section \<open>Performing a step\<close>

fun do_step :: "bs_env \<Rightarrow> reconciliation_step \<Rightarrow> store_write list \<times> (step_outcome, string) result" where
  "do_step env Retry = ([], Ok MoreSteps)"
| "do_step env StepDone = ([], Ok OutcomeDone)"
| "do_step env (RevertBlock subgraph_ptr) =
     (case and_then (load_blocks (be_adapter env) {ptr_hash subgraph_ptr}) (\<lambda>blocks.
           and_then (case blocks of [] \<Rightarrow> Panic | b # _ \<Rightarrow> Ok b) (\<lambda>block.
           and_then (parent_ptr block) expect)) of
        Ok parent \<Rightarrow>
          (case be_revert_block_operations env subgraph_ptr parent of
             Ok _ \<Rightarrow> ([RevertBlockOperations subgraph_ptr parent], Ok OutcomeRevert)
           | Err e \<Rightarrow> ([], Err e)
           | Panic \<Rightarrow> ([], Panic))
      | Err e \<Rightarrow> ([], Err e)
      | Panic \<Rightarrow> ([], Panic))"
| "do_step env (ProcessDescendantBlocks blocks range_size) = ([], Ok (YieldBlocks blocks range_size))"

section \<open>The synced flag\<close>

definition update_synced_operations :: "string \<Rightarrow> bool \<Rightarrow> metadata_operation list" where
  "update_synced_operations i synced =
     [update_metadata_operation ''SubgraphDeployment'' i [(''synced'', VBool synced)]]"

definition versions_of_deployment :: "string \<Rightarrow> entity_query" where
  "versions_of_deployment i =
     query_filter (typed_query ''SubgraphVersion'') (FEqual ''deployment'' (VString i))"

definition pending_subgraphs :: "string list \<Rightarrow> entity_query" where
  "pending_subgraphs version_ids =
     query_filter (typed_query ''Subgraph'') (FIn ''pendingVersion'' (map VString version_ids))"

fun current_version_of :: "entity \<Rightarrow> (string option, 'e) result" where
  "current_version_of subgraph =
     (case map_of subgraph ''currentVersion'' of
        Some (VString i) \<Rightarrow> Ok (Some i)
      | Some VNull \<Rightarrow> Ok None
      | Some _ \<Rightarrow> Panic
      | None \<Rightarrow> Ok None)"

definition demote :: "string list \<Rightarrow> version_summary \<Rightarrow> version_summary" where
  "demote current_version_ids v =
     (if vs_id v \<in> set current_version_ids then v\<lparr>vs_current := False\<rparr> else v)"

definition promote :: "entity \<Rightarrow> (metadata_operation, 'e) result" where
  "promote subgraph =
     and_then (entity_id_unwrap subgraph) (\<lambda>i.
     and_then (expect (map_of subgraph ''pendingVersion'')) (\<lambda>pending.
     Ok (MetaSet ''Subgraph'' i
          [(''id'', VString i), (''pendingVersion'', VNull), (''currentVersion'', pending)])))"

definition affected_deployment :: "entity \<Rightarrow> (string, 'e) result" where
  "affected_deployment version =
     and_then (attr_unwrap version ''deployment'') (\<lambda>d.
       case deployment_id_new d of Ok i \<Rightarrow> Ok i | _ \<Rightarrow> Panic)"

fun no_error :: "('a, unit) result \<Rightarrow> ('a, 'e) result" where
  "no_error (Ok a) = Ok a"
| "no_error _ = Panic"

text \<open>The operations for a deployment that has caught up, and the whole method.\<close>

definition synced_operations ::
  "(entity_query \<Rightarrow> (entity list, string) result) \<Rightarrow> string \<Rightarrow> (metadata_operation list, string) result" where
  "synced_operations store_find sg_id =
     and_then (store_find (versions_of_deployment sg_id)) (\<lambda>versions.
     and_then (try_map entity_id_unwrap versions) (\<lambda>version_ids.
     and_then (store_find (pending_subgraphs version_ids)) (\<lambda>subgraphs.
     and_then (try_map entity_id_unwrap subgraphs) (\<lambda>subgraph_ids.
     and_then (try_map current_version_of subgraphs) (\<lambda>currents.
     let current_version_ids = List.map_filter id currents
     in and_then (store_find (query_filter (typed_query ''SubgraphVersion'')
                     (new_in ''id'' (map VString current_version_ids)))) (\<lambda>current_versions.
        and_then (try_map affected_deployment current_versions) (\<lambda>affected.
        and_then (read_subgraph_version_summaries store_find (remdups affected)) (\<lambda>(versions_before, read_ops).
        and_then (no_error (reconcile_assignments versions_before
                    (map (demote current_version_ids) versions_before) None)) (\<lambda>assignment_ops.
        and_then (try_map promote subgraphs) (\<lambda>promotions.
        Ok (update_synced_operations sg_id True
            @ [AbortUnless ''The same subgraph version entities must point to this deployment''
                 (versions_of_deployment sg_id) version_ids,
               AbortUnless ''The same subgraph entities must have these versions pending''
                 (pending_subgraphs version_ids) subgraph_ids]
            @ read_ops @ assignment_ops @ promotions)))))))))))"

definition update_subgraph_synced_status ::
  "string \<Rightarrow> bs_env \<Rightarrow> store_write list \<times> (unit, string) result" where
  "update_subgraph_synced_status sg_id env =
     (case and_then (be_chain_head_ptr env) (\<lambda>head_ptr_opt.
           and_then (be_block_ptr env) (\<lambda>subgraph_ptr.
             if head_ptr_opt \<noteq> subgraph_ptr \<or> head_ptr_opt = None \<or> subgraph_ptr = None then Ok None
             else and_then (synced_operations (be_find env) sg_id) (\<lambda>ops. Ok (Some ops)))) of
        Ok None \<Rightarrow> ([], Ok ())
      | Ok (Some ops) \<Rightarrow>
          (case be_apply_metadata_operations env ops of
             Ok _ \<Rightarrow> ([ApplyMetadataOperations ops], Ok ())
           | Err e \<Rightarrow> ([], Err (''Failed to set deployment synced flag: '' @ e))
           | Panic \<Rightarrow> ([], Panic))
      | Err e \<Rightarrow> ([], Err e)
      | Panic \<Rightarrow> ([], Panic))"

section \<open>The reconciliation loop\<close>

fun next_blocks ::
  "pair_iter \<Rightarrow> bs_config \<Rightarrow> bs_context \<Rightarrow> bs_env list \<Rightarrow>
     store_write list \<times> (blocks_found, string) result option" where
  "next_blocks set_iter cfg ctx [] = ([], None)"
| "next_blocks set_iter cfg ctx (env # envs) =
     (case get_next_step set_iter cfg ctx env of
        Err e \<Rightarrow> ([], Some (Err e))
      | Panic \<Rightarrow> ([], Some Panic)
      | Ok step \<Rightarrow>
          (case do_step env step of
             (writes, Err e) \<Rightarrow> (writes, Some (Err e))
           | (writes, Panic) \<Rightarrow> (writes, Some Panic)
           | (writes, Ok (YieldBlocks blocks range_size)) \<Rightarrow> (writes, Some (Ok (Blocks blocks range_size)))
           | (writes, Ok MoreSteps) \<Rightarrow>
               (let (writes', r) = next_blocks set_iter cfg ctx envs in (writes @ writes', r))
           | (writes, Ok OutcomeDone) \<Rightarrow>
               (case update_subgraph_synced_status (cx_subgraph_id ctx) env of
                  (writes', Ok _) \<Rightarrow> (writes @ writes', Some (Ok NextDone))
                | (writes', Err e) \<Rightarrow> (writes @ writes', Some (Err e))
                | (writes', Panic) \<Rightarrow> (writes @ writes', Some Panic))
           | (writes, Ok OutcomeRevert) \<Rightarrow> (writes, Some (Ok NextRevert))))"

section \<open>Polling\<close>

datatype stream_event = BlockEvent block_with_triggers | RevertEvent

datatype bs_poll = Ready stream_event | NotReady | PollErr string | PollPanic

datatype head_poll = HeadUpdated | HeadEnded | HeadNotReady | HeadFailed

text \<open>What the futures answer when they are polled: one entry for each poll of a future.\<close>

record bs_poll_env =
  pe_envs :: "bs_env list"
  pe_delay_over :: bool
  pe_head :: head_poll

definition retry_delay :: "32 word \<Rightarrow> u64" where
  "retry_delay consecutive_err_count = ucast (max (5 * consecutive_err_count) 120)"

definition after_blocks :: "block_with_triggers list \<Rightarrow> u64 \<Rightarrow> bs_context \<Rightarrow> bs_context" where
  "after_blocks blocks block_range_size ctx =
     ctx\<lparr>cx_previous_triggers_per_block :=
           f64_div (f64_of (sum_list (map (\<lambda>b. of_nat (length (bt_triggers b))) blocks))) (f64_of block_range_size),
         cx_previous_block_range_size := block_range_size\<rparr>"

definition waits :: "bs_state \<Rightarrow> bool" where
  "waits st \<longleftrightarrow> st \<noteq> New \<and> st \<noteq> YieldingBlocks []"

text \<open>
  The loop of \<open>poll\<close>. An early \<open>return\<close> and a panic leave the stream in \<open>Transition\<close>, the state
  it was given at the start of the call.
\<close>

function (sequential) poll_loop ::
  "pair_iter \<Rightarrow> bs_config \<Rightarrow> bs_poll_env list \<Rightarrow> bs_state \<Rightarrow> block_stream \<Rightarrow>
     store_write list \<times> bs_poll \<times> block_stream" where
  "poll_loop set_iter cfg pes New s = poll_loop set_iter cfg pes (Reconciliation (bs_ctx s)) s"
| "poll_loop set_iter cfg [] (Reconciliation ctx) s = ([], NotReady, s\<lparr>bs_state := Reconciliation ctx\<rparr>)"
| "poll_loop set_iter cfg (pe # pes) (Reconciliation ctx) s =
     (case next_blocks set_iter cfg ctx (pe_envs pe) of
        (w, Some (Ok (Blocks blocks block_range_size))) \<Rightarrow>
          (let (w', r) = poll_loop set_iter cfg pes (YieldingBlocks blocks)
                 (s\<lparr>bs_consecutive_err_count := 0, bs_ctx := after_blocks blocks block_range_size (bs_ctx s)\<rparr>)
           in (w @ w', r))
      | (w, Some (Ok NextDone)) \<Rightarrow>
          (let (w', r) = poll_loop set_iter cfg pes Idle (s\<lparr>bs_consecutive_err_count := 0\<rparr>) in (w @ w', r))
      | (w, Some (Ok NextRevert)) \<Rightarrow> (w, Ready RevertEvent, s\<lparr>bs_state := Reconciliation (bs_ctx s)\<rparr>)
      | (w, None) \<Rightarrow> (w, NotReady, s\<lparr>bs_state := Reconciliation ctx\<rparr>)
      | (w, Some (Err e)) \<Rightarrow>
          (let n = bs_consecutive_err_count s + 1
           in (w, PollErr e, s\<lparr>bs_consecutive_err_count := n, bs_state := RetryAfterDelay (retry_delay n)\<rparr>))
      | (w, Some Panic) \<Rightarrow> (w, PollPanic, s\<lparr>bs_state := Transition\<rparr>))"
| "poll_loop set_iter cfg pes (YieldingBlocks (b # bs)) s = ([], Ready (BlockEvent b), s\<lparr>bs_state := YieldingBlocks bs\<rparr>)"
| "poll_loop set_iter cfg pes (YieldingBlocks []) s = poll_loop set_iter cfg pes (Reconciliation (bs_ctx s)) s"
| "poll_loop set_iter cfg [] (RetryAfterDelay d) s = ([], NotReady, s\<lparr>bs_state := RetryAfterDelay d\<rparr>)"
| "poll_loop set_iter cfg (pe # pes) (RetryAfterDelay d) s =
     (if pe_delay_over pe then poll_loop set_iter cfg pes (Reconciliation (bs_ctx s)) s
      else ([], NotReady, s\<lparr>bs_state := RetryAfterDelay d\<rparr>))"
| "poll_loop set_iter cfg [] Idle s = ([], NotReady, s\<lparr>bs_state := Idle\<rparr>)"
| "poll_loop set_iter cfg (pe # pes) Idle s =
     (case pe_head pe of
        HeadUpdated \<Rightarrow> poll_loop set_iter cfg pes (Reconciliation (bs_ctx s)) s
      | HeadEnded \<Rightarrow> ([], PollErr ''chain head update stream ended unexpectedly'', s\<lparr>bs_state := Transition\<rparr>)
      | HeadNotReady \<Rightarrow> ([], NotReady, s\<lparr>bs_state := Idle\<rparr>)
      | HeadFailed \<Rightarrow> ([], PollErr ''chain head update Receiver failed'', s\<lparr>bs_state := Transition\<rparr>))"
| "poll_loop set_iter cfg pes Transition s = ([], PollPanic, s\<lparr>bs_state := Transition\<rparr>)"
  by pat_completeness auto
termination
  by (relation "measure (\<lambda>(_, _, pes, st, _). 2 * length pes + (if waits st then 0 else 1))")
    (auto simp: waits_def)

definition poll_blocks ::
  "pair_iter \<Rightarrow> bs_config \<Rightarrow> bs_poll_env list \<Rightarrow> block_stream \<Rightarrow> store_write list \<times> bs_poll \<times> block_stream" where
  "poll_blocks set_iter cfg pes s = poll_loop set_iter cfg pes (bs_state s) (s\<lparr>bs_state := Transition\<rparr>)"

section \<open>Block ranges\<close>

text \<open>The configured maximum is a 53-bit integer and the previous range size lies below it.\<close>

definition range_ok :: "bs_config \<Rightarrow> bs_context \<Rightarrow> bool" where
  "range_ok cfg ctx \<longleftrightarrow> MAX_BLOCK_RANGE_SIZE cfg < 2 ^ 53
     \<and> 1 \<le> cx_previous_block_range_size ctx \<and> cx_previous_block_range_size ctx \<le> MAX_BLOCK_RANGE_SIZE cfg"

lemma range_ok_simps:
  assumes "range_ok cfg ctx"
  shows "unat (MAX_BLOCK_RANGE_SIZE cfg) < 2 ^ 53"
    and "1 \<le> unat (cx_previous_block_range_size ctx)"
    and "unat (cx_previous_block_range_size ctx) \<le> unat (MAX_BLOCK_RANGE_SIZE cfg)"
    and "unat (cx_previous_block_range_size ctx * 10) = unat (cx_previous_block_range_size ctx) * 10"
proof -
  show m: "unat (MAX_BLOCK_RANGE_SIZE cfg) < 2 ^ 53" and p: "1 \<le> unat (cx_previous_block_range_size ctx)"
    and le: "unat (cx_previous_block_range_size ctx) \<le> unat (MAX_BLOCK_RANGE_SIZE cfg)"
    using assms by (simp_all add: range_ok_def word_less_nat_alt word_le_nat_alt)
  from m le have "unat (cx_previous_block_range_size ctx) * 10 < 2 ^ 64" by simp
  then show "unat (cx_previous_block_range_size ctx * 10) = unat (cx_previous_block_range_size ctx) * 10"
    by (simp add: unat_word_ariths)
qed

lemma scan_range_size_bounds:
  assumes "range_ok cfg ctx"
  shows "1 \<le> unat (scan_range_size cfg ctx)"
    and "unat (scan_range_size cfg ctx) \<le> unat (MAX_BLOCK_RANGE_SIZE cfg)"
    and "unat (scan_range_size cfg ctx) \<le> 10 * unat (cx_previous_block_range_size ctx)"
proof -
  let ?m = "min (MAX_BLOCK_RANGE_SIZE cfg) (cx_previous_block_range_size ctx * 10)"
  note r = range_ok_simps [OF assms]
  have m: "unat ?m = min (unat (MAX_BLOCK_RANGE_SIZE cfg)) (unat (cx_previous_block_range_size ctx) * 10)"
    using r(4) by (simp add: min_def word_le_nat_alt)
  then have "1 \<le> ?m" "unat ?m < 2 ^ 53" using r by (auto simp: word_le_nat_alt)
  from clamp_bounds [OF this] \<open>1 \<le> ?m\<close>
  have "1 \<le> scan_range_size cfg ctx \<and> scan_range_size cfg ctx \<le> ?m"
    by (simp add: scan_range_size_def Let_def)
  then show "1 \<le> unat (scan_range_size cfg ctx)"
    and "unat (scan_range_size cfg ctx) \<le> unat (MAX_BLOCK_RANGE_SIZE cfg)"
    and "unat (scan_range_size cfg ctx) \<le> 10 * unat (cx_previous_block_range_size ctx)"
    using m by (auto simp: word_le_nat_alt)
qed

lemma fold_min_le: "fold min bs b \<le> (b::'a::linorder) \<and> (\<forall>x \<in> set bs. fold min bs b \<le> x)
    \<and> fold min bs b \<in> insert b (set bs)"
proof (induction bs arbitrary: b)
  case (Cons x bs)
  from Cons [of "min x b"] show ?case by (auto simp: min_def split: if_splits)
qed simp

lemma next_start_block_bounds:
  shows "from < next_start_block start_blocks from \<or> from = - 1"
    and "b \<in> set start_blocks \<Longrightarrow> from < b \<Longrightarrow> next_start_block start_blocks from \<le> b"
proof -
  let ?later = "filter (\<lambda>n. n > from) start_blocks"
  have less: "from < - 1" if "from \<noteq> - 1"
    using that word_order.extremum [of "from"] by (rule order.not_eq_order_implies_strict)
  show "from < next_start_block start_blocks from \<or> from = - 1"
  proof (cases ?later)
    case (Cons c cs)
    then have "set (c # cs) \<subseteq> {n. from < n}" by (metis (no_types, lifting) mem_Collect_eq set_filter subsetI)
    then show ?thesis using fold_min_le [of cs c] by (auto simp: next_start_block_def Cons)
  qed (use less in \<open>auto simp: next_start_block_def\<close>)
  show "next_start_block start_blocks from \<le> b" if "b \<in> set start_blocks" "from < b"
  proof (cases ?later)
    case Nil
    then show ?thesis using that by (auto simp: filter_empty_conv)
  next
    case (Cons c cs)
    have "b \<in> set ?later" using that by simp
    then show ?thesis using fold_min_le [of cs c] unfolding Cons by (auto simp: next_start_block_def Cons)
  qed
qed

lemma range_to_bounds:
  assumes "range_ok cfg ctx" and "r \<le> head" and "from \<le> head - r"
    and "unat from + unat (MAX_BLOCK_RANGE_SIZE cfg) < 2 ^ 64"
  shows "from \<le> range_to cfg ctx from head r" and "range_to cfg ctx from head r \<le> head - r"
    and "b \<in> set (cx_start_blocks ctx) \<Longrightarrow> from < b \<Longrightarrow> range_to cfg ctx from head r < b"
    and "unat (range_to cfg ctx from head r) < unat from + unat (scan_range_size cfg ctx)"
proof -
  let ?n = "next_start_block (cx_start_blocks ctx) from"
  note size = scan_range_size_bounds [OF assms(1)]
  have end_: "unat (from + scan_range_size cfg ctx - 1) = unat from + unat (scan_range_size cfg ctx) - 1"
  proof -
    have "unat (from + scan_range_size cfg ctx) = unat from + unat (scan_range_size cfg ctx)"
      using size(2) assms(4) by (simp add: unat_word_ariths)
    moreover from this have "from + scan_range_size cfg ctx \<noteq> 0" using size(1) by (auto simp: word_unat_eq_iff)
    ultimately show ?thesis by (simp add: unat_minus_one)
  qed
  have n: "from \<le> ?n - 1"
  proof (cases "from < ?n")
    case True
    then have "?n \<noteq> 0" by (auto simp: word_less_nat_alt)
    with True show ?thesis by (simp add: word_less_nat_alt word_le_nat_alt unat_minus_one)
  next
    case False
    then have "from = - 1" using next_start_block_bounds(1) by blast
    then have "unat from = 2 ^ 64 - 1" by (simp add: unsigned_minus_1_eq_mask mask_eq_exp_minus_1)
    then show ?thesis using assms(4) size(1,2) by simp
  qed
  have "from \<le> from + scan_range_size cfg ctx - 1"
    unfolding word_le_nat_alt end_ using size(1) by simp
  then show "from \<le> range_to cfg ctx from head r"
    using n assms(3) by (simp add: range_to_def range_to_limit_def)
  show "range_to cfg ctx from head r \<le> head - r"
    by (simp add: range_to_def range_to_limit_def min.coboundedI2)
  have "range_to cfg ctx from head r \<le> from + scan_range_size cfg ctx - 1"
    by (simp add: range_to_def)
  then show "unat (range_to cfg ctx from head r) < unat from + unat (scan_range_size cfg ctx)"
    using size(1) unfolding word_le_nat_alt end_ by linarith
  show "range_to cfg ctx from head r < b" if "b \<in> set (cx_start_blocks ctx)" "from < b"
  proof -
    have "?n \<le> b" by (rule next_start_block_bounds(2) [OF that])
    moreover have "from \<noteq> - 1" using that(2) word_order.extremum [of b] by auto
    then have "?n \<noteq> 0" using next_start_block_bounds(1) [of "from" "cx_start_blocks ctx"] by (auto simp: word_less_nat_alt)
    then have "?n - 1 < ?n" by (simp add: word_less_nat_alt unat_minus_one unat_gt_0)
    moreover have "range_to cfg ctx from head r \<le> ?n - 1"
      by (simp add: range_to_def range_to_limit_def min.coboundedI2)
    ultimately show ?thesis by simp
  qed
qed

section \<open>What polling keeps\<close>

fun state_ctx :: "bs_state \<Rightarrow> bs_context option" where
  "state_ctx (Reconciliation ctx) = Some ctx"
| "state_ctx _ = None"

definition stream_ok :: "bs_config \<Rightarrow> bs_state \<Rightarrow> block_stream \<Rightarrow> bool" where
  "stream_ok cfg st s \<longleftrightarrow> range_ok cfg (bs_ctx s) \<and> (\<forall>ctx. state_ctx st = Some ctx \<longrightarrow> range_ok cfg ctx)"

lemma unwrap_Ok_iff [result_simps]: "unwrap r = Ok a \<longleftrightarrow> r = Ok a"
  by (cases r) auto

lemma get_next_step_size:
  assumes "range_ok cfg ctx" and "get_next_step set_iter cfg ctx env = Ok (ProcessDescendantBlocks blocks n)"
  shows "1 \<le> n" and "n \<le> MAX_BLOCK_RANGE_SIZE cfg" and "n \<le> cx_previous_block_range_size ctx * 10"
proof -
  have "n = scan_range_size cfg ctx \<or> n = 1"
    using assms(2) by (auto simp: get_next_step_def far_step_def near_step_def result_simps Let_def
        split: option.splits if_splits)
  then show "1 \<le> n" and "n \<le> MAX_BLOCK_RANGE_SIZE cfg" and "n \<le> cx_previous_block_range_size ctx * 10"
    using scan_range_size_bounds [OF assms(1)] range_ok_simps [OF assms(1)]
    by (auto simp: word_le_nat_alt)
qed

lemma do_step_yield: "do_step env st = (w, Ok (YieldBlocks blocks n)) \<Longrightarrow> st = ProcessDescendantBlocks blocks n"
  by (cases "(env, st)" rule: do_step.cases) (auto split: result.splits unit.splits)

lemma next_blocks_size:
  assumes "range_ok cfg ctx" and "next_blocks set_iter cfg ctx envs = (w, Some (Ok (Blocks blocks n)))"
  shows "1 \<le> n \<and> n \<le> MAX_BLOCK_RANGE_SIZE cfg"
  using assms(2)
proof (induction envs arbitrary: w)
  case (Cons env envs)
  show ?case
  proof (cases "get_next_step set_iter cfg ctx env")
    case (Ok st)
    then show ?thesis
      using Cons get_next_step_size [OF assms(1), of set_iter env blocks n] do_step_yield [of env st]
      by (auto split: prod.splits result.splits step_outcome.splits unit.splits)
  qed (use Cons.prems in auto)
qed simp

lemma range_ok_after_blocks:
  "range_ok cfg ctx \<Longrightarrow> 1 \<le> n \<Longrightarrow> n \<le> MAX_BLOCK_RANGE_SIZE cfg \<Longrightarrow> range_ok cfg (after_blocks blocks n ctx)"
  by (simp add: range_ok_def after_blocks_def)

lemma poll_loop_ok:
  assumes "stream_ok cfg st s" and "poll_loop set_iter cfg pes st s = (w, r, s')"
  shows "stream_ok cfg (bs_state s') s'"
  using assms
proof (induction set_iter cfg pes st s arbitrary: w rule: poll_loop.induct)
  case (3 set_iter cfg pe pes ctx s)
  obtain w' nb where nb: "next_blocks set_iter cfg ctx (pe_envs pe) = (w', nb)" by fastforce
  have ctx: "range_ok cfg ctx" "range_ok cfg (bs_ctx s)" using "3.prems"(1) by (simp_all add: stream_ok_def)
  show ?case
  proof (cases nb)
    case (Some res)
    show ?thesis
    proof (cases res)
      case (Ok found)
      show ?thesis
      proof (cases found)
        case (Blocks blocks n)
        then have "1 \<le> n" "n \<le> MAX_BLOCK_RANGE_SIZE cfg"
          using next_blocks_size [OF ctx(1)] nb Some Ok by auto
        then have "stream_ok cfg (YieldingBlocks blocks)
            (s\<lparr>bs_consecutive_err_count := 0, bs_ctx := after_blocks blocks n (bs_ctx s)\<rparr>)"
          using ctx(2) by (simp add: stream_ok_def range_ok_after_blocks)
        then show ?thesis
          using "3.IH"(1) [OF nb [symmetric] Some Ok Blocks] "3.prems"(2) nb Some Ok Blocks
          by (auto split: prod.splits)
      next
        case NextDone
        have "stream_ok cfg Idle (s\<lparr>bs_consecutive_err_count := 0\<rparr>)"
          using ctx(2) by (simp add: stream_ok_def)
        then show ?thesis
          using "3.IH"(2) [OF nb [symmetric] Some Ok NextDone] "3.prems"(2) nb Some Ok NextDone
          by (auto split: prod.splits)
      qed (use "3.prems" nb Some Ok ctx in \<open>auto simp: stream_ok_def\<close>)
    qed (use "3.prems" nb Some ctx in \<open>auto simp: stream_ok_def Let_def\<close>)
  qed (use "3.prems" nb ctx in \<open>auto simp: stream_ok_def\<close>)
qed (auto simp: stream_ok_def split: if_splits head_poll.splits)

text \<open>The streams reachable from a new one by any sequence of polls.\<close>

inductive polled :: "pair_iter \<Rightarrow> bs_config \<Rightarrow> block_stream \<Rightarrow> bool" for set_iter cfg where
  polled_new: "polled set_iter cfg (block_stream_new i lf cf bf start_blocks include_calls reorg_threshold)"
| polled_poll: "polled set_iter cfg s \<Longrightarrow> poll_blocks set_iter cfg pes s = (w, r, s') \<Longrightarrow> polled set_iter cfg s'"

lemma polled_stream_ok:
  assumes "polled set_iter cfg s" and "1 \<le> MAX_BLOCK_RANGE_SIZE cfg" and "MAX_BLOCK_RANGE_SIZE cfg < 2 ^ 53"
  shows "stream_ok cfg (bs_state s) s"
  using assms(1)
proof induction
  case (polled_new i lf cf bf start_blocks include_calls reorg_threshold)
  then show ?case using assms(2,3) by (simp add: block_stream_new_def stream_ok_def range_ok_def)
next
  case (polled_poll s pes w r s')
  then have "stream_ok cfg (bs_state s) (s\<lparr>bs_state := Transition\<rparr>)" by (simp add: stream_ok_def)
  then show ?case using polled_poll.hyps(2) poll_loop_ok unfolding poll_blocks_def by blast
qed

section \<open>Properties\<close>

text \<open>C17. However a block stream has been polled before, a range it decides to scan starts at the block
  after the subgraph's pointer, is not empty, never reaches into the reorg threshold, never runs
  past the start block of another data source, and is at most ten times the previous range and at
  most the configured maximum.\<close>

theorem scan_range_safe:
  assumes "polled set_iter cfg s" and "1 \<le> MAX_BLOCK_RANGE_SIZE cfg" and "MAX_BLOCK_RANGE_SIZE cfg < 2 ^ 53"
    and "r = min (cx_reorg_threshold (bs_ctx s)) head"
    and "from = range_from (Some (BlockPtr h n))" and "n < head" and "head - n > r"
    and "unat head + unat (MAX_BLOCK_RANGE_SIZE cfg) < 2 ^ 64"
  shows "let to = range_to cfg (bs_ctx s) from head r; size = scan_range_size cfg (bs_ctx s)
    in unat from = unat n + 1 \<and> from \<le> to \<and> to \<le> head - r
      \<and> (\<forall>b \<in> set (cx_start_blocks (bs_ctx s)). from < b \<longrightarrow> to < b)
      \<and> unat to < unat from + unat size \<and> size \<le> MAX_BLOCK_RANGE_SIZE cfg
      \<and> unat size \<le> 10 * unat (cx_previous_block_range_size (bs_ctx s))"
proof -
  have ok: "range_ok cfg (bs_ctx s)"
    using polled_stream_ok [OF assms(1-3)] by (simp add: stream_ok_def)
  have n: "unat from = unat n + 1"
    using assms(5,6) unsigned_less [of head, where 'a = nat]
    by (simp add: range_from_def word_less_nat_alt unat_word_ariths del: unsigned_less)
  have r: "r \<le> head" using assms(4) by simp
  have "unat (head - n) = unat head - unat n" "unat (head - r) = unat head - unat r"
    using assms(6) r by (simp_all add: unat_sub_if_size word_less_nat_alt word_le_nat_alt)
  then have "from \<le> head - r"
    using assms(6,7) n r by (simp add: word_less_nat_alt word_le_nat_alt)
  moreover have "unat from + unat (MAX_BLOCK_RANGE_SIZE cfg) < 2 ^ 64"
    using n assms(6,8) by (simp add: word_less_nat_alt)
  ultimately show ?thesis
    using range_to_bounds [OF ok r, of "from"] scan_range_size_bounds [OF ok] n
    by (simp add: Let_def word_le_nat_alt)
qed

definition demo_cfg :: bs_config where
  "demo_cfg = \<lparr>MAX_BLOCK_RANGE_SIZE = 2000, TARGET_TRIGGERS_PER_BLOCK_RANGE = 100\<rparr>"

definition demo_stream :: block_stream where
  "demo_stream = block_stream_new ''Qm'' log_filter_default [] block_filter_default [120] False 50"

theorem scan_range_safe_witness:
  "100 \<le> range_to demo_cfg (bs_ctx demo_stream) 100 300 50 \<and> range_to demo_cfg (bs_ctx demo_stream) 100 300 50 < 120"
proof -
  have "polled sorted_list_of_set demo_cfg demo_stream" unfolding demo_stream_def by (rule polled_new)
  moreover have "1 \<le> MAX_BLOCK_RANGE_SIZE demo_cfg" "MAX_BLOCK_RANGE_SIZE demo_cfg < 2 ^ 53"
      "50 = min (cx_reorg_threshold (bs_ctx demo_stream)) 300" "100 = range_from (Some (BlockPtr [] 99))"
      "(99 :: u64) < 300" "(300 :: u64) - 99 > 50" "unat (300 :: u64) + unat (MAX_BLOCK_RANGE_SIZE demo_cfg) < 2 ^ 64"
    by (simp_all add: demo_cfg_def demo_stream_def block_stream_new_def range_from_def)
  ultimately have "let to = range_to demo_cfg (bs_ctx demo_stream) 100 300 50; size = scan_range_size demo_cfg (bs_ctx demo_stream)
    in unat (100 :: u64) = unat (99 :: u64) + 1 \<and> 100 \<le> to \<and> to \<le> 300 - 50
      \<and> (\<forall>b \<in> set (cx_start_blocks (bs_ctx demo_stream)). 100 < b \<longrightarrow> to < b)
      \<and> unat to < unat (100 :: u64) + unat size \<and> size \<le> MAX_BLOCK_RANGE_SIZE demo_cfg
      \<and> unat size \<le> 10 * unat (cx_previous_block_range_size (bs_ctx demo_stream))"
    by (rule scan_range_safe)
  moreover have "120 \<in> set (cx_start_blocks (bs_ctx demo_stream))" by (simp add: demo_stream_def block_stream_new_def)
  ultimately show ?thesis unfolding Let_def by simp
qed

text \<open>An error during reconciliation is handed to the consumer, and the stream pauses before it tries
  again, for at least two minutes after the very first error: the delay is the maximum and not the
  minimum of 120 seconds and five seconds per consecutive error, so it has no upper bound either.\<close>

lemma error_backoff_not_capped:
  assumes "next_blocks set_iter cfg ctx (pe_envs pe) = (w, Some (Err e))" and "bs_state s = Reconciliation ctx"
    and "unat (bs_consecutive_err_count s) < 800000000"
  shows "poll_blocks set_iter cfg (pe # pes) s =
      (w, PollErr e, s\<lparr>bs_consecutive_err_count := bs_consecutive_err_count s + 1,
        bs_state := RetryAfterDelay (retry_delay (bs_consecutive_err_count s + 1))\<rparr>)
    \<and> unat (retry_delay (bs_consecutive_err_count s + 1)) = max 120 (5 * (unat (bs_consecutive_err_count s) + 1))"
proof -
  let ?n = "bs_consecutive_err_count s + 1"
  have n: "unat ?n = unat (bs_consecutive_err_count s) + 1" using assms(3) by (simp add: unat_word_ariths)
  have unat_numeral_120: "unat (120 :: 32 word) = 120" by simp
  have five: "unat (5 * ?n) = 5 * unat ?n" using assms(3) n by (simp add: unat_word_ariths)
  have "unat (max (5 * ?n) 120) = max (5 * unat ?n) 120"
    unfolding max_def word_le_nat_alt five unat_numeral_120 by (auto simp only: five unat_numeral_120 split: if_split)
  moreover have "unat (ucast x :: u64) = unat x" for x :: "32 word"
    using unsigned_less [of x, where 'a = nat]
    by (simp add: unsigned_ucast_eq take_bit_nat_eq_self_iff del: unsigned_less)
  ultimately have "unat (retry_delay ?n) = max (5 * unat ?n) 120"
    unfolding retry_delay_def by simp
  moreover have "poll_blocks set_iter cfg (pe # pes) s = (w, PollErr e, s\<lparr>bs_consecutive_err_count := ?n,
      bs_state := RetryAfterDelay (retry_delay ?n)\<rparr>)"
    using assms(1,2) by (simp add: poll_blocks_def Let_def)
  ultimately show ?thesis using n by (simp add: max.commute)
qed

definition demo_failing_env :: bs_env where
  "demo_failing_env = \<lparr>
     be_adapter = demo_node\<lparr>is_on_main_chain := (\<lambda>p. Err ''timeout'')\<rparr>,
     be_chain_head_ptr = Ok (Some (BlockPtr (demo_hash 100) 100)),
     be_ancestor_block = (\<lambda>q k. Ok None),
     be_block_ptr = Ok (Some (BlockPtr (demo_hash 3) 3)),
     be_revert_block_operations = (\<lambda>q parent. Ok ()),
     be_find = (\<lambda>q. Ok []),
     be_apply_metadata_operations = (\<lambda>ops. Ok ())\<rparr>"

text \<open>C33. When the stream of chain head updates ends or fails while the block stream is idle, the poll
  reports an error; the early return leaves the state \<open>Transition\<close> behind, so every later poll
  panics at \<open>unreachable!()\<close>, whatever the stores and the node answer.\<close>

theorem poll_after_head_stream_ended:
  assumes "bs_state s = Idle" and "pe_head pe = HeadEnded \<or> pe_head pe = HeadFailed"
  shows "\<exists>e s'. poll_blocks set_iter cfg (pe # pes) s = ([], PollErr e, s')
    \<and> (\<forall>pes'. poll_blocks set_iter cfg pes' s' = ([], PollPanic, s'))"
  using assms by (auto simp: poll_blocks_def)

theorem poll_after_head_stream_ended_witness:
  "\<exists>e s'. poll_blocks sorted_list_of_set demo_cfg [\<lparr>pe_envs = [], pe_delay_over = True, pe_head = HeadEnded\<rparr>]
      (demo_stream\<lparr>bs_state := Idle\<rparr>) = ([], PollErr e, s')
    \<and> (\<forall>pes'. poll_blocks sorted_list_of_set demo_cfg pes' s' = ([], PollPanic, s'))"
  by (rule poll_after_head_stream_ended) simp_all

text \<open>A subgraph pointer ahead of the chain head stops reconciliation, as intended, but the gauge of
  blocks behind has been set before the comparison, to a difference that has wrapped around.\<close>

lemma blocks_behind_wraps:
  assumes "be_chain_head_ptr env = Ok (Some (BlockPtr h n))" and "be_block_ptr env = Ok (Some (BlockPtr h' m))" and "n < m"
  shows "get_next_step set_iter cfg ctx env = Ok StepDone
    \<and> map_option unat (blocks_behind env) = Some (2 ^ 64 - (unat m - unat n))"
proof -
  have "get_next_step set_iter cfg ctx env = Ok StepDone"
    using assms by (auto simp: get_next_step_def Let_def)
  moreover have "unat (n - m) = 2 ^ 64 - (unat m - unat n)"
    using assms(3) by (simp add: unat_sub_if_size word_less_nat_alt word_le_nat_alt word_size)
  ultimately show ?thesis using assms(1,2) by (simp add: blocks_behind_def)
qed

end
