(* ===== verification/Retry.thy ===== *)
theory Retry
  imports Prelude
begin

text \<open>
  Retrying asynchronous operations (\<open>graph/src/util/futures.rs\<close>). An operation is the function
  from the number of an attempt to its outcome; a future is \<open>None\<close> if it never completes, as an attempt
  without a timeout may do, and an operation that is retried without a limit. Delays and logging have no influence
  on the outcome: of the retry strategy only the number of delays is kept. The loop itself is
  \<open>Retry::spawn\<close> of the crate \<open>tokio_retry\<close>: \<open>retry_spawn\<close> is its documented behaviour (another
  attempt after each delay until one succeeds or no delay is left). The subtraction for a limit of zero wraps
  around as in a release build.
\<close>

type_synonym ('a, 'e) future = "('a, 'e) result option"

section \<open>Timeouts and retry conditions\<close>

datatype 'e timeout_error = Inner 'e | Elapsed

fun is_elapsed :: "'e timeout_error \<Rightarrow> bool" where
  "is_elapsed (Inner _) = False"
| "is_elapsed Elapsed = True"

fun into_inner :: "'e timeout_error \<Rightarrow> 'e option" where
  "into_inner (Inner e) = Some e"
| "into_inner Elapsed = None"

datatype ('a, 'e) retry_if = RetryOnError | RetryWhen "('a, 'e) result \<Rightarrow> bool"

fun retry_check :: "('a, 'e) retry_if \<Rightarrow> ('a, 'e) result \<Rightarrow> bool" where
  "retry_check RetryOnError r = (\<not> is_ok r)"
| "retry_check (RetryWhen p) r = p r"

section \<open>Configuration\<close>

datatype 'v config_property = PropSet 'v | PropClear | PropUnknown

definition property_set :: "'v \<Rightarrow> 'v config_property \<Rightarrow> ('v config_property, 'e) result" where
  "property_set v p = (if p \<noteq> PropUnknown then Panic else Ok (PropSet v))"

definition property_clear :: "'v config_property \<Rightarrow> ('v config_property, 'e) result" where
  "property_clear p = (if p \<noteq> PropUnknown then Panic else Ok PropClear)"

fun property_unwrap :: "'v config_property \<Rightarrow> ('v option, 'e) result" where
  "property_unwrap (PropSet v) = Ok (Some v)"
| "property_unwrap PropClear = Ok None"
| "property_unwrap PropUnknown = Panic"

record ('a, 'e) retry_config =
  rc_condition :: "('a, 'e) retry_if"
  rc_limit :: "usize config_property"

definition retry_new :: "('a, 'e) retry_config" where
  "retry_new = \<lparr>rc_condition = RetryOnError, rc_limit = PropUnknown\<rparr>"

definition retry_when :: "(('a, 'e) result \<Rightarrow> bool) \<Rightarrow> ('a, 'e) retry_config \<Rightarrow> ('a, 'e) retry_config" where
  "retry_when p c = c\<lparr>rc_condition := RetryWhen p\<rparr>"

definition retry_limit :: "usize \<Rightarrow> ('a, 'e) retry_config \<Rightarrow> (('a, 'e) retry_config, 'x) result" where
  "retry_limit n c = and_then (property_set n (rc_limit c)) (\<lambda>l. Ok (c\<lparr>rc_limit := l\<rparr>))"

definition retry_no_limit :: "('a, 'e) retry_config \<Rightarrow> (('a, 'e) retry_config, 'x) result" where
  "retry_no_limit c = and_then (property_clear (rc_limit c)) (\<lambda>l. Ok (c\<lparr>rc_limit := l\<rparr>))"

section \<open>Running an operation\<close>

text \<open>The number of delays between attempts, or endlessly many; \<open>limit - 1\<close> wraps for a limit of zero.\<close>

definition retry_strategy :: "usize option \<Rightarrow> nat option" where
  "retry_strategy limit_opt = map_option (\<lambda>limit. unat (limit - 1)) limit_opt"

text \<open>Whether an attempt is wrapped in \<open>Err\<close> to force a retry. A panic ends the task.\<close>

fun needs_retry :: "('a, 'e) retry_if \<Rightarrow> ('a, 'e timeout_error) result \<Rightarrow> bool" where
  "needs_retry cond (Err Elapsed) = True"
| "needs_retry cond (Err (Inner e)) = retry_check cond (Err e)"
| "needs_retry cond (Ok a) = retry_check cond (Ok a)"
| "needs_retry cond Panic = False"

partial_function (option) retry_spawn ::
  "('a, 'e) retry_if \<Rightarrow> nat option \<Rightarrow> (nat \<Rightarrow> ('a, 'e timeout_error) future) \<Rightarrow> nat \<Rightarrow> ('a, 'e timeout_error) future" where
  "retry_spawn cond delays try_it attempt =
     (case try_it attempt of
        None \<Rightarrow> None
      | Some r \<Rightarrow>
          if \<not> needs_retry cond r \<or> delays = Some 0 then Some r
          else retry_spawn cond (map_option (\<lambda>d. d - 1) delays) try_it (attempt + 1))"

text \<open>With a timeout every attempt has an outcome.\<close>

definition run_retry ::
  "('a, 'e) retry_if \<Rightarrow> usize option \<Rightarrow> (nat \<Rightarrow> ('a, 'e timeout_error) result) \<Rightarrow> ('a, 'e timeout_error) future" where
  "run_retry cond limit_opt try_it = retry_spawn cond (retry_strategy limit_opt) (\<lambda>i. Some (try_it i)) 0"

definition retry_run ::
  "('a, 'e) retry_config \<Rightarrow> (nat \<Rightarrow> ('a, 'e timeout_error) result) \<Rightarrow> ('a, 'e timeout_error) future" where
  "retry_run c try_it =
     (case (property_unwrap (rc_limit c) :: (usize option, unit) result) of
        Ok limit_opt \<Rightarrow> run_retry (rc_condition c) limit_opt try_it
      | _ \<Rightarrow> Some Panic)"

text \<open>Without a timeout all errors are inner errors.\<close>

fun untimed :: "('a, 'e) result \<Rightarrow> ('a, 'e timeout_error) result" where
  "untimed (Ok a) = Ok a"
| "untimed (Err e) = Err (Inner e)"
| "untimed Panic = Panic"

fun inner_error :: "('a, 'e timeout_error) result \<Rightarrow> ('a, 'e) result" where
  "inner_error (Ok a) = Ok a"
| "inner_error (Err (Inner e)) = Err e"
| "inner_error (Err Elapsed) = Panic"
| "inner_error Panic = Panic"

definition retry_run_no_timeout :: "('a, 'e) retry_config \<Rightarrow> (nat \<Rightarrow> ('a, 'e) future) \<Rightarrow> ('a, 'e) future" where
  "retry_run_no_timeout c try_it =
     (case (property_unwrap (rc_limit c) :: (usize option, unit) result) of
        Ok limit_opt \<Rightarrow>
          map_option inner_error
            (retry_spawn (rc_condition c) (retry_strategy limit_opt) (\<lambda>i. map_option untimed (try_it i)) 0)
      | _ \<Rightarrow> Some Panic)"

section \<open>Outcomes\<close>

lemma retry_spawn_stop:
  assumes "\<forall>j < n. needs_retry cond (try_it (i + j))" and "\<not> needs_retry cond (try_it (i + n))"
    and "\<forall>d. delays = Some d \<longrightarrow> n \<le> d"
  shows "retry_spawn cond delays (\<lambda>i. Some (try_it i)) i = Some (try_it (i + n))"
  using assms
proof (induction n arbitrary: i delays)
  case (Suc n)
  have first: "needs_retry cond (try_it i)" using spec [OF Suc.prems(1), of 0] by simp
  have "delays \<noteq> Some 0" using Suc.prems(3) by auto
  moreover have "retry_spawn cond (map_option (\<lambda>d. d - 1) delays) (\<lambda>i. Some (try_it i)) (i + 1) = Some (try_it (i + 1 + n))"
    using Suc.prems by (intro Suc.IH) force+
  ultimately show ?case using first by (subst retry_spawn.simps) simp
qed (subst retry_spawn.simps, simp)

lemma retry_spawn_exhausted:
  "\<forall>j \<le> n. needs_retry cond (try_it (i + j)) \<Longrightarrow> retry_spawn cond (Some n) (\<lambda>i. Some (try_it i)) i = Some (try_it (i + n))"
proof (induction n arbitrary: i)
  case (Suc n)
  have "retry_spawn cond (Some n) (\<lambda>i. Some (try_it i)) (i + 1) = Some (try_it (i + 1 + n))"
    using Suc.prems by (intro Suc.IH) force
  then show ?case using spec [OF Suc.prems, of 0] by (subst retry_spawn.simps) simp
qed (subst retry_spawn.simps, simp)

lemma retry_spawn_endless:
  assumes "retry_spawn cond delays attempts i = Some r" and "delays = None" and "attempts = (\<lambda>i. Some (try_it i))"
  shows "\<exists>n. \<not> needs_retry cond (try_it (i + n)) \<and> (\<forall>j < n. needs_retry cond (try_it (i + j))) \<and> r = try_it (i + n)"
  using assms
proof (induction rule: retry_spawn.raw_induct [rotated, consumes 1])
  case (1 f cond delays attempts i r)
  show ?case
  proof (cases "needs_retry cond (try_it i)")
    case True
    then have "f cond None attempts (i + 1) = Some r" using 1(2-4) by simp
    then obtain n where n: "\<not> needs_retry cond (try_it (i + 1 + n))" "\<forall>j < n. needs_retry cond (try_it (i + 1 + j))"
        "r = try_it (i + 1 + n)"
      using 1(1) [of cond None attempts "i + 1" r] 1(4) by auto
    have "needs_retry cond (try_it (i + j))" if "j < n + 1" for j
      using that n(2) True by (cases j) auto
    then show ?thesis using n(1,3) by (intro exI [of _ "n + 1"]) auto
  next
    case False
    then show ?thesis using 1(2-4) by (intro exI [of _ 0]) auto
  qed
qed

text \<open>An operation one of whose allowed attempts needs no retry ends with the first such attempt.\<close>

lemma run_retry_first:
  assumes "\<forall>j < n. needs_retry cond (try_it j)" and "\<not> needs_retry cond (try_it n)"
    and "\<forall>l. limit_opt = Some l \<longrightarrow> n < unat l"
  shows "run_retry cond limit_opt try_it = Some (try_it n)"
proof -
  have "n \<le> d" if "retry_strategy limit_opt = Some d" for d
  proof -
    obtain l where l: "limit_opt = Some l" "d = unat (l - 1)" using \<open>retry_strategy limit_opt = Some d\<close>
      by (auto simp: retry_strategy_def)
    have "n < unat l" using assms(3) l(1) by blast
    moreover from this have "unat (l - 1) = unat l - 1" by (intro unat_minus_one) auto
    ultimately show ?thesis using l(2) by simp
  qed
  then show ?thesis using retry_spawn_stop [of n cond try_it 0] assms(1,2) by (simp add: run_retry_def)
qed

lemma run_retry_returns: "run_retry cond (Some limit) try_it \<noteq> None"
proof (cases "\<forall>j \<le> unat (limit - 1). needs_retry cond (try_it j)")
  case True
  then show ?thesis using retry_spawn_exhausted [of "unat (limit - 1)" cond try_it 0]
    by (simp add: run_retry_def retry_strategy_def)
next
  case False
  then have ex: "\<exists>j. j \<le> unat (limit - 1) \<and> \<not> needs_retry cond (try_it j)" by blast
  define i where "i = (LEAST j. j \<le> unat (limit - 1) \<and> \<not> needs_retry cond (try_it j))"
  have i: "i \<le> unat (limit - 1)" "\<not> needs_retry cond (try_it i)" using LeastI_ex [OF ex] by (simp_all add: i_def)
  have "needs_retry cond (try_it j)" if "j < i" for j
    using not_less_Least [OF that [unfolded i_def]] i(1) that by auto
  then show ?thesis using retry_spawn_stop [of i cond try_it 0 "Some (unat (limit - 1))"] i
    by (simp add: run_retry_def retry_strategy_def)
qed

section \<open>Properties\<close>

text \<open>An operation with a limit on its attempts always returns, after at most that many attempts: the
  outcome of the first attempt that needs no retry, or of the last one. Without a limit it returns
  exactly when some attempt needs no retry, again with the outcome of the first such attempt.\<close>

lemma retry_outcome:
  assumes "1 \<le> limit"
  shows "(\<exists>i < unat limit. run_retry cond (Some limit) try_it = Some (try_it i)
      \<and> (\<forall>j < i. needs_retry cond (try_it j))
      \<and> (i + 1 = unat limit \<or> \<not> needs_retry cond (try_it i)))
    \<and> (\<forall>r. run_retry cond None try_it = Some r \<longleftrightarrow>
        (\<exists>i. \<not> needs_retry cond (try_it i) \<and> (\<forall>j < i. needs_retry cond (try_it j)) \<and> r = try_it i))"
proof
  have "1 \<le> unat limit" using assms by (simp add: word_le_nat_alt)
  moreover from this have "limit \<noteq> 0" by auto
  ultimately have pos: "unat (limit - 1) = unat limit - 1" "1 \<le> unat limit" by (simp_all add: unat_minus_one)
  show "\<exists>i < unat limit. run_retry cond (Some limit) try_it = Some (try_it i)
      \<and> (\<forall>j < i. needs_retry cond (try_it j)) \<and> (i + 1 = unat limit \<or> \<not> needs_retry cond (try_it i))"
  proof (cases "\<forall>j \<le> unat limit - 1. needs_retry cond (try_it j)")
    case True
    then have "run_retry cond (Some limit) try_it = Some (try_it (unat limit - 1))"
      using retry_spawn_exhausted [of "unat limit - 1" cond try_it 0] by (simp add: run_retry_def retry_strategy_def pos)
    then show ?thesis using True pos(2) by (intro exI [of _ "unat limit - 1"]) auto
  next
    case False
    then have ex: "\<exists>j. j \<le> unat limit - 1 \<and> \<not> needs_retry cond (try_it j)" by blast
    define i where "i = (LEAST j. j \<le> unat limit - 1 \<and> \<not> needs_retry cond (try_it j))"
    have i: "i \<le> unat limit - 1" "\<not> needs_retry cond (try_it i)" using LeastI_ex [OF ex] by (simp_all add: i_def)
    have "needs_retry cond (try_it j)" if "j < i" for j
      using not_less_Least [OF that [unfolded i_def]] i(1) that by auto
    moreover from this have "run_retry cond (Some limit) try_it = Some (try_it i)"
      using i pos(2) by (intro run_retry_first) auto
    ultimately show ?thesis using i pos(2) by (intro exI [of _ i]) auto
  qed
  show "\<forall>r. run_retry cond None try_it = Some r \<longleftrightarrow>
        (\<exists>i. \<not> needs_retry cond (try_it i) \<and> (\<forall>j < i. needs_retry cond (try_it j)) \<and> r = try_it i)"
    using retry_spawn_endless [of cond None "\<lambda>i. Some (try_it i)" 0 _ try_it] run_retry_first [of _ cond try_it None]
    unfolding run_retry_def by (auto simp: retry_strategy_def)
qed

end
