(* ===== verification/EthAdapter.thy ===== *)
theory EthAdapter
  imports BlockScan Retry "HOL-Library.Sublist"
begin

text \<open>
  The Ethereum adapter (\<open>chain/ethereum/src/ethereum_adapter.rs\<close>) over JSON-RPC. The crate \<open>web3\<close> is
  the record \<open>web3\<close>: for every request, the outcome of each attempt to send it, which may be a
  timeout. Errors of the crate \<open>failure\<close> are their messages, without the values that are formatted
  into them. Operations that write to the chain store or the call cache return the list of their
  writes. Locale \<open>web3_node\<close> states what a node answers about a final chain; over such a node the
  adapter provides the interface \<open>ethereum_node\<close> that scanning for triggers relies on.
\<close>

section \<open>Requests to the node\<close>

datatype web3_error =
    RpcError (rpc_code: int) (rpc_message: string) (rpc_data: "string option")
  | OtherWeb3Error string

datatype block_id = ByHash h256 | ByNumber u64 | LatestBlock

record web3 =
  w3_show :: "web3_error \<Rightarrow> string"
  w3_debug :: "web3_error \<Rightarrow> string"
  w3_trace_filter :: "u64 \<Rightarrow> u64 \<Rightarrow> address list option \<Rightarrow> nat \<Rightarrow> (trace list, web3_error timeout_error) result"
  w3_logs :: "u64 \<Rightarrow> u64 \<Rightarrow> get_logs_filter \<Rightarrow> nat \<Rightarrow> (eth_log list, web3_error timeout_error) result"
  w3_call :: "address \<Rightarrow> bytes \<Rightarrow> block_id \<Rightarrow> nat \<Rightarrow> (bytes, web3_error timeout_error) result"
  w3_block :: "block_id \<Rightarrow> nat \<Rightarrow> (light_block option, web3_error timeout_error) result"
  w3_block_with_txs :: "block_id \<Rightarrow> nat \<Rightarrow> (light_block option, web3_error timeout_error) result"
  w3_net_version :: "nat \<Rightarrow> (string, web3_error timeout_error) result"
  w3_submit_batch :: "h256 list \<Rightarrow> nat \<Rightarrow> (unit, web3_error timeout_error) result"
  w3_transaction_receipt :: "h256 \<Rightarrow> nat \<Rightarrow> (transaction_receipt option, web3_error) result"
  w3_uncle :: "h256 \<Rightarrow> nat \<Rightarrow> nat \<Rightarrow> (light_block option, web3_error timeout_error) result"

record eth_client =
  ec_web3 :: web3
  ec_is_ganache :: bool
  TRACE_STREAM_STEP_SIZE :: u64
  MAX_EVENT_ONLY_RANGE :: u64
  REQUEST_RETRIES :: usize
  ETH_CALL_BY_NUMBER :: bool

text \<open>\<open>and_then\<close> of futures.\<close>

fun fut_then :: "('a, 'e) future \<Rightarrow> ('a \<Rightarrow> ('b, 'e) future) \<Rightarrow> ('b, 'e) future" where
  "fut_then None f = None"
| "fut_then (Some (Ok a)) f = f a"
| "fut_then (Some (Err e)) f = Some (Err e)"
| "fut_then (Some Panic) f = Some Panic"

text \<open>\<open>e.into_inner().unwrap_or_else(...)\<close>.\<close>

fun timed_out :: "('e \<Rightarrow> 'f) \<Rightarrow> 'f \<Rightarrow> ('a, 'e timeout_error) result \<Rightarrow> ('a, 'f) result" where
  "timed_out show_err msg (Ok a) = Ok a"
| "timed_out show_err msg (Err (Inner e)) = Err (show_err e)"
| "timed_out show_err msg (Err Elapsed) = Err msg"
| "timed_out show_err msg Panic = Panic"

text \<open>\<open>then\<close> inside an attempt: the continuation sees the outcome unless the attempt has timed out.\<close>

fun attempt_then :: "('a, 'e timeout_error) result \<Rightarrow> (('a, 'e) result \<Rightarrow> ('b, 'f) result) \<Rightarrow> ('b, 'f timeout_error) result" where
  "attempt_then (Ok a) f = untimed (f (Ok a))"
| "attempt_then (Err (Inner e)) f = untimed (f (Err e))"
| "attempt_then (Err Elapsed) f = Err Elapsed"
| "attempt_then Panic f = Panic"

text \<open>\<open>str::contains\<close>.\<close>

definition str_contains :: "string \<Rightarrow> string \<Rightarrow> bool" where
  "str_contains s pat \<longleftrightarrow> list_ex (prefix pat) (suffixes s)"

section \<open>Traces and logs\<close>

definition traces :: "eth_client \<Rightarrow> u64 \<Rightarrow> u64 \<Rightarrow> address list \<Rightarrow> (trace list, string) future" where
  "traces c from to addresses =
     map_option (timed_out (w3_show (ec_web3 c)) ''Ethereum node took too long to respond to trace_filter'')
       (run_retry RetryOnError (Some (REQUEST_RETRIES c))
          (w3_trace_filter (ec_web3 c) from to (if addresses = [] then None else Some addresses)))"

definition TOO_MANY_LOGS_FINGERPRINTS :: "string list" where
  "TOO_MANY_LOGS_FINGERPRINTS = [''ServerError(-32005)'', ''503 Service Unavailable'', ''ServerError(-32000)'']"

definition too_many_logs :: "string \<Rightarrow> bool" where
  "too_many_logs s \<longleftrightarrow> list_ex (str_contains s) TOO_MANY_LOGS_FINGERPRINTS"

definition logs_retry :: "web3 \<Rightarrow> (eth_log list, web3_error) retry_if" where
  "logs_retry w = RetryWhen (\<lambda>res. case res of Err e \<Rightarrow> \<not> too_many_logs (w3_show w e) | _ \<Rightarrow> False)"

definition logs_with_sigs ::
  "eth_client \<Rightarrow> u64 \<Rightarrow> u64 \<Rightarrow> get_logs_filter \<Rightarrow> (eth_log list, web3_error timeout_error) future" where
  "logs_with_sigs c from to f =
     run_retry (logs_retry (ec_web3 c)) (Some (REQUEST_RETRIES c)) (w3_logs (ec_web3 c) from to f)"

definition trace_step_size :: "eth_client \<Rightarrow> address list \<Rightarrow> u64" where
  "trace_step_size c addresses =
     max (if addresses \<noteq> [] then TRACE_STREAM_STEP_SIZE c else TRACE_STREAM_STEP_SIZE c div 4) 1"

text \<open>The unfolded stream, with the traces received so far; \<open>end + 1\<close> wraps at the largest block number.\<close>

partial_function (option) trace_stream_loop ::
  "eth_client \<Rightarrow> address list \<Rightarrow> u64 \<Rightarrow> u64 \<Rightarrow> trace list \<Rightarrow> (trace list, string) future" where
  "trace_stream_loop c addresses to start acc =
     (if start > to then Some (Ok acc)
      else let last = min (start + trace_step_size c addresses - 1) to in
        Option.bind (traces c start last addresses) (\<lambda>res.
          case res of
            Ok ts \<Rightarrow> trace_stream_loop c addresses to (last + 1) (acc @ ts)
          | Err e \<Rightarrow> Some (Err e)
          | Panic \<Rightarrow> Some Panic))"

definition trace_stream :: "eth_client \<Rightarrow> u64 \<Rightarrow> u64 \<Rightarrow> address list \<Rightarrow> (trace list, string) future" where
  "trace_stream c from to addresses =
     (if from > to then Some Panic else trace_stream_loop c addresses to from [])"

fun timeout_error_string :: "web3 \<Rightarrow> web3_error timeout_error \<Rightarrow> string" where
  "timeout_error_string w (Inner e) = w3_debug w e"
| "timeout_error_string w Elapsed = ''Timeout elapsed''"

partial_function (option) log_stream_loop ::
  "eth_client \<Rightarrow> get_logs_filter \<Rightarrow> u64 \<Rightarrow> u64 \<Rightarrow> u64 \<Rightarrow> eth_log list \<Rightarrow> (eth_log list, string) future" where
  "log_stream_loop c f to start step acc =
     (if start > to then Some (Ok acc)
      else let last = min (start + step) to in
        Option.bind (logs_with_sigs c start last f) (\<lambda>res.
          case res of
            Ok logs \<Rightarrow> log_stream_loop c f to (last + 1) step (acc @ logs)
          | Err e \<Rightarrow>
              if too_many_logs (timeout_error_string (ec_web3 c) e) \<and> step > 0
              then log_stream_loop c f to start (step div 10) acc
              else Some (Err (timeout_error_string (ec_web3 c) e))
          | Panic \<Rightarrow> Some Panic))"

definition log_step :: "eth_client \<Rightarrow> u64 \<Rightarrow> u64 \<Rightarrow> get_logs_filter \<Rightarrow> u64" where
  "log_step c from to f = (if gl_contracts f \<noteq> [] then to - from else min (to - from) (MAX_EVENT_ONLY_RANGE c - 1))"

definition log_stream :: "eth_client \<Rightarrow> u64 \<Rightarrow> u64 \<Rightarrow> get_logs_filter \<Rightarrow> (eth_log list, string) future" where
  "log_stream c from to f =
     (if from > to then Some Panic else log_stream_loop c f to from (log_step c from to f) [])"

section \<open>Contract calls\<close>

text \<open>
  What the crates \<open>tiny_keccak\<close>, \<open>hex\<close> and \<open>ethabi\<close> provide: decoding of a string parameter, the
  check of an argument against its type, and the encoding and decoding of a function.
\<close>

record ('token, 'kind) abi_lib =
  al_keccak :: "bytes \<Rightarrow> bytes"
  al_hex_decode :: "string \<Rightarrow> bytes option"
  al_decode_string :: "bytes \<Rightarrow> string option"
  al_type_check :: "'token \<Rightarrow> 'kind \<Rightarrow> bool"

record ('token, 'kind) abi_function =
  fn_inputs :: "'kind list"
  fn_encode_input :: "'token list \<Rightarrow> (bytes, string) result"
  fn_decode_output :: "bytes \<Rightarrow> ('token list, string) result"

record ('token, 'kind) contract_call_data =
  cc_address :: address
  cc_block_ptr :: block_pointer
  cc_function :: "('token, 'kind) abi_function"
  cc_args :: "'token list"

datatype ('token, 'kind) contract_call_error =
    TypeMismatch 'token 'kind
  | EncodingError string
  | Web3Failure web3_error
  | Revert string
  | CallTimeout

definition PARITY_BAD_INSTRUCTION_FE :: string where "PARITY_BAD_INSTRUCTION_FE = ''Bad instruction fe''"
definition PARITY_BAD_INSTRUCTION_FD :: string where "PARITY_BAD_INSTRUCTION_FD = ''Bad instruction fd''"
definition PARITY_BAD_JUMP_PREFIX :: string where "PARITY_BAD_JUMP_PREFIX = ''Bad jump''"
definition PARITY_REVERT_PREFIX :: string where "PARITY_REVERT_PREFIX = ''Reverted 0x''"
definition GANACHE_REVERT_MESSAGE :: string where
  "GANACHE_REVERT_MESSAGE = ''VM Exception while processing transaction: revert''"
definition GETH_EXECUTION_ERRORS :: "string list" where
  "GETH_EXECUTION_ERRORS = [''execution reverted'', ''invalid jump destination'', ''invalid opcode'']"

definition as_solidity_revert_with_reason :: "('token, 'kind) abi_lib \<Rightarrow> bytes \<Rightarrow> string option" where
  "as_solidity_revert_with_reason lib bs =
     (if length bs \<ge> 4 \<and> take 4 bs = take 4 (al_keccak lib (char_bytes ''Error(string)''))
      then al_decode_string lib (drop 4 bs) else None)"

function trim_start_matches :: "string \<Rightarrow> string \<Rightarrow> string" where
  "trim_start_matches s pat =
     (if pat \<noteq> [] \<and> prefix pat s then trim_start_matches (drop (length pat) s) pat else s)"
  by pat_completeness auto
termination
  by (relation "measure (\<lambda>(s, pat). length s)") (auto simp: prefix_def)

declare trim_start_matches.simps [simp del]

definition is_parity_revert :: "string \<Rightarrow> bool" where
  "is_parity_revert d \<longleftrightarrow> prefix PARITY_REVERT_PREFIX d \<or> prefix PARITY_BAD_JUMP_PREFIX d
     \<or> d = PARITY_BAD_INSTRUCTION_FE \<or> d = PARITY_BAD_INSTRUCTION_FD"

definition parity_reason :: "('token, 'kind) abi_lib \<Rightarrow> string \<Rightarrow> string" where
  "parity_reason lib d =
     (if d = PARITY_BAD_INSTRUCTION_FE then PARITY_BAD_INSTRUCTION_FE
      else case Option.bind (al_hex_decode lib (trim_start_matches d PARITY_REVERT_PREFIX))
                  (as_solidity_revert_with_reason lib) of
             Some reason \<Rightarrow> reason
           | None \<Rightarrow> ''no reason'')"

fun call_outcome ::
  "('token, 'kind) abi_lib \<Rightarrow> (bytes, web3_error) result \<Rightarrow> (bytes, ('token, 'kind) contract_call_error) result" where
  "call_outcome lib (Ok bs) =
     (case as_solidity_revert_with_reason lib bs of None \<Rightarrow> Ok bs | Some reason \<Rightarrow> Err (Revert reason))"
| "call_outcome lib (Err (RpcError code msg d)) =
     (if list_ex (str_contains msg) GETH_EXECUTION_ERRORS then Err (Revert msg)
      else if code = -32015 then
        (case d of
           Some s \<Rightarrow> if is_parity_revert s then Err (Revert (parity_reason lib s))
                     else Err (Web3Failure (RpcError code msg d))
         | None \<Rightarrow> Err (Web3Failure (RpcError code msg d)))
      else if code = -32000 \<and> prefix GANACHE_REVERT_MESSAGE msg then Err (Revert msg)
      else Err (Web3Failure (RpcError code msg d)))"
| "call_outcome lib (Err (OtherWeb3Error s)) = Err (Web3Failure (OtherWeb3Error s))"
| "call_outcome lib Panic = Panic"

definition call_retry :: "(bytes, ('token, 'kind) contract_call_error) retry_if" where
  "call_retry = RetryWhen (\<lambda>res. case res of Err (Revert _) \<Rightarrow> False | Err _ \<Rightarrow> True | _ \<Rightarrow> False)"

definition eth_adapter_call ::
  "('token, 'kind) abi_lib \<Rightarrow> eth_client \<Rightarrow> address \<Rightarrow> bytes \<Rightarrow> block_pointer \<Rightarrow>
     (bytes, ('token, 'kind) contract_call_error) future" where
  "eth_adapter_call lib c contract_address call_data ptr =
     (let block_id = (if ec_is_ganache c \<or> ETH_CALL_BY_NUMBER c then ByNumber (ptr_number ptr) else ByHash (ptr_hash ptr))
      in map_option (timed_out id CallTimeout)
           (run_retry call_retry (Some 10)
              (\<lambda>i. attempt_then (w3_call (ec_web3 c) contract_address call_data block_id i) (call_outcome lib))))"

type_synonym call_cache = "address \<Rightarrow> bytes \<Rightarrow> block_pointer \<Rightarrow> (bytes option, string) result"

datatype cache_write = SetCall address bytes block_pointer bytes

text \<open>\<open>zip\<close> stops at the shorter list; an error of the cache is logged and counts as a miss.\<close>

definition type_mismatch :: "('token, 'kind) abi_lib \<Rightarrow> 'token list \<Rightarrow> 'kind list \<Rightarrow> ('token \<times> 'kind) option" where
  "type_mismatch lib args kinds = find (\<lambda>(t, k). \<not> al_type_check lib t k) (zip args kinds)"

definition decode_call_output ::
  "('token, 'kind) abi_function \<Rightarrow> bytes \<Rightarrow> ('token list, ('token, 'kind) contract_call_error) result" where
  "decode_call_output f output =
     (if output = [] then Err (Revert ''empty response'')
      else case fn_decode_output f output of
             Ok ts \<Rightarrow> Ok ts
           | Err e \<Rightarrow> Err (Revert (''failed to decode output: '' @ e))
           | Panic \<Rightarrow> Panic)"

definition contract_call ::
  "('token, 'kind) abi_lib \<Rightarrow> eth_client \<Rightarrow> call_cache \<Rightarrow> ('token, 'kind) contract_call_data \<Rightarrow>
     cache_write list \<times> ('token list, ('token, 'kind) contract_call_error) future" where
  "contract_call lib c cache call =
     (case type_mismatch lib (cc_args call) (fn_inputs (cc_function call)) of
        Some (t, k) \<Rightarrow> ([], Some (Err (TypeMismatch t k)))
      | None \<Rightarrow>
          (case fn_encode_input (cc_function call) (cc_args call) of
             Err e \<Rightarrow> ([], Some (Err (EncodingError e)))
           | Panic \<Rightarrow> ([], Some Panic)
           | Ok call_data \<Rightarrow>
               (case cache (cc_address call) call_data (cc_block_ptr call) of
                  Ok (Some output) \<Rightarrow> ([], Some (decode_call_output (cc_function call) output))
                | Panic \<Rightarrow> ([], Some Panic)
                | _ \<Rightarrow>
                    (case eth_adapter_call lib c (cc_address call) call_data (cc_block_ptr call) of
                       Some (Ok output) \<Rightarrow>
                         ([SetCall (cc_address call) call_data (cc_block_ptr call) output],
                          Some (decode_call_output (cc_function call) output))
                     | Some (Err e) \<Rightarrow> ([], Some (Err e))
                     | Some Panic \<Rightarrow> ([], Some Panic)
                     | None \<Rightarrow> ([], None)))))"

section \<open>Blocks\<close>

text \<open>
  The methods of the trait \<open>ChainStore\<close> that the adapter calls; an error of \<open>blocks\<close> and of the
  writes is only logged.
\<close>

record chain_store =
  cs_block_hashes_by_block_number :: "u64 \<Rightarrow> (h256 list, string) result"
  cs_blocks :: "h256 list \<Rightarrow> (light_block list, string) result"

datatype chain_write = ConfirmBlockHash u64 h256 | UpsertLightBlocks "light_block list"

datatype adapter_error = BlockUnavailable h256 | UnknownError string

text \<open>\<open>block.ok_or_else(...)\<close> on the result of a request for a block.\<close>

fun found_block :: "('e \<Rightarrow> string) \<Rightarrow> string \<Rightarrow> ('b option, 'e) result \<Rightarrow> ('b, string) result" where
  "found_block show_err msg (Ok (Some b)) = Ok b"
| "found_block show_err msg (Ok None) = Err msg"
| "found_block show_err msg (Err e) = Err (show_err e)"
| "found_block show_err msg Panic = Panic"

text \<open>The futures of a stream that is collected in order.\<close>

fun fut_map :: "('a \<Rightarrow> ('b, 'e) future) \<Rightarrow> 'a list \<Rightarrow> ('b list, 'e) future" where
  "fut_map f [] = Some (Ok [])"
| "fut_map f (x # xs) = fut_then (f x) (\<lambda>y. fut_then (fut_map f xs) (\<lambda>ys. Some (Ok (y # ys))))"

definition load_blocks_rpc :: "eth_client \<Rightarrow> h256 list \<Rightarrow> (light_block list, string) future" where
  "load_blocks_rpc c ids =
     fut_map (\<lambda>h. map_option (timed_out id ''Timeout elapsed'')
       (run_retry RetryOnError (Some (REQUEST_RETRIES c))
          (\<lambda>i. attempt_then (w3_block_with_txs (ec_web3 c) (ByHash h) i)
                 (found_block (w3_show (ec_web3 c)) ''Ethereum node did not find block'')))) ids"

definition load_block_ptrs_rpc :: "eth_client \<Rightarrow> u64 list \<Rightarrow> (block_pointer list, string) future" where
  "load_block_ptrs_rpc c block_nums =
     fut_map (\<lambda>n. fut_then
       (map_option (timed_out id ''Timeout elapsed'')
          (run_retry RetryOnError None
             (\<lambda>i. attempt_then (w3_block (ec_web3 c) (ByNumber n) i)
                    (found_block (w3_show (ec_web3 c)) ''Ethereum node did not find block''))))
       (\<lambda>b. Some (ptr_of_block b))) block_nums"

definition net_identifiers :: "eth_client \<Rightarrow> (string \<times> h256, string) future" where
  "net_identifiers c =
     (let w = ec_web3 c; late = ''Ethereum node took too long to read network identifiers'' in
      fut_then (map_option (timed_out (w3_show w) late) (run_retry RetryOnError None (w3_net_version w))) (\<lambda>version.
      fut_then (map_option (timed_out id late)
          (run_retry RetryOnError None
             (\<lambda>i. attempt_then (w3_block w (ByNumber 0) i) (\<lambda>r.
                case r of
                  Ok b \<Rightarrow> (case Option.bind b bl_hash of
                            Some h \<Rightarrow> Ok h | None \<Rightarrow> Err ''Ethereum node could not find genesis block'')
                | Err e \<Rightarrow> Err (w3_show w e)
                | Panic \<Rightarrow> Panic)))) (\<lambda>genesis.
      Some (Ok (version, genesis)))))"

definition latest_block_of ::
  "eth_client \<Rightarrow> (nat \<Rightarrow> (light_block option, web3_error timeout_error) result) \<Rightarrow> (light_block, adapter_error) future" where
  "latest_block_of c request =
     map_option (timed_out UnknownError (UnknownError ''Ethereum node took too long to return latest block''))
       (run_retry RetryOnError None
          (\<lambda>i. attempt_then (request i)
             (found_block (\<lambda>e. ''could not get latest block from Ethereum: '' @ w3_show (ec_web3 c) e)
                ''no latest block returned from Ethereum'')))"

definition latest_block_header :: "eth_client \<Rightarrow> (light_block, adapter_error) future" where
  "latest_block_header c = latest_block_of c (w3_block (ec_web3 c) LatestBlock)"

definition latest_block :: "eth_client \<Rightarrow> (light_block, adapter_error) future" where
  "latest_block c = latest_block_of c (w3_block_with_txs (ec_web3 c) LatestBlock)"

definition block_by_hash :: "eth_client \<Rightarrow> h256 \<Rightarrow> (light_block option, string) future" where
  "block_by_hash c h =
     map_option (timed_out (w3_show (ec_web3 c)) ''Ethereum node took too long to return block'')
       (run_retry RetryOnError (Some (REQUEST_RETRIES c)) (w3_block_with_txs (ec_web3 c) (ByHash h)))"

definition load_block :: "eth_client \<Rightarrow> h256 \<Rightarrow> (light_block, string) future" where
  "load_block c h =
     fut_then (block_by_hash c h) (\<lambda>b.
       Some (case b of Some b \<Rightarrow> Ok b | None \<Rightarrow> Err ''Ethereum node could not find block with hash''))"

definition block_by_number :: "eth_client \<Rightarrow> u64 \<Rightarrow> (light_block option, string) future" where
  "block_by_number c n =
     map_option (timed_out (w3_show (ec_web3 c)) ''Ethereum node took too long to return block'')
       (run_retry RetryOnError None (w3_block_with_txs (ec_web3 c) (ByNumber n)))"

text \<open>A receipt counts only if it names the block that is loaded.\<close>

fun checked_receipt ::
  "web3 \<Rightarrow> h256 \<Rightarrow> (transaction_receipt option, web3_error) result \<Rightarrow> (transaction_receipt, adapter_error) result" where
  "checked_receipt w block_hash (Ok (Some receipt)) =
     (case rc_block_hash receipt of
        Some h \<Rightarrow> if h \<noteq> block_hash then Err (BlockUnavailable block_hash) else Ok receipt
      | None \<Rightarrow> Err (BlockUnavailable block_hash))"
| "checked_receipt w block_hash (Ok None) = Err (BlockUnavailable block_hash)"
| "checked_receipt w block_hash (Err e) = Err (UnknownError (w3_show w e))"
| "checked_receipt w block_hash Panic = Panic"

definition load_full_block :: "eth_client \<Rightarrow> light_block \<Rightarrow> (eth_block, adapter_error) future" where
  "load_full_block c b =
     (case bl_hash b of
        None \<Rightarrow> Some Panic
      | Some block_hash \<Rightarrow>
          if bl_transactions b = [] then Some (Ok \<lparr>eb_block = b, eb_transaction_receipts = []\<rparr>)
          else map_option (timed_out id (UnknownError ''Ethereum node took too long to return receipts''))
            (run_retry RetryOnError (Some 16) (\<lambda>i.
               attempt_then (w3_submit_batch (ec_web3 c) (map tx_hash (bl_transactions b)) i) (\<lambda>r.
                 case r of
                   Ok _ \<Rightarrow>
                     and_then (try_map (\<lambda>tx. checked_receipt (ec_web3 c) block_hash
                                  (w3_transaction_receipt (ec_web3 c) (tx_hash tx) i)) (bl_transactions b))
                       (\<lambda>receipts. Ok \<lparr>eb_block = b, eb_transaction_receipts = receipts\<rparr>)
                 | Err e \<Rightarrow> Err (UnknownError (w3_show (ec_web3 c) e))
                 | Panic \<Rightarrow> Panic))))"

text \<open>The closure \<open>confirm_block_hash\<close>: the hash found for a final block displaces its ommers.\<close>

definition confirm_block_hash :: "nat \<Rightarrow> bool \<Rightarrow> u64 \<Rightarrow> h256 option \<Rightarrow> chain_write list" where
  "confirm_block_hash num_hashes block_is_final n hash_opt =
     (case hash_opt of
        Some h \<Rightarrow> if block_is_final \<and> num_hashes > 1 then [ConfirmBlockHash n h] else []
      | None \<Rightarrow> [])"

definition adapter_hash_by_number :: "eth_client \<Rightarrow> chain_store \<Rightarrow> u64 \<Rightarrow> bool \<Rightarrow> chain_write list \<times> (h256 option, string) future" where
  "adapter_hash_by_number c store n block_is_final =
     (case cs_block_hashes_by_block_number store n of
        Err e \<Rightarrow> ([], Some (Err e))
      | Panic \<Rightarrow> ([], Some Panic)
      | Ok hashes \<Rightarrow>
          if length hashes = 1 then ([], Some (Ok (Some (last hashes))))
          else
            (let r = map_option (timed_out (w3_show (ec_web3 c)) ''Ethereum node took too long to return data for block'')
                   (run_retry RetryOnError None (w3_block (ec_web3 c) (ByNumber n)))
             in case r of
                  Some (Ok block_opt) \<Rightarrow>
                    (confirm_block_hash (length hashes) block_is_final n (Option.bind block_opt bl_hash),
                     Some (Ok (Option.bind block_opt bl_hash)))
                | Some (Err e) \<Rightarrow> ([], Some (Err e))
                | Some Panic \<Rightarrow> ([], Some Panic)
                | None \<Rightarrow> ([], None)))"

definition block_pointer_from_number ::
  "eth_client \<Rightarrow> chain_store \<Rightarrow> u64 \<Rightarrow> chain_write list \<times> (block_pointer, string) future" where
  "block_pointer_from_number c store n =
     (case adapter_hash_by_number c store n False of
        (ws, r) \<Rightarrow> (ws, fut_then r (\<lambda>h.
          Some (case h of
                  Some h \<Rightarrow> Ok (BlockPtr h n)
                | None \<Rightarrow> Err ''Ethereum node could not find start block hash by block number''))))"

definition on_main_chain ::
  "eth_client \<Rightarrow> chain_store \<Rightarrow> block_pointer \<Rightarrow> chain_write list \<times> (bool, string) future" where
  "on_main_chain c store ptr =
     (case adapter_hash_by_number c store (ptr_number ptr) True of
        (ws, r) \<Rightarrow> (ws, fut_then r (\<lambda>h.
          Some (case h of
                  Some h \<Rightarrow> Ok (h = ptr_hash ptr)
                | None \<Rightarrow> Err ''Ethereum node is missing block''))))"

definition uncles :: "eth_client \<Rightarrow> light_block \<Rightarrow> (light_block option list, string) future" where
  "uncles c b =
     (case bl_hash b of
        None \<Rightarrow> Some (Err ''could not get uncle for block because block has null hash'')
      | Some h \<Rightarrow>
          fut_map (\<lambda>index. map_option (timed_out (w3_show (ec_web3 c)) ''Ethereum node took too long to return uncle'')
            (run_retry RetryOnError None (w3_uncle (ec_web3 c) h index))) [0..<length (bl_uncles b)])"

section \<open>Ranges of blocks\<close>

definition block_calls :: "eth_client \<Rightarrow> u64 \<Rightarrow> h256 \<Rightarrow> (eth_call list, string) future" where
  "block_calls c n block_hash =
     fut_then (trace_stream c n n []) (\<lambda>ts.
       case ts of
         [] \<Rightarrow> Some (Err ''Trace stream returned no traces for block'')
       | t # _ \<Rightarrow>
           if tr_block_hash t \<noteq> block_hash then Some (Err ''Trace stream returned traces for an unexpected block'')
           else Some (Ok (List.map_filter try_from_trace ts)))"

text \<open>The iteration orders of hash maps and hash sets: of the graph and the events of a log filter, of
  addresses and of hashes.\<close>

record iter_orders =
  io_nodes :: "log_filter_node list \<Rightarrow> log_filter_node list"
  io_events :: "h256 set \<Rightarrow> h256 list"
  io_addresses :: "address set \<Rightarrow> address list"
  io_hashes :: "h256 set \<Rightarrow> h256 list"

definition range_logs :: "iter_orders \<Rightarrow> eth_client \<Rightarrow> u64 \<Rightarrow> u64 \<Rightarrow> log_filter \<Rightarrow> (eth_log list, string) future" where
  "range_logs ord c from to lf =
     (case eth_get_logs_filters (io_nodes ord) (io_events ord) lf of
        Some (Ok fs) \<Rightarrow> fut_then (fut_map (log_stream c from to) fs) (\<lambda>ls. Some (Ok (concat ls)))
      | Some _ \<Rightarrow> Some Panic
      | None \<Rightarrow> None)"

definition range_addresses :: "iter_orders \<Rightarrow> call_filter \<Rightarrow> u64 \<Rightarrow> address list" where
  "range_addresses ord cf to = io_addresses ord (set (map fst (filter (\<lambda>(addr, (start_block, _)). start_block \<le> to) cf)))"

definition range_calls :: "iter_orders \<Rightarrow> eth_client \<Rightarrow> u64 \<Rightarrow> u64 \<Rightarrow> call_filter \<Rightarrow> (eth_call list, string) future" where
  "range_calls ord c from to cf =
     fut_then (trace_stream c from to (range_addresses ord cf to)) (\<lambda>ts.
       Some (try_filter (call_filter_matches cf) (List.map_filter try_from_trace ts)))"

definition range_ptrs :: "eth_client \<Rightarrow> u64 \<Rightarrow> u64 \<Rightarrow> (block_pointer list, string) future" where
  "range_ptrs c from to = load_block_ptrs_rpc c (map of_nat [unat from..<unat to + 1])"

definition number_key :: "light_block \<Rightarrow> nat" where
  "number_key b = (case bl_number b of None \<Rightarrow> 0 | Some n \<Rightarrow> unat n + 1)"

definition bulk_blocks ::
  "iter_orders \<Rightarrow> eth_client \<Rightarrow> chain_store \<Rightarrow> h256 set \<Rightarrow> chain_write list \<times> (light_block list, string) future" where
  "bulk_blocks ord c store block_hashes =
     (let hashes = io_hashes ord block_hashes in
      case cs_blocks store hashes of
        Panic \<Rightarrow> ([], Some Panic)
      | cached \<Rightarrow>
          (let blocks = (case cached of Ok bs \<Rightarrow> bs | _ \<Rightarrow> []);
               missing = filter (\<lambda>h. \<not> list_ex (\<lambda>b. bl_hash b = Some h) blocks) hashes
           in case load_blocks_rpc c missing of
                Some (Ok new_blocks) \<Rightarrow>
                  ([UpsertLightBlocks new_blocks], Some (Ok (sort_key number_key (blocks @ new_blocks))))
              | r \<Rightarrow> ([], r)))"

text \<open>
  The adapter as a provider of the trait. The record of its methods has no value for a future that
  never completes; such a future is taken for a panic here, and does not occur over a node that
  answers.
\<close>

fun completed :: "('a, 'e) future \<Rightarrow> ('a, 'e) result" where
  "completed (Some r) = r"
| "completed None = Panic"

definition adapter_of :: "iter_orders \<Rightarrow> eth_client \<Rightarrow> chain_store \<Rightarrow> eth_adapter" where
  "adapter_of ord c store = \<lparr>
     logs_in_block_range = (\<lambda>from to lf. completed (range_logs ord c from to lf)),
     calls_in_block_range = (\<lambda>from to cf. completed (range_calls ord c from to cf)),
     block_range_to_ptrs = (\<lambda>from to. completed (range_ptrs c from to)),
     block_hash_by_block_number = (\<lambda>n. completed (snd (adapter_hash_by_number c store n True))),
     load_blocks = (\<lambda>hs. completed (snd (bulk_blocks ord c store hs))),
     is_on_main_chain = (\<lambda>p. completed (snd (on_main_chain c store p))),
     calls_in_block = (\<lambda>n h. completed (block_calls c n h)) \<rparr>"

section \<open>A node with a final chain\<close>

text \<open>The items of the blocks from \<open>a\<close> up to, but not including, \<open>b\<close>.\<close>

definition between :: "(u64 \<Rightarrow> 'a list) \<Rightarrow> nat \<Rightarrow> nat \<Rightarrow> 'a list" where
  "between g a b = concat (map (\<lambda>n. g (of_nat n)) [a..<b])"

lemma between_append: "a \<le> b \<Longrightarrow> b \<le> d \<Longrightarrow> between g a b @ between g b d = between g a d"
  unfolding between_def by (metis concat_append map_append upt_add_eq_append le_add_diff_inverse)

lemma between_empty [simp]: "b \<le> a \<Longrightarrow> between g a b = []"
  by (simp add: between_def)

lemma set_between: "b \<le> 2 ^ 64 \<Longrightarrow> x \<in> set (between g a b) \<longleftrightarrow> (\<exists>n. a \<le> unat n \<and> unat n < b \<and> x \<in> set (g n))"
  unfolding between_def
proof (safe, goal_cases)
  case 1
  then obtain k where "a \<le> k" "k < b" "x \<in> set (g (of_nat k))" by auto
  then show ?case using 1(1) by (intro exI [of _ "of_nat k"]) (simp add: unat_of_nat take_bit_nat_eq_self)
next
  case (2 n)
  then show ?case by (auto intro!: bexI [of _ "unat n"])
qed

lemma set_between_range: "x \<in> set (between g (unat a) (Suc (unat b))) \<longleftrightarrow> (\<exists>n. a \<le> n \<and> n \<le> b \<and> x \<in> set (g n))"
proof -
  have "Suc (unat b) \<le> 2 ^ 64" using unsigned_less [of b, where 'a = nat] by (simp del: unsigned_less)
  then show ?thesis by (simp add: set_between word_le_nat_alt less_Suc_eq_le)
qed

lemma map_filter_between: "List.map_filter h (between g a b) = between (\<lambda>n. List.map_filter h (g n)) a b"
  by (simp add: between_def map_filter_def filter_concat map_concat comp_def)

fun trace_to :: "address list option \<Rightarrow> trace \<Rightarrow> bool" where
  "trace_to None t = True"
| "trace_to (Some as) t = (case tr_action t of ActionCall a \<Rightarrow> ca_to a \<in> set as | ActionOther \<Rightarrow> False)"

locale web3_node =
  fixes ord :: iter_orders and c :: eth_client and store :: chain_store
    and chain :: "u64 \<Rightarrow> light_block" and limit :: u64
    and node_logs :: "u64 \<Rightarrow> eth_log list" and node_traces :: "u64 \<Rightarrow> trace list"
  assumes iter_nodes: "set (io_nodes ord ns) = set ns"
    and iter_events: "finite X \<Longrightarrow> set (io_events ord X) = X"
    and iter_addresses: "finite Y \<Longrightarrow> set (io_addresses ord Y) = Y"
    and iter_hashes: "finite Z \<Longrightarrow> set (io_hashes ord Z) = Z \<and> distinct (io_hashes ord Z)"
    and number: "bl_number (chain n) = Some n"
    and hash: "\<exists>h. bl_hash (chain n) = Some h"
    and hash_inj: "bl_hash (chain n) = bl_hash (chain m) \<Longrightarrow> n = m"
    and limit_small: "unat limit < 2 ^ 63"
    and step_small: "unat (TRACE_STREAM_STEP_SIZE c) < 2 ^ 63"
    and log_of: "l \<in> set (node_logs n) \<Longrightarrow> log_block_number l = Some n \<and> log_block_hash l = bl_hash (chain n)"
    and logs_ordered: "block_logs (map LogTrigger (node_logs n))"
    and trace_of: "t \<in> set (node_traces n) \<Longrightarrow> tr_block_number t = n \<and> Some (tr_block_hash t) = bl_hash (chain n)"
    and logs_answer: "a \<le> b \<Longrightarrow> b \<le> limit \<Longrightarrow> \<exists>i < unat (REQUEST_RETRIES c).
      (\<forall>j < i. needs_retry (logs_retry (ec_web3 c)) (w3_logs (ec_web3 c) a b f j))
      \<and> (w3_logs (ec_web3 c) a b f i =
           Ok (between (\<lambda>n. filter (get_logs_returns f) (node_logs n)) (unat a) (unat b + 1))
         \<or> a < b \<and> (\<exists>e. w3_logs (ec_web3 c) a b f i = Err (Inner e)
             \<and> too_many_logs (w3_show (ec_web3 c) e) \<and> too_many_logs (w3_debug (ec_web3 c) e)))"
    and traces_answer: "a \<le> b \<Longrightarrow> b \<le> limit \<Longrightarrow> \<exists>i < unat (REQUEST_RETRIES c).
      (\<forall>j < i. \<exists>e. w3_trace_filter (ec_web3 c) a b as j = Err e)
      \<and> w3_trace_filter (ec_web3 c) a b as i =
          Ok (between (\<lambda>n. filter (trace_to as) (node_traces n)) (unat a) (unat b + 1))"
    and block_answer: "n \<le> limit \<Longrightarrow> bl_hash (chain n) = Some h \<Longrightarrow> \<exists>i < unat (REQUEST_RETRIES c).
      (\<forall>j < i. w3_block_with_txs (ec_web3 c) (ByHash h) j = Ok None
        \<or> (\<exists>e. w3_block_with_txs (ec_web3 c) (ByHash h) j = Err e))
      \<and> w3_block_with_txs (ec_web3 c) (ByHash h) i = Ok (Some (chain n))"
    and header_answer: "n \<le> limit \<Longrightarrow> \<exists>i b. (\<forall>j < i. \<exists>e. w3_block (ec_web3 c) (ByNumber n) j = Err e)
      \<and> w3_block (ec_web3 c) (ByNumber n) i = Ok (Some b) \<and> bl_hash b = bl_hash (chain n) \<and> bl_number b = Some n"
    and store_hashes: "n \<le> limit \<Longrightarrow> \<exists>hs. cs_block_hashes_by_block_number store n = Ok hs
      \<and> (length hs = 1 \<longrightarrow> Some (last hs) = bl_hash (chain n))"
    and store_blocks: "cs_blocks store hs \<noteq> Panic"
      "cs_blocks store hs = Ok bs \<Longrightarrow> distinct bs \<and> set bs \<subseteq> {chain n | n. \<exists>h \<in> set hs. bl_hash (chain n) = Some h}"

lemma needs_retry_Err: "needs_retry RetryOnError (Err e)"
  by (cases e) simp_all

lemma fut_map_ok: "(\<And>x. x \<in> set xs \<Longrightarrow> f x = Some (Ok (g x))) \<Longrightarrow> fut_map f xs = Some (Ok (map g xs))"
  by (induction xs) auto

lemma try_filter_pure: "(\<And>x. x \<in> set xs \<Longrightarrow> p x = Ok (q x)) \<Longrightarrow> try_filter p xs = Ok (filter q xs)"
  by (induction xs) auto

text \<open>A call is requested when its contract has started, or no contract of the filter has.\<close>

definition call_requested :: "call_filter \<Rightarrow> u64 \<Rightarrow> eth_call \<Rightarrow> bool" where
  "call_requested cf to x \<longleftrightarrow>
     (\<exists>start_block sigs. (call_to x, (start_block, sigs)) \<in> set cf \<and> start_block \<le> to) \<or>
     (\<forall>(addr, (start_block, sigs)) \<in> set cf. to < start_block)"

context web3_node
begin

lemma logs_with_sigs_ok:
  assumes "a \<le> b" and "b \<le> limit"
  shows "logs_with_sigs c a b f = Some (Ok (between (\<lambda>n. filter (get_logs_returns f) (node_logs n)) (unat a) (unat b + 1)))
    \<or> a < b \<and> (\<exists>e. logs_with_sigs c a b f = Some (Err e) \<and> too_many_logs (timeout_error_string (ec_web3 c) e))"
proof -
  obtain i where i: "i < unat (REQUEST_RETRIES c)"
      "\<forall>j < i. needs_retry (logs_retry (ec_web3 c)) (w3_logs (ec_web3 c) a b f j)"
    and out: "w3_logs (ec_web3 c) a b f i =
           Ok (between (\<lambda>n. filter (get_logs_returns f) (node_logs n)) (unat a) (unat b + 1))
         \<or> a < b \<and> (\<exists>e. w3_logs (ec_web3 c) a b f i = Err (Inner e)
             \<and> too_many_logs (w3_show (ec_web3 c) e) \<and> too_many_logs (w3_debug (ec_web3 c) e))"
    using logs_answer [OF assms, of f] by blast
  have "\<not> needs_retry (logs_retry (ec_web3 c)) (w3_logs (ec_web3 c) a b f i)"
    using out by (auto simp: logs_retry_def)
  then have "logs_with_sigs c a b f = Some (w3_logs (ec_web3 c) a b f i)"
    using i unfolding logs_with_sigs_def by (intro run_retry_first) auto
  then show ?thesis using out by auto
qed

text \<open>However the range is cut down, the stream delivers the logs of every block once and in order.\<close>

lemma log_stream_loop_ok:
  assumes "to \<le> limit" and "unat start \<le> unat to + 1" and "unat step < 2 ^ 63"
  shows "log_stream_loop c f to start step acc =
    Some (Ok (acc @ between (\<lambda>n. filter (get_logs_returns f) (node_logs n)) (unat start) (unat to + 1)))"
  using assms(2,3)
proof (induction "(unat to + 1 - unat start) * 2 ^ 64 + unat step" arbitrary: start step acc rule: less_induct)
  case less
  let ?g = "\<lambda>n. filter (get_logs_returns f) (node_logs n)"
  have to: "unat to < 2 ^ 63" using assms(1) limit_small by (simp add: word_le_nat_alt)
  show ?case
  proof (cases "start > to")
    case True
    then show ?thesis by (subst log_stream_loop.simps) (simp add: word_less_nat_alt)
  next
    case False
    define last where "last = min (start + step) to"
    have sum: "unat (start + step) = unat start + unat step"
      using False to less.prems(2) by (simp add: unat_word_ariths word_less_nat_alt)
    then have last: "unat last = min (unat start + unat step) (unat to)"
      by (simp add: last_def min_def word_le_nat_alt)
    have range: "start \<le> last" "last \<le> limit"
      using False assms(1) last by (auto simp: word_le_nat_alt word_less_nat_alt)
    have last1: "unat (last + 1) = unat last + 1" using last to by (simp add: unat_word_ariths)
    consider (ok) "logs_with_sigs c start last f = Some (Ok (between ?g (unat start) (unat last + 1)))"
      | (heavy) e where "start < last" "logs_with_sigs c start last f = Some (Err e)"
          "too_many_logs (timeout_error_string (ec_web3 c) e)"
      using logs_with_sigs_ok [OF range, of f] by blast
    then show ?thesis
    proof cases
      case ok
      have "(unat to + 1 - unat (last + 1)) * 2 ^ 64 + unat step < (unat to + 1 - unat start) * 2 ^ 64 + unat step"
        using last1 last False by (simp add: word_less_nat_alt)
      then have "log_stream_loop c f to (last + 1) step (acc @ between ?g (unat start) (unat last + 1)) =
          Some (Ok ((acc @ between ?g (unat start) (unat last + 1)) @ between ?g (unat (last + 1)) (unat to + 1)))"
        using less.prems last1 last by (intro less.hyps) auto
      moreover have "between ?g (unat start) (unat last + 1) @ between ?g (unat (last + 1)) (unat to + 1) =
          between ?g (unat start) (unat to + 1)"
        unfolding last1 by (rule between_append) (use last False in \<open>auto simp: word_less_nat_alt\<close>)
      ultimately show ?thesis
        using False ok by (subst log_stream_loop.simps) (simp add: last_def [symmetric])
    next
      case heavy
      then have "step > 0" using last by (cases "step = 0") (auto simp: word_less_nat_alt word_gt_0)
      then have "unat (step div 10) < unat step" by (simp add: unat_div word_gt_0 unat_gt_0)
      then have "log_stream_loop c f to start (step div 10) acc =
          Some (Ok (acc @ between ?g (unat start) (unat to + 1)))"
        using less.prems by (intro less.hyps) auto
      then show ?thesis
        using False heavy \<open>step > 0\<close> by (subst log_stream_loop.simps) (simp add: last_def [symmetric])
    qed
  qed
qed

lemma log_stream_ok:
  assumes "from \<le> to" and "to \<le> limit"
  shows "log_stream c from to f =
    Some (Ok (between (\<lambda>n. filter (get_logs_returns f) (node_logs n)) (unat from) (unat to + 1)))"
proof -
  have "unat (to - from) \<le> unat to" using assms(1) by (simp add: unat_sub_if_size word_le_nat_alt)
  moreover have "unat (log_step c from to f) \<le> unat (to - from)"
    by (simp add: log_step_def word_le_nat_alt [symmetric])
  moreover have "unat to < 2 ^ 63" using assms(2) limit_small by (simp add: word_le_nat_alt)
  ultimately have "unat (log_step c from to f) < 2 ^ 63" by simp
  then show ?thesis
    using assms log_stream_loop_ok [of to "from" "log_step c from to f" f "[]"]
    by (simp add: log_stream_def word_le_nat_alt word_less_nat_alt)
qed

lemma range_logs_ok:
  assumes "from \<le> to" and "to \<le> limit" and "log_filter_wf lf"
  shows "\<exists>ls. range_logs ord c from to lf = Some (Ok ls)
    \<and> (\<forall>l. l \<in> set ls \<longleftrightarrow> (\<exists>n. from \<le> n \<and> n \<le> to \<and> l \<in> set (node_logs n) \<and> log_filter_matches lf l))"
proof -
  let ?g = "\<lambda>f n. filter (get_logs_returns f) (node_logs n)"
  obtain fs where fs: "eth_get_logs_filters (io_nodes ord) (io_events ord) lf = Some (Ok fs)"
      "\<forall>lg. (\<exists>g \<in> set fs. get_logs_returns g lg) \<longleftrightarrow> log_filter_matches lf lg"
    using get_logs_filters_ok [OF assms(3), of "io_nodes ord" "io_events ord"] iter_nodes iter_events by blast
  let ?ls = "concat (map (\<lambda>f. between (?g f) (unat from) (unat to + 1)) fs)"
  have "fut_map (log_stream c from to) fs = Some (Ok (map (\<lambda>f. between (?g f) (unat from) (unat to + 1)) fs))"
    using log_stream_ok [OF assms(1,2)] by (intro fut_map_ok)
  then have "range_logs ord c from to lf = Some (Ok ?ls)" by (simp add: range_logs_def fs(1))
  moreover have "l \<in> set ?ls \<longleftrightarrow> (\<exists>n. from \<le> n \<and> n \<le> to \<and> l \<in> set (node_logs n) \<and> log_filter_matches lf l)" for l
    unfolding fs(2) [rule_format, symmetric] by (auto simp: set_between_range)
  ultimately show ?thesis by blast
qed

lemma traces_ok:
  assumes "a \<le> b" and "b \<le> limit"
  shows "traces c a b addresses = Some (Ok (between (\<lambda>n. filter (trace_to (if addresses = [] then None else Some addresses))
    (node_traces n)) (unat a) (unat b + 1)))"
proof -
  let ?as = "if addresses = [] then None else Some addresses"
  obtain i where i: "i < unat (REQUEST_RETRIES c)" "\<forall>j < i. \<exists>e. w3_trace_filter (ec_web3 c) a b ?as j = Err e"
      "w3_trace_filter (ec_web3 c) a b ?as i = Ok (between (\<lambda>n. filter (trace_to ?as) (node_traces n)) (unat a) (unat b + 1))"
    using traces_answer [OF assms, of ?as] by blast
  then have "run_retry RetryOnError (Some (REQUEST_RETRIES c)) (w3_trace_filter (ec_web3 c) a b ?as) =
      Some (w3_trace_filter (ec_web3 c) a b ?as i)"
    by (intro run_retry_first) (auto simp: needs_retry_Err)
  then show ?thesis using i(3) by (simp add: traces_def)
qed

lemma trace_step_bounds: "1 \<le> unat (trace_step_size c addresses)" "unat (trace_step_size c addresses) < 2 ^ 63"
proof -
  have "unat (TRACE_STREAM_STEP_SIZE c div 4) \<le> unat (TRACE_STREAM_STEP_SIZE c)" by (simp add: unat_div)
  then show "1 \<le> unat (trace_step_size c addresses)" "unat (trace_step_size c addresses) < 2 ^ 63"
    using step_small by (auto simp: trace_step_size_def max_def word_le_nat_alt)
qed

lemma trace_stream_loop_ok:
  assumes "to \<le> limit" and "unat start \<le> unat to + 1"
  shows "trace_stream_loop c addresses to start acc = Some (Ok (acc @
    between (\<lambda>n. filter (trace_to (if addresses = [] then None else Some addresses)) (node_traces n)) (unat start) (unat to + 1)))"
  using assms(2)
proof (induction "unat to + 1 - unat start" arbitrary: start acc rule: less_induct)
  case less
  let ?g = "\<lambda>n. filter (trace_to (if addresses = [] then None else Some addresses)) (node_traces n)"
  have to: "unat to < 2 ^ 63" using assms(1) limit_small by (simp add: word_le_nat_alt)
  show ?case
  proof (cases "start > to")
    case True
    then show ?thesis by (subst trace_stream_loop.simps) (simp add: word_less_nat_alt)
  next
    case False
    define last where "last = min (start + trace_step_size c addresses - 1) to"
    have "unat (start + trace_step_size c addresses) = unat start + unat (trace_step_size c addresses)"
      using False to trace_step_bounds [of addresses] by (simp add: unat_word_ariths word_less_nat_alt)
    moreover from this have "start + trace_step_size c addresses \<noteq> 0"
      using trace_step_bounds(1) [of addresses] by (auto simp: unat_eq_0 [symmetric])
    ultimately have "unat (start + trace_step_size c addresses - 1) = unat start + unat (trace_step_size c addresses) - 1"
      by (simp add: unat_minus_one)
    then have last: "unat last = min (unat start + unat (trace_step_size c addresses) - 1) (unat to)"
      by (simp add: last_def min_def word_le_nat_alt)
    have le: "unat start \<le> unat last" "unat last \<le> unat to"
      using False last trace_step_bounds(1) [of addresses] by (auto simp: word_less_nat_alt)
    have last1: "unat (last + 1) = unat last + 1" using le to by (simp add: unat_word_ariths)
    have "traces c start last addresses = Some (Ok (between ?g (unat start) (unat last + 1)))"
      by (rule traces_ok) (use le assms(1) in \<open>auto simp: word_le_nat_alt\<close>)
    moreover have "trace_stream_loop c addresses to (last + 1) (acc @ between ?g (unat start) (unat last + 1)) =
        Some (Ok ((acc @ between ?g (unat start) (unat last + 1)) @ between ?g (unat (last + 1)) (unat to + 1)))"
      using le last1 by (intro less.hyps) auto
    moreover have "between ?g (unat start) (unat last + 1) @ between ?g (unat (last + 1)) (unat to + 1) =
        between ?g (unat start) (unat to + 1)"
      unfolding last1 by (rule between_append) (use le in auto)
    ultimately show ?thesis
      using False by (subst trace_stream_loop.simps) (simp add: last_def [symmetric])
  qed
qed

lemma trace_stream_ok:
  assumes "from \<le> to" and "to \<le> limit"
  shows "trace_stream c from to addresses = Some (Ok (between (\<lambda>n. filter (trace_to (if addresses = [] then None else Some addresses))
    (node_traces n)) (unat from) (unat to + 1)))"
  using assms trace_stream_loop_ok [of to "from" addresses "[]"] by (simp add: trace_stream_def word_le_nat_alt word_less_nat_alt)

lemma header_ok:
  assumes "n \<le> limit"
  obtains b where "run_retry RetryOnError None (w3_block (ec_web3 c) (ByNumber n)) = Some (Ok (Some b))"
    and "run_retry RetryOnError None (\<lambda>i. attempt_then (w3_block (ec_web3 c) (ByNumber n) i) (found_block s m)) = Some (Ok b)"
    and "bl_hash b = bl_hash (chain n)" and "bl_number b = Some n"
proof -
  let ?r = "w3_block (ec_web3 c) (ByNumber n)"
  obtain i b where i: "\<forall>j < i. \<exists>e. ?r j = Err e" "?r i = Ok (Some b)"
      and b: "bl_hash b = bl_hash (chain n)" "bl_number b = Some n"
    using header_answer [OF assms] by blast
  have "run_retry RetryOnError None ?r = Some (?r i)"
    using i by (intro run_retry_first) (auto simp: needs_retry_Err)
  moreover have "needs_retry RetryOnError (attempt_then (Err e) (found_block s m))" for e
    by (cases e) simp_all
  then have "run_retry RetryOnError None (\<lambda>i. attempt_then (?r i) (found_block s m)) = Some (attempt_then (?r i) (found_block s m))"
    using i by (intro run_retry_first) fastforce+
  ultimately show thesis using i(2) b that by simp
qed

lemma call_of_trace:
  assumes "t \<in> set (node_traces n)" and "try_from_trace t = Some x"
  shows "call_block_number x = n" and "Some (call_block_hash x) = bl_hash (chain n)" and "4 \<le> length (call_input x)"
  using trace_of [OF assms(1)] assms(2)
  by (auto simp: try_from_trace_def split: if_splits trace_action.splits option.splits trace_result.splits)

lemma range_calls_ok:
  assumes "from \<le> to" and "to \<le> limit"
  shows "\<exists>cs. range_calls ord c from to cf = Some (Ok cs)
    \<and> (\<forall>x. x \<in> set cs \<longleftrightarrow> (\<exists>n t. from \<le> n \<and> n \<le> to \<and> t \<in> set (node_traces n) \<and> try_from_trace t = Some x
        \<and> trace_to (if range_addresses ord cf to = [] then None else Some (range_addresses ord cf to)) t
        \<and> call_filter_matches cf x = (Ok True :: (_, string) result)))"
proof -
  let ?p = "trace_to (if range_addresses ord cf to = [] then None else Some (range_addresses ord cf to))"
  let ?xs = "List.map_filter try_from_trace (between (\<lambda>n. filter ?p (node_traces n)) (unat from) (unat to + 1))"
  let ?q = "\<lambda>x. call_filter_matches cf x = (Ok True :: (_, string) result)"
  have mem: "x \<in> set ?xs \<longleftrightarrow>
      (\<exists>n t. from \<le> n \<and> n \<le> to \<and> t \<in> set (node_traces n) \<and> try_from_trace t = Some x \<and> ?p t)" for x
    unfolding set_map_filter Bex_def Suc_eq_plus1 [symmetric] set_between_range set_filter mem_Collect_eq by blast
  have "call_filter_matches cf x = Ok (?q x)" if x: "x \<in> set ?xs" for x
  proof -
    obtain n t where "t \<in> set (node_traces n)" "try_from_trace t = Some x" using x mem by blast
    then have "4 \<le> length (call_input x)" by (rule call_of_trace(3))
    then show ?thesis by (auto simp: call_filter_matches_def split: option.splits)
  qed
  then have "try_filter (call_filter_matches cf) ?xs = Ok (filter ?q ?xs)" by (rule try_filter_pure)
  then have "range_calls ord c from to cf = Some (Ok (filter ?q ?xs))"
    by (simp add: range_calls_def trace_stream_ok [OF assms])
  then show ?thesis unfolding set_filter using mem by (intro exI [of _ "filter ?q ?xs"]) (simp, blast)
qed

text \<open>
  Which calls are requested: those to the contracts that have started. When none has, the list of addresses is
  empty and the node is asked for all calls.
\<close>

lemma range_calls_requested:
  assumes "try_from_trace t = Some x"
  shows "trace_to (if range_addresses ord cf to = [] then None else Some (range_addresses ord cf to)) t \<longleftrightarrow> call_requested cf to x"
proof -
  let ?started = "set (map fst (filter (\<lambda>(addr, (start_block, _)). start_block \<le> to) cf))"
  have started: "set (range_addresses ord cf to) = ?started"
    using iter_addresses [of ?started] by (simp add: range_addresses_def)
  then have "range_addresses ord cf to = [] \<longleftrightarrow> ?started = {}" by (metis set_empty)
  moreover obtain a where "tr_action t = ActionCall a" "ca_to a = call_to x"
    using assms by (auto simp: try_from_trace_def split: if_splits trace_action.splits option.splits trace_result.splits)
  moreover have "call_to x \<in> ?started \<longleftrightarrow> (\<exists>start_block sigs. (call_to x, (start_block, sigs)) \<in> set cf \<and> start_block \<le> to)"
    by force
  moreover have "?started = {} \<longleftrightarrow> (\<forall>(addr, (start_block, sigs)) \<in> set cf. to < start_block)"
    by (auto simp: filter_empty_conv not_le split: prod.splits)
  ultimately show ?thesis
    using started by (cases "range_addresses ord cf to = []") (auto simp: call_requested_def)
qed

lemma range_ptrs_ok:
  assumes "to \<le> limit"
  shows "\<exists>ps. range_ptrs c from to = Some (Ok ps)
    \<and> (\<forall>p \<in> set ps. from \<le> ptr_number p \<and> ptr_number p \<le> to \<and> Some (ptr_hash p) = bl_hash (chain (ptr_number p)))"
proof -
  let ?ns = "map (of_nat :: nat \<Rightarrow> u64) [unat from..<unat to + 1]"
  have ns: "from \<le> n \<and> n \<le> to" if "n \<in> set ?ns" for n
  proof -
    obtain k where k: "n = of_nat k" "unat from \<le> k" "k \<le> unat to" using \<open>n \<in> set ?ns\<close> by auto
    then have "unat n = k" using unsigned_less [of to, where 'a = nat]
      by (simp add: unat_of_nat take_bit_nat_eq_self del: unsigned_less)
    with k show ?thesis by (simp add: word_le_nat_alt)
  qed
  let ?p = "\<lambda>n. BlockPtr (the (bl_hash (chain n))) n"
  have "range_ptrs c from to = Some (Ok (map ?p ?ns))"
    unfolding range_ptrs_def load_block_ptrs_rpc_def
  proof (rule fut_map_ok)
    fix n assume "n \<in> set ?ns"
    then have "n \<le> limit" using ns assms order.trans by blast
    then obtain b where "run_retry RetryOnError None (\<lambda>i. attempt_then (w3_block (ec_web3 c) (ByNumber n) i)
          (found_block (w3_show (ec_web3 c)) ''Ethereum node did not find block'')) = Some (Ok b)"
        "bl_hash b = bl_hash (chain n)" "bl_number b = Some n"
      by (rule header_ok)
    moreover obtain h where "bl_hash (chain n) = Some h" using hash by blast
    ultimately show "fut_then (map_option (timed_out id ''Timeout elapsed'')
        (run_retry RetryOnError None (\<lambda>i. attempt_then (w3_block (ec_web3 c) (ByNumber n) i)
          (found_block (w3_show (ec_web3 c)) ''Ethereum node did not find block''))))
        (\<lambda>b. Some (ptr_of_block b)) = Some (Ok (?p n))"
      by (simp add: ptr_of_block_def)
  qed
  moreover have "Some (the (bl_hash (chain n))) = bl_hash (chain n)" for n using hash [of n] by auto
  ultimately show ?thesis using ns by (intro exI [of _ "map ?p ?ns"]) auto
qed

lemma hash_by_number_ok:
  assumes "n \<le> limit"
  shows "snd (adapter_hash_by_number c store n final) = Some (Ok (bl_hash (chain n)))"
proof -
  obtain hs where hs: "cs_block_hashes_by_block_number store n = Ok hs" "length hs = 1 \<longrightarrow> Some (last hs) = bl_hash (chain n)"
    using store_hashes [OF assms] by blast
  obtain b where "run_retry RetryOnError None (w3_block (ec_web3 c) (ByNumber n)) = Some (Ok (Some b))"
      "bl_hash b = bl_hash (chain n)"
    using header_ok [OF assms] by metis
  then show ?thesis using hs by (auto simp: adapter_hash_by_number_def)
qed

lemma block_retry_ok:
  assumes "i < unat (REQUEST_RETRIES c)" and "\<forall>j < i. w3_block_with_txs (ec_web3 c) (ByHash h) j = Ok None
        \<or> (\<exists>e. w3_block_with_txs (ec_web3 c) (ByHash h) j = Err e)"
    and "w3_block_with_txs (ec_web3 c) (ByHash h) i = Ok (Some b)"
  shows "map_option (timed_out id msg) (run_retry RetryOnError (Some (REQUEST_RETRIES c))
      (\<lambda>i. attempt_then (w3_block_with_txs (ec_web3 c) (ByHash h) i) (found_block s m))) = Some (Ok b)"
proof -
  let ?r = "w3_block_with_txs (ec_web3 c) (ByHash h)"
  have "needs_retry RetryOnError (attempt_then r (found_block s m))" if "r = Ok None \<or> (\<exists>e. r = Err e)" for r
  proof (cases r)
    case (Err e)
    then show ?thesis by (cases e) simp_all
  qed (use that in auto)
  then have "run_retry RetryOnError (Some (REQUEST_RETRIES c)) (\<lambda>i. attempt_then (?r i) (found_block s m)) =
      Some (attempt_then (?r i) (found_block s m))"
    using assms by (intro run_retry_first) auto
  then show ?thesis using assms(3) by simp
qed

lemma load_block_ok:
  assumes "n \<le> limit" and "bl_hash (chain n) = Some h"
  shows "map_option (timed_out id msg) (run_retry RetryOnError (Some (REQUEST_RETRIES c))
      (\<lambda>i. attempt_then (w3_block_with_txs (ec_web3 c) (ByHash h) i) (found_block s m))) = Some (Ok (chain n))"
  using block_answer [OF assms] block_retry_ok by blast

lemma bulk_blocks_ok:
  assumes "\<And>h. h \<in> hs \<Longrightarrow> \<exists>n \<le> limit. bl_hash (chain n) = Some h"
  shows "\<exists>bs. snd (bulk_blocks ord c store hs) = Some (Ok bs) \<and> distinct bs
    \<and> set bs = {chain n | n. \<exists>h \<in> hs. bl_hash (chain n) = Some h}"
proof -
  define block where "block h = chain (SOME n. n \<le> limit \<and> bl_hash (chain n) = Some h)" for h
  have block: "\<exists>n \<le> limit. block h = chain n \<and> bl_hash (chain n) = Some h" if "h \<in> hs" for h
    using someI_ex [of "\<lambda>n. n \<le> limit \<and> bl_hash (chain n) = Some h"] assms [OF that] by (auto simp: block_def)
  have "hs \<subseteq> range (\<lambda>n. the (bl_hash (chain n)))"
  proof
    fix h assume "h \<in> hs"
    then obtain n where "bl_hash (chain n) = Some h" using assms by blast
    then have "h = the (bl_hash (chain n))" by simp
    then show "h \<in> range (\<lambda>n. the (bl_hash (chain n)))" by (rule range_eqI)
  qed
  then have "finite hs" by (rule finite_subset) simp
  then have hashes: "set (io_hashes ord hs) = hs" "distinct (io_hashes ord hs)" using iter_hashes by auto
  define cached where "cached = (case cs_blocks store (io_hashes ord hs) of Ok bs \<Rightarrow> bs | _ \<Rightarrow> [])"
  have cached: "distinct cached" "set cached \<subseteq> {chain n | n. \<exists>h \<in> hs. bl_hash (chain n) = Some h}"
    using store_blocks(2) [of "io_hashes ord hs", unfolded hashes(1)]
    by (cases "cs_blocks store (io_hashes ord hs)"; simp add: cached_def)+
  define missing where "missing = filter (\<lambda>h. \<not> list_ex (\<lambda>b. bl_hash b = Some h) cached) (io_hashes ord hs)"
  have "load_blocks_rpc c missing = Some (Ok (map block missing))"
    unfolding load_blocks_rpc_def
  proof (rule fut_map_ok)
    fix h assume "h \<in> set missing"
    then obtain n where "n \<le> limit" "block h = chain n" "bl_hash (chain n) = Some h"
      using block hashes(1) by (auto simp: missing_def)
    then show "map_option (timed_out id ''Timeout elapsed'') (run_retry RetryOnError (Some (REQUEST_RETRIES c))
        (\<lambda>i. attempt_then (w3_block_with_txs (ec_web3 c) (ByHash h) i)
          (found_block (w3_show (ec_web3 c)) ''Ethereum node did not find block''))) = Some (Ok (block h))"
      using load_block_ok [OF \<open>n \<le> limit\<close> \<open>bl_hash (chain n) = Some h\<close>] by simp
  qed
  then have run: "snd (bulk_blocks ord c store hs) = Some (Ok (sort_key number_key (cached @ map block missing)))"
    using store_blocks(1) [of "io_hashes ord hs"]
    by (cases "cs_blocks store (io_hashes ord hs)") (simp_all add: bulk_blocks_def Let_def cached_def missing_def)
  have hash_block: "bl_hash (block h) = Some h" if "h \<in> hs" for h using block [OF that] by auto
  have miss: "set missing \<subseteq> hs" using hashes(1) by (auto simp: missing_def)
  have "inj_on block (set missing)" using miss hash_block by (metis inj_onI option.inject subsetD)
  then have "distinct (map block missing)" using hashes(2) by (simp add: distinct_map missing_def)
  moreover have "set cached \<inter> set (map block missing) = {}"
    using miss hash_block by (auto simp: missing_def list_ex_iff)
  ultimately have "distinct (cached @ map block missing)" using cached(1) by simp
  moreover have "set (cached @ map block missing) = {chain n | n. \<exists>h \<in> hs. bl_hash (chain n) = Some h}" (is "?l = ?r")
  proof
    show "?l \<subseteq> ?r" using cached(2) miss block by fastforce
    show "?r \<subseteq> ?l"
    proof clarify
      fix n h assume n: "h \<in> hs" "bl_hash (chain n) = Some h"
      show "chain n \<in> ?l"
      proof (cases "h \<in> set missing")
        case True
        obtain m where "block h = chain m" "bl_hash (chain m) = Some h" using block [OF n(1)] by blast
        then have "block h = chain n" using hash_inj [of m n] n(2) by simp
        then show ?thesis using True by (auto intro: rev_image_eqI)
      next
        case False
        then obtain b where "b \<in> set cached" "bl_hash b = Some h" using n(1) hashes(1) by (auto simp: missing_def list_ex_iff)
        moreover obtain m where "b = chain m" using cached(2) \<open>b \<in> set cached\<close> by blast
        ultimately show ?thesis using hash_inj [of m n] n(2) by simp
      qed
    qed
  qed
  ultimately show ?thesis using run by auto
qed

end

text \<open>Over such a node the adapter is what block scanning asks for.\<close>

sublocale web3_node \<subseteq> adapter: ethereum_node "adapter_of ord c store" chain limit
proof (unfold_locales, goal_cases)
  case (4 "from" to lf)
  obtain ls where ls: "range_logs ord c from to lf = Some (Ok ls)"
      "\<forall>l. l \<in> set ls \<longleftrightarrow> (\<exists>n. from \<le> n \<and> n \<le> to \<and> l \<in> set (node_logs n) \<and> log_filter_matches lf l)"
    using range_logs_ok [OF 4] by blast
  have "on_chain chain from to (LogTrigger l)" if l: "l \<in> set ls" for l
  proof -
    obtain n where "from \<le> n" "n \<le> to" "l \<in> set (node_logs n)"
      using iffD1 [OF spec [OF ls(2)] l] by blast
    moreover obtain h where "bl_hash (chain n) = Some h" using hash by blast
    ultimately show ?thesis using log_of by (auto simp: on_chain_def)
  qed
  moreover have "block_logs (map LogTrigger (filter (\<lambda>l. log_block_number l = Some n) ls))" for n
    by (rule block_logs_mono [OF logs_ordered [of n]]) (use ls(2) log_of in fastforce)
  ultimately show ?case using ls(1) by (auto simp: adapter_of_def)
next
  case (5 "from" to cf)
  obtain cs where cs: "range_calls ord c from to cf = Some (Ok cs)"
      "\<forall>x \<in> set cs. \<exists>n t. from \<le> n \<and> n \<le> to \<and> t \<in> set (node_traces n) \<and> try_from_trace t = Some x"
    using range_calls_ok [OF 5, of cf] by blast
  have "on_chain chain from to (CallTrigger x)" if x: "x \<in> set cs" for x
  proof -
    obtain n t where n: "from \<le> n" "n \<le> to" "t \<in> set (node_traces n)" "try_from_trace t = Some x"
      using cs(2) x by blast
    show ?thesis using n(1,2) call_of_trace(1,2) [OF n(3,4)] by (auto simp: on_chain_def)
  qed
  then show ?case using cs(1) by (auto simp: adapter_of_def)
next
  case (6 "from" to)
  then show ?case using range_ptrs_ok [OF 6(2), of "from"] by (auto simp: adapter_of_def on_chain_def)
next
  case (7 n)
  then show ?case by (simp add: adapter_of_def hash_by_number_ok)
next
  case (8 hs)
  then show ?case using bulk_blocks_ok [of hs] by (auto simp: adapter_of_def)
qed (use number hash hash_inj in auto)

lemma no_match_empty: "log_filter_wf lf \<Longrightarrow> log_filter_is_empty lf \<Longrightarrow> \<not> log_filter_matches lf l"
  by (simp add: log_filter_matches_def log_filter_is_empty_def split: list.splits)

context web3_node
begin

lemma scan_members:
  assumes "from \<le> to" and "to \<le> limit" and "log_filter_wf lf"
    and "scan_triggers set_iter (adapter_of ord c store) from to lf cf bf = Ok ts"
  shows "LogTrigger l \<in> set ts \<longleftrightarrow> (\<exists>n. from \<le> n \<and> n \<le> to \<and> l \<in> set (node_logs n) \<and> log_filter_matches lf l)" (is ?l)
    and "CallTrigger x \<in> set ts \<longleftrightarrow> (\<exists>n t. from \<le> n \<and> n \<le> to \<and> t \<in> set (node_traces n) \<and> try_from_trace t = Some x
      \<and> call_requested cf to x \<and> call_filter_matches cf x = (Ok True :: (_, string) result))" (is ?c)
proof -
  obtain ls where ls: "range_logs ord c from to lf = Some (Ok ls)"
      "\<And>l. l \<in> set ls \<longleftrightarrow> (\<exists>n. from \<le> n \<and> n \<le> to \<and> l \<in> set (node_logs n) \<and> log_filter_matches lf l)"
    using range_logs_ok [OF assms(1-3)] by blast
  obtain cs where cs: "range_calls ord c from to cf = Some (Ok cs)"
      "\<And>x. x \<in> set cs \<longleftrightarrow> (\<exists>n t. from \<le> n \<and> n \<le> to \<and> t \<in> set (node_traces n) \<and> try_from_trace t = Some x
        \<and> trace_to (if range_addresses ord cf to = [] then None else Some (range_addresses ord cf to)) t
        \<and> call_filter_matches cf x = (Ok True :: (_, string) result))"
    using range_calls_ok [OF assms(1,2), of cf] by blast
  let ?logs = "if log_filter_is_empty lf then [] else map LogTrigger ls"
  let ?calls = "if call_filter_is_empty cf then [] else map CallTrigger cs"
  obtain bs where bs: "ts = ?logs @ ?calls @ bs" "\<forall>t \<in> set bs. \<exists>p k. t = BlockTrigger p k"
    using assms(4) unfolding scan_triggers_def
    by (auto simp: adapter_of_def ls(1) cs(1) result_simps split: if_splits)
  then have "LogTrigger l \<in> set ts \<longleftrightarrow> \<not> log_filter_is_empty lf \<and> l \<in> set ls"
      "CallTrigger x \<in> set ts \<longleftrightarrow> \<not> call_filter_is_empty cf \<and> x \<in> set cs"
    by auto
  moreover have "call_filter_matches cf x \<noteq> (Ok True :: (_, string) result)" if "call_filter_is_empty cf"
    using that by (simp add: call_filter_matches_def call_filter_is_empty_def)
  ultimately show ?l ?c
    using ls(2) [of l] cs(2) [of x] no_match_empty [OF assms(3)] range_calls_requested [of _ x cf to] by blast+
qed

text \<open>The remaining methods, for single blocks.\<close>

lemma on_main_chain_ok:
  "ptr_number q \<le> limit \<Longrightarrow> snd (on_main_chain c store q) = Some (Ok (bl_hash (chain (ptr_number q)) = Some (ptr_hash q)))"
  using hash_by_number_ok [of "ptr_number q" True] hash [of "ptr_number q"]
  by (auto simp: on_main_chain_def split: prod.splits)

lemma block_calls_ok:
  assumes "n \<le> limit" and "bl_hash (chain n) = Some h" and "node_traces n \<noteq> []"
  shows "\<exists>cs. block_calls c n h = Some (Ok cs) \<and> (\<forall>x \<in> set cs. 4 \<le> length (call_input x))"
proof -
  obtain t ts where ts: "node_traces n = t # ts" using assms(3) by (cases "node_traces n") auto
  have "trace_stream c n n [] = Some (Ok (node_traces n))"
    using trace_stream_ok [OF order.refl assms(1), of "[]"] by (simp add: between_def)
  moreover have "tr_block_hash t = h" using trace_of [of t n] assms(2) ts by auto
  ultimately have "block_calls c n h = Some (Ok (List.map_filter try_from_trace (node_traces n)))"
    by (simp add: block_calls_def ts)
  then show ?thesis using call_of_trace(3) by (auto simp: set_map_filter)
qed

lemma bulk_block_ok:
  assumes "i < unat (REQUEST_RETRIES c)" and "\<forall>j < i. w3_block_with_txs (ec_web3 c) (ByHash h) j = Ok None
        \<or> (\<exists>e. w3_block_with_txs (ec_web3 c) (ByHash h) j = Err e)"
    and "w3_block_with_txs (ec_web3 c) (ByHash h) i = Ok (Some b)"
    and "\<And>n. bl_hash (chain n) = Some h \<Longrightarrow> b = chain n"
  shows "\<exists>bs. snd (bulk_blocks ord c store {h}) = Some (Ok (b # bs))"
proof -
  have hs: "io_hashes ord {h} = [h]" using iter_hashes [of "{h}"] by (metis distinct.simps(2) finite.intros list.exhaust
        list.set_intros(1,2) empty_iff finite_insert insert_iff list.set(1) insert_not_empty)
  define cached where "cached = (case cs_blocks store [h] of Ok bs \<Rightarrow> bs | _ \<Rightarrow> [])"
  have "set cached \<subseteq> {chain n | n. bl_hash (chain n) = Some h}"
    using store_blocks(2) [of "[h]"] by (cases "cs_blocks store [h]") (auto simp: cached_def)
  then have all: "\<forall>x \<in> set cached. x = b \<and> bl_hash x = Some h" using assms(4) by auto
  have run: "snd (bulk_blocks ord c store {h}) =
      (case load_blocks_rpc c (filter (\<lambda>h. \<not> list_ex (\<lambda>b. bl_hash b = Some h) cached) [h]) of
         Some (Ok new_blocks) \<Rightarrow> Some (Ok (sort_key number_key (cached @ new_blocks))) | r \<Rightarrow> r)"
    using store_blocks(1) [of "[h]"]
    by (cases "cs_blocks store [h]") (simp_all add: bulk_blocks_def hs Let_def cached_def split: option.splits result.splits)
  show ?thesis
  proof (cases cached)
    case Nil
    have "load_blocks_rpc c [h] = Some (Ok [b])"
      unfolding load_blocks_rpc_def by (subst fut_map_ok [of _ _ "\<lambda>_. b"]) (use block_retry_ok [OF assms(1-3)] in simp_all)
    then show ?thesis using run Nil by simp
  next
    case (Cons x xs)
    then have ex: "list_ex (\<lambda>b. bl_hash b = Some h) cached" using all by auto
    have "set (sort_key number_key cached) \<subseteq> {b}" unfolding set_sort using all by blast
    moreover have "sort_key number_key cached \<noteq> []" using Cons by (metis length_0_conv length_sort list.distinct(1))
    ultimately show ?thesis using ex run by (cases "sort_key number_key cached") (simp_all add: load_blocks_rpc_def)
  qed
qed

lemma number_of_log: "l \<in> set (node_logs n) \<Longrightarrow> number_of (LogTrigger l) = n"
  using log_of by (simp add: number_of_def)

lemma adapter_scan:
  assumes "from \<le> to" and "to \<le> limit" and "log_filter_wf lf"
  shows "\<exists>bts. blocks_with_triggers set_iter (adapter_of ord c store) from to lf cf bf = Ok bts
    \<and> (\<forall>n l. (\<exists>bt \<in> set bts. bt_block bt = Final (chain n) \<and> LogTrigger l \<in> set (bt_triggers bt)) \<longleftrightarrow>
        from \<le> n \<and> n \<le> to \<and> l \<in> set (node_logs n) \<and> log_filter_matches lf l)
    \<and> (\<forall>n x. (\<exists>bt \<in> set bts. bt_block bt = Final (chain n) \<and> CallTrigger x \<in> set (bt_triggers bt)) \<longleftrightarrow>
        from \<le> n \<and> n \<le> to \<and> (\<exists>t \<in> set (node_traces n). try_from_trace t = Some x)
          \<and> call_requested cf to x \<and> call_filter_matches cf x = (Ok True :: (_, string) result))"
proof -
  obtain ts where ts: "scan_triggers set_iter (adapter_of ord c store) from to lf cf bf = Ok ts"
      "blocks_with_triggers set_iter (adapter_of ord c store) from to lf cf bf =
        Ok (map (scanned chain ts) (sorted_list_of_set (insert to (number_of ` set ts))))"
    using adapter.blocks_with_triggers_ok [OF assms(1-3)] by blast
  note m = scan_members [OF assms ts(1)]
  let ?bts = "map (scanned chain ts) (sorted_list_of_set (insert to (number_of ` set ts)))"
  have inj: "chain k = chain n \<longleftrightarrow> k = n" for k n using hash_inj by metis
  have mem: "(\<exists>bt \<in> set ?bts. bt_block bt = Final (chain n) \<and> t \<in> set (bt_triggers bt)) \<longleftrightarrow> t \<in> set ts \<and> number_of t = n" for n t
    by (auto simp: scanned_def inj simp del: sorted_list_of_set_insert_remove)
  have call_no: "number_of (CallTrigger x) = k" if "t \<in> set (node_traces k)" "try_from_trace t = Some x" for k t x
    using call_of_trace(1) [OF that] by (simp add: number_of_def)
  show ?thesis
    by (rule exI [of _ ?bts], unfold mem m, intro conjI ts(2)) (use number_of_log call_no in blast)+
qed

text \<open>An event that is wanted both of a contract and of any contract is requested twice.\<close>

lemma overlap_twice:
  assumes "from \<le> to" and "to \<le> limit" and "log_filter_wf lf"
    and "sig \<in> wildcard_events lf" and "(ContractNode a, EventNode sig) \<in> set (lg_edges (contracts_and_events_graph lf))"
    and "log_address l = a" and "log_topics l = sig # topics" and "from \<le> n" and "n \<le> to" and "l \<in> set (node_logs n)"
  shows "\<exists>ls. range_logs ord c from to lf = Some (Ok ls) \<and> 2 \<le> length (filter (\<lambda>k. k = l) ls)"
proof -
  let ?g = "\<lambda>f. between (\<lambda>n. filter (get_logs_returns f) (node_logs n)) (unat from) (unat to + 1)"
  let ?wild = "map (\<lambda>e. \<lparr>gl_contracts = [], gl_event_signatures = [e]\<rparr>) (io_events ord (wildcard_events lf))"
  obtain gs where gs: "eth_get_logs_filters (io_nodes ord) (io_events ord) lf = Some (Ok (?wild @ gs))"
      "\<forall>a e. (\<exists>g \<in> set gs. covers g a e) \<longleftrightarrow> (ContractNode a, EventNode e) \<in> set (lg_edges (contracts_and_events_graph lf))"
    using get_logs_filters_parts [OF assms(3), of "io_nodes ord" "io_events ord"] iter_nodes by blast
  have "fut_map (log_stream c from to) (?wild @ gs) = Some (Ok (map ?g (?wild @ gs)))"
    using log_stream_ok [OF assms(1,2)] by (intro fut_map_ok)
  then have run: "range_logs ord c from to lf = Some (Ok (concat (map ?g ?wild) @ concat (map ?g gs)))"
    by (simp add: range_logs_def gs(1))
  have "l \<in> set (?g f)" if "get_logs_returns f l" for f
    using that assms(8-10) by (auto simp: set_between_range)
  moreover have "sig \<in> set (io_events ord (wildcard_events lf))"
    using assms(3,4) iter_events by (simp add: log_filter_wf_def)
  moreover obtain g where "g \<in> set gs" "covers g a sig" using gs(2) assms(5) by blast
  moreover from this have "get_logs_returns g l" using assms(6,7) by (auto simp: covers_def get_logs_returns_def)
  moreover have "get_logs_returns \<lparr>gl_contracts = [], gl_event_signatures = [sig]\<rparr> l"
    using assms(7) by (simp add: get_logs_returns_def)
  ultimately have "l \<in> set (concat (map ?g ?wild))" "l \<in> set (concat (map ?g gs))" by auto
  then have "filter (\<lambda>k. k = l) (concat (map ?g ?wild)) \<noteq> []" "filter (\<lambda>k. k = l) (concat (map ?g gs)) \<noteq> []"
    by (auto simp: filter_empty_conv simp del: set_concat)
  then show ?thesis using run
    by (metis (no_types, lifting) Suc_le_eq add_mono filter_append length_append length_greater_0_conv one_add_one One_nat_def)
qed

lemma overlap_block:
  assumes "from \<le> to" and "to \<le> limit" and "log_filter_wf lf"
    and "sig \<in> wildcard_events lf" and "(ContractNode (log_address l), EventNode sig) \<in> set (lg_edges (contracts_and_events_graph lf))"
    and "log_topics l = sig # topics" and "from \<le> n" and "n \<le> to" and "l \<in> set (node_logs n)"
  shows "\<exists>bts. blocks_with_triggers set_iter (adapter_of ord c store) from to lf cf bf = Ok bts
    \<and> (\<exists>bt \<in> set bts. bt_block bt = Final (chain n) \<and> 2 \<le> length (filter (\<lambda>t. t = LogTrigger l) (bt_triggers bt)))"
proof -
  obtain ls where ls: "range_logs ord c from to lf = Some (Ok ls)" "2 \<le> length (filter (\<lambda>k. k = l) ls)"
    using overlap_twice [OF assms(1-5) refl assms(6-9)] by blast
  obtain ts where ts: "scan_triggers set_iter (adapter_of ord c store) from to lf cf bf = Ok ts"
      "blocks_with_triggers set_iter (adapter_of ord c store) from to lf cf bf =
        Ok (map (scanned chain ts) (sorted_list_of_set (insert to (number_of ` set ts))))"
    using adapter.blocks_with_triggers_ok [OF assms(1-3)] by blast
  have "\<not> log_filter_is_empty lf" using assms(4) by (auto simp: log_filter_is_empty_def)
  then obtain rest where rest: "ts = map LogTrigger ls @ rest"
    using ts(1) unfolding scan_triggers_def by (auto simp: adapter_of_def ls(1) result_simps)
  have "filter (\<lambda>t. t = LogTrigger l) (map LogTrigger ls) = map LogTrigger (filter (\<lambda>k. k = l) ls)"
    by (simp add: filter_map comp_def)
  then have two: "2 \<le> length (filter (\<lambda>t. t = LogTrigger l) ts)" using ls(2) rest by simp
  then have "LogTrigger l \<in> set ts" by (metis (full_types) filter_False list.size(3) not_numeral_le_zero)
  then have "n \<in> insert to (number_of ` set ts)" using number_of_log [OF assms(9)] by (metis imageI insertI2)
  then have "scanned chain ts n \<in> set (map (scanned chain ts) (sorted_list_of_set (insert to (number_of ` set ts))))"
    by (auto simp del: sorted_list_of_set_insert_remove)
  moreover have "filter (\<lambda>t. t = LogTrigger l \<and> number_of t = n) ts = filter (\<lambda>t. t = LogTrigger l) ts"
    using number_of_log [OF assms(9)] by (metis (mono_tags, lifting) filter_cong)
  then have "2 \<le> length (filter (\<lambda>t. t = LogTrigger l) (bt_triggers (scanned chain ts n)))"
    using two by (simp add: scanned_def filter_sort conj_commute)
  moreover have "bt_block (scanned chain ts n) = Final (chain n)" by (simp add: scanned_def)
  ultimately show ?thesis using ts(2) by blast
qed

end

section \<open>Properties\<close>

text \<open>C4. Over a node that answers every request about its final chain in the end, if only for single
  blocks, scanning a range through the adapter misses nothing and invents nothing: the blocks
  returned carry exactly the logs of the range that the log filter matches, and exactly the calls that
  the call filter matches and that are to contracts whose start block is not after the range; when no contract
  of the filter has started by then, the calls to all of them. Timeouts, transient errors, and ranges that the
  node finds too heavy do not matter.\<close>

theorem adapter_scan_exact:
  assumes "web3_node ord c store chain limit node_logs node_traces"
    and "from \<le> to" and "to \<le> limit" and "log_filter_wf lf"
  shows "\<exists>bts. blocks_with_triggers set_iter (adapter_of ord c store) from to lf cf bf = Ok bts
    \<and> (\<forall>n l. (\<exists>bt \<in> set bts. bt_block bt = Final (chain n) \<and> LogTrigger l \<in> set (bt_triggers bt)) \<longleftrightarrow>
        from \<le> n \<and> n \<le> to \<and> l \<in> set (node_logs n) \<and> log_filter_matches lf l)
    \<and> (\<forall>n x. (\<exists>bt \<in> set bts. bt_block bt = Final (chain n) \<and> CallTrigger x \<in> set (bt_triggers bt)) \<longleftrightarrow>
        from \<le> n \<and> n \<le> to \<and> (\<exists>t \<in> set (node_traces n). try_from_trace t = Some x)
          \<and> call_requested cf to x \<and> call_filter_matches cf x = (Ok True :: (_, string) result))"
  by (rule web3_node.adapter_scan [OF assms])

text \<open>A chain of empty blocks but for one log, with an uncled block at height three.\<close>

definition demo_fork :: light_block where
  "demo_fork = \<lparr>bl_hash = Some [1], bl_parent_hash = demo_hash 2, bl_number = Some 3, bl_transactions = [], bl_uncles = []\<rparr>"

definition demo_logs :: "u64 \<Rightarrow> eth_log list" where
  "demo_logs n = (if n = 5
     then [(demo_log 0 0)\<lparr>log_address := [1], log_topics := [[7]], log_block_number := Some 5, log_block_hash := Some (demo_hash 5)\<rparr>]
     else [])"

definition demo_traces :: "u64 \<Rightarrow> trace list" where
  "demo_traces n = [\<lparr>tr_error = None, tr_action = ActionOther, tr_result = None, tr_transaction_position = None,
     tr_block_number = n, tr_block_hash = demo_hash n, tr_transaction_hash = None\<rparr>]"

fun demo_show :: "web3_error \<Rightarrow> string" where
  "demo_show (RpcError _ msg _) = msg"
| "demo_show (OtherWeb3Error s) = s"

fun demo_block :: "block_id \<Rightarrow> light_block" where
  "demo_block (ByHash h) = (if h = [1] then demo_fork else demo_chain (of_nat (length h)))"
| "demo_block (ByNumber n) = demo_chain n"
| "demo_block LatestBlock = demo_chain 60"

text \<open>The first attempt of every request about a range times out, and ranges of more than four
  blocks are too heavy for \<open>eth_getLogs\<close>.\<close>

definition demo_web3 :: web3 where
  "demo_web3 = \<lparr>
     w3_show = demo_show, w3_debug = demo_show,
     w3_trace_filter = (\<lambda>a b as i. if i = 0 then Err Elapsed
       else Ok (between (\<lambda>n. filter (trace_to as) (demo_traces n)) (unat a) (unat b + 1))),
     w3_logs = (\<lambda>a b f i. if i = 0 then Err Elapsed
       else if unat b - unat a > 3 then Err (Inner (OtherWeb3Error ''ServerError(-32005)''))
       else Ok (between (\<lambda>n. filter (get_logs_returns f) (demo_logs n)) (unat a) (unat b + 1))),
     w3_call = (\<lambda>a d b i. if i = 0 then Err Elapsed else Ok [1, 2]),
     w3_block = (\<lambda>b i. Ok (Some (demo_block b))),
     w3_block_with_txs = (\<lambda>b i. Ok (Some (demo_block b))),
     w3_net_version = (\<lambda>i. Ok ''1''),
     w3_submit_batch = (\<lambda>hs i. Ok ()),
     w3_transaction_receipt = (\<lambda>h i. Ok None),
     w3_uncle = (\<lambda>h k i. Ok None) \<rparr>"

definition demo_client :: eth_client where
  "demo_client = \<lparr>ec_web3 = demo_web3, ec_is_ganache = False, TRACE_STREAM_STEP_SIZE = 200, MAX_EVENT_ONLY_RANGE = 500,
     REQUEST_RETRIES = 10, ETH_CALL_BY_NUMBER = False\<rparr>"

definition demo_chain_store :: chain_store where
  "demo_chain_store = \<lparr>cs_block_hashes_by_block_number = (\<lambda>n. Ok []), cs_blocks = (\<lambda>hs. Ok [])\<rparr>"

definition demo_orders :: iter_orders where
  "demo_orders = \<lparr>io_nodes = id, io_events = sorted_list_of_set, io_addresses = sorted_list_of_set, io_hashes = sorted_list_of_set\<rparr>"

lemma demo_fork_hash: "demo_hash n \<noteq> [1]"
  by (cases "unat n") (auto simp: demo_hash_def)

lemma demo_hash_length: "of_nat (length (demo_hash n)) = n"
  by (simp add: demo_hash_def)

lemma demo_too_many: "too_many_logs ''ServerError(-32005)''"
  by (simp add: too_many_logs_def TOO_MANY_LOGS_FINGERPRINTS_def str_contains_def)

interpretation demo_rpc: web3_node demo_orders demo_client demo_chain_store demo_chain 60 demo_logs demo_traces
proof (unfold_locales, goal_cases)
  case (13 a b f)
  then show ?case
    by (intro exI [of _ 1]) (auto simp: demo_client_def demo_web3_def demo_too_many word_le_nat_alt word_less_nat_alt)
next
  case (14 a b as)
  then show ?case by (intro exI [of _ 1]) (auto simp: demo_client_def demo_web3_def)
next
  case (15 n h)
  then show ?case
    by (intro exI [of _ 0]) (auto simp: demo_client_def demo_web3_def demo_chain_def demo_fork_hash demo_hash_length)
qed (auto simp: demo_orders_def demo_client_def demo_web3_def demo_chain_store_def demo_chain_def demo_traces_def demo_logs_def
  block_logs_def logs_of_def map_filter_simps demo_fork_hash demo_log_def log_indexed_def logs_in_order_def)

theorem adapter_scan_exact_witness:
  "\<exists>bts. blocks_with_triggers sorted_list_of_set (adapter_of demo_orders demo_client demo_chain_store) 2 40
      (log_filter_add (Some [1]) [7] log_filter_default) [] block_filter_default = Ok bts
    \<and> (\<exists>bt \<in> set bts. bt_block bt = Final (demo_chain 5) \<and> LogTrigger (hd (demo_logs 5)) \<in> set (bt_triggers bt))"
proof -
  let ?lf = "log_filter_add (Some [1]) [7] log_filter_default"
  have "log_filter_matches ?lf (hd (demo_logs 5))"
    by (simp add: log_filter_matches_def log_filter_add_def log_filter_default_def add_edge_def demo_logs_def)
  moreover have "hd (demo_logs 5) \<in> set (demo_logs 5)" by (simp add: demo_logs_def)
  ultimately show ?thesis
    using adapter_scan_exact [OF demo_rpc.web3_node_axioms, of 2 40 ?lf sorted_list_of_set "[]" block_filter_default]
      log_filter_add_ok(1) [OF log_filter_wf_default, of "Some [1]" "[7]"] by auto
qed

text \<open>An event for which one data source names a contract and another does not is requested from the
  node twice, and nothing removes the second copy: a log of it in the contract is handed to the
  mappings of its block at least twice.\<close>

lemma overlapping_events_duplicate:
  assumes "web3_node ord c store chain limit node_logs node_traces"
    and "from \<le> to" and "to \<le> limit" and "log_filter_wf lf"
    and "sig \<in> wildcard_events lf" and "(ContractNode (log_address l), EventNode sig) \<in> set (lg_edges (contracts_and_events_graph lf))"
    and "log_topics l = sig # topics" and "from \<le> n" and "n \<le> to" and "l \<in> set (node_logs n)"
  shows "\<exists>bts. blocks_with_triggers set_iter (adapter_of ord c store) from to lf cf bf = Ok bts
    \<and> (\<exists>bt \<in> set bts. bt_block bt = Final (chain n) \<and> 2 \<le> length (filter (\<lambda>t. t = LogTrigger l) (bt_triggers bt)))"
  using web3_node.overlap_block [OF assms] .

definition demo_filter :: log_filter where
  "demo_filter = log_filter_add None [7] (log_filter_add (Some [1]) [7] log_filter_default)"

lemma demo_filter_wf: "log_filter_wf demo_filter"
  unfolding demo_filter_def by (intro log_filter_add_ok(1) log_filter_wf_default)

text \<open>C40. Every contract call returns, after at most ten attempts. Only the output of a call that the node
  has answered is written to the call cache, under the contract, the encoded call and the block;
  from then on the same call gets the same result from the cache, whatever the node would say.\<close>

theorem call_cache_transparent:
  assumes "contract_call lib c cache call = (ws, r)"
  shows "r \<noteq> None
    \<and> (ws = [] \<or> (\<exists>d out. ws = [SetCall (cc_address call) d (cc_block_ptr call) out]
        \<and> fn_encode_input (cc_function call) (cc_args call) = Ok d
        \<and> eth_adapter_call lib c (cc_address call) d (cc_block_ptr call) = Some (Ok out)))
    \<and> (\<forall>a d p out c' cache'. ws = [SetCall a d p out] \<longrightarrow> cache' a d p = Ok (Some out) \<longrightarrow>
        contract_call lib c' cache' call = ([], r))"
proof -
  have ret: "eth_adapter_call lib c a d p \<noteq> None" for a d p
    using run_retry_returns unfolding eth_adapter_call_def Let_def by simp blast
  show ?thesis using assms
    by (auto simp: contract_call_def ret split: option.splits prod.splits result.splits)
qed

definition demo_abi :: "(nat, unit) abi_lib" where
  "demo_abi = \<lparr>al_keccak = (\<lambda>b. [8, 9, 10, 11]), al_hex_decode = (\<lambda>s. None), al_decode_string = (\<lambda>b. None),
     al_type_check = (\<lambda>t k. True)\<rparr>"

definition demo_contract_call :: "(nat, unit) contract_call_data" where
  "demo_contract_call = \<lparr>cc_address = [1], cc_block_ptr = BlockPtr (demo_hash 5) 5,
     cc_function = \<lparr>fn_inputs = [()], fn_encode_input = (\<lambda>ts. Ok [3]), fn_decode_output = (\<lambda>b. Ok [length b])\<rparr>, cc_args = [4]\<rparr>"

lemma demo_contract_call_result:
  "contract_call demo_abi demo_client (\<lambda>a d p. Ok None) demo_contract_call =
     ([SetCall [1] [3] (BlockPtr (demo_hash 5) 5) [1, 2]], Some (Ok [2]))"
proof -
  let ?attempt = "\<lambda>i. attempt_then (w3_call demo_web3 [1] [3] (ByHash (demo_hash 5)) i) (call_outcome demo_abi)"
  have "run_retry call_retry (Some 10) ?attempt = Some (?attempt 1)"
    by (rule run_retry_first)
      (auto simp: demo_web3_def call_retry_def as_solidity_revert_with_reason_def split: option.splits)
  then show ?thesis
    by (simp add: contract_call_def demo_contract_call_def demo_abi_def type_mismatch_def eth_adapter_call_def demo_client_def
        demo_web3_def as_solidity_revert_with_reason_def decode_call_output_def)
qed

theorem call_cache_transparent_witness:
  "contract_call demo_abi demo_client (\<lambda>a d p. Ok None) demo_contract_call =
     ([SetCall [1] [3] (BlockPtr (demo_hash 5) 5) [1, 2]], Some (Ok [2]))
   \<and> (\<forall>c. contract_call demo_abi c (\<lambda>a d p. if d = [3] then Ok (Some [1, 2]) else Err ''down'') demo_contract_call
        = ([], Some (Ok [2])))"
  using call_cache_transparent [OF demo_contract_call_result] demo_contract_call_result by simp

end
