(* ===== verification/Reconciliation.thy ===== *)
theory Reconciliation
  imports BlockStream EthAdapter
begin

text \<open>
  The block stream together with its consumer, which advances the subgraph's pointer to each block
  it is handed, over a chain whose head stays put. Locale \<open>stable_chain\<close> states what the stores and
  the node answer; the stream then brings the pointer to the head in finitely many polls.
\<close>

section \<open>The consumer\<close>

text \<open>A processed block moves the pointer to it, a reverted one to its parent.\<close>

definition ptr_after :: "store_write list \<Rightarrow> bs_poll \<Rightarrow> block_pointer option \<Rightarrow> block_pointer option" where
  "ptr_after writes r p =
     (case r of
        Ready (BlockEvent b) \<Rightarrow>
          (case (ptr_of_block (finality_light_block (bt_block b)) :: (_, unit) result) of
             Ok q \<Rightarrow> Some q | _ \<Rightarrow> p)
      | _ \<Rightarrow> fold (\<lambda>w q. case w of RevertBlockOperations _ parent \<Rightarrow> Some parent | _ \<Rightarrow> q) writes p)"

definition drive ::
  "pair_iter \<Rightarrow> bs_config \<Rightarrow> (block_pointer option \<Rightarrow> bs_env) \<Rightarrow>
     block_stream \<times> block_pointer option \<Rightarrow> block_stream \<times> block_pointer option" where
  "drive set_iter cfg env = (\<lambda>(s, p).
     let (w, r, s') = poll_blocks set_iter cfg [\<lparr>pe_envs = [env p], pe_delay_over = True, pe_head = HeadNotReady\<rparr>] s
     in (s', ptr_after w r p))"

lemma drive_yield:
  assumes "bs_state s = YieldingBlocks bs"
    and "\<And>b. b \<in> set bs \<Longrightarrow> ptr_of_block (finality_light_block (bt_block b)) = (Ok (f b) :: (_, unit) result)"
  shows "(drive set_iter cfg env ^^ length bs) (s, p) =
    (s\<lparr>bs_state := YieldingBlocks []\<rparr>, if bs = [] then p else Some (f (last bs)))"
  using assms
proof (induction bs arbitrary: s p)
  case (Cons b bs)
  have "drive set_iter cfg env (s, p) = (s\<lparr>bs_state := YieldingBlocks bs\<rparr>, Some (f b))"
    using Cons.prems by (simp add: drive_def poll_blocks_def ptr_after_def)
  then show ?case using Cons by (simp add: funpow_Suc_right del: funpow.simps)
qed simp

section \<open>A stable chain\<close>

lemma inc_le: "n < m \<Longrightarrow> n + 1 \<le> (m :: u64)"
  using unsigned_less [of m, where 'a = nat]
  by (simp add: word_less_nat_alt word_le_nat_alt unat_word_ariths del: unsigned_less)

locale stable_chain = ethereum_node A chain head for A :: eth_adapter and chain :: "u64 \<Rightarrow> light_block" and head :: u64 +
  fixes env :: "block_pointer option \<Rightarrow> bs_env" and known :: "block_pointer \<Rightarrow> bool"
  assumes env_adapter: "be_adapter (env p) = A"
    and env_head: "be_chain_head_ptr (env p) = Ok (Some (BlockPtr (the (bl_hash (chain head))) head))"
    and env_ptr: "be_block_ptr (env p) = Ok p"
    and env_revert: "be_revert_block_operations (env (Some q)) q parent = Ok ()"
    and env_ancestor: "k \<le> head \<Longrightarrow>
      \<exists>eb. be_ancestor_block (env p) (BlockPtr (the (bl_hash (chain head))) head) k = Ok (Some eb)
        \<and> eb_block eb = chain (head - k)
        \<and> block_logs (concat (map (\<lambda>r. map LogTrigger (rc_logs r)) (eb_transaction_receipts eb)))"
    and linked: "n \<noteq> 0 \<Longrightarrow> bl_hash (chain (n - 1)) = Some (bl_parent_hash (chain n))"
    and main_chain: "ptr_number q \<le> head \<Longrightarrow> is_on_main_chain A q = Ok (bl_hash (chain (ptr_number q)) = Some (ptr_hash q))"
    and block_calls: "n \<le> head \<Longrightarrow> bl_hash (chain n) = Some h \<Longrightarrow> \<exists>cs. calls_in_block A n h = Ok cs \<and> (\<forall>c \<in> set cs. 4 \<le> length (call_input c))"
    and known_block: "known q \<Longrightarrow> \<exists>b bs. load_blocks A {ptr_hash q} = Ok (b # bs) \<and> bl_number b = Some (ptr_number q)
        \<and> (ptr_number q \<noteq> 0 \<longrightarrow> known (BlockPtr (bl_parent_hash b) (ptr_number q - 1)))"
    and known_genesis: "known q \<Longrightarrow> ptr_number q = 0 \<Longrightarrow> bl_hash (chain 0) = Some (ptr_hash q)"

lemma sorted_le_last: "sorted xs \<Longrightarrow> x \<in> set xs \<Longrightarrow> x \<le> last xs"
  by (induction xs) auto

lemma try_filter_Ok: "(\<And>x. x \<in> set xs \<Longrightarrow> \<exists>b. p x = Ok b) \<Longrightarrow>
    \<exists>ys. try_filter p xs = Ok ys \<and> set ys \<subseteq> set xs"
proof (induction xs)
  case (Cons x xs)
  then obtain b ys where "p x = Ok b" "try_filter p xs = Ok ys" "set ys \<subseteq> set xs" by auto metis
  then show ?case by auto
qed simp

lemma call_filter_matches_Ok: "4 \<le> length (call_input c) \<Longrightarrow> \<exists>b. call_filter_matches f c = Ok b"
  by (auto simp: call_filter_matches_def split: option.splits)

text \<open>A block with its receipts and traces in order always becomes a block with triggers.\<close>

lemma triggers_in_nonfinal_block_Ok:
  assumes "ptr_of_eth_block (bc_block b) = (Ok q :: (_, string) result)"
    and "\<forall>c \<in> set (bc_calls b). 4 \<le> length (call_input c)"
    and "block_logs (concat (map (\<lambda>r. map LogTrigger (rc_logs r)) (eb_transaction_receipts (bc_block b))))"
  shows "\<exists>bt. triggers_in_nonfinal_block set_iter lf cf bf b = (Ok bt :: (_, string) result) \<and> bt_block bt = NonFinal b"
proof -
  obtain cs where cs: "try_filter (call_filter_matches cf) (bc_calls b) = (Ok cs :: (_, string) result)"
    using try_filter_Ok [of "bc_calls b" "call_filter_matches cf"] call_filter_matches_Ok assms(2) by meson
  obtain ds where ds: "try_filter (call_filter_matches (call_filter_from_block_filter set_iter bf)) (bc_calls b)
      = (Ok ds :: (_, string) result)"
    using try_filter_Ok [of "bc_calls b" "call_filter_matches (call_filter_from_block_filter set_iter bf)"]
      call_filter_matches_Ok assms(2) by meson
  let ?bs = "map (\<lambda>c. BlockTrigger q (WithCallTo (call_to c))) ds @ (if bf_trigger_every_block bf then [BlockTrigger q EveryBlock] else [])"
  let ?ts = "parse_log_triggers lf (bc_block b) @ map CallTrigger cs @ ?bs"
  have "block_logs ?ts"
    by (rule block_logs_logs [OF assms(3)]) (auto simp: parse_log_triggers_def)
  then show ?thesis
    by (simp add: triggers_in_nonfinal_block_def parse_call_triggers_def parse_block_triggers_def
        cs ds assms(1) block_with_triggers_new_def sort_triggers_key)
qed

context stable_chain
begin

definition on_main :: "block_pointer option \<Rightarrow> bool" where
  "on_main p = (case p of None \<Rightarrow> True | Some q \<Rightarrow> bl_hash (chain (ptr_number q)) = Some (ptr_hash q))"

definition chain_ptr :: "u64 \<Rightarrow> block_pointer" where
  "chain_ptr n = BlockPtr (the (bl_hash (chain n))) n"

definition behind :: "block_pointer option \<Rightarrow> bool" where
  "behind p = (case p of None \<Rightarrow> True | Some q \<Rightarrow> ptr_number q < head \<and> (known q \<or> on_main p))"

definition height :: "block_pointer option \<Rightarrow> nat" where
  "height p = (case p of None \<Rightarrow> 0 | Some q \<Rightarrow> unat (ptr_number q) + 1)"

lemma chain_ptr_simps [simp]: "ptr_number (chain_ptr n) = n" "on_main (Some (chain_ptr n))"
    "ptr_of_block (chain n) = Ok (chain_ptr n)"
  using chain_hash [of n] by (auto simp: chain_ptr_def on_main_def ptr_of_block_def chain_number)

lemma scanned_ptr: "ptr_of_block (finality_light_block (bt_block (scanned chain ts n))) = Ok (chain_ptr n)"
  by (simp add: scanned_def)

lemma far_forward:
  assumes "on_main p" and "behind p" and "range_ok cfg ctx" and "r \<le> head" and "height p \<le> unat (head - r)"
    and "unat head + unat (MAX_BLOCK_RANGE_SIZE cfg) < 2 ^ 64" and "log_filter_wf (cx_log_filter ctx)"
  shows "\<exists>bs n k. far_step set_iter cfg ctx (env p) (chain_ptr head) p r = Ok (ProcessDescendantBlocks bs n)
    \<and> bs \<noteq> [] \<and> (\<forall>b \<in> set bs. \<exists>i. ptr_of_block (finality_light_block (bt_block b)) = (Ok (chain_ptr i) :: (_, unit) result))
    \<and> ptr_of_block (finality_light_block (bt_block (last bs))) = (Ok (chain_ptr k) :: (_, unit) result)
    \<and> height p \<le> unat k \<and> k \<le> head"
proof -
  let ?from = "range_from p"
  let ?to = "range_to cfg ctx ?from head r"
  have hr: "unat (head - r) \<le> unat head" using assms(4) by (simp add: unat_sub_if_size word_le_nat_alt)
  have f: "unat ?from = height p"
    using assms(2) unsigned_less [of head, where 'a = nat]
    by (auto simp: range_from_def height_def behind_def word_less_nat_alt unat_word_ariths simp del: unsigned_less
        split: option.splits)
  then have "?from \<le> head - r" "unat ?from + unat (MAX_BLOCK_RANGE_SIZE cfg) < 2 ^ 64"
    using assms(5,6) hr by (simp_all add: word_le_nat_alt)
  note to = range_to_bounds [OF assms(3,4) this]
  obtain ts where ts: "\<forall>t \<in> set ts. on_chain chain ?from ?to t"
      "blocks_with_triggers set_iter A ?from ?to (cx_log_filter ctx) (cx_call_filter ctx) (cx_block_filter ctx) =
        Ok (map (scanned chain ts) (sorted_list_of_set (insert ?to (number_of ` set ts))))"
    using blocks_with_triggers_ok [OF to(1) _ assms(7)] to(2) hr by (simp add: word_le_nat_alt) blast
  let ?ns = "sorted_list_of_set (insert ?to (number_of ` set ts))"
  have ns: "set ?ns = insert ?to (number_of ` set ts)" "sorted ?ns" by (simp_all del: sorted_list_of_set_insert_remove)
  have le: "n \<le> ?to" if "n \<in> set ?ns" for n
    using that ts(1) on_chain_simps(5) [of chain ?from ?to] ns(1) by auto
  have ne: "?ns \<noteq> []" using ns(1) by (metis insert_not_empty set_empty)
  then have "last ?ns \<in> set ?ns" by (rule last_in_set)
  moreover have "?to \<le> last ?ns" using sorted_le_last [OF ns(2)] ns(1) by blast
  ultimately have last: "last ?ns = ?to" using le by (simp add: order.antisym)
  show ?thesis
  proof (intro exI conjI)
    have "far_step set_iter cfg ctx (env p) (chain_ptr head) p r =
        and_then (blocks_with_triggers set_iter A ?from ?to (cx_log_filter ctx) (cx_call_filter ctx) (cx_block_filter ctx))
          (\<lambda>blocks. Ok (ProcessDescendantBlocks blocks (scan_range_size cfg ctx)))"
      using assms(1,2) by (cases p) (simp_all add: far_step_def env_adapter main_chain on_main_def behind_def Let_def)
    then show "far_step set_iter cfg ctx (env p) (chain_ptr head) p r =
        Ok (ProcessDescendantBlocks (map (scanned chain ts) ?ns) (scan_range_size cfg ctx))"
      by (simp only: ts(2)) simp
    show "map (scanned chain ts) ?ns \<noteq> []" using ne by (metis map_is_Nil_conv)
    show "\<forall>b \<in> set (map (scanned chain ts) ?ns).
        \<exists>i. ptr_of_block (finality_light_block (bt_block b)) = (Ok (chain_ptr i) :: (_, unit) result)"
      using scanned_ptr by (auto simp del: sorted_list_of_set_insert_remove)
    show "ptr_of_block (finality_light_block (bt_block (last (map (scanned chain ts) ?ns)))) = (Ok (chain_ptr ?to) :: (_, unit) result)"
      using scanned_ptr last ne by (metis last_map)
    show "height p \<le> unat ?to" using to(1) f by (simp add: word_le_nat_alt)
    show "?to \<le> head" using to(2) hr by (simp add: word_le_nat_alt)
  qed
qed

text \<open>The ancestor of the head that the near step looks at is the chain's block above the pointer.\<close>

lemma ancestor_above:
  assumes "ptr_number q < head"
  obtains eb where "be_ancestor_block (env (Some q)) (chain_ptr head) (head - ptr_number q - 1) = Ok (Some eb)"
    and "eb_block eb = chain (ptr_number q + 1)"
    and "block_logs (concat (map (\<lambda>r. map LogTrigger (rc_logs r)) (eb_transaction_receipts eb)))"
    and "bl_hash (chain (ptr_number q)) = Some (bl_parent_hash (eb_block eb))"
proof -
  let ?k = "head - ptr_number q - 1" and ?n = "ptr_number q + 1"
  have "head - ?k = ?n" by simp
  moreover have "unat (head - ptr_number q) = unat head - unat (ptr_number q)" "head - ptr_number q \<noteq> 0"
    using assms by (auto simp: unat_sub_if_size word_less_nat_alt)
  then have "?k \<le> head" by (simp add: word_le_nat_alt unat_minus_one)
  ultimately obtain eb where eb: "be_ancestor_block (env (Some q)) (chain_ptr head) ?k = Ok (Some eb)"
      "eb_block eb = chain ?n"
      "block_logs (concat (map (\<lambda>r. map LogTrigger (rc_logs r)) (eb_transaction_receipts eb)))"
    using env_ancestor [of ?k "Some q"] unfolding chain_ptr_def by metis
  have "?n \<noteq> 0" using assms by (metis add.commute add_diff_cancel_left' linorder_not_less word_n1_ge diff_0)
  then show thesis using linked [of ?n] eb by (intro that [of eb]) simp_all
qed

lemma near_forward:
  assumes "on_main (Some q)" and "ptr_number q < head"
  shows "\<exists>bt. near_step set_iter ctx (env (Some q)) (chain_ptr head) q = Ok (ProcessDescendantBlocks [bt] 1)
    \<and> ptr_of_block (finality_light_block (bt_block bt)) = (Ok (chain_ptr (ptr_number q + 1)) :: (_, unit) result)"
proof -
  let ?n = "ptr_number q + 1"
  obtain eb where eb: "be_ancestor_block (env (Some q)) (chain_ptr head) (head - ptr_number q - 1) = Ok (Some eb)"
      "eb_block eb = chain ?n"
      "block_logs (concat (map (\<lambda>r. map LogTrigger (rc_logs r)) (eb_transaction_receipts eb)))"
      "bl_hash (chain (ptr_number q)) = Some (bl_parent_hash (eb_block eb))"
    using ancestor_above [OF assms(2)] .
  then have parent: "bl_parent_hash (eb_block eb) = ptr_hash q" using assms(1) by (simp add: on_main_def)
  have ptr: "ptr_of_eth_block eb = (Ok (chain_ptr ?n) :: (_, string) result)"
    using chain_ptr_simps(3) [where 'a = string, of ?n] by (simp add: ptr_of_eth_block_def ptr_of_block_def eb(2))
  obtain h where h: "bl_hash (chain ?n) = Some h" using chain_hash by blast
  obtain cs where cs: "calls_in_block A ?n h = Ok cs" "\<forall>c \<in> set cs. 4 \<le> length (call_input c)"
    using block_calls [OF inc_le [OF assms(2)] h] by blast
  define calls where "calls = (if \<not> cx_include_calls_in_blocks ctx \<or> eb_transaction_receipts eb = [] then [] else cs)"
  have sel: "\<forall>c \<in> set calls. 4 \<le> length (call_input c)" using cs(2) by (simp add: calls_def)
  obtain bt where bt: "triggers_in_nonfinal_block set_iter (cx_log_filter ctx) (cx_call_filter ctx) (cx_block_filter ctx)
        \<lparr>bc_block = eb, bc_calls = calls\<rparr> = (Ok bt :: (_, string) result)"
      "bt_block bt = NonFinal \<lparr>bc_block = eb, bc_calls = calls\<rparr>"
    using triggers_in_nonfinal_block_Ok [of "\<lparr>bc_block = eb, bc_calls = calls\<rparr>" "chain_ptr ?n" set_iter "cx_log_filter ctx"
        "cx_call_filter ctx" "cx_block_filter ctx"] ptr sel eb(3) by auto
  have "near_step set_iter ctx (env (Some q)) (chain_ptr head) q = Ok (ProcessDescendantBlocks [bt] 1)"
    using bt(1) eb(1) parent cs(1) h
    by (auto simp: near_step_def triggers_in_block_def calls_def env_adapter eb(2) chain_number split: if_splits)
  then show ?thesis using bt(2) by (simp add: eb(2))
qed

lemma uncled_step:
  assumes "\<not> on_main (Some q)" and "ptr_number q < head"
  shows "near_step set_iter ctx (env (Some q)) (chain_ptr head) q = Ok (RevertBlock q)"
    and "far_step set_iter cfg ctx (env (Some q)) (chain_ptr head) (Some q) r = Ok (RevertBlock q)"
proof -
  show "far_step set_iter cfg ctx (env (Some q)) (chain_ptr head) (Some q) r = Ok (RevertBlock q)"
    using assms by (simp add: far_step_def env_adapter main_chain on_main_def)
  obtain eb where eb: "be_ancestor_block (env (Some q)) (chain_ptr head) (head - ptr_number q - 1) = Ok (Some eb)"
      "bl_hash (chain (ptr_number q)) = Some (bl_parent_hash (eb_block eb))"
    using ancestor_above [OF assms(2)] by blast
  then have "bl_parent_hash (eb_block eb) \<noteq> ptr_hash q" using assms(1) by (simp add: on_main_def)
  then show "near_step set_iter ctx (env (Some q)) (chain_ptr head) q = Ok (RevertBlock q)"
    using eb(1) by (simp add: near_step_def)
qed

text \<open>One reconciliation: forward when the pointer is on the chain, one block back when it is not.\<close>

lemma reconcile_forward:
  assumes "behind p" and "on_main p" and "range_ok cfg ctx" and "unat head + unat (MAX_BLOCK_RANGE_SIZE cfg) < 2 ^ 64"
    and "log_filter_wf (cx_log_filter ctx)"
  shows "\<exists>bs n k. next_blocks set_iter cfg ctx [env p] = ([], Some (Ok (Blocks bs n)))
    \<and> bs \<noteq> [] \<and> (\<forall>b \<in> set bs. \<exists>i. ptr_of_block (finality_light_block (bt_block b)) = (Ok (chain_ptr i) :: (_, unit) result))
    \<and> ptr_of_block (finality_light_block (bt_block (last bs))) = (Ok (chain_ptr k) :: (_, unit) result)
    \<and> height p \<le> unat k \<and> k \<le> head"
proof -
  let ?r = "min (cx_reorg_threshold ctx) head"
  have head: "be_chain_head_ptr (env p) = Ok (Some (chain_ptr head))" by (simp add: env_head chain_ptr_def)
  consider (near) q where "p = Some q" "\<not> head - ptr_number q > ?r"
    | (far) "get_next_step set_iter cfg ctx (env p) = far_step set_iter cfg ctx (env p) (chain_ptr head) p ?r"
        "height p \<le> unat (head - ?r)"
  proof (cases p)
    case None
    then show thesis using head far by (simp add: get_next_step_def env_ptr height_def Let_def)
  next
    case (Some q)
    show thesis
    proof (cases "head - ptr_number q > ?r")
      case True
      have "ptr_number q < head" using assms(1) Some by (simp add: behind_def)
      moreover from this have "height p \<le> unat (head - ?r)"
        using True Some min.cobounded2 [of "cx_reorg_threshold ctx" head]
        by (simp add: height_def word_less_nat_alt word_le_nat_alt unat_sub_if_size del: min.cobounded2)
      moreover have "get_next_step set_iter cfg ctx (env p) = far_step set_iter cfg ctx (env p) (chain_ptr head) p ?r"
        using True head Some \<open>ptr_number q < head\<close>
        by (auto simp: get_next_step_def env_ptr Let_def)
      ultimately show thesis using far by blast
    qed (use Some near in blast)
  qed
  then show ?thesis
  proof cases
    case near
    have q: "ptr_number q < head" using assms(1) near(1) by (simp add: behind_def)
    obtain bt where bt: "near_step set_iter ctx (env (Some q)) (chain_ptr head) q = Ok (ProcessDescendantBlocks [bt] 1)"
        "ptr_of_block (finality_light_block (bt_block bt)) = (Ok (chain_ptr (ptr_number q + 1)) :: (_, unit) result)"
      using near_forward q assms(2) near(1) by blast
    have "get_next_step set_iter cfg ctx (env p) = Ok (ProcessDescendantBlocks [bt] 1)"
      using near q head bt(1) by (simp add: get_next_step_def env_ptr Let_def)
    moreover have "unat (ptr_number q + 1) = unat (ptr_number q) + 1"
      using q unsigned_less [of head, where 'a = nat]
      by (simp add: word_less_nat_alt unat_word_ariths del: unsigned_less)
    ultimately show ?thesis
      using bt(2) q near(1)
      by (intro exI [of _ "[bt]"] exI [of _ 1] exI [of _ "ptr_number q + 1"])
        (auto simp: height_def word_less_nat_alt word_le_nat_alt)
  next
    case far
    then show ?thesis
      using far_forward [OF assms(2,1,3) min.cobounded2 far(2) assms(4,5), of set_iter] by fastforce
  qed
qed

lemma reconcile_revert:
  assumes "behind (Some q)" and "\<not> on_main (Some q)"
  shows "\<exists>q'. next_blocks set_iter cfg ctx [env (Some q)] = ([RevertBlockOperations q q'], Some (Ok NextRevert))
    \<and> behind (Some q') \<and> unat (ptr_number q') < unat (ptr_number q)"
proof -
  have q: "ptr_number q < head" "known q" using assms by (auto simp: behind_def)
  have head: "be_chain_head_ptr (env (Some q)) = Ok (Some (chain_ptr head))" by (simp add: env_head chain_ptr_def)
  have "get_next_step set_iter cfg ctx (env (Some q)) = Ok (RevertBlock q)"
    using q(1) head uncled_step [OF assms(2) q(1)] by (simp add: get_next_step_def env_ptr Let_def)
  moreover have nz: "ptr_number q \<noteq> 0" using known_genesis [OF q(2)] assms(2) by (auto simp: on_main_def)
  moreover obtain b bs where b: "load_blocks A {ptr_hash q} = Ok (b # bs)" "bl_number b = Some (ptr_number q)"
      "known (BlockPtr (bl_parent_hash b) (ptr_number q - 1))"
    using known_block [OF q(2)] nz by blast
  ultimately have "next_blocks set_iter cfg ctx [env (Some q)] =
      ([RevertBlockOperations q (BlockPtr (bl_parent_hash b) (ptr_number q - 1))], Some (Ok NextRevert))"
    by (simp add: env_adapter parent_ptr_def light_number_def env_revert)
  moreover have "unat (ptr_number q - 1) < unat (ptr_number q)" using nz by (simp add: unat_minus_one unat_gt_0)
  ultimately show ?thesis using q(1) b(3) by (auto simp: behind_def word_less_nat_alt)
qed

definition gap :: "block_pointer option \<Rightarrow> nat" where
  "gap p = (if on_main p then unat head + 1 - height p else unat head + 1 + height p)"

definition reconciling :: "block_stream \<Rightarrow> bool" where
  "reconciling s \<longleftrightarrow> bs_state s = New \<or> bs_state s = YieldingBlocks [] \<or> (\<exists>ctx. bs_state s = Reconciliation ctx)"

definition filters_ok :: "block_stream \<Rightarrow> bool" where
  "filters_ok s \<longleftrightarrow> log_filter_wf (cx_log_filter (bs_ctx s))
     \<and> (\<forall>ctx. bs_state s = Reconciliation ctx \<longrightarrow> log_filter_wf (cx_log_filter ctx))"

lemma drive_forward:
  assumes "behind p" and "on_main p" and "reconciling s" and "stream_ok cfg (bs_state s) s"
    and "unat head + unat (MAX_BLOCK_RANGE_SIZE cfg) < 2 ^ 64" and "filters_ok s"
  shows "\<exists>m s' k. (drive set_iter cfg env ^^ m) (s, p) = (s', Some (chain_ptr k))
    \<and> reconciling s' \<and> filters_ok s' \<and> stream_ok cfg (bs_state s') s' \<and> height p \<le> unat k \<and> k \<le> head"
proof -
  let ?pe = "\<lparr>pe_envs = [env p], pe_delay_over = True, pe_head = HeadNotReady\<rparr>"
  let ?s0 = "s\<lparr>bs_state := Transition\<rparr>"
  obtain ctx where ctx: "range_ok cfg ctx" "log_filter_wf (cx_log_filter ctx)" "poll_loop set_iter cfg [?pe] (bs_state s) ?s0 =
      poll_loop set_iter cfg [?pe] (Reconciliation ctx) ?s0"
    using assms(3,4,6) by (auto simp: reconciling_def stream_ok_def filters_ok_def)
  obtain bs n k where nb: "next_blocks set_iter cfg ctx [env p] = ([], Some (Ok (Blocks bs n)))" "bs \<noteq> []"
      "\<forall>b \<in> set bs. \<exists>i. ptr_of_block (finality_light_block (bt_block b)) = (Ok (chain_ptr i) :: (_, unit) result)"
      "ptr_of_block (finality_light_block (bt_block (last bs))) = (Ok (chain_ptr k) :: (_, unit) result)"
      "height p \<le> unat k" "k \<le> head"
    using reconcile_forward [OF assms(1,2) ctx(1) assms(5) ctx(2)] by blast
  obtain g where "\<forall>b \<in> set bs. ptr_of_block (finality_light_block (bt_block b)) = (Ok (chain_ptr (g b)) :: (_, unit) result)"
    using bchoice [OF nb(3)] by blast
  then obtain f where f: "\<forall>b \<in> set bs. ptr_of_block (finality_light_block (bt_block b)) = (Ok (f b) :: (_, unit) result)"
    by (intro that [of "\<lambda>b. chain_ptr (g b)"])
  have last: "f (last bs) = chain_ptr k" using f nb(2,4) by simp
  obtain b bs' where bs: "bs = b # bs'" using nb(2) by (cases bs) auto
  let ?s1 = "?s0\<lparr>bs_consecutive_err_count := 0, bs_ctx := after_blocks bs n (bs_ctx s), bs_state := YieldingBlocks bs'\<rparr>"
  have poll: "poll_blocks set_iter cfg [?pe] s = ([], Ready (BlockEvent b), ?s1)"
    unfolding poll_blocks_def ctx(3) using nb(1) by (simp add: bs)
  then have d1: "drive set_iter cfg env (s, p) = (?s1, Some (f b))"
    using f by (simp add: drive_def ptr_after_def bs)
  have "stream_ok cfg (bs_state s) ?s0" using assms(4) by (simp add: stream_ok_def)
  from poll_loop_ok [OF this poll [unfolded poll_blocks_def]]
  have ok: "range_ok cfg (bs_ctx ?s1)" by (simp add: stream_ok_def)
  have "(drive set_iter cfg env ^^ length bs') (?s1, Some (f b)) =
      (?s1\<lparr>bs_state := YieldingBlocks []\<rparr>, if bs' = [] then Some (f b) else Some (f (last bs')))"
    by (rule drive_yield) (use f bs in auto)
  then have "(drive set_iter cfg env ^^ Suc (length bs')) (s, p) =
      (?s1\<lparr>bs_state := YieldingBlocks []\<rparr>, Some (chain_ptr k))"
    using last unfolding bs funpow_Suc_right comp_apply d1 by (simp split: if_splits)
  then show ?thesis
    using ok nb(5,6) assms(6)
    by (intro exI conjI) (assumption | auto simp: reconciling_def stream_ok_def filters_ok_def after_blocks_def)+
qed

lemma drive_revert:
  assumes "behind p" and "\<not> on_main p" and "reconciling s" and "stream_ok cfg (bs_state s) s"
    and "filters_ok s"
  shows "\<exists>s' q'. drive set_iter cfg env (s, p) = (s', Some q') \<and> reconciling s' \<and> filters_ok s' \<and> stream_ok cfg (bs_state s') s'
    \<and> behind (Some q') \<and> height (Some q') < height p"
proof -
  let ?pe = "\<lparr>pe_envs = [env p], pe_delay_over = True, pe_head = HeadNotReady\<rparr>"
  let ?s0 = "s\<lparr>bs_state := Transition\<rparr>"
  obtain q where q: "p = Some q" using assms(2) by (cases p) (auto simp: on_main_def)
  obtain ctx where ctx: "poll_loop set_iter cfg [?pe] (bs_state s) ?s0 =
      poll_loop set_iter cfg [?pe] (Reconciliation ctx) ?s0"
    using assms(3) by (auto simp: reconciling_def)
  obtain q' where q': "next_blocks set_iter cfg ctx [env p] = ([RevertBlockOperations q q'], Some (Ok NextRevert))"
      "behind (Some q')" "unat (ptr_number q') < unat (ptr_number q)"
    using reconcile_revert assms(1,2) q by blast
  have "drive set_iter cfg env (s, p) = (s\<lparr>bs_state := Reconciliation (bs_ctx s)\<rparr>, Some q')"
    using q' by (simp add: drive_def poll_blocks_def ctx ptr_after_def)
  then show ?thesis
    using q' q assms(4,5) by (auto simp: reconciling_def stream_ok_def filters_ok_def height_def)
qed

lemma reaches_head:
  assumes "behind p" and "reconciling s" and "stream_ok cfg (bs_state s) s" and "filters_ok s"
    and "unat head + unat (MAX_BLOCK_RANGE_SIZE cfg) < 2 ^ 64"
  shows "\<exists>m s'. (drive set_iter cfg env ^^ m) (s, p) = (s', Some (chain_ptr head))"
  using assms(1-4)
proof (induction "gap p" arbitrary: p s rule: less_induct)
  case less
  have go: "\<exists>m s''. (drive set_iter cfg env ^^ m) (s, p) = (s'', Some (chain_ptr head))"
    if "(drive set_iter cfg env ^^ m1) (s, p) = (s', p')" "behind p'" "gap p' < gap p"
      "reconciling s'" "stream_ok cfg (bs_state s') s'" "filters_ok s'" for m1 s' p'
    using less.hyps [OF that(3,2,4,5,6)] that(1) by (metis comp_apply funpow_add)
  show ?case
  proof (cases "on_main p")
    case True
    obtain m s' k where d: "(drive set_iter cfg env ^^ m) (s, p) = (s', Some (chain_ptr k))"
        "reconciling s'" "stream_ok cfg (bs_state s') s'" "height p \<le> unat k" "k \<le> head" "filters_ok s'"
      using drive_forward [OF less.prems(1) True less.prems(2,3) assms(5) less.prems(4)] by blast
    show ?thesis
    proof (cases "k = head")
      case False
      with d(5) have "k < head" by simp
      then have "behind (Some (chain_ptr k))" by (simp add: behind_def)
      moreover have "gap (Some (chain_ptr k)) < gap p"
        using d(4) True \<open>k < head\<close> by (simp add: gap_def height_def word_less_nat_alt split: option.splits)
      ultimately show ?thesis using go d by blast
    qed (use d in blast)
  next
    case False
    obtain s' q' where d: "drive set_iter cfg env (s, p) = (s', Some q')" "reconciling s'"
        "stream_ok cfg (bs_state s') s'" "behind (Some q')" "height (Some q') < height p" "filters_ok s'"
      using drive_revert [OF less.prems(1) False less.prems(2-4)] by blast
    moreover have "gap (Some q') < gap p" using d(5) False by (auto simp: gap_def)
    ultimately show ?thesis using go [of 1 s' "Some q'"] by simp
  qed
qed

end

section \<open>A stable chain behind the adapter\<close>

text \<open>
  The same over JSON-RPC: the node of locale \<open>web3_node\<close> with the head as its last block answers in
  the end for every known block, and every block has at least the trace of its reward.
\<close>

locale web3_chain = web3_node ord c store chain head node_logs node_traces
  for ord :: iter_orders and c :: eth_client and store :: chain_store and chain :: "u64 \<Rightarrow> light_block" and head :: u64
    and node_logs :: "u64 \<Rightarrow> eth_log list" and node_traces :: "u64 \<Rightarrow> trace list" +
  fixes env :: "block_pointer option \<Rightarrow> bs_env" and known :: "block_pointer \<Rightarrow> bool"
  assumes rpc_adapter: "be_adapter (env p) = adapter_of ord c store"
    and rpc_head: "be_chain_head_ptr (env p) = Ok (Some (BlockPtr (the (bl_hash (chain head))) head))"
    and rpc_ptr: "be_block_ptr (env p) = Ok p"
    and rpc_revert: "be_revert_block_operations (env (Some q)) q parent = Ok ()"
    and rpc_ancestor: "k \<le> head \<Longrightarrow>
      \<exists>eb. be_ancestor_block (env p) (BlockPtr (the (bl_hash (chain head))) head) k = Ok (Some eb)
        \<and> eb_block eb = chain (head - k)
        \<and> block_logs (concat (map (\<lambda>r. map LogTrigger (rc_logs r)) (eb_transaction_receipts eb)))"
    and rpc_linked: "n \<noteq> 0 \<Longrightarrow> bl_hash (chain (n - 1)) = Some (bl_parent_hash (chain n))"
    and rpc_traces: "n \<le> head \<Longrightarrow> node_traces n \<noteq> []"
    and rpc_known: "known q \<Longrightarrow> \<exists>b. (\<exists>i < unat (REQUEST_RETRIES c).
          (\<forall>j < i. w3_block_with_txs (ec_web3 c) (ByHash (ptr_hash q)) j = Ok None
            \<or> (\<exists>e. w3_block_with_txs (ec_web3 c) (ByHash (ptr_hash q)) j = Err e))
          \<and> w3_block_with_txs (ec_web3 c) (ByHash (ptr_hash q)) i = Ok (Some b))
        \<and> (\<forall>n. bl_hash (chain n) = Some (ptr_hash q) \<longrightarrow> b = chain n)
        \<and> bl_number b = Some (ptr_number q)
        \<and> (ptr_number q \<noteq> 0 \<longrightarrow> known (BlockPtr (bl_parent_hash b) (ptr_number q - 1)))"
    and rpc_genesis: "known q \<Longrightarrow> ptr_number q = 0 \<Longrightarrow> bl_hash (chain 0) = Some (ptr_hash q)"

sublocale web3_chain \<subseteq> rpc: stable_chain "adapter_of ord c store" chain head env known
proof (unfold_locales, goal_cases)
  case (7 q)
  then show ?case using on_main_chain_ok by (simp add: adapter_of_def)
next
  case (8 n h)
  then show ?case using block_calls_ok rpc_traces by (force simp: adapter_of_def)
next
  case (9 q)
  then obtain b i where i: "i < unat (REQUEST_RETRIES c)"
      "\<forall>j < i. w3_block_with_txs (ec_web3 c) (ByHash (ptr_hash q)) j = Ok None
            \<or> (\<exists>e. w3_block_with_txs (ec_web3 c) (ByHash (ptr_hash q)) j = Err e)"
      "w3_block_with_txs (ec_web3 c) (ByHash (ptr_hash q)) i = Ok (Some b)"
      "\<And>n. bl_hash (chain n) = Some (ptr_hash q) \<Longrightarrow> b = chain n"
    and b: "bl_number b = Some (ptr_number q)" "ptr_number q \<noteq> 0 \<longrightarrow> known (BlockPtr (bl_parent_hash b) (ptr_number q - 1))"
    using rpc_known by blast
  have "\<exists>bs. snd (bulk_blocks ord c store {ptr_hash q}) = Some (Ok (b # bs))" by (rule bulk_block_ok [OF i])
  with b show ?case by (auto simp: adapter_of_def)
qed (use rpc_adapter rpc_head rpc_ptr rpc_revert rpc_ancestor rpc_linked rpc_genesis in auto)

section \<open>Properties\<close>

text \<open>C3. While the chain head stays put, a new block stream together with a consumer that processes the
  blocks it is given brings the subgraph's pointer to the head in finitely many polls, from no
  pointer at all or from any known block below the head: an uncled block is reverted until the
  pointer is back on the chain, and from there every reconciliation moves it forward.\<close>

theorem stream_reaches_head:
  assumes "stable_chain A chain head env known"
    and "1 \<le> MAX_BLOCK_RANGE_SIZE cfg" and "MAX_BLOCK_RANGE_SIZE cfg < 2 ^ 53"
    and "unat head + unat (MAX_BLOCK_RANGE_SIZE cfg) < 2 ^ 64"
    and "\<forall>q. p = Some q \<longrightarrow> ptr_number q < head \<and> known q" and "log_filter_wf lf"
  shows "\<exists>m s'. (drive set_iter cfg env ^^ m)
      (block_stream_new i lf cf bf start_blocks include_calls reorg_threshold, p) =
    (s', Some (BlockPtr (the (bl_hash (chain head))) head))"
proof -
  let ?s = "block_stream_new i lf cf bf start_blocks include_calls reorg_threshold"
  have "stable_chain.behind chain head known p"
    using assms(5) by (auto simp: stable_chain.behind_def [OF assms(1)] split: option.splits)
  moreover have "stable_chain.reconciling ?s"
    by (simp add: stable_chain.reconciling_def [OF assms(1)] block_stream_new_def)
  moreover have "stable_chain.filters_ok ?s"
    using assms(6) by (simp add: stable_chain.filters_ok_def [OF assms(1)] block_stream_new_def)
  moreover have "stream_ok cfg (bs_state ?s) ?s"
    by (rule polled_stream_ok [OF polled_new assms(2,3)])
  ultimately show ?thesis
    using stable_chain.reaches_head [OF assms(1)] assms(4)
    unfolding stable_chain.chain_ptr_def [OF assms(1)] by blast
qed

definition demo_env :: "block_pointer option \<Rightarrow> bs_env" where
  "demo_env p = \<lparr>
     be_adapter = adapter_of demo_orders demo_client demo_chain_store,
     be_chain_head_ptr = Ok (Some (BlockPtr (demo_hash 60) 60)),
     be_ancestor_block = (\<lambda>q k. Ok (Some \<lparr>eb_block = demo_chain (ptr_number q - k), eb_transaction_receipts = []\<rparr>)),
     be_block_ptr = Ok p,
     be_revert_block_operations = (\<lambda>q parent. Ok ()),
     be_find = (\<lambda>q. Ok []),
     be_apply_metadata_operations = (\<lambda>ops. Ok ())\<rparr>"

definition demo_known :: "block_pointer \<Rightarrow> bool" where
  "demo_known q \<longleftrightarrow> q = BlockPtr [1] 3 \<or> ptr_hash q = demo_hash (ptr_number q)"

interpretation demo_stable: web3_chain demo_orders demo_client demo_chain_store demo_chain 60 demo_logs demo_traces demo_env demo_known
proof (unfold_locales, goal_cases)
  case (8 q)
  then show ?case
    by (cases q) (auto simp: demo_known_def demo_client_def demo_web3_def demo_fork_def demo_chain_def demo_fork_hash demo_hash_length
        intro!: exI [of _ 0])
qed (auto simp: demo_env_def demo_chain_def demo_known_def demo_traces_def block_logs_def logs_of_def map_filter_simps)

theorem stream_reaches_head_witness:
  "\<exists>m s'. (drive sorted_list_of_set \<lparr>MAX_BLOCK_RANGE_SIZE = 2000, TARGET_TRIGGERS_PER_BLOCK_RANGE = 100\<rparr> demo_env ^^ m)
      (block_stream_new ''Qm'' log_filter_default [] block_filter_default [7] True 50, Some (BlockPtr [1] 3)) =
    (s', Some (BlockPtr (demo_hash 60) 60))"
  using stream_reaches_head [OF demo_stable.rpc.stable_chain_axioms,
      of "\<lparr>MAX_BLOCK_RANGE_SIZE = 2000, TARGET_TRIGGERS_PER_BLOCK_RANGE = 100\<rparr>" "Some (BlockPtr [1] 3)"
        log_filter_default sorted_list_of_set "''Qm''" "[]" block_filter_default "[7]" True 50]
  by (simp add: demo_known_def demo_chain_def log_filter_wf_default)

lemma promote_mem:
  assumes "try_map promote subgraphs = (Ok ops :: (_, string) result)" and "sg \<in> set subgraphs"
  shows "\<exists>j v. entity_id_of sg = Ok j \<and> map_of sg ''pendingVersion'' = Some v
    \<and> MetaSet ''Subgraph'' j [(''id'', VString j), (''pendingVersion'', VNull), (''currentVersion'', v)] \<in> set ops"
proof -
  obtain op where "op \<in> set ops" "promote sg = (Ok op :: (_, string) result)" using try_map_mem [OF assms] by blast
  then show ?thesis
    by (cases "map_of sg ''pendingVersion''")
      (auto simp: promote_def entity_id_unwrap_def result_simps split: result.splits)
qed

lemma wanted_demote: "wanted_deployments (map (demote ids) vs) \<subseteq> wanted_deployments vs"
  by (auto simp: wanted_deployments_def demote_def should_have_assignment_def split: if_splits)

lemma reconcile_demoted:
  "\<exists>ds. reconcile_assignments vs (map (demote ids) vs) None = Ok (map (MetaRemove ASSIGNMENT) ds)
    \<and> set ds = wanted_deployments vs - wanted_deployments (map (demote ids) vs)"
proof -
  have "filter (\<lambda>d. d \<notin> set (assigned_deployments vs)) (assigned_deployments (map (demote ids) vs)) = []"
    using wanted_demote by (auto simp: filter_empty_conv set_assigned_deployments)
  then show ?thesis by (auto simp: reconcile_assignments_def Let_def set_assigned_deployments)
qed

lemma read_summaries_ops:
  "read_subgraph_version_summaries f ds = Ok (vs, ops) \<Longrightarrow> op \<in> set ops \<Longrightarrow> \<exists>d q ids. op = AbortUnless d q ids"
  by (auto simp: read_subgraph_version_summaries_def Let_def result_simps)

lemma promote_ops: "try_map promote sgs = Ok ops \<Longrightarrow> op \<in> set ops \<Longrightarrow> \<exists>j d. op = MetaSet ''Subgraph'' j d"
  by (induction sgs arbitrary: ops) (auto simp: promote_def result_simps)

lemma synced_operations_effect:
  assumes "synced_operations store_find i = Ok ops"
  obtains versions vids sgs where "store_find (versions_of_deployment i) = Ok versions"
    and "try_map entity_id_unwrap versions = (Ok vids :: (_, string) result)" and "store_find (pending_subgraphs vids) = Ok sgs"
    and "MetaUpdate ''SubgraphDeployment'' i [(''synced'', VBool True)] \<in> set ops"
    and "\<forall>sg \<in> set sgs. \<exists>j v. entity_id_of sg = Ok j \<and> map_of sg ''pendingVersion'' = Some v
      \<and> MetaSet ''Subgraph'' j [(''id'', VString j), (''pendingVersion'', VNull), (''currentVersion'', v)] \<in> set ops"
    and "\<forall>j d. MetaSet ASSIGNMENT j d \<notin> set ops"
proof -
  obtain versions vids sgs sids currents cvs affected vs read_ops asg promotions where
    e: "store_find (versions_of_deployment i) = Ok versions"
      "try_map entity_id_unwrap versions = (Ok vids :: (_, string) result)"
      "store_find (pending_subgraphs vids) = Ok sgs"
      "read_subgraph_version_summaries store_find (remdups affected) = Ok (vs, read_ops)"
      "no_error (reconcile_assignments vs (map (demote (List.map_filter id currents)) vs) None) = (Ok asg :: (_, string) result)"
      "try_map promote sgs = (Ok promotions :: (_, string) result)"
    and ops: "ops = update_synced_operations i True
            @ [AbortUnless ''The same subgraph version entities must point to this deployment''
                 (versions_of_deployment i) vids,
               AbortUnless ''The same subgraph entities must have these versions pending''
                 (pending_subgraphs vids) sids] @ read_ops @ asg @ promotions"
    using assms unfolding synced_operations_def Let_def result_simps by (clarsimp simp: result_simps)
  have "\<exists>ds. asg = map (MetaRemove ASSIGNMENT) ds"
    using e(5) reconcile_demoted [of vs "List.map_filter id currents"] by auto
  then have "\<forall>j d. MetaSet ASSIGNMENT j d \<notin> set ops"
    using read_summaries_ops [OF e(4)] promote_ops [OF e(6)]
    by (auto simp: ops update_synced_operations_def update_metadata_operation_def ASSIGNMENT_def)
  moreover have promotions: "set promotions \<subseteq> set ops" by (auto simp: ops)
  have "\<forall>sg \<in> set sgs. \<exists>j v. entity_id_of sg = Ok j \<and> map_of sg ''pendingVersion'' = Some v
      \<and> MetaSet ''Subgraph'' j [(''id'', VString j), (''pendingVersion'', VNull), (''currentVersion'', v)] \<in> set ops"
    using promote_mem [OF e(6)] promotions by blast
  moreover have "MetaUpdate ''SubgraphDeployment'' i [(''synced'', VBool True)] \<in> set ops"
    by (simp add: ops update_synced_operations_def update_metadata_operation_def)
  ultimately show thesis using that e(1-3) by blast
qed

text \<open>C18. Marking a deployment as synced: nothing is written unless the subgraph's pointer is the chain
  head; then the one transaction sets the synced flag, promotes the pending version of every
  subgraph that waited for this deployment to its current version, and assigns no deployment to a
  node.\<close>

theorem synced_status_effect:
  assumes "update_subgraph_synced_status i env = (writes, Ok ())"
  shows "writes = [] \<and> (be_chain_head_ptr env \<noteq> be_block_ptr env \<or> be_block_ptr env = Ok None)
    \<or> (\<exists>ptr ops versions vids sgs. writes = [ApplyMetadataOperations ops]
        \<and> be_chain_head_ptr env = Ok (Some ptr) \<and> be_block_ptr env = Ok (Some ptr)
        \<and> MetaUpdate ''SubgraphDeployment'' i [(''synced'', VBool True)] \<in> set ops
        \<and> be_find env (versions_of_deployment i) = Ok versions
        \<and> try_map entity_id_unwrap versions = (Ok vids :: (_, string) result)
        \<and> be_find env (pending_subgraphs vids) = Ok sgs
        \<and> (\<forall>sg \<in> set sgs. \<exists>j v. entity_id_of sg = Ok j \<and> map_of sg ''pendingVersion'' = Some v
            \<and> MetaSet ''Subgraph'' j [(''id'', VString j), (''pendingVersion'', VNull), (''currentVersion'', v)] \<in> set ops)
        \<and> (\<forall>j d. MetaSet ASSIGNMENT j d \<notin> set ops))"
proof -
  let ?r = "and_then (be_chain_head_ptr env) (\<lambda>h. and_then (be_block_ptr env) (\<lambda>p.
      if h \<noteq> p \<or> h = None \<or> p = None then Ok None
      else and_then (synced_operations (be_find env) i) (\<lambda>ops. Ok (Some ops))))"
  obtain res where res: "?r = Ok res" using assms
    by (cases ?r) (auto simp: update_subgraph_synced_status_def)
  show ?thesis
  proof (cases res)
    case None
    then show ?thesis using res assms
      by (auto simp: update_subgraph_synced_status_def result_simps split: if_splits)
  next
    case (Some ops)
    then obtain ptr where p: "be_chain_head_ptr env = Ok (Some ptr)" "be_block_ptr env = Ok (Some ptr)"
        "synced_operations (be_find env) i = Ok ops"
      using res by (auto simp: result_simps split: if_splits)
    have "writes = [ApplyMetadataOperations ops]"
      using assms p by (auto simp: update_subgraph_synced_status_def split: result.splits)
    with p show ?thesis using synced_operations_effect [OF p(3)] by metis
  qed
qed

theorem synced_status_effect_witness:
  "\<exists>ops. update_subgraph_synced_status ''Qm'' (demo_env (Some (BlockPtr (demo_hash 60) 60))) = ([ApplyMetadataOperations ops], Ok ())
    \<and> MetaUpdate ''SubgraphDeployment'' ''Qm'' [(''synced'', VBool True)] \<in> set ops"
proof -
  let ?e = "demo_env (Some (BlockPtr (demo_hash 60) 60))"
  obtain ws where ws: "update_subgraph_synced_status ''Qm'' ?e = (ws, Ok ())"
    by (simp add: update_subgraph_synced_status_def demo_env_def synced_operations_def map_filter_simps
        read_subgraph_version_summaries_def reconcile_assignments_def assigned_deployments_def)
  have "be_chain_head_ptr ?e = be_block_ptr ?e" "be_block_ptr ?e \<noteq> Ok None" by (simp_all add: demo_env_def)
  then show ?thesis using synced_status_effect [OF ws] ws by auto
qed

end
