(* ===== verification/GqlAst.thy ===== *)
theory GqlAst
  imports Values "HOL-Library.Sublist"
begin

text \<open>
  GraphQL schemas and queries as the code sees them, and the helpers over them:
  \<open>graphql/src/schema/ast.rs\<close>, \<open>graphql/src/query/ast.rs\<close>, \<open>graph/src/data/graphql/ext.rs\<close>,
  \<open>object_or_interface.rs\<close>. The syntax trees of the \<open>graphql_parser\<close> crate appear with the fields the
  code reads; descriptions and the positions of schema nodes are left out.
\<close>

section \<open>Schema documents\<close>

record directive =
  dir_name :: string
  dir_arguments :: "(string \<times> qvalue) list"

record input_value =
  iv_position :: pos
  iv_name :: string
  iv_value_type :: gtype
  iv_default_value :: "qvalue option"

record field_def =
  fd_name :: string
  fd_arguments :: "input_value list"
  fd_field_type :: gtype
  fd_directives :: "directive list"

record object_type =
  ot_name :: string
  ot_implements_interfaces :: "string list"
  ot_directives :: "directive list"
  ot_fields :: "field_def list"

record interface_type =
  it_name :: string
  it_directives :: "directive list"
  it_fields :: "field_def list"

record scalar_type =
  st_name :: string
  st_directives :: "directive list"

record union_type =
  un_name :: string
  un_directives :: "directive list"
  un_types :: "string list"

record enum_type =
  en_name :: string
  en_directives :: "directive list"
  en_values :: "string list"

record input_object_type =
  io_name :: string
  io_directives :: "directive list"
  io_fields :: "input_value list"

datatype type_definition =
    ScalarDef scalar_type
  | ObjectDef object_type
  | InterfaceDef interface_type
  | UnionDef union_type
  | EnumDef enum_type
  | InputObjectDef input_object_type

datatype directive_location =
    LocQuery | LocMutation | LocSubscription | LocField | LocFragmentDefinition | LocFragmentSpread
  | LocInlineFragment | LocSchema | LocScalar | LocObject | LocFieldDefinition | LocArgumentDefinition
  | LocInterface | LocUnion | LocEnum | LocEnumValue | LocInputObject | LocInputFieldDefinition

record directive_definition =
  dd_name :: string
  dd_arguments :: "input_value list"
  dd_locations :: "directive_location list"

datatype schema_definition =
    TypeDefinition type_definition
  | DirectiveDefinition directive_definition
  | OtherDefinition

type_synonym document = "schema_definition list"

datatype object_or_interface = IsObject object_type | IsInterface interface_type

fun oi_name :: "object_or_interface \<Rightarrow> string" where
  "oi_name (IsObject t) = ot_name t"
| "oi_name (IsInterface t) = it_name t"

fun oi_directives :: "object_or_interface \<Rightarrow> directive list" where
  "oi_directives (IsObject t) = ot_directives t"
| "oi_directives (IsInterface t) = it_directives t"

fun oi_fields :: "object_or_interface \<Rightarrow> field_def list" where
  "oi_fields (IsObject t) = ot_fields t"
| "oi_fields (IsInterface t) = it_fields t"

text \<open>\<open>types_for_interface[&name]\<close> panics when the interface is missing.\<close>

definition oi_matches ::
  "object_or_interface \<Rightarrow> string \<Rightarrow> (string, object_type list) btreemap \<Rightarrow> (bool, 'e) result" where
  "oi_matches oi typename types_for_interface =
     (case oi of
        IsObject t \<Rightarrow> Ok (ot_name t = typename)
      | IsInterface i \<Rightarrow>
          and_then (expect (map_of types_for_interface (it_name i))) (\<lambda>ts. Ok (list_ex (\<lambda>t. ot_name t = typename) ts)))"

section \<open>Looking things up in a schema\<close>

fun get_type_name :: "type_definition \<Rightarrow> string" where
  "get_type_name (EnumDef t) = en_name t"
| "get_type_name (InputObjectDef t) = io_name t"
| "get_type_name (InterfaceDef t) = it_name t"
| "get_type_name (ObjectDef t) = ot_name t"
| "get_type_name (ScalarDef t) = st_name t"
| "get_type_name (UnionDef t) = un_name t"

definition get_type_definitions :: "document \<Rightarrow> type_definition list" where
  "get_type_definitions schema =
     List.map_filter (\<lambda>d. case d of TypeDefinition t \<Rightarrow> Some t | _ \<Rightarrow> None) schema"

definition get_named_type :: "document \<Rightarrow> string \<Rightarrow> type_definition option" where
  "get_named_type schema name = find (\<lambda>t. get_type_name t = name) (get_type_definitions schema)"

definition get_object_type_definitions :: "document \<Rightarrow> object_type list" where
  "get_object_type_definitions schema =
     List.map_filter (\<lambda>d. case d of TypeDefinition (ObjectDef t) \<Rightarrow> Some t | _ \<Rightarrow> None) schema"

definition get_interface_type_definitions :: "document \<Rightarrow> interface_type list" where
  "get_interface_type_definitions schema =
     List.map_filter (\<lambda>d. case d of TypeDefinition (InterfaceDef t) \<Rightarrow> Some t | _ \<Rightarrow> None) schema"

definition get_input_object_definitions :: "document \<Rightarrow> input_object_type list" where
  "get_input_object_definitions schema =
     List.map_filter (\<lambda>d. case d of TypeDefinition (InputObjectDef t) \<Rightarrow> Some t | _ \<Rightarrow> None) schema"

definition get_enum_definitions :: "document \<Rightarrow> enum_type list" where
  "get_enum_definitions schema =
     List.map_filter (\<lambda>d. case d of TypeDefinition (EnumDef t) \<Rightarrow> Some t | _ \<Rightarrow> None) schema"

definition get_object_type_definition :: "document \<Rightarrow> string \<Rightarrow> object_type option" where
  "get_object_type_definition schema name = find (\<lambda>t. ot_name t = name) (get_object_type_definitions schema)"

definition find_interface :: "document \<Rightarrow> string \<Rightarrow> interface_type option" where
  "find_interface schema name = find (\<lambda>t. it_name t = name) (get_interface_type_definitions schema)"

text \<open>Objects and interfaces by name; of two with the same name the later one stays in the map.\<close>

definition get_object_and_interface_type_fields :: "document \<Rightarrow> (string, field_def list) hashmap" where
  "get_object_and_interface_type_fields schema =
     hm_collect (List.map_filter (\<lambda>d. case d of
         TypeDefinition (ObjectDef t) \<Rightarrow> Some (ot_name t, ot_fields t)
       | TypeDefinition (InterfaceDef t) \<Rightarrow> Some (it_name t, it_fields t)
       | _ \<Rightarrow> None) schema)"

definition SCHEMA_TYPE_NAME :: string where
  "SCHEMA_TYPE_NAME = ''_Schema_''"

definition get_fulltext_directives :: "document \<Rightarrow> directive list" where
  "get_fulltext_directives schema =
     (case get_object_type_definition schema SCHEMA_TYPE_NAME of
        None \<Rightarrow> []
      | Some t \<Rightarrow> filter (\<lambda>d. dir_name d = ''fulltext'') (ot_directives t))"

definition get_root_query_type :: "document \<Rightarrow> object_type option" where
  "get_root_query_type schema = find (\<lambda>t. ot_name t = ''Query'') (get_object_type_definitions schema)"

definition get_root_subscription_type :: "document \<Rightarrow> object_type option" where
  "get_root_subscription_type schema = find (\<lambda>t. ot_name t = ''Subscription'') (get_object_type_definitions schema)"

definition get_root_query_type_def :: "document \<Rightarrow> type_definition option" where
  "get_root_query_type_def schema = map_option ObjectDef (get_root_query_type schema)"

definition object_or_interface_of :: "document \<Rightarrow> string \<Rightarrow> object_or_interface option" where
  "object_or_interface_of schema name =
     (case get_named_type schema name of
        Some (ObjectDef t) \<Rightarrow> Some (IsObject t)
      | Some (InterfaceDef t) \<Rightarrow> Some (IsInterface t)
      | _ \<Rightarrow> None)"

definition TYPENAME_FIELD :: field_def where
  "TYPENAME_FIELD = \<lparr>fd_name = ''__typename'', fd_arguments = [],
     fd_field_type = NonNullType (NamedType ''String''), fd_directives = []\<rparr>"

definition get_field :: "object_or_interface \<Rightarrow> string \<Rightarrow> field_def option" where
  "get_field oi name =
     (if name = fd_name TYPENAME_FIELD then Some TYPENAME_FIELD
      else find (\<lambda>f. fd_name f = name) (oi_fields oi))"

definition get_argument_definitions :: "object_type \<Rightarrow> string \<Rightarrow> input_value list option" where
  "get_argument_definitions t name =
     (if name = ''__type''
      then Some [\<lparr>iv_position = (0, 0), iv_name = ''name'',
                  iv_value_type = NonNullType (NamedType ''String''), iv_default_value = None\<rparr>]
      else map_option fd_arguments (get_field (IsObject t) name))"

fun get_field_value_type :: "gtype \<Rightarrow> (value_type, string) result" where
  "get_field_value_type (NamedType name) = value_type_from_str name"
| "get_field_value_type (NonNullType inner) = get_field_value_type inner"
| "get_field_value_type (ListType _) = Err ''Only scalar values are supported in this context''"

fun get_base_type :: "gtype \<Rightarrow> string" where
  "get_base_type (NamedType name) = name"
| "get_base_type (NonNullType inner) = get_base_type inner"
| "get_base_type (ListType inner) = get_base_type inner"

fun get_field_name :: "gtype \<Rightarrow> string" where
  "get_field_name (NamedType name) = name"
| "get_field_name (NonNullType inner) = get_field_name inner"
| "get_field_name (ListType inner) = get_field_name inner"

fun get_type_definition_from_type :: "document \<Rightarrow> gtype \<Rightarrow> type_definition option" where
  "get_type_definition_from_type schema (NamedType name) = get_named_type schema name"
| "get_type_definition_from_type schema (ListType inner) = get_type_definition_from_type schema inner"
| "get_type_definition_from_type schema (NonNullType inner) = get_type_definition_from_type schema inner"

definition get_type_definition_from_field :: "document \<Rightarrow> field_def \<Rightarrow> type_definition option" where
  "get_type_definition_from_field schema f = get_type_definition_from_type schema (fd_field_type f)"

definition find_directive :: "directive list \<Rightarrow> string \<Rightarrow> directive option" where
  "find_directive ds name = find (\<lambda>d. dir_name d = name) ds"

definition get_object_type_directive :: "object_type \<Rightarrow> string \<Rightarrow> directive option" where
  "get_object_type_directive t name = find (\<lambda>d. dir_name d = name) (ot_directives t)"

definition get_argument_value :: "(string \<times> qvalue) list \<Rightarrow> string \<Rightarrow> qvalue option" where
  "get_argument_value args name = map_option snd (find (\<lambda>(n, _). n = name) args)"

definition argument :: "directive \<Rightarrow> string \<Rightarrow> qvalue option" where
  "argument d name = map_option snd (find (\<lambda>(key, _). key = name) (dir_arguments d))"

fun value_as_object :: "qvalue \<Rightarrow> (string \<times> qvalue) list option" where
  "value_as_object (QObject m) = Some m"
| "value_as_object _ = None"

fun value_as_list :: "qvalue \<Rightarrow> qvalue list option" where
  "value_as_list (QList l) = Some l"
| "value_as_list _ = None"

fun value_as_string :: "qvalue \<Rightarrow> string option" where
  "value_as_string (QString s) = Some s"
| "value_as_string _ = None"

fun value_as_enum :: "qvalue \<Rightarrow> string option" where
  "value_as_enum (QEnum e) = Some e"
| "value_as_enum _ = None"

fun is_non_null_type :: "gtype \<Rightarrow> bool" where
  "is_non_null_type (NonNullType _) = True"
| "is_non_null_type _ = False"

fun is_input_type :: "document \<Rightarrow> gtype \<Rightarrow> bool" where
  "is_input_type schema (NamedType name) =
     (case get_named_type schema name of
        Some (ScalarDef _) \<Rightarrow> True
      | Some (EnumDef _) \<Rightarrow> True
      | Some (InputObjectDef _) \<Rightarrow> True
      | _ \<Rightarrow> False)"
| "is_input_type schema (ListType inner) = is_input_type schema inner"
| "is_input_type schema (NonNullType inner) = is_input_type schema inner"

fun is_entity_type_definition :: "type_definition \<Rightarrow> bool" where
  "is_entity_type_definition (ObjectDef t) = (get_object_type_directive t ''entity'' \<noteq> None)"
| "is_entity_type_definition (InterfaceDef _) = True"
| "is_entity_type_definition _ = False"

fun is_entity_type :: "document \<Rightarrow> gtype \<Rightarrow> bool" where
  "is_entity_type schema (NamedType name) =
     (case get_named_type schema name of None \<Rightarrow> False | Some t \<Rightarrow> is_entity_type_definition t)"
| "is_entity_type schema (ListType inner) = is_entity_type schema inner"
| "is_entity_type schema (NonNullType inner) = is_entity_type schema inner"

definition get_referenced_entity_type :: "document \<Rightarrow> field_def \<Rightarrow> type_definition option" where
  "get_referenced_entity_type schema f =
     (case get_type_definition_from_type schema (fd_field_type f) of
        Some ty \<Rightarrow> if is_entity_type_definition ty then Some ty else None
      | None \<Rightarrow> None)"

definition is_list_or_non_null_list_field :: "field_def \<Rightarrow> bool" where
  "is_list_or_non_null_list_field f =
     (case fd_field_type f of
        ListType _ \<Rightarrow> True
      | NonNullType (ListType _) \<Rightarrow> True
      | _ \<Rightarrow> False)"

definition get_derived_from_directive :: "field_def \<Rightarrow> directive option" where
  "get_derived_from_directive f = find (\<lambda>d. dir_name d = ''derivedFrom'') (fd_directives f)"

definition get_derived_from_field :: "object_or_interface \<Rightarrow> field_def \<Rightarrow> field_def option" where
  "get_derived_from_field oi f =
     Option.bind (get_derived_from_directive f) (\<lambda>d.
     Option.bind (get_argument_value (dir_arguments d) ''field'') (\<lambda>v.
       case v of QString s \<Rightarrow> get_field oi s | _ \<Rightarrow> None))"

section \<open>Query documents\<close>

datatype selection =
    FieldSel (sel_position: pos) (sel_alias: "string option") (sel_name: string)
      (sel_arguments: "(string \<times> qvalue) list") (sel_directives: "directive list") (sel_set: "selection list")
  | FragmentSpread string
  | InlineFragment "string option" "selection list"

record fragment_definition =
  fr_name :: string
  fr_type_condition :: string
  fr_selection_set :: "selection list"

record variable_definition =
  vd_position :: pos
  vd_name :: string
  vd_var_type :: gtype
  vd_default_value :: "qvalue option"

datatype operation_definition =
    OpSelectionSet "selection list"
  | OpQuery "string option" "variable_definition list" "selection list"
  | OpMutation "string option" "variable_definition list" "selection list"
  | OpSubscription "string option" "variable_definition list" "selection list"

datatype query_definition = Operation operation_definition | Fragment fragment_definition

fun get_operation_name :: "operation_definition \<Rightarrow> string option" where
  "get_operation_name (OpMutation n _ _) = n"
| "get_operation_name (OpQuery n _ _) = n"
| "get_operation_name (OpSelectionSet _) = None"
| "get_operation_name (OpSubscription n _ _) = n"

definition get_operations :: "query_definition list \<Rightarrow> operation_definition list" where
  "get_operations doc = List.map_filter (\<lambda>d. case d of Operation op \<Rightarrow> Some op | _ \<Rightarrow> None) doc"

definition get_operation ::
  "query_definition list \<Rightarrow> string option \<Rightarrow> (operation_definition, query_execution_error) result" where
  "get_operation doc name =
     (let operations = get_operations doc
      in case name of
           None \<Rightarrow> (case operations of [op] \<Rightarrow> Ok op | _ \<Rightarrow> Err OperationNameRequired)
         | Some s \<Rightarrow>
             if length operations > 0
             then (case find (\<lambda>op. get_operation_name op = Some s) operations of
                     Some op \<Rightarrow> Ok op
                   | None \<Rightarrow> Err (OperationNotFound s))
             else Err OperationNameRequired)"

fun get_variable_definitions :: "operation_definition \<Rightarrow> variable_definition list option" where
  "get_variable_definitions (OpQuery _ vs _) = Some vs"
| "get_variable_definitions (OpSubscription _ vs _) = Some vs"
| "get_variable_definitions (OpMutation _ vs _) = Some vs"
| "get_variable_definitions (OpSelectionSet _) = None"

fun get_directive :: "selection \<Rightarrow> string \<Rightarrow> directive option" where
  "get_directive (FieldSel _ _ _ _ ds _) name = find (\<lambda>d. dir_name d = name) ds"
| "get_directive _ name = None"

text \<open>The \<open>if\<close> argument of \<open>@skip\<close> and \<open>@include\<close>, directly or through a variable.\<close>

fun directive_condition :: "qvalue \<Rightarrow> (string, qvalue) hashmap \<Rightarrow> bool" where
  "directive_condition (QBoolean b) variables = b"
| "directive_condition (QVariable name) variables =
     (case map_of variables name of Some (QBoolean v) \<Rightarrow> v | _ \<Rightarrow> False)"
| "directive_condition _ variables = False"

definition skip_selection :: "selection \<Rightarrow> (string, qvalue) hashmap \<Rightarrow> bool" where
  "skip_selection sel variables =
     (case get_directive sel ''skip'' of
        Some d \<Rightarrow>
          (case get_argument_value (dir_arguments d) ''if'' of
             Some val \<Rightarrow> directive_condition val variables
           | None \<Rightarrow> True)
      | None \<Rightarrow> False)"

definition include_selection :: "selection \<Rightarrow> (string, qvalue) hashmap \<Rightarrow> bool" where
  "include_selection sel variables =
     (case get_directive sel ''include'' of
        Some d \<Rightarrow>
          (case get_argument_value (dir_arguments d) ''if'' of
             Some val \<Rightarrow> directive_condition val variables
           | None \<Rightarrow> True)
      | None \<Rightarrow> True)"

fun get_response_key :: "selection \<Rightarrow> string" where
  "get_response_key (FieldSel _ alias name _ _ _) = (case alias of Some a \<Rightarrow> a | None \<Rightarrow> name)"
| "get_response_key _ = []"

definition get_fragment_of :: "query_definition list \<Rightarrow> string \<Rightarrow> fragment_definition option" where
  "get_fragment_of doc name =
     find (\<lambda>fd. fr_name fd = name) (List.map_filter (\<lambda>d. case d of Fragment fd \<Rightarrow> Some fd | _ \<Rightarrow> None) doc)"

end
