(* ===== verification/SchemaValidation.thy ===== *)
theory SchemaValidation
  imports GqlAst Assignments
begin

text \<open>
  Subgraph schemas (\<open>graph/src/data/schema.rs\<close>): the interfaces of a document, the schemas it imports, the
  full-text search directives and the validation of all of these.

  Code of other crates is a parameter: the parser of schema documents, the printed form of fields and values
  (\<open>graphql_parser\<close>) and the name conversions of \<open>inflector\<close>.
\<close>

section \<open>Errors\<close>

datatype schema_validation_error =
    InterfaceUndefined string
  | EntityDirectivesMissing "string list"
  | InterfaceFieldsMissing string string "string list"
  | InvalidDerivedFrom string string string
  | SchemaTypeWithFields
  | ImportedSubgraphNameInvalid string
  | ImportedSubgraphIdInvalid string
  | InvalidSchemaTypeDirectives
  | ImportDirectiveInvalid
  | FieldTypeUnknown string string string
  | ImportedTypeUndefined string string
  | FulltextNameUndefined
  | FulltextNameConflict string
  | FulltextNameCollision string
  | FulltextLanguageUndefined
  | FulltextLanguageInvalid string
  | FulltextAlgorithmUndefined
  | FulltextAlgorithmInvalid string
  | FulltextIncludeInvalid
  | FulltextIncludeUndefined
  | FulltextIncludeObjectMissing
  | FulltextIncludeEntityMissingOrIncorrectAttributes
  | FulltextIncludedEntityNotFound
  | FulltextIncludedFieldMissingRequiredProperty
  | FulltextIncludedFieldInvalid string

section \<open>Full-text search\<close>

datatype fulltext_language =
    Simple | Danish | Dutch | English | Finnish | French | German | Hungarian | Italian | Norwegian
  | Portugese | Romanian | Russian | Spanish | Swedish | Turkish

definition fulltext_language_try_from :: "string \<Rightarrow> (fulltext_language, string) result" where
  "fulltext_language_try_from language =
     (case map_of
        [(''simple'', Simple), (''da'', Danish), (''nl'', Dutch), (''en'', English), (''fi'', Finnish),
         (''fr'', French), (''de'', German), (''hu'', Hungarian), (''it'', Italian), (''no'', Norwegian),
         (''pt'', Portugese), (''ro'', Romanian), (''ru'', Russian), (''es'', Spanish), (''sv'', Swedish),
         (''tr'', Turkish)] language of
        Some l \<Rightarrow> Ok l
      | None \<Rightarrow> Err (''Provided language for fulltext search is invalid: '' @ language))"

fun fulltext_language_as_str :: "fulltext_language \<Rightarrow> string" where
  "fulltext_language_as_str Simple = ''simple''"
| "fulltext_language_as_str Danish = ''danish''"
| "fulltext_language_as_str Dutch = ''dutch''"
| "fulltext_language_as_str English = ''english''"
| "fulltext_language_as_str Finnish = ''finnish''"
| "fulltext_language_as_str French = ''french''"
| "fulltext_language_as_str German = ''german''"
| "fulltext_language_as_str Hungarian = ''hungarian''"
| "fulltext_language_as_str Italian = ''italian''"
| "fulltext_language_as_str Norwegian = ''norwegian''"
| "fulltext_language_as_str Portugese = ''portugese''"
| "fulltext_language_as_str Romanian = ''romanian''"
| "fulltext_language_as_str Russian = ''russian''"
| "fulltext_language_as_str Spanish = ''spanish''"
| "fulltext_language_as_str Swedish = ''swedish''"
| "fulltext_language_as_str Turkish = ''turkish''"

datatype fulltext_algorithm = Rank | ProximityRank

definition fulltext_algorithm_try_from :: "string \<Rightarrow> (fulltext_algorithm, string) result" where
  "fulltext_algorithm_try_from algorithm =
     (if algorithm = ''rank'' then Ok Rank
      else if algorithm = ''proximityRank'' then Ok ProximityRank
      else Err (''The provided fulltext search algorithm '' @ algorithm
        @ '' is invalid. It must be one of: rank, proximityRank''))"

record fulltext_config =
  fc_language :: fulltext_language
  fc_algorithm :: fulltext_algorithm

record fulltext_definition =
  ft_config :: fulltext_config
  ft_included_fields :: "string set"
  ft_name :: string

text \<open>\<open>Result::unwrap\<close>: an error panics.\<close>

fun unwrap_result :: "('a, 'e) result \<Rightarrow> ('a, 'f) result" where
  "unwrap_result (Ok a) = Ok a"
| "unwrap_result _ = Panic"

text \<open>\<open>From<&Directive> for FulltextDefinition\<close>, with every \<open>unwrap()\<close>.\<close>

definition fulltext_field_name :: "qvalue \<Rightarrow> (string, unit) result" where
  "fulltext_field_name v =
     and_then (expect (value_as_object v)) (\<lambda>m. and_then (expect (map_of m ''name'')) (\<lambda>n. expect (value_as_string n)))"

definition fulltext_definition_from :: "directive \<Rightarrow> (fulltext_definition, unit) result" where
  "fulltext_definition_from d =
     and_then (expect (argument d ''name'')) (\<lambda>v.
     and_then (expect (value_as_string v)) (\<lambda>name.
     and_then (expect (argument d ''algorithm'')) (\<lambda>v.
     and_then (expect (value_as_enum v)) (\<lambda>a.
     and_then (unwrap_result (fulltext_algorithm_try_from a)) (\<lambda>algorithm.
     and_then (expect (argument d ''language'')) (\<lambda>v.
     and_then (expect (value_as_enum v)) (\<lambda>l.
     and_then (unwrap_result (fulltext_language_try_from l)) (\<lambda>language.
     and_then (expect (argument d ''include'')) (\<lambda>v.
     and_then (expect (value_as_list v)) (\<lambda>included_entity_list.
     and_then (expect (case included_entity_list of [] \<Rightarrow> None | x # _ \<Rightarrow> Some x)) (\<lambda>x.
     and_then (expect (value_as_object x)) (\<lambda>included_entity.
     and_then (expect (map_of included_entity ''fields'')) (\<lambda>v.
     and_then (expect (value_as_list v)) (\<lambda>included_field_values.
     and_then (try_map fulltext_field_name included_field_values) (\<lambda>names.
       Ok \<lparr>ft_config = \<lparr>fc_language = language, fc_algorithm = algorithm\<rparr>,
           ft_included_fields = set names, ft_name = name\<rparr>)))))))))))))))"

text \<open>\<open>Schema::entity_fulltext_definitions\<close>: the directives that include the entity.\<close>

definition includes_entity :: "string \<Rightarrow> directive \<Rightarrow> bool" where
  "includes_entity entity d =
     (case argument d ''include'' of
        Some (QList includes) \<Rightarrow>
          length includes > 0 \<and>
          list_ex (\<lambda>v. case v of
              QObject m \<Rightarrow> (case map_of m ''entity'' of Some (QString e) \<Rightarrow> e = entity | _ \<Rightarrow> False)
            | _ \<Rightarrow> False) includes
      | _ \<Rightarrow> False)"

definition entity_fulltext_definitions :: "string \<Rightarrow> document \<Rightarrow> (fulltext_definition list, unit) result" where
  "entity_fulltext_definitions entity doc =
     try_map fulltext_definition_from (filter (includes_entity entity) (get_fulltext_directives doc))"

section \<open>Imports\<close>

record imported_type =
  imp_name :: string
  imp_alias :: string
  imp_explicit :: bool

definition imported_type_to_string :: "imported_type \<Rightarrow> string" where
  "imported_type_to_string t =
     (if imp_explicit t then ''name: '' @ imp_name t @ '', as: '' @ imp_alias t else imp_name t)"

text \<open>\<open>name.to_string()\<close> is the printed form of the value, \<open>print\<close>.\<close>

definition imported_type_parse :: "(qvalue \<Rightarrow> string) \<Rightarrow> qvalue \<Rightarrow> imported_type option" where
  "imported_type_parse print type_import =
     (case type_import of
        QString name \<Rightarrow> Some \<lparr>imp_name = name, imp_alias = name, imp_explicit = False\<rparr>
      | QObject type_name_as \<Rightarrow>
          (case (map_of type_name_as ''name'', map_of type_name_as ''as'') of
             (Some name, Some az) \<Rightarrow>
               Some \<lparr>imp_name = print name, imp_alias = print az, imp_explicit = True\<rparr>
           | _ \<Rightarrow> None)
      | _ \<Rightarrow> None)"

datatype schema_reference = SchemaReference (sr_subgraph: string)

definition schema_reference_parse :: "qvalue \<Rightarrow> schema_reference option" where
  "schema_reference_parse value =
     (case value of
        QObject m \<Rightarrow>
          (case map_of m ''id'' of
             Some (QString i) \<Rightarrow> (case deployment_id_new i of Ok d \<Rightarrow> Some (SchemaReference d) | _ \<Rightarrow> None)
           | _ \<Rightarrow> None)
      | _ \<Rightarrow> None)"

datatype schema_import_error =
    ImportedSchemaNotFound schema_reference
  | ImportedSubgraphNotFound schema_reference

section \<open>Schemas\<close>

record schema =
  sc_id :: string
  sc_document :: document
  sc_interfaces_for_type :: "(string, interface_type list) btreemap"
  sc_types_for_interface :: "(string, object_type list) btreemap"

definition schema_new :: "string \<Rightarrow> document \<Rightarrow> schema" where
  "schema_new d document =
     \<lparr>sc_id = d, sc_document = document, sc_interfaces_for_type = [], sc_types_for_interface = []\<rparr>"

record api_root_types =
  api_inner :: schema
  api_query_type :: object_type
  api_subscription_type :: "object_type option"

definition from_api_schema :: "schema \<Rightarrow> (api_root_types, string) result" where
  "from_api_schema s =
     (case get_root_query_type (sc_document s) of
        None \<Rightarrow> Err ''no root `Query` in the schema''
      | Some q \<Rightarrow>
          Ok \<lparr>api_inner = s, api_query_type = q,
              api_subscription_type = get_root_subscription_type (sc_document s)\<rparr>)"

definition subgraph_schema_object_type :: "schema \<Rightarrow> object_type option" where
  "subgraph_schema_object_type s =
     find (\<lambda>t. ot_name t = SCHEMA_TYPE_NAME) (get_object_type_definitions (sc_document s))"

text \<open>\<open>str::trim\<close> over the white space of ASCII.\<close>

definition trim_white :: "string \<Rightarrow> string" where
  "trim_white s =
     (let white = (\<lambda>c. c \<in> {CHR '' '', CHR 0x09, CHR 0x0A, CHR 0x0B, CHR 0x0C, CHR 0x0D})
      in rev (dropWhile white (rev (dropWhile white s))))"

definition validate_interface_implementation ::
  "(field_def \<Rightarrow> string) \<Rightarrow> object_type \<Rightarrow> interface_type \<Rightarrow> (unit, schema_validation_error) result" where
  "validate_interface_implementation print t i =
     (let missing_fields =
        map (\<lambda>f. trim_white (print f))
          (filter (\<lambda>f. find (\<lambda>g. fd_name g = fd_name f \<and> fd_field_type g = fd_field_type f) (ot_fields t) = None)
             (it_fields i))
      in if missing_fields \<noteq> [] then Err (InterfaceFieldsMissing (ot_name t) (it_name i) missing_fields) else Ok ())"

text \<open>\<open>collect_interfaces\<close>: the body of the inner loop, then the two loops.\<close>

definition collect_interface ::
  "(field_def \<Rightarrow> string) \<Rightarrow> document \<Rightarrow> object_type \<Rightarrow> string
   \<Rightarrow> (string, interface_type list) btreemap \<times> (string, object_type list) btreemap
   \<Rightarrow> ((string, interface_type list) btreemap \<times> (string, object_type list) btreemap, schema_validation_error) result" where
  "collect_interface print doc t implemented_interface maps =
     (case maps of (interfaces_for_type, types_for_interface) \<Rightarrow>
        (case find_interface doc implemented_interface of
           None \<Rightarrow> Err (InterfaceUndefined implemented_interface)
         | Some i \<Rightarrow>
             and_then (validate_interface_implementation print t i) (\<lambda>_.
             and_then (expect (map_of types_for_interface implemented_interface)) (\<lambda>ts.
               Ok (bt_entry [] (ot_name t) (\<lambda>is. is @ [i]) interfaces_for_type,
                   bt_insert implemented_interface (ts @ [t]) types_for_interface)))))"

definition collect_interfaces ::
  "(field_def \<Rightarrow> string) \<Rightarrow> document
   \<Rightarrow> ((string, interface_type list) btreemap \<times> (string, object_type list) btreemap, schema_validation_error) result" where
  "collect_interfaces print doc =
     try_fold (\<lambda>t. try_fold (collect_interface print doc t) (ot_implements_interfaces t))
       (get_object_type_definitions doc)
       ([], fold (\<lambda>i. bt_insert (it_name i) []) (get_interface_type_definitions doc) [])"

text \<open>\<open>add_subgraph_id_directives\<close>, on the directives of one definition and on the document.\<close>

definition add_subgraph_id :: "string \<Rightarrow> string \<Rightarrow> directive list \<Rightarrow> directive list" where
  "add_subgraph_id d name directives =
     (if name \<noteq> SCHEMA_TYPE_NAME \<and> find (\<lambda>x. dir_name x = ''subgraphId'') directives = None
      then directives @ [\<lparr>dir_name = ''subgraphId'', dir_arguments = [(''id'', QString d)]\<rparr>]
      else directives)"

fun add_subgraph_id_to_type :: "string \<Rightarrow> type_definition \<Rightarrow> type_definition" where
  "add_subgraph_id_to_type d (ObjectDef t) = ObjectDef (t\<lparr>ot_directives := add_subgraph_id d (ot_name t) (ot_directives t)\<rparr>)"
| "add_subgraph_id_to_type d (InterfaceDef t) = InterfaceDef (t\<lparr>it_directives := add_subgraph_id d (it_name t) (it_directives t)\<rparr>)"
| "add_subgraph_id_to_type d (EnumDef t) = EnumDef (t\<lparr>en_directives := add_subgraph_id d (en_name t) (en_directives t)\<rparr>)"
| "add_subgraph_id_to_type d (ScalarDef t) = ScalarDef (t\<lparr>st_directives := add_subgraph_id d (st_name t) (st_directives t)\<rparr>)"
| "add_subgraph_id_to_type d (InputObjectDef t) = InputObjectDef (t\<lparr>io_directives := add_subgraph_id d (io_name t) (io_directives t)\<rparr>)"
| "add_subgraph_id_to_type d (UnionDef t) = UnionDef (t\<lparr>un_directives := add_subgraph_id d (un_name t) (un_directives t)\<rparr>)"

definition add_subgraph_id_directives :: "string \<Rightarrow> document \<Rightarrow> document" where
  "add_subgraph_id_directives d doc =
     map (\<lambda>x. case x of TypeDefinition t \<Rightarrow> TypeDefinition (add_subgraph_id_to_type d t) | _ \<Rightarrow> x) doc"

datatype schema_error = ParseFailed string | SchemaInvalid schema_validation_error

definition schema_parse ::
  "(string \<Rightarrow> (document, string) result) \<Rightarrow> (field_def \<Rightarrow> string) \<Rightarrow> string \<Rightarrow> string \<Rightarrow> (schema, schema_error) result" where
  "schema_parse parse print raw d =
     (case parse raw of
        Ok document \<Rightarrow>
          (case collect_interfaces print document of
             Ok (interfaces_for_type, types_for_interface) \<Rightarrow>
               Ok \<lparr>sc_id = d, sc_document = add_subgraph_id_directives d document,
                   sc_interfaces_for_type = interfaces_for_type, sc_types_for_interface = types_for_interface\<rparr>
           | Err e \<Rightarrow> Err (SchemaInvalid e)
           | Panic \<Rightarrow> Panic)
      | Err e \<Rightarrow> Err (ParseFailed e)
      | Panic \<Rightarrow> Panic)"

section \<open>Imported types and schemas\<close>

definition import_directives :: "schema \<Rightarrow> directive list" where
  "import_directives s =
     (case subgraph_schema_object_type s of
        None \<Rightarrow> []
      | Some t \<Rightarrow> filter (\<lambda>d. dir_name d = ''import'') (ot_directives t))"

definition parse_types :: "(qvalue \<Rightarrow> string) \<Rightarrow> directive \<Rightarrow> imported_type list" where
  "parse_types print d =
     (case argument d ''types'' of
        Some (QList types) \<Rightarrow> List.map_filter (imported_type_parse print) types
      | _ \<Rightarrow> [])"

definition imported_types :: "(qvalue \<Rightarrow> string) \<Rightarrow> schema \<Rightarrow> (imported_type, schema_reference) hashmap" where
  "imported_types print s =
     hm_collect (concat (map (\<lambda>d.
       case Option.bind (argument d ''from'') schema_reference_parse of
         None \<Rightarrow> []
       | Some schema_ref \<Rightarrow> map (\<lambda>t. (t, schema_ref)) (parse_types print d)) (import_directives s)))"

definition imported_schemas :: "schema \<Rightarrow> schema_reference list" where
  "imported_schemas s =
     List.map_filter schema_reference_parse
       (List.map_filter (\<lambda>d. argument d ''from'') (import_directives s))"

text \<open>
  The traversal of the import graph. \<open>input_schema\<close> is the method of the store. The first argument is what is
  left of the references of the schema being traversed; the nested call is the recursion into an imported
  schema. An import graph may be cyclic and a store unbounded, so the recursion is a partial function.
\<close>

definition reference_resolve ::
  "(string \<Rightarrow> schema option) \<Rightarrow> schema_reference \<Rightarrow> (schema, schema_import_error) result" where
  "reference_resolve input_schema schema_ref =
     (case input_schema (sr_subgraph schema_ref) of
        Some s \<Rightarrow> Ok s
      | None \<Rightarrow> Err (ImportedSchemaNotFound schema_ref))"

type_synonym import_state = "(schema_reference, schema) hashmap \<times> string set"

partial_function (option) resolve_import_graph ::
  "(string \<Rightarrow> schema option) \<Rightarrow> schema_reference list \<Rightarrow> import_state
   \<Rightarrow> (schema_import_error list \<times> import_state) option" where
  "resolve_import_graph input_schema refs state =
     (case refs of
        [] \<Rightarrow> Some ([], state)
      | schema_ref # rest \<Rightarrow>
          (case reference_resolve input_schema schema_ref of
             Ok s \<Rightarrow>
               (let schemas = hm_insert schema_ref s (fst state)
                in if sc_id s \<notin> snd state
                   then Option.bind
                          (resolve_import_graph input_schema (imported_schemas s) (schemas, insert (sc_id s) (snd state)))
                          (\<lambda>(inner, state).
                             Option.bind (resolve_import_graph input_schema rest state) (\<lambda>(errors, state).
                               Some (inner @ errors, state)))
                   else resolve_import_graph input_schema rest (schemas, snd state))
           | Err err \<Rightarrow>
               Option.bind (resolve_import_graph input_schema rest state) (\<lambda>(errors, state).
                 Some (err # errors, state))
           | Panic \<Rightarrow> None))"

definition resolve_schema_references ::
  "(string \<Rightarrow> schema option) \<Rightarrow> schema
   \<Rightarrow> ((schema_reference, schema) hashmap \<times> schema_import_error list) option" where
  "resolve_schema_references input_schema s =
     map_option (\<lambda>(errors, schemas, _). (schemas, errors))
       (resolve_import_graph input_schema (imported_schemas s) ([], {}))"

section \<open>Validation\<close>

definition validate_schema_type_has_no_fields :: "schema \<Rightarrow> (unit, schema_validation_error) result" where
  "validate_schema_type_has_no_fields s =
     (case subgraph_schema_object_type s of
        Some t \<Rightarrow> if ot_fields t \<noteq> [] then Err SchemaTypeWithFields else Ok ()
      | None \<Rightarrow> Ok ())"

definition validate_directives_on_schema_type :: "schema \<Rightarrow> (unit, schema_validation_error) result" where
  "validate_directives_on_schema_type s =
     (case subgraph_schema_object_type s of
        Some t \<Rightarrow>
          if filter (\<lambda>d. dir_name d \<noteq> ''import'' \<and> dir_name d \<noteq> ''fulltext'') (ot_directives t) \<noteq> []
          then Err InvalidSchemaTypeDirectives else Ok ()
      | None \<Rightarrow> Ok ())"

fun validate_import_type :: "qvalue \<Rightarrow> bool" where
  "validate_import_type (QString _) = True"
| "validate_import_type (QObject typ) =
     (case (map_of typ ''name'', map_of typ ''as'') of
        (Some (QString _), Some (QString _)) \<Rightarrow> True
      | _ \<Rightarrow> False)"
| "validate_import_type _ = False"

fun types_are_valid :: "qvalue option \<Rightarrow> bool" where
  "types_are_valid (Some (QList types)) = list_all validate_import_type types"
| "types_are_valid _ = False"

fun is_string_value :: "qvalue option \<Rightarrow> bool" where
  "is_string_value (Some (QString _)) = True"
| "is_string_value _ = False"

fun from_is_valid :: "qvalue option \<Rightarrow> bool" where
  "from_is_valid (Some (QObject m)) =
     (is_string_value (map_of m ''id'') \<noteq> is_string_value (map_of m ''name''))"
| "from_is_valid _ = False"

definition validate_import_directive_arguments :: "directive \<Rightarrow> schema_validation_error option" where
  "validate_import_directive_arguments d =
     (if from_is_valid (argument d ''from'') \<and> types_are_valid (argument d ''types'')
      then None else Some ImportDirectiveInvalid)"

definition validate_import_directive_schema_reference_parses :: "directive \<Rightarrow> schema_validation_error option" where
  "validate_import_directive_schema_reference_parses d =
     (case argument d ''from'' of
        Some (QObject m) \<Rightarrow>
          (let id_parse_error =
             (case map_of m ''id'' of
                Some (QString i) \<Rightarrow> (case deployment_id_new i of Err _ \<Rightarrow> Some (ImportedSubgraphIdInvalid i) | _ \<Rightarrow> None)
              | _ \<Rightarrow> None);
             name_parse_error =
             (case map_of m ''name'' of
                Some (QString n) \<Rightarrow> (case subgraph_name_new n of Err _ \<Rightarrow> Some (ImportedSubgraphNameInvalid n) | _ \<Rightarrow> None)
              | _ \<Rightarrow> None)
           in if id_parse_error \<noteq> None then id_parse_error else name_parse_error)
      | _ \<Rightarrow> None)"

definition validate_import_directives :: "schema \<Rightarrow> schema_validation_error list" where
  "validate_import_directives s =
     concat (map (\<lambda>d. option_to_list (validate_import_directive_arguments d)
                    @ option_to_list (validate_import_directive_schema_reference_parses d)) (import_directives s))"

text \<open>The name conversions of the \<open>inflector\<close> crate.\<close>

record inflector =
  to_camel_case :: "string \<Rightarrow> string"
  to_plural :: "string \<Rightarrow> string"

definition validate_fulltext_directive_name ::
  "inflector \<Rightarrow> schema \<Rightarrow> directive \<Rightarrow> (schema_validation_error list, unit) result" where
  "validate_fulltext_directive_name infl s fulltext =
     (case argument fulltext ''name'' of
        Some (QString name) \<Rightarrow>
          if list_ex (\<lambda>typ. list_ex (\<lambda>f.
               name = to_camel_case infl (fd_name f) \<or> name = to_camel_case infl (to_plural infl (fd_name f))
               \<or> fd_name f = name) (ot_fields typ)) (get_object_type_definitions (sc_document s))
          then Ok [FulltextNameCollision name]
          else
            and_then (expect (subgraph_schema_object_type s)) (\<lambda>t.
              if length (filter (\<lambda>d. argument d ''name'' = Some (QString name))
                   (filter (\<lambda>d. dir_name d = ''fulltext'') (ot_directives t))) > 1
              then Ok [FulltextNameConflict name] else Ok [])
      | _ \<Rightarrow> Ok [FulltextNameUndefined])"

definition validate_fulltext_directive_language :: "directive \<Rightarrow> schema_validation_error list" where
  "validate_fulltext_directive_language fulltext =
     (case argument fulltext ''language'' of
        Some (QEnum language) \<Rightarrow>
          (case fulltext_language_try_from language of Ok _ \<Rightarrow> [] | _ \<Rightarrow> [FulltextLanguageInvalid language])
      | _ \<Rightarrow> [FulltextLanguageUndefined])"

definition validate_fulltext_directive_algorithm :: "directive \<Rightarrow> schema_validation_error list" where
  "validate_fulltext_directive_algorithm fulltext =
     (case argument fulltext ''algorithm'' of
        Some (QEnum algorithm) \<Rightarrow>
          (case fulltext_algorithm_try_from algorithm of Ok _ \<Rightarrow> [] | _ \<Rightarrow> [FulltextAlgorithmInvalid algorithm])
      | _ \<Rightarrow> [FulltextAlgorithmUndefined])"

text \<open>
  \<open>validate_fulltext_directive_includes\<close>: the bodies of the two loops, which return at their first error.
\<close>

definition included_field_error :: "object_type \<Rightarrow> qvalue \<Rightarrow> schema_validation_error option" where
  "included_field_error t field_value =
     (case field_value of
        QObject field_map \<Rightarrow>
          (case map_of field_map ''name'' of
             Some (QString name) \<Rightarrow>
               if find (\<lambda>f. value_type_from_str (get_base_type (fd_field_type f)) = Ok StringT \<and> fd_name f = name)
                    (ot_fields t) = None
               then Some (FulltextIncludedFieldInvalid name) else None
           | _ \<Rightarrow> Some FulltextIncludedFieldMissingRequiredProperty)
      | _ \<Rightarrow> Some FulltextIncludeEntityMissingOrIncorrectAttributes)"

definition include_error :: "object_type list \<Rightarrow> qvalue \<Rightarrow> schema_validation_error option" where
  "include_error local_types v =
     (case value_as_object v of
        None \<Rightarrow> Some FulltextIncludeObjectMissing
      | Some m \<Rightarrow>
          (case (map_of m ''entity'', map_of m ''fields'') of
             (Some (QString entity), Some (QList field_values)) \<Rightarrow>
               (case find (\<lambda>t. ot_name t = entity) local_types of
                  None \<Rightarrow> Some FulltextIncludedEntityNotFound
                | Some t \<Rightarrow> find_map (included_field_error t) field_values)
           | _ \<Rightarrow> Some FulltextIncludeEntityMissingOrIncorrectAttributes))"

definition validate_fulltext_directive_includes :: "schema \<Rightarrow> directive \<Rightarrow> schema_validation_error list" where
  "validate_fulltext_directive_includes s fulltext =
     (case argument fulltext ''include'' of
        Some (QList includes) \<Rightarrow>
          if length includes > 0
          then option_to_list (find_map (include_error (get_object_type_definitions (sc_document s))) includes)
          else [FulltextIncludeUndefined]
      | _ \<Rightarrow> [FulltextIncludeUndefined])"

definition validate_fulltext_directives :: "inflector \<Rightarrow> schema \<Rightarrow> (schema_validation_error list, unit) result" where
  "validate_fulltext_directives infl s =
     (case subgraph_schema_object_type s of
        None \<Rightarrow> Ok []
      | Some t \<Rightarrow>
          try_fold (\<lambda>fulltext errors.
            and_then (validate_fulltext_directive_name infl s fulltext) (\<lambda>name_errors.
              Ok (errors @ name_errors @ validate_fulltext_directive_language fulltext
                @ validate_fulltext_directive_algorithm fulltext @ validate_fulltext_directive_includes s fulltext)))
            (filter (\<lambda>d. dir_name d = ''fulltext'') (ot_directives t)) [])"

definition validate_imported_types ::
  "(qvalue \<Rightarrow> string) \<Rightarrow> schema \<Rightarrow> (schema_reference, schema) hashmap \<Rightarrow> schema_validation_error list" where
  "validate_imported_types print s schemas =
     concat (map (\<lambda>(imported_type, schema_ref).
       case map_of schemas schema_ref of
         None \<Rightarrow> []
       | Some imported \<Rightarrow>
           (let name = imp_name imported_type;
                is_local = list_ex (\<lambda>t. ot_name t = name) (get_object_type_definitions (sc_document imported));
                is_imported = list_ex (\<lambda>(i, _). name = imp_alias i) (imported_types print imported)
            in if \<not> is_local \<and> \<not> is_imported
               then [ImportedTypeUndefined name (sr_subgraph schema_ref)] else []))
       (imported_types print s))"

definition schema_validate_fields :: "(qvalue \<Rightarrow> string) \<Rightarrow> schema \<Rightarrow> schema_validation_error list" where
  "schema_validate_fields print s =
     (let local_types = get_object_and_interface_type_fields (sc_document s);
          local_enums = map en_name (get_enum_definitions (sc_document s));
          imported = imported_types print s
      in concat (map (\<lambda>(name, fs).
           concat (map (\<lambda>f.
             (let base = get_base_type (fd_field_type f)
              in if is_scalar base then []
                 else if map_of local_types base \<noteq> None then []
                 else if list_ex (\<lambda>(i, _). imp_alias i = base) imported then []
                 else if list_ex (\<lambda>e. e = base) local_enums then []
                 else [FieldTypeUnknown name (fd_name f) base])) fs)) local_types))"

definition validate_schema_types :: "schema \<Rightarrow> (unit, schema_validation_error) result" where
  "validate_schema_types s =
     (let types_without_entity_directive =
        map ot_name (filter (\<lambda>t. find_directive (ot_directives t) ''entity'' = None \<and> ot_name t \<noteq> SCHEMA_TYPE_NAME)
          (get_object_type_definitions (sc_document s)))
      in if types_without_entity_directive = [] then Ok () else Err (EntityDirectivesMissing types_without_entity_directive))"

text \<open>\<open>validate_derived_from\<close>: the interfaces that may be the type of the target, the check of one field, the loop.\<close>

definition interfaces_with_field :: "document \<Rightarrow> object_type \<Rightarrow> field_def \<Rightarrow> string list" where
  "interfaces_with_field doc t f =
     filter (\<lambda>iface. case find_interface doc iface of
         None \<Rightarrow> False
       | Some i \<Rightarrow> list_ex (\<lambda>g. fd_name g = fd_name f) (it_fields i)) (ot_implements_interfaces t)"

definition type_signatures :: "string \<Rightarrow> string list" where
  "type_signatures name = [name, name @ ''!'', ''['' @ name @ ''!]'', ''['' @ name @ ''!]!'']"

definition validate_derived_field ::
  "document \<Rightarrow> object_type \<Rightarrow> field_def \<Rightarrow> directive \<Rightarrow> (unit, schema_validation_error) result" where
  "validate_derived_field doc t f d =
     (let invalid = (\<lambda>reason. Err (InvalidDerivedFrom (ot_name t) (fd_name f) reason))
      in case argument d ''field'' of
           None \<Rightarrow> invalid ''the @derivedFrom directive must have a `field` argument''
         | Some (QString target_name) \<Rightarrow>
             (let target_type_name = get_base_type (fd_field_type f)
              in case map_of (get_object_and_interface_type_fields doc) target_type_name of
                   None \<Rightarrow> invalid ''type must be an existing entity or interface''
                 | Some target_fields \<Rightarrow>
                     (case find (\<lambda>g. fd_name g = target_name) target_fields of
                        None \<Rightarrow> invalid (''field `'' @ target_name @ ''` does not exist on type `'' @ target_type_name @ ''`'')
                      | Some target_field \<Rightarrow>
                          (let target_field_type = get_base_type (fd_field_type target_field);
                               interface_types = interfaces_with_field doc t f
                           in if target_field_type \<noteq> ot_name t \<and> target_field_type \<noteq> ''ID''
                                \<and> \<not> list_ex (\<lambda>iface. target_field_type = iface) interface_types
                              then invalid (''field `'' @ fd_name target_field @ ''` on type `'' @ target_type_name
                                @ ''` must have one of the following types: ''
                                @ join_with '', '' (type_signatures (ot_name t) @ concat (map type_signatures interface_types)))
                              else Ok ())))
         | Some _ \<Rightarrow> invalid ''the @derivedFrom `field` argument must be a string'')"

definition validate_derived_from :: "schema \<Rightarrow> (unit, schema_validation_error) result" where
  "validate_derived_from s =
     try_fold (\<lambda>(t, f, d) _. validate_derived_field (sc_document s) t f d)
       (List.map_filter (\<lambda>(t, f). map_option (\<lambda>d. (t, f, d)) (find_directive (fd_directives f) ''derivedFrom''))
         (concat (map (\<lambda>t. map (\<lambda>f. (t, f)) (ot_fields t)) (get_object_type_definitions (sc_document s))))) ()"

fun error_of :: "(unit, 'e) result \<Rightarrow> 'e list" where
  "error_of (Err e) = [e]"
| "error_of _ = []"

definition schema_validate ::
  "(qvalue \<Rightarrow> string) \<Rightarrow> inflector \<Rightarrow> schema \<Rightarrow> (schema_reference, schema) hashmap
   \<Rightarrow> (unit, schema_validation_error list) result" where
  "schema_validate print infl s schemas =
     (case validate_fulltext_directives infl s of
        Ok fulltext_errors \<Rightarrow>
          (let errors = error_of (validate_schema_types s) @ error_of (validate_derived_from s)
             @ error_of (validate_schema_type_has_no_fields s) @ error_of (validate_directives_on_schema_type s)
             @ schema_validate_fields print s @ validate_import_directives s @ fulltext_errors
             @ validate_imported_types print s schemas
           in if errors = [] then Ok () else Err errors)
      | _ \<Rightarrow> Panic)"

section \<open>Interfaces\<close>

text \<open>Every pair of an object type and an interface it names, in the order of the two loops.\<close>

definition implementations :: "document \<Rightarrow> (object_type \<times> string) list" where
  "implementations doc =
     concat (map (\<lambda>t. map (\<lambda>n. (t, n)) (ot_implements_interfaces t)) (get_object_type_definitions doc))"

definition implements_ok :: "document \<Rightarrow> object_type \<Rightarrow> string \<Rightarrow> bool" where
  "implements_ok doc t n \<longleftrightarrow>
     (\<exists>i. find_interface doc n = Some i \<and>
        (\<forall>f \<in> set (it_fields i). \<exists>g \<in> set (ot_fields t). fd_name g = fd_name f \<and> fd_field_type g = fd_field_type f))"

lemma validate_interface_implementation_iff:
  "validate_interface_implementation print t i = Ok () \<longleftrightarrow>
     (\<forall>f \<in> set (it_fields i). \<exists>g \<in> set (ot_fields t). fd_name g = fd_name f \<and> fd_field_type g = fd_field_type f)"
  "validate_interface_implementation print t i \<noteq> Panic"
  by (auto simp: validate_interface_implementation_def Let_def filter_empty_conv find_None_iff)

lemma try_fold_nested:
  "try_fold (\<lambda>t. try_fold (g t) (xs t)) ts s =
     try_fold (\<lambda>(t, x). g t x) (concat (map (\<lambda>t. map (\<lambda>x. (t, x)) (xs t)) ts)) s"
proof (induction ts arbitrary: s)
  case (Cons t ts)
  have inner: "try_fold (\<lambda>(t, x). g t x) (map (\<lambda>x. (t, x)) ys) s = try_fold (g t) ys s" for ys s
    by (induction ys arbitrary: s) (auto intro!: and_then_cong)
  show ?case by (auto simp: try_fold_append inner Cons.IH intro!: and_then_cong)
qed simp

lemma map_of_interface_names:
  "map_of (fold (\<lambda>i. bt_insert (it_name i) []) is m) n = (if n \<in> it_name ` set is then Some [] else map_of m n)"
  by (induction "is" arbitrary: m) (auto simp: map_of_bt_insert)

lemma find_interface_Some_iff:
  "(\<exists>i. find_interface doc n = Some i) \<longleftrightarrow> n \<in> it_name ` set (get_interface_type_definitions doc)"
proof -
  have "find_interface doc n = None \<longleftrightarrow> n \<notin> it_name ` set (get_interface_type_definitions doc)"
    by (auto simp: find_interface_def find_None_iff)
  then show ?thesis by auto
qed

definition collected ::
  "document \<Rightarrow> (object_type \<times> string) list
   \<Rightarrow> (string, interface_type list) btreemap \<times> (string, object_type list) btreemap \<Rightarrow> bool" where
  "collected doc ps maps \<longleftrightarrow>
     (\<forall>n. map_of (snd maps) n =
        (if n \<in> it_name ` set (get_interface_type_definitions doc)
         then Some (map fst (filter (\<lambda>(_, m). m = n) ps)) else None)) \<and>
     (\<forall>tn. map_of (fst maps) tn =
        (let is = map (\<lambda>(_, n). the (find_interface doc n)) (filter (\<lambda>(t, _). ot_name t = tn) ps)
         in if is = [] then None else Some is))"

lemma collect_interface_step:
  assumes "collected doc ps maps"
  shows "if implements_ok doc t n
    then \<exists>maps'. collect_interface print doc t n maps = Ok maps' \<and> collected doc (ps @ [(t, n)]) maps'
    else \<exists>e. collect_interface print doc t n maps = Err e"
proof (cases "find_interface doc n")
  case None
  then show ?thesis by (simp add: implements_ok_def collect_interface_def split_beta)
next
  case (Some i)
  then have n: "n \<in> it_name ` set (get_interface_type_definitions doc)"
    using find_interface_Some_iff by blast
  show ?thesis
  proof (cases "validate_interface_implementation print t i")
    case (Ok u)
    then have ok: "implements_ok doc t n"
      using Some validate_interface_implementation_iff(1) [of print t i] by (auto simp: implements_ok_def)
    let ?ts = "map fst (filter (\<lambda>(_, m). m = n) ps)"
    have ts: "map_of (snd maps) n = Some ?ts" using assms n by (simp add: collected_def)
    let ?maps = "(bt_entry [] (ot_name t) (\<lambda>is. is @ [i]) (fst maps), bt_insert n (?ts @ [t]) (snd maps))"
    have "collected doc (ps @ [(t, n)]) ?maps"
      using assms n Some by (auto simp: collected_def map_of_bt_insert map_of_bt_entry Let_def)
    moreover have "collect_interface print doc t n maps = Ok ?maps"
      by (simp add: collect_interface_def split_beta Some Ok ts)
    ultimately show ?thesis using ok by auto
  next
    case (Err e)
    then have "\<not> implements_ok doc t n"
      using Some validate_interface_implementation_iff(1) [of print t i] by (auto simp: implements_ok_def)
    then show ?thesis by (simp add: collect_interface_def split_beta Some Err)
  next
    case Panic
    then show ?thesis by (simp add: validate_interface_implementation_iff(2))
  qed
qed

lemma collect_interfaces_run:
  assumes "collected doc ps maps"
  shows "if \<forall>(t, n) \<in> set qs. implements_ok doc t n
    then \<exists>maps'. try_fold (\<lambda>(t, n). collect_interface print doc t n) qs maps = Ok maps' \<and> collected doc (ps @ qs) maps'
    else \<exists>e. try_fold (\<lambda>(t, n). collect_interface print doc t n) qs maps = Err e"
  using assms
proof (induction qs arbitrary: ps maps)
  case (Cons q qs)
  obtain t n where q: "q = (t, n)" by (cases q)
  show ?case
  proof (cases "implements_ok doc t n")
    case True
    then obtain maps' where m: "collect_interface print doc t n maps = Ok maps'" "collected doc (ps @ [(t, n)]) maps'"
      using collect_interface_step [OF Cons.prems, of t n print] by auto
    show ?thesis using Cons.IH [OF m(2)] by (auto simp: q m(1) True split: if_splits)
  next
    case False
    then show ?thesis using collect_interface_step [OF Cons.prems, of t n print] by (auto simp: q)
  qed
qed simp

text \<open>C26. \<open>collect_interfaces\<close> never panics and succeeds exactly when every interface that an object type names is
  defined and all its fields, with their types, are fields of the object type. The maps it returns are then exact:
  each defined interface, also one nobody implements, has the list of its implementors, and each object type that
  implements an interface has the list of its interfaces, in the order of the document.\<close>

theorem collect_interfaces_exact:
  "collect_interfaces print doc \<noteq> Panic \<and>
   (is_ok (collect_interfaces print doc) \<longleftrightarrow> (\<forall>(t, n) \<in> set (implementations doc). implements_ok doc t n)) \<and>
   (\<forall>interfaces_for_type types_for_interface.
      collect_interfaces print doc = Ok (interfaces_for_type, types_for_interface) \<longrightarrow>
      (\<forall>n. map_of types_for_interface n =
         (if n \<in> it_name ` set (get_interface_type_definitions doc)
          then Some (map fst (filter (\<lambda>(_, m). m = n) (implementations doc))) else None)) \<and>
      (\<forall>tn. map_of interfaces_for_type tn =
         (let is = map (\<lambda>(_, n). the (find_interface doc n)) (filter (\<lambda>(t, _). ot_name t = tn) (implementations doc))
          in if is = [] then None else Some is)))"
proof -
  let ?init = "([], fold (\<lambda>i. bt_insert (it_name i) []) (get_interface_type_definitions doc) [])"
  have "collected doc [] ?init" by (simp add: collected_def map_of_interface_names)
  from collect_interfaces_run [OF this, of "implementations doc" print]
  show ?thesis
    unfolding collect_interfaces_def try_fold_nested implementations_def [symmetric]
    by (auto simp: collected_def split: if_splits)
qed

text \<open>An interface with one implementor and one without.\<close>

definition plain_field :: "string \<Rightarrow> gtype \<Rightarrow> field_def" where
  "plain_field name t = \<lparr>fd_name = name, fd_arguments = [], fd_field_type = t, fd_directives = []\<rparr>"

definition demo_interfaces :: document where
  "demo_interfaces =
     [TypeDefinition (InterfaceDef \<lparr>it_name = ''Animal'', it_directives = [],
        it_fields = [plain_field ''id'' (NonNullType (NamedType ''ID''))]\<rparr>),
      TypeDefinition (InterfaceDef \<lparr>it_name = ''Plant'', it_directives = [], it_fields = []\<rparr>),
      TypeDefinition (ObjectDef \<lparr>ot_name = ''Cow'', ot_implements_interfaces = [''Animal''], ot_directives = [],
        ot_fields = [plain_field ''id'' (NonNullType (NamedType ''ID''))]\<rparr>)]"

theorem collect_interfaces_exact_witness:
  "\<exists>interfaces_for_type types_for_interface.
     collect_interfaces fd_name demo_interfaces = Ok (interfaces_for_type, types_for_interface)
     \<and> map_option (map ot_name) (map_of types_for_interface ''Animal'') = Some [''Cow'']
     \<and> map_of types_for_interface ''Plant'' = Some []
     \<and> map_option (map it_name) (map_of interfaces_for_type ''Cow'') = Some [''Animal'']"
proof -
  have ok: "\<forall>(t, n) \<in> set (implementations demo_interfaces). implements_ok demo_interfaces t n"
    by (simp add: implementations_def implements_ok_def demo_interfaces_def get_object_type_definitions_def
        find_interface_def get_interface_type_definitions_def map_filter_simps plain_field_def)
  then have "is_ok (collect_interfaces fd_name demo_interfaces)"
    using collect_interfaces_exact [of fd_name demo_interfaces] by blast
  then obtain maps where m: "collect_interfaces fd_name demo_interfaces = Ok maps"
    by (cases "collect_interfaces fd_name demo_interfaces") auto
  obtain ifs tfs where maps: "maps = (ifs, tfs)" by (cases maps)
  have "map_of tfs ''Animal'' = Some (map fst (filter (\<lambda>(_, m). m = ''Animal'') (implementations demo_interfaces)))"
    "map_of tfs ''Plant'' = Some (map fst (filter (\<lambda>(_, m). m = ''Plant'') (implementations demo_interfaces)))"
    "map_of ifs ''Cow'' = Some (map (\<lambda>(_, n). the (find_interface demo_interfaces n))
       (filter (\<lambda>(t, _). ot_name t = ''Cow'') (implementations demo_interfaces)))"
    using collect_interfaces_exact [of fd_name demo_interfaces] m maps
    by (auto simp: demo_interfaces_def get_interface_type_definitions_def map_filter_simps implementations_def
        get_object_type_definitions_def)
  then show ?thesis
    unfolding m maps
    by (simp add: demo_interfaces_def get_interface_type_definitions_def map_filter_simps implementations_def
        get_object_type_definitions_def find_interface_def)
qed

section \<open>The import graph\<close>

text \<open>The references the traversal may follow, starting from a list of them.\<close>

inductive follows :: "(string \<Rightarrow> schema option) \<Rightarrow> schema_reference list \<Rightarrow> schema_reference \<Rightarrow> bool"
  for input_schema refs where
  follows_root: "r \<in> set refs \<Longrightarrow> follows input_schema refs r"
| follows_import: "follows input_schema refs r \<Longrightarrow> input_schema (sr_subgraph r) = Some s \<Longrightarrow>
    r' \<in> set (imported_schemas s) \<Longrightarrow> follows input_schema refs r'"

definition faithful_store :: "(string \<Rightarrow> schema option) \<Rightarrow> bool" where
  "faithful_store input_schema \<longleftrightarrow> finite (dom input_schema) \<and> (\<forall>i s. input_schema i = Some s \<longrightarrow> sc_id s = i)"

text \<open>A reference is handled when its schema is loaded and visited, or its error is reported.\<close>

definition handled :: "(string \<Rightarrow> schema option) \<Rightarrow> schema_import_error list \<Rightarrow> import_state \<Rightarrow> schema_reference \<Rightarrow> bool" where
  "handled input_schema errors st r \<longleftrightarrow>
     (case input_schema (sr_subgraph r) of
        Some s \<Rightarrow> map_of (fst st) r = Some s \<and> sr_subgraph r \<in> snd st
      | None \<Rightarrow> ImportedSchemaNotFound r \<in> set errors)"

definition grows :: "import_state \<Rightarrow> import_state \<Rightarrow> bool" where
  "grows st st' \<longleftrightarrow> map_of (fst st) \<subseteq>\<^sub>m map_of (fst st') \<and> snd st \<subseteq> snd st'"

definition loaded :: "(string \<Rightarrow> schema option) \<Rightarrow> import_state \<Rightarrow> bool" where
  "loaded input_schema st \<longleftrightarrow> (\<forall>r s. map_of (fst st) r = Some s \<longrightarrow> input_schema (sr_subgraph r) = Some s)"

text \<open>What a traversal of \<open>refs\<close> from \<open>st\<close> to \<open>st'\<close> has done.\<close>

definition explored ::
  "(string \<Rightarrow> schema option) \<Rightarrow> schema_reference list \<Rightarrow> import_state \<Rightarrow> schema_import_error list \<Rightarrow> import_state \<Rightarrow> bool" where
  "explored input_schema refs st errors st' \<longleftrightarrow>
     grows st st' \<and> loaded input_schema st' \<and>
     (\<forall>r \<in> set refs. handled input_schema errors st' r) \<and>
     (\<forall>i \<in> snd st' - snd st. \<forall>s. input_schema i = Some s \<longrightarrow>
        (\<forall>r \<in> set (imported_schemas s). handled input_schema errors st' r)) \<and>
     (\<forall>r. map_of (fst st') r \<noteq> None \<longrightarrow> map_of (fst st) r \<noteq> None \<or> follows input_schema refs r) \<and>
     (\<forall>e \<in> set errors. \<exists>r. follows input_schema refs r \<and> input_schema (sr_subgraph r) = None \<and> e = ImportedSchemaNotFound r)"

lemma grows_trans: "grows a b \<Longrightarrow> grows b c \<Longrightarrow> grows a c"
  unfolding grows_def using map_le_trans by blast

lemma handled_mono:
  "handled input_schema errors st r \<Longrightarrow> grows st st' \<Longrightarrow> set errors \<subseteq> set errors' \<Longrightarrow> handled input_schema errors' st' r"
  by (auto simp: handled_def grows_def map_le_def dom_def split: option.splits)

lemma follows_Cons: "follows input_schema rest r \<Longrightarrow> follows input_schema (x # rest) r"
  by (induction rule: follows.induct) (auto intro: follows.intros)

lemma follows_nested:
  assumes "input_schema (sr_subgraph x) = Some s"
  shows "follows input_schema (imported_schemas s) r \<Longrightarrow> follows input_schema (x # rest) r"
proof (induction rule: follows.induct)
  case (follows_root r)
  have "follows input_schema (x # rest) x" by (rule follows.follows_root) simp
  from follows_import [OF this assms follows_root] show ?case .
qed (rule follows_import)

lemma explored_Nil: "loaded input_schema st \<Longrightarrow> explored input_schema [] st [] st"
  by (simp add: explored_def grows_def)

lemma explored_error:
  assumes e: "explored input_schema rest st errors st'" and n: "input_schema (sr_subgraph x) = None"
  shows "explored input_schema (x # rest) st (ImportedSchemaNotFound x # errors) st'"
proof -
  have "handled input_schema (ImportedSchemaNotFound x # errors) st' r" if "handled input_schema errors st' r" for r
    using that by (auto simp: handled_def split: option.splits)
  moreover have "handled input_schema (ImportedSchemaNotFound x # errors) st' x" using n by (simp add: handled_def)
  ultimately show ?thesis
    using e n follows_root [of x "x # rest" input_schema] follows_Cons [of input_schema rest _ x]
    by (auto simp: explored_def)
qed

lemma explored_seen:
  assumes e: "explored input_schema rest (hm_insert x s m, vis) errors st'"
    and s: "input_schema (sr_subgraph x) = Some s" "sr_subgraph x \<in> vis" and l: "loaded input_schema (m, vis)"
  shows "explored input_schema (x # rest) (m, vis) errors st'"
proof -
  have g: "grows (m, vis) (hm_insert x s m, vis)"
    using l s by (auto simp: grows_def map_le_def update_conv' loaded_def)
  from e have g': "grows (hm_insert x s m, vis) st'" by (simp add: explored_def)
  have "handled input_schema errors (hm_insert x s m, vis) x" using s by (simp add: handled_def update_conv')
  then have "handled input_schema errors st' x" using handled_mono g' by blast
  then show ?thesis
    using e grows_trans [OF g g'] follows_root [of x "x # rest" input_schema] follows_Cons [of input_schema rest _ x]
    by (fastforce simp: explored_def update_conv' split: if_splits)
qed

lemma explored_new:
  assumes inner: "explored input_schema (imported_schemas s) (hm_insert x s m, insert (sr_subgraph x) vis) errors st'"
    and outer: "explored input_schema rest st' errors' st''"
    and s: "input_schema (sr_subgraph x) = Some s" and l: "loaded input_schema (m, vis)"
  shows "explored input_schema (x # rest) (m, vis) (errors @ errors') st''"
proof -
  let ?st = "(hm_insert x s m, insert (sr_subgraph x) vis)"
  have g0: "grows (m, vis) ?st" using l s by (auto simp: grows_def map_le_def update_conv' loaded_def)
  have g1: "grows ?st st'" and g2: "grows st' st''" using inner outer by (simp_all add: explored_def)
  have x: "handled input_schema [] ?st x" using s by (simp add: handled_def update_conv')
  have h1: "handled input_schema (errors @ errors') st'' r" if "handled input_schema errors st' r" for r
    using that g2 handled_mono by fastforce
  have h2: "handled input_schema (errors @ errors') st'' r" if "handled input_schema errors' st'' r" for r
    using that handled_mono [of input_schema errors' st'' r st''] by (simp add: grows_def)
  have "handled input_schema (errors @ errors') st'' r" if r: "r \<in> set (x # rest)" for r
  proof (cases "r = x")
    case True
    then show ?thesis using handled_mono [OF x grows_trans [OF g1 g2]] by simp
  next
    case False
    then show ?thesis using r outer h2 by (auto simp: explored_def)
  qed
  moreover have "handled input_schema (errors @ errors') st'' r"
    if "i \<in> snd st'' - vis" "input_schema i = Some u" "r \<in> set (imported_schemas u)" for i u r
  proof (cases "i = sr_subgraph x")
    case True
    then show ?thesis using that inner h1 s by (auto simp: explored_def)
  next
    case False
    then show ?thesis using that inner outer h1 h2 by (cases "i \<in> snd st'") (auto simp: explored_def)
  qed
  moreover have "map_of m r \<noteq> None \<or> follows input_schema (x # rest) r" if r: "map_of (fst st'') r \<noteq> None" for r
  proof -
    have o: "map_of (fst st') r \<noteq> None \<or> follows input_schema rest r"
      using outer r unfolding explored_def by blast
    have "map_of (fst st') r \<noteq> None \<Longrightarrow> map_of (fst ?st) r \<noteq> None \<or> follows input_schema (imported_schemas s) r"
      using inner unfolding explored_def by blast
    then have i: "map_of (fst st') r \<noteq> None \<Longrightarrow> r = x \<or> map_of m r \<noteq> None \<or> follows input_schema (imported_schemas s) r"
      by (auto simp: update_conv' split: if_splits)
    have "follows input_schema (x # rest) x" by (rule follows_root) simp
    with o i show ?thesis
      using follows_Cons [of input_schema rest r x] follows_nested [of input_schema x s r rest, OF s] by blast
  qed
  moreover have "\<exists>r. follows input_schema (x # rest) r \<and> input_schema (sr_subgraph r) = None \<and> e = ImportedSchemaNotFound r"
    if "e \<in> set (errors @ errors')" for e
    using that inner outer follows_Cons [of input_schema rest _ x] follows_nested [of input_schema x s _ rest, OF s]
    by (fastforce simp: explored_def)
  ultimately show ?thesis
    using grows_trans [OF g0 grows_trans [OF g1 g2]] outer by (auto simp: explored_def)
qed

lemma resolve_Nil: "resolve_import_graph input_schema [] st = Some ([], st)"
  by (subst resolve_import_graph.simps) simp

lemma resolve_Cons:
  "resolve_import_graph input_schema (x # rest) (m, vis) =
     (case input_schema (sr_subgraph x) of
        Some s \<Rightarrow>
          if sc_id s \<notin> vis
          then Option.bind (resolve_import_graph input_schema (imported_schemas s) (hm_insert x s m, insert (sc_id s) vis))
            (\<lambda>(inner, st). Option.bind (resolve_import_graph input_schema rest st) (\<lambda>(errors, st). Some (inner @ errors, st)))
          else resolve_import_graph input_schema rest (hm_insert x s m, vis)
      | None \<Rightarrow> Option.bind (resolve_import_graph input_schema rest (m, vis))
            (\<lambda>(errors, st). Some (ImportedSchemaNotFound x # errors, st)))"
  by (subst resolve_import_graph.simps) (simp add: reference_resolve_def Let_def split: option.splits)

text \<open>
  The traversal returns: every nested call visits one more of the finitely many schemas of the store, every
  other call has fewer references left.
\<close>

lemma resolve_explores:
  assumes store: "faithful_store input_schema" and "loaded input_schema st"
  shows "\<exists>errors st'. resolve_import_graph input_schema refs st = Some (errors, st') \<and>
    explored input_schema refs st errors st'"
  using assms(2)
proof (induction "card (dom input_schema - snd st)" arbitrary: refs st rule: less_induct)
  case less
  note outer = less.hyps
  have fin: "finite (dom input_schema)" using store by (simp add: faithful_store_def)
  show ?case using less.prems outer
  proof (induction refs arbitrary: st)
    case Nil
    then show ?case by (auto simp: resolve_Nil intro: explored_Nil)
  next
    case (Cons x rest)
    obtain m vis where st: "st = (m, vis)" by (cases st)
    show ?case
    proof (cases "input_schema (sr_subgraph x)")
      case None
      obtain errors st' where r: "resolve_import_graph input_schema rest (m, vis) = Some (errors, st')"
        "explored input_schema rest (m, vis) errors st'"
        using Cons.IH [OF Cons.prems] by (auto simp: st)
      show ?thesis using explored_error [OF r(2) None] by (simp add: st resolve_Cons None r(1))
    next
      case (Some s)
      have sid: "sc_id s = sr_subgraph x" using store Some by (simp add: faithful_store_def)
      have l: "loaded input_schema (hm_insert x s m, w)" for w
        using Cons.prems(1) Some by (auto simp: loaded_def st update_conv')
      show ?thesis
      proof (cases "sr_subgraph x \<in> vis")
        case True
        have "\<exists>errors st'. resolve_import_graph input_schema rest (hm_insert x s m, vis) = Some (errors, st') \<and>
            explored input_schema rest (hm_insert x s m, vis) errors st'"
          by (rule Cons.IH) (use Cons.prems(2) l in \<open>simp_all add: st\<close>)
        then obtain errors st' where r: "resolve_import_graph input_schema rest (hm_insert x s m, vis) = Some (errors, st')"
          "explored input_schema rest (hm_insert x s m, vis) errors st'" by blast
        have "loaded input_schema (m, vis)" using Cons.prems(1) by (simp add: st)
        from explored_seen [OF r(2) Some True this] show ?thesis
          by (simp add: st resolve_Cons Some sid True r(1))
      next
        case False
        let ?vis = "insert (sr_subgraph x) vis"
        have smaller: "card (dom input_schema - w) < card (dom input_schema - snd st)" if "?vis \<subseteq> w" for w
          using that False Some fin by (intro psubset_card_mono) (auto simp: st)
        obtain inner st' where i: "resolve_import_graph input_schema (imported_schemas s) (hm_insert x s m, ?vis) = Some (inner, st')"
          "explored input_schema (imported_schemas s) (hm_insert x s m, ?vis) inner st'"
          using Cons.prems(2) [of "(hm_insert x s m, ?vis)" "imported_schemas s"] smaller [of ?vis] l by auto
        have l': "loaded input_schema st'" "?vis \<subseteq> snd st'" using i(2) by (simp_all add: explored_def grows_def)
        obtain errors st'' where r: "resolve_import_graph input_schema rest st' = Some (errors, st'')"
          "explored input_schema rest st' errors st''"
          using Cons.prems(2) [of st' rest] smaller [OF l'(2)] l'(1) by auto
        have "loaded input_schema (m, vis)" using Cons.prems(1) by (simp add: st)
        from explored_new [OF i(2) r(2) Some this] show ?thesis
          by (simp add: st resolve_Cons Some sid False i(1) r(1))
      qed
    qed
  qed
qed

text \<open>C25. Resolving the imports of a schema returns, also when schemas import each other in a cycle, for every store
  with finitely many schemas that gives each schema under its own identifier. The schemas it loads are exactly those
  of the references reachable through imports that the store has, each under its reference, and it reports an error
  exactly for the reachable references the store does not have.\<close>

theorem import_graph_exact:
  assumes "faithful_store input_schema"
  shows "\<exists>schemas errors. resolve_schema_references input_schema s = Some (schemas, errors) \<and>
    (\<forall>r u. map_of schemas r = Some u \<longleftrightarrow>
       follows input_schema (imported_schemas s) r \<and> input_schema (sr_subgraph r) = Some u) \<and>
    set errors = {ImportedSchemaNotFound r | r.
       follows input_schema (imported_schemas s) r \<and> input_schema (sr_subgraph r) = None}"
proof -
  let ?refs = "imported_schemas s"
  have "loaded input_schema ([], {})" by (simp add: loaded_def)
  from resolve_explores [OF assms this, of ?refs] obtain errors schemas vis
    where r: "resolve_import_graph input_schema ?refs ([], {}) = Some (errors, (schemas, vis))"
      and e: "explored input_schema ?refs ([], {}) errors (schemas, vis)" by auto
  have all: "handled input_schema errors (schemas, vis) q" if "follows input_schema ?refs q" for q
    using that
  proof (induction rule: follows.induct)
    case (follows_root q)
    then show ?case using e by (simp add: explored_def)
  next
    case (follows_import q u q')
    then have "sr_subgraph q \<in> vis" by (simp add: handled_def)
    then show ?case using e follows_import.hyps by (auto simp: explored_def)
  qed
  have "map_of schemas q = Some u \<longleftrightarrow> follows input_schema ?refs q \<and> input_schema (sr_subgraph q) = Some u" for q u
    using e all [of q] by (auto simp: explored_def loaded_def handled_def)
  moreover have "set errors = {ImportedSchemaNotFound q | q. follows input_schema ?refs q \<and> input_schema (sr_subgraph q) = None}"
    using e all by (fastforce simp: explored_def handled_def)
  ultimately show ?thesis by (simp add: resolve_schema_references_def r)
qed

text \<open>Two schemas that import each other; the first also imports one the store does not have.\<close>

definition import_from :: "string \<Rightarrow> directive" where
  "import_from d = \<lparr>dir_name = ''import'',
     dir_arguments = [(''types'', QList [QString ''T'']), (''from'', QObject [(''id'', QString d)])]\<rparr>"

definition demo_importing :: "string \<Rightarrow> string list \<Rightarrow> schema" where
  "demo_importing d ds = schema_new d
     [TypeDefinition (ObjectDef \<lparr>ot_name = SCHEMA_TYPE_NAME, ot_implements_interfaces = [],
        ot_directives = map import_from ds, ot_fields = []\<rparr>)]"

definition demo_schema_store :: "string \<Rightarrow> schema option" where
  "demo_schema_store = [''a'' \<mapsto> demo_importing ''a'' [''b'', ''c''], ''b'' \<mapsto> demo_importing ''b'' [''a'']]"

lemma demo_imported_schemas:
  "imported_schemas (demo_importing ''a'' [''b'', ''c'']) = [SchemaReference ''b'', SchemaReference ''c'']"
  "imported_schemas (demo_importing ''b'' [''a'']) = [SchemaReference ''a'']"
  by (simp_all add: imported_schemas_def import_directives_def subgraph_schema_object_type_def demo_importing_def
      schema_new_def get_object_type_definitions_def map_filter_simps import_from_def argument_def
      schema_reference_parse_def deployment_id_new_def is_ascii_alphanumeric_def)

theorem import_graph_exact_witness:
  "\<exists>schemas errors. resolve_schema_references demo_schema_store (demo_importing ''a'' [''b'', ''c'']) = Some (schemas, errors)
     \<and> map_of schemas (SchemaReference ''a'') = Some (demo_importing ''a'' [''b'', ''c''])
     \<and> map_of schemas (SchemaReference ''b'') = Some (demo_importing ''b'' [''a''])
     \<and> ImportedSchemaNotFound (SchemaReference ''c'') \<in> set errors"
proof -
  let ?refs = "imported_schemas (demo_importing ''a'' [''b'', ''c''])"
  have "faithful_store demo_schema_store"
    by (auto simp: faithful_store_def demo_schema_store_def demo_importing_def schema_new_def split: if_splits)
  note o = import_graph_exact [OF this, of "demo_importing ''a'' [''b'', ''c'']"]
  have b: "follows demo_schema_store ?refs (SchemaReference ''b'')" and c: "follows demo_schema_store ?refs (SchemaReference ''c'')"
    by (simp_all add: demo_imported_schemas follows_root)
  have a: "follows demo_schema_store ?refs (SchemaReference ''a'')"
    by (rule follows_import [OF b, of "demo_importing ''b'' [''a'']"])
      (simp_all add: demo_schema_store_def demo_imported_schemas)
  show ?thesis using o a b c by (auto simp: demo_schema_store_def)
qed

section \<open>Derived fields\<close>

lemma find_unique:
  assumes "distinct (map k xs)" and "x \<in> set xs" and "k x = y"
  shows "find (\<lambda>z. k z = y) xs = Some x"
  using assms by (induction xs) (auto simp: rev_image_eqI)

lemma named_type_unique:
  assumes "distinct (map get_type_name (get_type_definitions doc))" and "TypeDefinition t \<in> set doc"
  shows "get_named_type doc (get_type_name t) = Some t"
  unfolding get_named_type_def
  by (rule find_unique [OF assms(1)]) (use assms(2) in \<open>force simp: get_type_definitions_def set_map_filter\<close>)+

lemma object_or_interface_fields:
  assumes "distinct (map get_type_name (get_type_definitions doc))"
    and "map_of (get_object_and_interface_type_fields doc) n = Some fs"
  shows "\<exists>oi. object_or_interface_of doc n = Some oi \<and> oi_fields oi = fs"
proof -
  have "(n, fs) \<in> set (List.map_filter (\<lambda>d. case d of
         TypeDefinition (ObjectDef t) \<Rightarrow> Some (ot_name t, ot_fields t)
       | TypeDefinition (InterfaceDef t) \<Rightarrow> Some (it_name t, it_fields t)
       | _ \<Rightarrow> None) doc)"
    using map_of_SomeD [OF assms(2) [unfolded get_object_and_interface_type_fields_def map_of_hm_collect]] by simp
  then obtain x where x: "x \<in> set doc" "(case x of TypeDefinition (ObjectDef t) \<Rightarrow> Some (ot_name t, ot_fields t)
       | TypeDefinition (InterfaceDef t) \<Rightarrow> Some (it_name t, it_fields t) | _ \<Rightarrow> None) = Some (n, fs)"
    by (auto simp: set_map_filter)
  then consider (obj) t where "TypeDefinition (ObjectDef t) \<in> set doc" "n = ot_name t" "fs = ot_fields t"
    | (iface) t where "TypeDefinition (InterfaceDef t) \<in> set doc" "n = it_name t" "fs = it_fields t"
    by (auto split: schema_definition.split_asm type_definition.split_asm)
  then show ?thesis
  proof cases
    case obj
    then show ?thesis using named_type_unique [OF assms(1) obj(1)] by (simp add: object_or_interface_of_def)
  next
    case iface
    then show ?thesis using named_type_unique [OF assms(1) iface(1)] by (simp add: object_or_interface_of_def)
  qed
qed

lemma try_fold_unit_Ok: "try_fold (\<lambda>x _. f x) xs () = Ok () \<longleftrightarrow> (\<forall>x \<in> set xs. f x = Ok ())"
  by (induction xs) (auto simp: and_then_Ok_iff)

lemma validate_derived_field_Ok:
  assumes "validate_derived_field doc t f d = Ok ()"
  obtains n fs g where "argument d ''field'' = Some (QString n)"
    "map_of (get_object_and_interface_type_fields doc) (get_base_type (fd_field_type f)) = Some fs"
    "find (\<lambda>g. fd_name g = n) fs = Some g"
    "get_base_type (fd_field_type g) \<in> {ot_name t, ''ID''} \<union> set (interfaces_with_field doc t f)"
  using assms
  by (auto simp: validate_derived_field_def Let_def list_ex_iff split: option.splits qvalue.splits if_splits)

lemma schema_validate_Ok:
  assumes "schema_validate print infl s schemas = Ok ()"
  shows "validate_fulltext_directives infl s = Ok []" "error_of (validate_derived_from s) = []"
    "error_of (validate_schema_types s) = []" "schema_validate_fields print s = []"
  using assms by (auto simp: schema_validate_def Let_def split: result.splits if_splits)

lemma try_fold_unit_not_Panic:
  "(\<And>x. x \<in> set xs \<Longrightarrow> f x \<noteq> Panic) \<Longrightarrow> try_fold (\<lambda>x _. f x) xs () \<noteq> Panic"
proof (induction xs)
  case (Cons x xs)
  then show ?case by (cases "f x") auto
qed simp

lemma validate_derived_from_no_error:
  assumes "error_of (validate_derived_from s) = []"
  shows "validate_derived_from s = Ok ()"
proof -
  have "validate_derived_field doc t f d \<noteq> Panic" for doc t f d
    by (auto simp: validate_derived_field_def Let_def split: option.splits qvalue.splits)
  then have "validate_derived_from s \<noteq> Panic"
    unfolding validate_derived_from_def case_prod_beta by (intro try_fold_unit_not_Panic)
  then show ?thesis using assms by (cases "validate_derived_from s") auto
qed

text \<open>C27. In a schema that validates, and whose types have distinct names, every \<open>@derivedFrom\<close> field of an object type
  resolves: its type is an object or interface of the schema, \<open>get_derived_from_field\<close> finds in it the field that the
  directive names, and that field is of the object type itself, of an interface of it that has the derived field,
  or an \<open>ID\<close>. (A target called \<open>__typename\<close> is excepted, since a lookup finds the field of that name in every type.)\<close>

theorem derived_from_resolves:
  assumes valid: "schema_validate print infl s schemas = Ok ()"
    and names: "distinct (map get_type_name (get_type_definitions (sc_document s)))"
    and t: "t \<in> set (get_object_type_definitions (sc_document s))" and f: "f \<in> set (ot_fields t)"
    and d: "get_derived_from_directive f = Some d" "argument d ''field'' \<noteq> Some (QString ''__typename'')"
  shows "\<exists>oi g. object_or_interface_of (sc_document s) (get_base_type (fd_field_type f)) = Some oi \<and>
    get_derived_from_field oi f = Some g \<and> g \<in> set (oi_fields oi) \<and>
    (get_base_type (fd_field_type g) \<in> {ot_name t, ''ID''} \<or>
     get_base_type (fd_field_type g) \<in> set (interfaces_with_field (sc_document s) t f))"
proof -
  have "validate_derived_from s = Ok ()"
    using schema_validate_Ok(2) [OF valid] by (rule validate_derived_from_no_error)
  then have all: "\<forall>x \<in> set (List.map_filter (\<lambda>(t, f). map_option (\<lambda>d. (t, f, d)) (find_directive (fd_directives f) ''derivedFrom''))
         (concat (map (\<lambda>t. map (\<lambda>f. (t, f)) (ot_fields t)) (get_object_type_definitions (sc_document s))))).
       (case x of (t, f, d) \<Rightarrow> validate_derived_field (sc_document s) t f d) = Ok ()"
    unfolding validate_derived_from_def case_prod_beta try_fold_unit_Ok .
  have "find_directive (fd_directives f) ''derivedFrom'' = Some d"
    using d(1) by (simp add: get_derived_from_directive_def find_directive_def)
  with t f have "(t, f, d) \<in> set (List.map_filter (\<lambda>(t, f). map_option (\<lambda>d. (t, f, d)) (find_directive (fd_directives f) ''derivedFrom''))
         (concat (map (\<lambda>t. map (\<lambda>f. (t, f)) (ot_fields t)) (get_object_type_definitions (sc_document s)))))"
    by (auto simp: set_map_filter intro!: bexI [where x = "(t, f)"])
  with all have ok: "validate_derived_field (sc_document s) t f d = Ok ()" by fastforce
  from validate_derived_field_Ok [OF ok] obtain n fs g
    where n: "argument d ''field'' = Some (QString n)"
      and fs: "map_of (get_object_and_interface_type_fields (sc_document s)) (get_base_type (fd_field_type f)) = Some fs"
      and g: "find (\<lambda>g. fd_name g = n) fs = Some g"
        "get_base_type (fd_field_type g) \<in> {ot_name t, ''ID''} \<union> set (interfaces_with_field (sc_document s) t f)" .
  obtain oi where oi: "object_or_interface_of (sc_document s) (get_base_type (fd_field_type f)) = Some oi" "oi_fields oi = fs"
    using object_or_interface_fields [OF names fs] by blast
  have "get_argument_value (dir_arguments d) ''field'' = Some (QString n)"
    using n by (simp add: get_argument_value_def argument_def)
  moreover have "n \<noteq> ''__typename''" using n d(2) by simp
  ultimately have "get_derived_from_field oi f = Some g"
    by (simp add: get_derived_from_field_def d(1) get_field_def TYPENAME_FIELD_def oi(2) g(1))
  moreover have "g \<in> set fs" using g(1) by (metis find_Some_iff nth_mem)
  ultimately show ?thesis using oi g(2) by blast
qed

text \<open>Users and their posts, with a search over the titles of posts.\<close>

definition demo_fulltext :: directive where
  "demo_fulltext = \<lparr>dir_name = ''fulltext'', dir_arguments =
     [(''name'', QString ''search''), (''language'', QEnum ''en''), (''algorithm'', QEnum ''rank''),
      (''include'', QList [QObject [(''entity'', QString ''Post''),
         (''fields'', QList [QObject [(''name'', QString ''title'')]])]])]\<rparr>"

definition demo_posts :: field_def where
  "demo_posts = \<lparr>fd_name = ''posts'', fd_arguments = [], fd_field_type = ListType (NonNullType (NamedType ''Post'')),
     fd_directives = [\<lparr>dir_name = ''derivedFrom'', dir_arguments = [(''field'', QString ''author'')]\<rparr>]\<rparr>"

definition demo_user :: object_type where
  "demo_user = \<lparr>ot_name = ''User'', ot_implements_interfaces = [], ot_directives = [\<lparr>dir_name = ''entity'', dir_arguments = []\<rparr>],
     ot_fields = [plain_field ''id'' (NonNullType (NamedType ''ID'')), demo_posts]\<rparr>"

definition demo_post :: object_type where
  "demo_post = \<lparr>ot_name = ''Post'', ot_implements_interfaces = [], ot_directives = [\<lparr>dir_name = ''entity'', dir_arguments = []\<rparr>],
     ot_fields = [plain_field ''id'' (NonNullType (NamedType ''ID'')), plain_field ''title'' (NamedType ''String''),
       plain_field ''author'' (NonNullType (NamedType ''User''))]\<rparr>"

definition demo_blog :: schema where
  "demo_blog = schema_new ''blog''
     [TypeDefinition (ObjectDef \<lparr>ot_name = ''_Schema_'', ot_implements_interfaces = [], ot_directives = [demo_fulltext], ot_fields = []\<rparr>),
      TypeDefinition (ObjectDef demo_user), TypeDefinition (ObjectDef demo_post)]"

definition demo_inflector :: inflector where
  "demo_inflector = \<lparr>to_camel_case = (\<lambda>s. s), to_plural = (\<lambda>s. s @ ''s'')\<rparr>"

lemmas demo_blog_defs = demo_blog_def demo_post_def demo_user_def demo_posts_def demo_fulltext_def plain_field_def
  demo_inflector_def schema_new_def get_object_type_definitions_def map_filter_simps SCHEMA_TYPE_NAME_def
  subgraph_schema_object_type_def argument_def

lemma demo_blog_fulltext: "validate_fulltext_directives demo_inflector demo_blog = Ok []"
  by (simp add: demo_blog_defs validate_fulltext_directives_def validate_fulltext_directive_name_def
      validate_fulltext_directive_language_def validate_fulltext_directive_algorithm_def
      validate_fulltext_directive_includes_def include_error_def included_field_error_def
      fulltext_language_try_from_def fulltext_algorithm_try_from_def value_type_from_str.simps)

lemma demo_blog_valid: "schema_validate (\<lambda>_. []) demo_inflector demo_blog [] = Ok ()"
proof -
  have no_imports: "import_directives demo_blog = []" by (simp add: demo_blog_defs import_directives_def)
  have "validate_schema_types demo_blog = Ok ()"
    by (simp add: demo_blog_defs validate_schema_types_def find_directive_def)
  moreover have "validate_derived_from demo_blog = Ok ()"
    by (simp add: demo_blog_defs validate_derived_from_def find_directive_def validate_derived_field_def
        get_object_and_interface_type_fields_def hm_collect_def)
  moreover have "schema_validate_fields (\<lambda>_. []) demo_blog = []"
    by (simp add: demo_blog_defs schema_validate_fields_def get_object_and_interface_type_fields_def hm_collect_def
        is_scalar_def value_type_from_str.simps)
  moreover have "validate_schema_type_has_no_fields demo_blog = Ok ()" "validate_directives_on_schema_type demo_blog = Ok ()"
    by (simp_all add: demo_blog_defs validate_schema_type_has_no_fields_def validate_directives_on_schema_type_def)
  ultimately show ?thesis
    by (simp add: schema_validate_def demo_blog_fulltext validate_import_directives_def validate_imported_types_def
        imported_types_def no_imports hm_collect_def)
qed

theorem derived_from_resolves_witness:
  "\<exists>oi g. object_or_interface_of (sc_document demo_blog) ''Post'' = Some oi \<and>
    get_derived_from_field oi demo_posts = Some g \<and> g \<in> set (oi_fields oi) \<and>
    get_base_type (fd_field_type g) \<in> {''User'', ''ID''}"
  using derived_from_resolves [OF demo_blog_valid, of demo_user demo_posts
      "\<lparr>dir_name = ''derivedFrom'', dir_arguments = [(''field'', QString ''author'')]\<rparr>"]
  by (simp add: demo_blog_defs get_type_definitions_def get_derived_from_directive_def interfaces_with_field_def)

section \<open>Full-text definitions\<close>

text \<open>What a definition takes from its directive; the fields are those of the first entity included.\<close>

definition fulltext_describes :: "document \<Rightarrow> directive \<Rightarrow> fulltext_definition \<Rightarrow> bool" where
  "fulltext_describes doc d def \<longleftrightarrow>
     argument d ''name'' = Some (QString (ft_name def)) \<and>
     (\<exists>l. argument d ''language'' = Some (QEnum l) \<and> fulltext_language_try_from l = Ok (fc_language (ft_config def))) \<and>
     (\<exists>a. argument d ''algorithm'' = Some (QEnum a) \<and> fulltext_algorithm_try_from a = Ok (fc_algorithm (ft_config def))) \<and>
     (\<exists>m rest t. argument d ''include'' = Some (QList (QObject m # rest)) \<and>
        map_of m ''entity'' = Some (QString (ot_name t)) \<and> t \<in> set (get_object_type_definitions doc) \<and>
        (\<forall>x \<in> ft_included_fields def. \<exists>f \<in> set (ot_fields t).
           fd_name f = x \<and> value_type_from_str (get_base_type (fd_field_type f)) = Ok StringT))"

lemma distinct_by_count:
  "(\<And>x. x \<in> set xs \<Longrightarrow> length (filter (\<lambda>y. k y = k x) xs) \<le> 1) \<Longrightarrow> distinct (map k xs)"
proof (induction xs)
  case (Cons x xs)
  have "filter (\<lambda>y. k y = k x) xs = []" using Cons.prems [of x] by simp
  then have "k x \<notin> k ` set xs" by (auto simp: filter_empty_conv)
  moreover have "length (filter (\<lambda>z. k z = k y) xs) \<le> 1" if "y \<in> set xs" for y
    using Cons.prems [of y] that by (auto split: if_splits)
  ultimately show ?case using Cons.IH by simp
qed simp

lemma try_fold_errors_Nil:
  assumes "try_fold (\<lambda>x errors. and_then (g x) (\<lambda>e. Ok (errors @ e @ h x))) xs acc = Ok []"
  shows "acc = [] \<and> (\<forall>x \<in> set xs. g x = Ok [] \<and> h x = [])"
  using assms
proof (induction xs arbitrary: acc)
  case (Cons x xs)
  from Cons.prems obtain e where e: "g x = Ok e"
    "try_fold (\<lambda>x errors. and_then (g x) (\<lambda>e. Ok (errors @ e @ h x))) xs (acc @ e @ h x) = Ok []"
    by (auto simp: and_then_Ok_iff)
  from Cons.IH [OF e(2)] e(1) show ?case by simp
qed simp

lemma included_field_name:
  assumes "included_field_error t v = None"
  shows "\<exists>n f. fulltext_field_name v = Ok n \<and> f \<in> set (ot_fields t) \<and> fd_name f = n
    \<and> value_type_from_str (get_base_type (fd_field_type f)) = Ok StringT"
  using assms
  by (auto simp: included_field_error_def fulltext_field_name_def find_None_iff split: qvalue.splits option.splits if_splits)

lemma included_field_names:
  assumes "\<forall>v \<in> set vs. included_field_error t v = None"
  shows "\<exists>ns. try_map fulltext_field_name vs = Ok ns \<and>
    (\<forall>n \<in> set ns. \<exists>f \<in> set (ot_fields t). fd_name f = n \<and> value_type_from_str (get_base_type (fd_field_type f)) = Ok StringT)"
  using assms
proof (induction vs)
  case (Cons v vs)
  then show ?case using included_field_name [of t v] by fastforce
qed simp

lemma fulltext_definition_from_valid:
  assumes n: "validate_fulltext_directive_name infl s d = Ok []"
    and l: "validate_fulltext_directive_language d = []" and a: "validate_fulltext_directive_algorithm d = []"
    and i: "validate_fulltext_directive_includes s d = []"
  shows "\<exists>def. fulltext_definition_from d = Ok def \<and> fulltext_describes (sc_document s) d def"
proof -
  from n obtain name where name: "argument d ''name'' = Some (QString name)"
    by (auto simp: validate_fulltext_directive_name_def split: option.splits qvalue.splits)
  from l obtain ln lang where lang: "argument d ''language'' = Some (QEnum ln)" "fulltext_language_try_from ln = Ok lang"
    by (auto simp: validate_fulltext_directive_language_def split: option.splits qvalue.splits result.splits)
  from a obtain an alg where alg: "argument d ''algorithm'' = Some (QEnum an)" "fulltext_algorithm_try_from an = Ok alg"
    by (auto simp: validate_fulltext_directive_algorithm_def split: option.splits qvalue.splits result.splits)
  from i obtain v rest where inc: "argument d ''include'' = Some (QList (v # rest))"
    and v: "include_error (get_object_type_definitions (sc_document s)) v = None"
    by (auto simp: validate_fulltext_directive_includes_def neq_Nil_conv split: option.splits qvalue.splits if_splits)
  from v obtain m e vs t where m: "v = QObject m" "map_of m ''entity'' = Some (QString e)" "map_of m ''fields'' = Some (QList vs)"
    and t: "find (\<lambda>t. ot_name t = e) (get_object_type_definitions (sc_document s)) = Some t"
    and vs: "\<forall>v \<in> set vs. included_field_error t v = None"
    by (cases v) (auto simp: include_error_def split: option.splits qvalue.splits)
  from t have t': "ot_name t = e" "t \<in> set (get_object_type_definitions (sc_document s))"
    by (auto simp: find_Some_iff)
  from included_field_names [OF vs] obtain ns where ns: "try_map fulltext_field_name vs = Ok ns"
    "\<forall>n \<in> set ns. \<exists>f \<in> set (ot_fields t). fd_name f = n \<and> value_type_from_str (get_base_type (fd_field_type f)) = Ok StringT"
    by blast
  show ?thesis
    using t' by (auto simp: fulltext_definition_from_def fulltext_describes_def name lang alg inc m ns
        intro!: exI [where x = t] ns(2))
qed

lemma validated_fulltext_directive:
  assumes "validate_fulltext_directives infl s = Ok []" and d: "d \<in> set (get_fulltext_directives (sc_document s))"
  shows "validate_fulltext_directive_name infl s d = Ok []"
    "\<exists>def. fulltext_definition_from d = Ok def \<and> fulltext_describes (sc_document s) d def"
proof -
  have sub: "get_object_type_definition (sc_document s) SCHEMA_TYPE_NAME = subgraph_schema_object_type s"
    by (simp add: get_object_type_definition_def subgraph_schema_object_type_def)
  obtain t where t: "subgraph_schema_object_type s = Some t" "d \<in> set (filter (\<lambda>d. dir_name d = ''fulltext'') (ot_directives t))"
    using d by (cases "subgraph_schema_object_type s") (auto simp: get_fulltext_directives_def sub)
  have valid: "validate_fulltext_directive_name infl s d = Ok [] \<and> validate_fulltext_directive_language d
      @ validate_fulltext_directive_algorithm d @ validate_fulltext_directive_includes s d = []"
    using try_fold_errors_Nil [OF assms(1) [unfolded validate_fulltext_directives_def t(1) option.case]] t(2) by blast
  then show "validate_fulltext_directive_name infl s d = Ok []" by blast
  show "\<exists>def. fulltext_definition_from d = Ok def \<and> fulltext_describes (sc_document s) d def"
    using valid by (intro fulltext_definition_from_valid) auto
qed

text \<open>C28. When the \<open>@fulltext\<close> directives of a schema pass validation, converting those of an entity to definitions does
  not panic on any of the conversion's \<open>unwrap\<close>s. The definitions come in order, with pairwise different
  names, each with the language, the algorithm and the name of its directive, and their fields are
  string fields of the first entity that the directive includes.\<close>

theorem fulltext_definitions_valid:
  assumes "validate_fulltext_directives infl s = Ok []"
  shows "\<exists>defs. entity_fulltext_definitions entity (sc_document s) = Ok defs \<and>
    list_all2 (fulltext_describes (sc_document s)) (filter (includes_entity entity) (get_fulltext_directives (sc_document s))) defs \<and>
    distinct (map ft_name defs)"
proof -
  let ?ds = "get_fulltext_directives (sc_document s)"
  let ?k = "\<lambda>d. argument d ''name''"
  have sub: "get_object_type_definition (sc_document s) SCHEMA_TYPE_NAME = subgraph_schema_object_type s"
    by (simp add: get_object_type_definition_def subgraph_schema_object_type_def)
  have "length (filter (\<lambda>y. ?k y = ?k d) ?ds) \<le> 1" if "d \<in> set ?ds" for d
    using validated_fulltext_directive(1) [OF assms that] that
    by (auto simp: validate_fulltext_directive_name_def get_fulltext_directives_def sub
        split: option.splits qvalue.splits if_splits)
  then have dist: "distinct (map ?k ?ds)" by (rule distinct_by_count)
  let ?es = "filter (includes_entity entity) ?ds"
  have conv: "\<exists>def. fulltext_definition_from d = Ok def \<and> fulltext_describes (sc_document s) d def" if "d \<in> set ?es" for d
    using validated_fulltext_directive(2) [OF assms, of d] that by simp
  then obtain from_d where from_d: "\<And>d. d \<in> set ?es \<Longrightarrow> fulltext_definition_from d = Ok (from_d d) \<and> fulltext_describes (sc_document s) d (from_d d)"
    by metis
  have defs: "entity_fulltext_definitions entity (sc_document s) = Ok (map from_d ?es)"
    unfolding entity_fulltext_definitions_def by (rule try_map_Ok_total) (use from_d in blast)
  have same: "map ?k ?es = map (\<lambda>d. Some (QString (ft_name (from_d d)))) ?es"
    using from_d by (auto simp: fulltext_describes_def)
  have "distinct (map ?k ?es)" using dist by (rule distinct_map_filter)
  then have "distinct (map (\<lambda>n. Some (QString n)) (map (\<lambda>d. ft_name (from_d d)) ?es))"
    unfolding same by (simp add: comp_def)
  then have "distinct (map ft_name (map from_d ?es))" by (auto simp: distinct_map comp_def inj_on_def)
  moreover have "list_all2 (fulltext_describes (sc_document s)) ?es (map from_d ?es)"
    using from_d by (simp add: list.rel_map list.rel_refl_strong del: set_filter)
  ultimately show ?thesis using defs by blast
qed

theorem fulltext_definitions_valid_witness:
  "\<exists>def. entity_fulltext_definitions ''Post'' (sc_document demo_blog) = Ok [def] \<and> ft_name def = ''search''
     \<and> fc_language (ft_config def) = English"
proof -
  have ds: "filter (includes_entity ''Post'') (get_fulltext_directives (sc_document demo_blog)) = [demo_fulltext]"
    by (simp add: demo_blog_defs get_fulltext_directives_def get_object_type_definition_def includes_entity_def)
  obtain def where d: "entity_fulltext_definitions ''Post'' (sc_document demo_blog) = Ok [def]"
    "fulltext_describes (sc_document demo_blog) demo_fulltext def"
    using fulltext_definitions_valid [OF demo_blog_fulltext, of "''Post''"] by (auto simp: ds list_all2_Cons1)
  then show ?thesis
    by (auto simp: fulltext_describes_def demo_fulltext_def argument_def fulltext_language_try_from_def)
qed

end
