(* ===== verification/SchemaChecks.thy ===== *)
theory SchemaChecks
  imports GqlAst
begin

text \<open>
  The names of filter arguments and the validation of entities against the schema
  (\<open>parse_field_as_filter\<close> and \<open>validate_entity\<close> of \<open>graphql/src/schema/ast.rs\<close>).
\<close>

section \<open>Filter names\<close>

datatype filter_op =
    OpNot | OpGreaterThan | OpLessThan | OpGreaterOrEqual | OpLessOrEqual | OpIn | OpNotIn | OpContains
  | OpNotContains | OpStartsWith | OpNotStartsWith | OpEndsWith | OpNotEndsWith | OpEqual

text \<open>The arms of the match on \<open>key.ends_with(suffix)\<close>, in order.\<close>

definition filter_suffixes :: "(string \<times> filter_op) list" where
  "filter_suffixes =
     [(''_not'', OpNot), (''_gt'', OpGreaterThan), (''_lt'', OpLessThan), (''_gte'', OpGreaterOrEqual),
      (''_lte'', OpLessOrEqual), (''_not_in'', OpNotIn), (''_in'', OpIn), (''_not_contains'', OpNotContains),
      (''_contains'', OpContains), (''_not_starts_with'', OpNotStartsWith), (''_not_ends_with'', OpNotEndsWith),
      (''_starts_with'', OpStartsWith), (''_ends_with'', OpEndsWith)]"

text \<open>\<open>str::trim_end_matches\<close> removes the suffix as often as it occurs.\<close>

function trim_end_matches :: "string \<Rightarrow> string \<Rightarrow> string" where
  "trim_end_matches s suf =
     (if suf \<noteq> [] \<and> suffix suf s then trim_end_matches (take (length s - length suf) s) suf else s)"
  by auto
termination
  by (relation "measure (\<lambda>(s, suf). length s)") (auto simp: suffix_def)

declare trim_end_matches.simps [simp del]

definition parse_field_as_filter :: "string \<Rightarrow> string \<times> filter_op" where
  "parse_field_as_filter key =
     (let (suf, op) = (case find (\<lambda>(suf, _). suffix suf key) filter_suffixes of Some r \<Rightarrow> r | None \<Rightarrow> ([], OpEqual))
      in (trim_end_matches key suf, op))"

section \<open>Validation of entities\<close>

fun scalar_value_type :: "document \<Rightarrow> gtype \<Rightarrow> (value_type, 'e) result" where
  "scalar_value_type schema (NamedType name) =
     (case value_type_from_str name of
        Ok t \<Rightarrow> Ok t
      | _ \<Rightarrow>
          (case get_named_type schema name of
             Some (ObjectDef _) \<Rightarrow> Ok StringT
           | Some (InterfaceDef _) \<Rightarrow> Ok StringT
           | Some (EnumDef _) \<Rightarrow> Ok StringT
           | _ \<Rightarrow> Panic))"
| "scalar_value_type schema (NonNullType inner) = scalar_value_type schema inner"
| "scalar_value_type schema (ListType inner) = scalar_value_type schema inner"

fun is_list :: "gtype \<Rightarrow> bool" where
  "is_list (NamedType _) = False"
| "is_list (NonNullType inner) = is_list inner"
| "is_list (ListType _) = True"

fun is_assignable :: "val \<Rightarrow> value_type \<Rightarrow> bool \<Rightarrow> bool" where
  "is_assignable (VString _) t l \<longleftrightarrow> t = StringT"
| "is_assignable (VBigDecimal _) t l \<longleftrightarrow> t = BigDecimalT"
| "is_assignable (VBigInt _) t l \<longleftrightarrow> t = BigIntT"
| "is_assignable (VBool _) t l \<longleftrightarrow> t = BooleanT"
| "is_assignable (VBytes _) t l \<longleftrightarrow> t = BytesT"
| "is_assignable (VInt _) t l \<longleftrightarrow> t = IntT"
| "is_assignable VNull t l \<longleftrightarrow> True"
| "is_assignable (VList values) t l \<longleftrightarrow> l \<and> list_all (\<lambda>v. is_assignable v t False) values"

datatype entity_check_error =
    UnknownEntityType string
  | BadElement string nat
  | BadType string
  | MissingValue string
  | DerivedFieldSet string

text \<open>The \<open>for\<close> loop over the elements of a list that reports the first one of the wrong type.\<close>

fun check_elements :: "string \<Rightarrow> value_type \<Rightarrow> nat \<Rightarrow> val list \<Rightarrow> (unit, entity_check_error) result" where
  "check_elements name t index [] = Ok ()"
| "check_elements name t index (elt # elts) =
     (if \<not> is_assignable elt t False then Err (BadElement name index) else check_elements name t (Suc index) elts)"

definition validate_field :: "document \<Rightarrow> entity \<Rightarrow> field_def \<Rightarrow> (unit, entity_check_error) result" where
  "validate_field schema entity f =
     (case (map_of entity (fd_name f), get_derived_from_directive f \<noteq> None) of
        (Some value, False) \<Rightarrow>
          and_then (scalar_value_type schema (fd_field_type f)) (\<lambda>scalar_type.
          and_then (if is_list (fd_field_type f)
                    then (case value of VList elts \<Rightarrow> check_elements (fd_name f) scalar_type 0 elts | _ \<Rightarrow> Ok ())
                    else Ok ()) (\<lambda>_.
            if \<not> is_assignable value scalar_type (is_list (fd_field_type f)) then Err (BadType (fd_name f)) else Ok ()))
      | (None, False) \<Rightarrow> if is_non_null_type (fd_field_type f) then Err (MissingValue (fd_name f)) else Ok ()
      | (Some _, True) \<Rightarrow> Err (DerivedFieldSet (fd_name f))
      | (None, True) \<Rightarrow> Ok ())"

definition validate_entity :: "document \<Rightarrow> entity_key \<Rightarrow> entity \<Rightarrow> (unit, entity_check_error) result" where
  "validate_entity schema key entity =
     (case find (\<lambda>t. ot_name t = entity_type key) (get_object_type_definitions schema) of
        None \<Rightarrow> Err (UnknownEntityType (entity_type key))
      | Some t \<Rightarrow> try_fold (\<lambda>f _. validate_field schema entity f) (ot_fields t) ())"

section \<open>Properties\<close>

lemma suffix_rev_prefix: "suffix xs ys \<longleftrightarrow> prefix (rev xs) (rev ys)"
  by (simp add: suffix_to_prefix)

lemma suffix_own: "suffix xs (ys @ xs)"
  by (simp add: suffix_def)

lemma trim_once: "suf \<noteq> [] \<Longrightarrow> \<not> suffix suf s \<Longrightarrow> trim_end_matches (s @ suf) suf = s"
  by (simp add: trim_end_matches.simps [of "s @ suf"] trim_end_matches.simps [of s] suffix_own)

lemma trim_again: "suf \<noteq> [] \<Longrightarrow> trim_end_matches (s @ suf) suf = trim_end_matches s suf"
  by (simp add: trim_end_matches.simps [of "s @ suf"] suffix_own)

lemma find_suffix:
  assumes "(suf, op) \<in> set filter_suffixes" and "\<forall>(suf', _) \<in> set filter_suffixes. \<not> suffix suf' s"
  shows "find (\<lambda>(suf', _). suffix suf' (s @ suf)) filter_suffixes = Some (suf, op)"
proof -
  have "(''_not'', OpNot) \<in> set filter_suffixes" by (simp add: filter_suffixes_def)
  then have n: "\<not> prefix ''ton_'' (rev s)" using assms(2) by (force simp: suffix_rev_prefix)
  show ?thesis
    using assms(1) [unfolded filter_suffixes_def, simplified]
    by (elim disjE conjE) (simp_all add: filter_suffixes_def suffix_rev_prefix n)
qed

text \<open>The name of an attribute followed by the suffix of an operator is read back as that attribute
  and that operator, provided the name itself ends in none of the suffixes; a name without a suffix
  stands for equality.\<close>

lemma filter_name_roundtrip:
  assumes "\<forall>(suf, _) \<in> set filter_suffixes. \<not> suffix suf attr"
  shows "parse_field_as_filter attr = (attr, OpEqual)
    \<and> (\<forall>(suf, op) \<in> set filter_suffixes. parse_field_as_filter (attr @ suf) = (attr, op))"
proof -
  have "find (\<lambda>(suf, _). suffix suf attr) filter_suffixes = None"
    using assms by (auto simp: find_None_iff)
  moreover have "trim_end_matches attr [] = attr" by (simp add: trim_end_matches.simps)
  moreover have "parse_field_as_filter (attr @ suf) = (attr, op)" if "(suf, op) \<in> set filter_suffixes" for suf op
  proof -
    have "suf \<noteq> []" "\<not> suffix suf attr" using that assms by (auto simp: filter_suffixes_def)
    then show ?thesis using find_suffix [OF that assms] by (simp add: parse_field_as_filter_def trim_once)
  qed
  ultimately show ?thesis by (auto simp: parse_field_as_filter_def)
qed

text \<open>The suffix is stripped as often as it occurs, so an attribute whose own name ends in the suffix
  of an operator cannot be filtered with that operator: the filter is read as one on the attribute
  with the shorter name.\<close>

lemma filter_strips_attribute_suffix:
  assumes "\<forall>(suf, _) \<in> set filter_suffixes. \<not> suffix suf attr" and "(suf, op) \<in> set filter_suffixes"
    and "find (\<lambda>(suf', _). suffix suf' (attr @ suf @ suf)) filter_suffixes = Some (suf, op)"
  shows "parse_field_as_filter ((attr @ suf) @ suf) = (attr, op)"
proof -
  have "suf \<noteq> []" "\<not> suffix suf attr" using assms(1,2) by (auto simp: filter_suffixes_def)
  then have "trim_end_matches ((attr @ suf) @ suf) suf = attr"
    using trim_again [of suf "attr @ suf"] trim_once [of suf attr] by simp
  then show ?thesis using assms(3) by (simp add: parse_field_as_filter_def)
qed

section \<open>Properties of entity validation\<close>

text \<open>Fields whose base type is a scalar of the store, an entity, an interface or an enum.\<close>

definition storable :: "document \<Rightarrow> field_def \<Rightarrow> bool" where
  "storable schema f \<longleftrightarrow> is_ok (scalar_value_type schema (fd_field_type f) :: (_, unit) result)"

lemma scalar_value_type_poly:
  "scalar_value_type schema t = (Ok v :: (_, 'e) result) \<longleftrightarrow> scalar_value_type schema t = (Ok v :: (_, 'f) result)"
  by (induction schema t rule: scalar_value_type.induct) (auto split: result.splits option.splits type_definition.splits)

lemma storable_Ok:
  assumes "storable schema f"
  shows "\<exists>v. scalar_value_type schema (fd_field_type f) = (Ok v :: (_, 'e) result)"
proof -
  obtain v where "scalar_value_type schema (fd_field_type f) = (Ok v :: (_, unit) result)"
    using assms unfolding storable_def by (auto elim: is_ok.elims)
  then show ?thesis using scalar_value_type_poly by blast
qed

text \<open>An element of the right kind: a scalar of the type, or null.\<close>

fun of_kind :: "value_type \<Rightarrow> val \<Rightarrow> bool" where
  "of_kind t VNull = True"
| "of_kind t (VList _) = False"
| "of_kind t v = (value_type_from_str (type_name v) = Ok t)"

lemma is_assignable_kind:
  "is_assignable v t l \<longleftrightarrow>
     of_kind t v \<or> (\<exists>vs. v = VList vs \<and> l \<and> (\<forall>w \<in> set vs. of_kind t w))"
proof -
  have scalar: "is_assignable w t False \<longleftrightarrow> of_kind t w" for w
    by (cases w) (auto simp: value_type_from_str.simps)
  show ?thesis by (cases v) (auto simp: list_all_iff scalar value_type_from_str.simps)
qed

lemma check_elements_ok: "list_all (\<lambda>v. is_assignable v t False) elts \<Longrightarrow> check_elements name t i elts = Ok ()"
  by (induction elts arbitrary: i) auto

lemma validate_field_iff:
  assumes "scalar_value_type schema (fd_field_type f) = (Ok t :: (_, entity_check_error) result)"
  shows "validate_field schema e f = Ok () \<longleftrightarrow>
    (if get_derived_from_directive f \<noteq> None then map_of e (fd_name f) = None
     else case map_of e (fd_name f) of
       None \<Rightarrow> \<not> is_non_null_type (fd_field_type f)
     | Some v \<Rightarrow> is_assignable v t (is_list (fd_field_type f)))"
proof (cases "map_of e (fd_name f)")
  case (Some v)
  have "(\<exists>u. (if is_list (fd_field_type f)
        then (case v of VList elts \<Rightarrow> check_elements (fd_name f) t 0 elts | _ \<Rightarrow> Ok ()) else Ok ()) = Ok u)"
    if "is_assignable v t (is_list (fd_field_type f))"
    using that check_elements_ok by (cases v) auto
  then show ?thesis using Some assms by (auto simp: validate_field_def and_then_Ok_iff)
qed (simp add: validate_field_def)

lemma try_fold_unit: "try_fold (\<lambda>x _. f x) xs () = Ok () \<longleftrightarrow> (\<forall>x \<in> set xs. f x = Ok ())"
  by (induction xs) (auto simp: and_then_Ok_iff)

text \<open>C36. An entity passes validation exactly when its type is known and every field is as the schema
  says: derived fields are not set, other fields hold a value of the kind of their base type or, for
  list fields, a flat list of such values, and non-null fields are present. Null counts as a value
  of every kind, so a non-null field that is explicitly set to null passes too.\<close>

theorem validate_entity_iff:
  assumes "\<forall>t \<in> set (get_object_type_definitions schema). list_all (storable schema) (ot_fields t)"
  shows "validate_entity schema key e = Ok () \<longleftrightarrow>
    (\<exists>t. get_object_type_definition schema (entity_type key) = Some t \<and>
      (\<forall>f \<in> set (ot_fields t).
        if get_derived_from_directive f \<noteq> None then map_of e (fd_name f) = None
        else case map_of e (fd_name f) of
          None \<Rightarrow> \<not> is_non_null_type (fd_field_type f)
        | Some v \<Rightarrow> (\<exists>k. scalar_value_type schema (fd_field_type f) = (Ok k :: (_, unit) result)
            \<and> (of_kind k v \<or> is_list (fd_field_type f) \<and> (\<exists>vs. v = VList vs \<and> (\<forall>w \<in> set vs. of_kind k w))))))"
proof (cases "get_object_type_definition schema (entity_type key)")
  case None
  then show ?thesis by (simp add: validate_entity_def get_object_type_definition_def)
next
  case (Some t)
  then have "t \<in> set (get_object_type_definitions schema)"
    unfolding get_object_type_definition_def by (metis find_Some_iff nth_mem)
  then have st: "storable schema f" if "f \<in> set (ot_fields t)" for f using that assms by (auto simp: list_all_iff)
  have field: "validate_field schema e f = Ok () \<longleftrightarrow>
      (if get_derived_from_directive f \<noteq> None then map_of e (fd_name f) = None
        else case map_of e (fd_name f) of
          None \<Rightarrow> \<not> is_non_null_type (fd_field_type f)
        | Some v \<Rightarrow> (\<exists>k. scalar_value_type schema (fd_field_type f) = (Ok k :: (_, unit) result)
            \<and> (of_kind k v \<or> is_list (fd_field_type f) \<and> (\<exists>vs. v = VList vs \<and> (\<forall>w \<in> set vs. of_kind k w)))))"
    if f: "f \<in> set (ot_fields t)" for f
  proof -
    obtain k where k: "scalar_value_type schema (fd_field_type f) = (Ok k :: (_, entity_check_error) result)"
      using storable_Ok [OF st, OF f] by blast
    then have k': "scalar_value_type schema (fd_field_type f) = (Ok k :: (_, unit) result)"
      using scalar_value_type_poly by blast
    show ?thesis unfolding validate_field_iff [OF k] is_assignable_kind k' by (auto split: option.splits)
  qed
  have "validate_entity schema key e = Ok () \<longleftrightarrow> (\<forall>f \<in> set (ot_fields t). validate_field schema e f = Ok ())"
    using Some by (simp add: validate_entity_def get_object_type_definition_def try_fold_unit)
  then show ?thesis using Some field by simp
qed

definition demo_type :: object_type where
  "demo_type = \<lparr>ot_name = ''Thing'', ot_implements_interfaces = [], ot_directives = [],
     ot_fields = [\<lparr>fd_name = ''id'', fd_arguments = [], fd_field_type = NonNullType (NamedType ''ID''), fd_directives = []\<rparr>,
       \<lparr>fd_name = ''tags'', fd_arguments = [], fd_field_type = ListType (NamedType ''String''), fd_directives = []\<rparr>]\<rparr>"

definition demo_doc :: document where
  "demo_doc = [TypeDefinition (ObjectDef demo_type)]"

theorem validate_entity_iff_witness:
  "validate_entity demo_doc (EntityKey ''sg'' ''Thing'' ''a'') [(''id'', VNull), (''tags'', VList [VString ''x'', VNull])] = Ok ()
   \<and> validate_entity demo_doc (EntityKey ''sg'' ''Thing'' ''a'') [(''tags'', VList [])] \<noteq> Ok ()"
proof -
  have "\<forall>t \<in> set (get_object_type_definitions demo_doc). list_all (storable demo_doc) (ot_fields t)"
    by (simp add: demo_doc_def demo_type_def get_object_type_definitions_def map_filter_simps storable_def
        value_type_from_str.simps)
  note iff = validate_entity_iff [OF this]
  show ?thesis unfolding iff
    by (simp add: demo_doc_def demo_type_def get_object_type_definition_def get_object_type_definitions_def
        map_filter_simps get_derived_from_directive_def value_type_from_str.simps)
qed

end
