(* ===== verification/ApiSchema.thy ===== *)
theory ApiSchema
  imports SchemaValidation SchemaChecks
begin

text \<open>
  The API schema that is derived from the schema of a subgraph (\<open>graphql/src/schema/api.rs\<close>): the scalar types,
  the types for ordering and filtering, the arguments of collections and the root types \<open>Query\<close> and \<open>Subscription\<close>.
\<close>

section \<open>Definitions\<close>

datatype api_schema_error = TypeExists string | TypeNotFound string

definition BLOCK_HEIGHT :: string where
  "BLOCK_HEIGHT = ''Block_height''"

text \<open>An \<open>InputValue\<close> with the default position, no description and no directives.\<close>

definition plain_input :: "string \<Rightarrow> gtype \<Rightarrow> qvalue option \<Rightarrow> input_value" where
  "plain_input name t d = \<lparr>iv_position = (0, 0), iv_name = name, iv_value_type = t, iv_default_value = d\<rparr>"

definition add_builtin_scalar_types :: "document \<Rightarrow> (document, api_schema_error) result" where
  "add_builtin_scalar_types doc =
     try_fold (\<lambda>name doc.
         case get_named_type doc name of
           None \<Rightarrow> Ok (doc @ [TypeDefinition (ScalarDef \<lparr>st_name = name, st_directives = []\<rparr>)])
         | Some _ \<Rightarrow> Err (TypeExists name))
       [''Boolean'', ''ID'', ''Int'', ''BigDecimal'', ''String'', ''Bytes'', ''BigInt''] doc"

definition add_directives :: "document \<Rightarrow> document" where
  "add_directives doc =
     doc @ [DirectiveDefinition \<lparr>dd_name = ''entity'', dd_arguments = [], dd_locations = [LocObject]\<rparr>,
       DirectiveDefinition \<lparr>dd_name = ''derivedFrom'',
         dd_arguments = [plain_input ''field'' (NamedType ''String'') None], dd_locations = [LocFieldDefinition]\<rparr>,
       DirectiveDefinition \<lparr>dd_name = ''subgraphId'',
         dd_arguments = [plain_input ''id'' (NamedType ''String'') None], dd_locations = [LocObject]\<rparr>]"

definition add_order_direction_enum :: "document \<Rightarrow> document" where
  "add_order_direction_enum doc =
     doc @ [TypeDefinition (EnumDef \<lparr>en_name = ''OrderDirection'', en_directives = [], en_values = [''asc'', ''desc'']\<rparr>)]"

definition add_block_height_type :: "document \<Rightarrow> document" where
  "add_block_height_type doc =
     doc @ [TypeDefinition (InputObjectDef \<lparr>io_name = BLOCK_HEIGHT, io_directives = [],
       io_fields = [plain_input ''hash'' (NamedType ''Bytes'') None, plain_input ''number'' (NamedType ''Int'') None]\<rparr>)]"

definition add_order_by_type :: "string \<Rightarrow> field_def list \<Rightarrow> document \<Rightarrow> (document, api_schema_error) result" where
  "add_order_by_type name fs doc =
     (let order_name = name @ ''_orderBy''
      in case get_named_type doc order_name of
           None \<Rightarrow> Ok (doc @ [TypeDefinition (EnumDef \<lparr>en_name = order_name, en_directives = [], en_values = map fd_name fs\<rparr>)])
         | Some _ \<Rightarrow> Err (TypeExists order_name))"

text \<open>The arguments of a filter type: \<open>input_value\<close> and the functions for the kinds of field types.\<close>

definition filter_input_value :: "string \<Rightarrow> string \<Rightarrow> gtype \<Rightarrow> input_value" where
  "filter_input_value name suf t = plain_input (if suf = [] then name else name @ ''_'' @ suf) t None"

definition scalar_filter_types :: "string \<Rightarrow> string list" where
  "scalar_filter_types name =
     (if name \<in> {''BigInt'', ''BigDecimal'', ''ID'', ''Int''}
      then [[], ''not'', ''gt'', ''lt'', ''gte'', ''lte'', ''in'', ''not_in'']
      else if name = ''Boolean'' then [[], ''not'', ''in'', ''not_in'']
      else if name = ''Bytes'' \<or> name = ''List'' then [[], ''not'', ''in'', ''not_in'', ''contains'', ''not_contains'']
      else if name = ''String''
      then [[], ''not'', ''gt'', ''lt'', ''gte'', ''lte'', ''in'', ''not_in'', ''contains'', ''not_contains'',
            ''starts_with'', ''not_starts_with'', ''ends_with'', ''not_ends_with'']
      else [[], ''not''])"

definition field_scalar_filter_input_values :: "field_def \<Rightarrow> string \<Rightarrow> input_value list" where
  "field_scalar_filter_input_values f scalar_name =
     map (\<lambda>filter_type. filter_input_value (fd_name f) filter_type
         (if filter_type = ''in'' \<or> filter_type = ''not_in'' then ListType (NonNullType (NamedType scalar_name))
          else NamedType scalar_name))
       (scalar_filter_types scalar_name)"

definition field_enum_filter_input_values :: "field_def \<Rightarrow> enum_type \<Rightarrow> input_value list" where
  "field_enum_filter_input_values f t =
     [filter_input_value (fd_name f) [] (NamedType (en_name t)), filter_input_value (fd_name f) ''not'' (NamedType (en_name t))]"

definition field_list_filter_input_values :: "document \<Rightarrow> field_def \<Rightarrow> gtype \<Rightarrow> input_value list option" where
  "field_list_filter_input_values doc f t =
     Option.bind (get_type_definition_from_type doc t) (\<lambda>typedef.
     Option.bind
       (case typedef of
          InterfaceDef _ \<Rightarrow> if get_derived_from_directive f \<noteq> None then None else Some (NamedType ''String'')
        | ObjectDef _ \<Rightarrow> if get_derived_from_directive f \<noteq> None then None else Some (NamedType ''String'')
        | ScalarDef t \<Rightarrow> Some (NamedType (st_name t))
        | EnumDef t \<Rightarrow> Some (NamedType (en_name t))
        | _ \<Rightarrow> None) (\<lambda>input_field_type.
       Some (map (\<lambda>filter_type. filter_input_value (fd_name f) filter_type (ListType (NonNullType input_field_type)))
         [[], ''not'', ''contains'', ''not_contains''])))"

fun field_filter_input_values :: "document \<Rightarrow> field_def \<Rightarrow> gtype \<Rightarrow> (input_value list, api_schema_error) result" where
  "field_filter_input_values doc f (NamedType name) =
     (case get_named_type doc name of
        None \<Rightarrow> Err (TypeNotFound name)
      | Some (ObjectDef _) \<Rightarrow>
          Ok (if get_derived_from_directive f \<noteq> None then [] else field_scalar_filter_input_values f ''String'')
      | Some (InterfaceDef _) \<Rightarrow>
          Ok (if get_derived_from_directive f \<noteq> None then [] else field_scalar_filter_input_values f ''String'')
      | Some (ScalarDef t) \<Rightarrow> Ok (field_scalar_filter_input_values f (st_name t))
      | Some (EnumDef t) \<Rightarrow> Ok (field_enum_filter_input_values f t)
      | Some _ \<Rightarrow> Ok [])"
| "field_filter_input_values doc f (ListType t) =
     Ok (case field_list_filter_input_values doc f t of Some vs \<Rightarrow> vs | None \<Rightarrow> [])"
| "field_filter_input_values doc f (NonNullType t) = field_filter_input_values doc f t"

definition field_input_values :: "document \<Rightarrow> field_def list \<Rightarrow> (input_value list, api_schema_error) result" where
  "field_input_values doc fs =
     try_fold (\<lambda>f input_values.
       and_then (field_filter_input_values doc f (fd_field_type f)) (\<lambda>vs. Ok (input_values @ vs))) fs []"

definition add_filter_type :: "string \<Rightarrow> field_def list \<Rightarrow> document \<Rightarrow> (document, api_schema_error) result" where
  "add_filter_type name fs doc =
     (let filter_name = name @ ''_filter''
      in case get_named_type doc filter_name of
           None \<Rightarrow>
             and_then (field_input_values doc fs) (\<lambda>input_values.
               if input_values = [] then Ok doc
               else and_then (field_input_values doc fs) (\<lambda>vs.
                 Ok (doc @ [TypeDefinition (InputObjectDef \<lparr>io_name = filter_name, io_directives = [], io_fields = vs\<rparr>)])))
         | Some _ \<Rightarrow> Err (TypeExists filter_name))"

definition add_types_for_object_types :: "object_type list \<Rightarrow> document \<Rightarrow> (document, api_schema_error) result" where
  "add_types_for_object_types object_types =
     try_fold (\<lambda>t doc. and_then (add_order_by_type (ot_name t) (ot_fields t) doc) (add_filter_type (ot_name t) (ot_fields t)))
       object_types"

definition add_types_for_interface_types :: "interface_type list \<Rightarrow> document \<Rightarrow> (document, api_schema_error) result" where
  "add_types_for_interface_types interface_types =
     try_fold (\<lambda>t doc. and_then (add_order_by_type (it_name t) (it_fields t) doc) (add_filter_type (it_name t) (it_fields t)))
       interface_types"

text \<open>The arguments of collections and the fields of the root types.\<close>

definition block_argument :: input_value where
  "block_argument = plain_input ''block'' (NamedType BLOCK_HEIGHT) None"

definition collection_arguments_for_named_type :: "input_object_type list \<Rightarrow> string \<Rightarrow> input_value list" where
  "collection_arguments_for_named_type input_objects name =
     (let args =
        [plain_input ''skip'' (NamedType ''Int'') (Some (QInt 0)),
         plain_input ''first'' (NamedType ''Int'') (Some (QInt 100)),
         filter_input_value ''orderBy'' [] (NamedType (name @ ''_orderBy'')),
         filter_input_value ''orderDirection'' [] (NamedType ''OrderDirection'')];
        filter_name = name @ ''_filter''
      in if list_ex (\<lambda>t. io_name t = filter_name) input_objects
         then args @ [filter_input_value ''where'' [] (NamedType filter_name)] else args)"

definition query_fields_for_type :: "inflector \<Rightarrow> document \<Rightarrow> string \<Rightarrow> field_def list" where
  "query_fields_for_type infl doc name =
     (let collection_arguments =
        collection_arguments_for_named_type (get_input_object_definitions doc) name @ [block_argument]
      in [\<lparr>fd_name = to_camel_case infl name,
            fd_arguments = [plain_input ''id'' (NonNullType (NamedType ''ID'')) None, block_argument],
            fd_field_type = NamedType name, fd_directives = []\<rparr>,
          \<lparr>fd_name = to_camel_case infl (to_plural infl name), fd_arguments = collection_arguments,
            fd_field_type = NonNullType (ListType (NonNullType (NamedType name))), fd_directives = []\<rparr>])"

definition query_field_for_fulltext :: "directive \<Rightarrow> (field_def option, api_schema_error) result" where
  "query_field_for_fulltext fulltext =
     and_then (expect (argument fulltext ''name'')) (\<lambda>v.
     and_then (expect (value_as_string v)) (\<lambda>name.
     and_then (expect (argument fulltext ''include'')) (\<lambda>v.
     and_then (expect (value_as_list v)) (\<lambda>includes.
     and_then (expect (case includes of [] \<Rightarrow> None | x # _ \<Rightarrow> Some x)) (\<lambda>x.
     and_then (expect (value_as_object x)) (\<lambda>included_entity.
     and_then (expect (map_of included_entity ''entity'')) (\<lambda>v.
     and_then (expect (value_as_string v)) (\<lambda>entity_name.
       Ok (Some \<lparr>fd_name = name,
         fd_arguments = [plain_input ''text'' (NonNullType (NamedType ''String'')) None,
           plain_input ''first'' (NamedType ''Int'') (Some (QInt 100)),
           plain_input ''skip'' (NamedType ''Int'') (Some (QInt 0)),
           plain_input ''block'' (NamedType BLOCK_HEIGHT) None],
         fd_field_type = NonNullType (ListType (NonNullType (NamedType entity_name))),
         fd_directives = [fulltext]\<rparr>)))))))))"

definition root_fields :: "inflector \<Rightarrow> document \<Rightarrow> object_type list \<Rightarrow> interface_type list \<Rightarrow> field_def list" where
  "root_fields infl doc object_types interface_types =
     concat (map (query_fields_for_type infl doc) (map ot_name object_types @ map it_name interface_types))"

definition add_query_type ::
  "inflector \<Rightarrow> object_type list \<Rightarrow> interface_type list \<Rightarrow> document \<Rightarrow> (document, api_schema_error) result" where
  "add_query_type infl object_types interface_types doc =
     (case get_named_type doc ''Query'' of
        Some _ \<Rightarrow> Err (TypeExists ''Query'')
      | None \<Rightarrow>
          and_then (try_map query_field_for_fulltext (get_fulltext_directives doc)) (\<lambda>fulltext_fields.
            Ok (doc @ [TypeDefinition (ObjectDef \<lparr>ot_name = ''Query'', ot_implements_interfaces = [], ot_directives = [],
              ot_fields = root_fields infl doc object_types interface_types
                @ List.map_filter (\<lambda>x. x) fulltext_fields\<rparr>)])))"

definition add_subscription_type ::
  "inflector \<Rightarrow> object_type list \<Rightarrow> interface_type list \<Rightarrow> document \<Rightarrow> (document, api_schema_error) result" where
  "add_subscription_type infl object_types interface_types doc =
     (case get_named_type doc ''Subscription'' of
        Some _ \<Rightarrow> Err (TypeExists ''Subscription'')
      | None \<Rightarrow>
          Ok (doc @ [TypeDefinition (ObjectDef \<lparr>ot_name = ''Subscription'', ot_implements_interfaces = [],
            ot_directives = [], ot_fields = root_fields infl doc object_types interface_types\<rparr>)]))"

text \<open>
  \<open>add_field_arguments\<close>. A mutable reference to the first definition of a name (\<open>get_object_type_mut\<close>,
  \<open>get_interface_type_mut\<close>), and in it to the first field of a name, is an update of the document.
\<close>

fun update_first :: "('a \<Rightarrow> bool) \<Rightarrow> ('a \<Rightarrow> 'a) \<Rightarrow> 'a list \<Rightarrow> 'a list" where
  "update_first p g [] = []"
| "update_first p g (x # xs) = (if p x then g x # xs else x # update_first p g xs)"

fun is_type_named :: "string \<Rightarrow> schema_definition \<Rightarrow> bool" where
  "is_type_named name (TypeDefinition t) = (get_type_name t = name)"
| "is_type_named name _ = False"

definition set_arguments :: "string \<Rightarrow> input_value list \<Rightarrow> field_def list \<Rightarrow> (field_def list, api_schema_error) result" where
  "set_arguments name args fs =
     (if list_ex (\<lambda>f. fd_name f = name) fs
      then Ok (update_first (\<lambda>f. fd_name f = name) (\<lambda>f. f\<lparr>fd_arguments := args\<rparr>) fs) else Panic)"

definition set_object_field_arguments ::
  "string \<Rightarrow> string \<Rightarrow> input_value list \<Rightarrow> document \<Rightarrow> (document, api_schema_error) result" where
  "set_object_field_arguments name field_name args doc =
     (case get_named_type doc name of
        Some (ObjectDef t) \<Rightarrow>
          and_then (set_arguments field_name args (ot_fields t)) (\<lambda>fs.
            Ok (update_first (is_type_named name) (\<lambda>_. TypeDefinition (ObjectDef (t\<lparr>ot_fields := fs\<rparr>))) doc))
      | _ \<Rightarrow> Panic)"

definition set_interface_field_arguments ::
  "string \<Rightarrow> string \<Rightarrow> input_value list \<Rightarrow> document \<Rightarrow> (document, api_schema_error) result" where
  "set_interface_field_arguments name field_name args doc =
     (case get_named_type doc name of
        Some (InterfaceDef t) \<Rightarrow>
          and_then (set_arguments field_name args (it_fields t)) (\<lambda>fs.
            Ok (update_first (is_type_named name) (\<lambda>_. TypeDefinition (InterfaceDef (t\<lparr>it_fields := fs\<rparr>))) doc))
      | _ \<Rightarrow> Panic)"

definition referenced_arguments ::
  "input_object_type list \<Rightarrow> type_definition \<Rightarrow> (input_value list, api_schema_error) result" where
  "referenced_arguments input_objects input_reference_type =
     (case input_reference_type of
        ObjectDef t \<Rightarrow> Ok (collection_arguments_for_named_type input_objects (ot_name t))
      | InterfaceDef t \<Rightarrow> Ok (collection_arguments_for_named_type input_objects (it_name t))
      | _ \<Rightarrow> Panic)"

definition add_arguments_of_field ::
  "(string \<Rightarrow> string \<Rightarrow> input_value list \<Rightarrow> document \<Rightarrow> (document, api_schema_error) result)
   \<Rightarrow> input_object_type list \<Rightarrow> document \<Rightarrow> string \<Rightarrow> field_def \<Rightarrow> document \<Rightarrow> (document, api_schema_error) result" where
  "add_arguments_of_field set_field input_objects input_schema name f doc =
     (case get_referenced_entity_type input_schema f of
        Some input_reference_type \<Rightarrow>
          if is_list_or_non_null_list_field f
          then and_then (referenced_arguments input_objects input_reference_type) (\<lambda>args. set_field name (fd_name f) args doc)
          else Ok doc
      | None \<Rightarrow> Ok doc)"

definition add_field_arguments :: "document \<Rightarrow> document \<Rightarrow> (document, api_schema_error) result" where
  "add_field_arguments input_schema doc =
     (let input_objects = get_input_object_definitions doc
      in and_then
           (try_fold (\<lambda>t. try_fold (add_arguments_of_field set_object_field_arguments input_objects input_schema (ot_name t)) (ot_fields t))
             (get_object_type_definitions input_schema) doc)
           (try_fold (\<lambda>t. try_fold (add_arguments_of_field set_interface_field_arguments input_objects input_schema (it_name t)) (it_fields t))
             (get_interface_type_definitions input_schema)))"

definition api_schema_of :: "inflector \<Rightarrow> document \<Rightarrow> (document, api_schema_error) result" where
  "api_schema_of infl input_schema =
     (let object_types = get_object_type_definitions input_schema;
          interface_types = get_interface_type_definitions input_schema
      in and_then (add_builtin_scalar_types (add_directives input_schema)) (\<lambda>doc.
         and_then (add_types_for_object_types object_types (add_block_height_type (add_order_direction_enum doc))) (\<lambda>doc.
         and_then (add_types_for_interface_types interface_types doc) (\<lambda>doc.
         and_then (add_field_arguments input_schema doc) (\<lambda>doc.
         and_then (add_query_type infl object_types interface_types doc)
           (add_subscription_type infl object_types interface_types))))))"

section \<open>Growing a document\<close>

definition type_names :: "document \<Rightarrow> string list" where
  "type_names doc = map get_type_name (get_type_definitions doc)"

lemma get_type_definitions_simps [simp]:
  "get_type_definitions [] = []"
  "get_type_definitions (TypeDefinition t # doc) = t # get_type_definitions doc"
  "get_type_definitions (DirectiveDefinition d # doc) = get_type_definitions doc"
  "get_type_definitions (OtherDefinition # doc) = get_type_definitions doc"
  by (simp_all add: get_type_definitions_def map_filter_simps)

lemma get_type_definitions_append [simp]:
  "get_type_definitions (a @ b) = get_type_definitions a @ get_type_definitions b"
  by (simp add: get_type_definitions_def map_filter_def)

lemma type_names_append [simp]: "type_names (a @ b) = type_names a @ type_names b"
  by (simp add: type_names_def)

lemma type_names_simps [simp]:
  "type_names [] = []"
  "type_names (TypeDefinition t # doc) = get_type_name t # type_names doc"
  "type_names (DirectiveDefinition d # doc) = type_names doc"
  by (simp_all add: type_names_def)

lemma get_named_type_None: "get_named_type doc n = None \<longleftrightarrow> n \<notin> set (type_names doc)"
  by (auto simp: get_named_type_def type_names_def find_None_iff)

lemma get_named_type_append:
  "get_named_type (a @ b) n = (case get_named_type a n of Some t \<Rightarrow> Some t | None \<Rightarrow> get_named_type b n)"
proof -
  have "find p (xs @ ys) = (case find p xs of Some t \<Rightarrow> Some t | None \<Rightarrow> find p ys)" for p :: "type_definition \<Rightarrow> bool" and xs ys
    by (induction xs) auto
  then show ?thesis unfolding get_named_type_def by simp
qed

lemma get_named_type_Cons:
  "get_named_type (d # doc) n =
     (case d of TypeDefinition t \<Rightarrow> if get_type_name t = n then Some t else get_named_type doc n | _ \<Rightarrow> get_named_type doc n)"
  by (cases d) (simp_all add: get_named_type_def)

text \<open>Definitions that are neither object nor interface types: all that is added before the root types.\<close>

fun plain_definition :: "schema_definition \<Rightarrow> bool" where
  "plain_definition (TypeDefinition (ObjectDef _)) = False"
| "plain_definition (TypeDefinition (InterfaceDef _)) = False"
| "plain_definition _ = True"

definition grown :: "document \<Rightarrow> document \<Rightarrow> bool" where
  "grown doc doc' \<longleftrightarrow> (\<exists>ds. doc' = doc @ ds \<and> list_all plain_definition ds)"

definition accepts_input :: "document \<Rightarrow> string \<Rightarrow> bool" where
  "accepts_input doc n = is_input_type doc (NamedType n)"

lemma is_input_type_base: "is_input_type doc t = accepts_input doc (get_base_type t)"
  by (induction t) (simp_all add: accepts_input_def)

lemma accepts_input_iff:
  "accepts_input doc n \<longleftrightarrow> (\<exists>t. get_named_type doc n = Some t \<and> (case t of ScalarDef _ \<Rightarrow> True | EnumDef _ \<Rightarrow> True | InputObjectDef _ \<Rightarrow> True | _ \<Rightarrow> False))"
  by (auto simp: accepts_input_def split: option.splits type_definition.splits)

lemma accepts_input_append: "accepts_input a n \<Longrightarrow> accepts_input (a @ b) n"
  by (auto simp: accepts_input_iff get_named_type_append)

lemma accepts_input_mono: "accepts_input a n \<Longrightarrow> grown a b \<Longrightarrow> accepts_input b n"
  by (auto simp: grown_def accepts_input_append)

lemma grown_refl [simp]: "grown doc doc"
  by (simp add: grown_def)

lemma grown_trans: "grown a b \<Longrightarrow> grown b c \<Longrightarrow> grown a c"
  by (auto simp: grown_def)

lemma grown_snoc: "plain_definition d \<Longrightarrow> grown doc (doc @ [d])"
  by (simp add: grown_def)

lemma grown_names: "grown a b \<Longrightarrow> set (type_names a) \<subseteq> set (type_names b)"
  by (auto simp: grown_def)

lemma plain_no_objects:
  "list_all plain_definition ds \<Longrightarrow> get_object_type_definitions ds = [] \<and> get_interface_type_definitions ds = []"
proof (induction ds)
  case (Cons d ds)
  then show ?case
    by (cases d rule: plain_definition.cases)
      (auto simp: get_object_type_definitions_def get_interface_type_definitions_def map_filter_simps)
qed (simp add: get_object_type_definitions_def get_interface_type_definitions_def map_filter_simps)

lemma grown_objects: "grown a b \<Longrightarrow> get_object_type_definitions b = get_object_type_definitions a"
  using plain_no_objects
  by (auto simp: grown_def get_object_type_definitions_def map_filter_def)

lemma accepts_new: "n \<notin> set (type_names doc) \<Longrightarrow> get_type_name t = n \<Longrightarrow>
    (case t of ScalarDef _ \<Rightarrow> True | EnumDef _ \<Rightarrow> True | InputObjectDef _ \<Rightarrow> True | _ \<Rightarrow> False) \<Longrightarrow>
    accepts_input (doc @ [TypeDefinition t]) n"
  using get_named_type_None [of doc n] by (auto simp: accepts_input_iff get_named_type_append get_named_type_Cons)

lemma definition_mem:
  "t \<in> set (get_object_type_definitions doc) \<longleftrightarrow> TypeDefinition (ObjectDef t) \<in> set doc"
  "i \<in> set (get_interface_type_definitions doc) \<longleftrightarrow> TypeDefinition (InterfaceDef i) \<in> set doc"
  "j \<in> set (get_input_object_definitions doc) \<longleftrightarrow> TypeDefinition (InputObjectDef j) \<in> set doc"
proof (induction doc)
  case (Cons d doc)
  note defs = get_object_type_definitions_def get_interface_type_definitions_def get_input_object_definitions_def map_filter_simps
  { case 1 then show ?case using Cons.IH(1) by (cases d rule: plain_definition.cases) (auto simp: defs) }
  { case 2 then show ?case using Cons.IH(2) by (cases d rule: plain_definition.cases) (auto simp: defs) }
  { case 3 then show ?case using Cons.IH(3) by (cases d rule: plain_definition.cases) (auto simp: defs) }
qed (simp_all add: get_object_type_definitions_def get_interface_type_definitions_def get_input_object_definitions_def map_filter_simps)

section \<open>What each step adds\<close>

lemma add_builtin_scalar_types_Ok:
  assumes "add_builtin_scalar_types doc = Ok doc'"
  shows "grown doc doc' \<and> (distinct (type_names doc) \<longrightarrow> distinct (type_names doc')) \<and>
    type_names doc' = type_names doc @ [''Boolean'', ''ID'', ''Int'', ''BigDecimal'', ''String'', ''Bytes'', ''BigInt''] \<and>
    (\<forall>n \<in> set [''Boolean'', ''ID'', ''Int'', ''BigDecimal'', ''String'', ''Bytes'', ''BigInt'']. accepts_input doc' n)"
proof -
  let ?step = "\<lambda>name doc. case get_named_type doc name of
      None \<Rightarrow> Ok (doc @ [TypeDefinition (ScalarDef \<lparr>st_name = name, st_directives = []\<rparr>)])
    | Some _ \<Rightarrow> Err (TypeExists name)"
  have "try_fold ?step names doc = Ok doc' \<Longrightarrow>
    grown doc doc' \<and> (distinct (type_names doc) \<longrightarrow> distinct (type_names doc')) \<and> type_names doc' = type_names doc @ names \<and>
    (\<forall>n \<in> set names. accepts_input doc' n)" for names doc doc'
  proof (induction names arbitrary: doc)
    case (Cons n names)
    let ?doc = "doc @ [TypeDefinition (ScalarDef \<lparr>st_name = n, st_directives = []\<rparr>)]"
    from Cons.prems have n: "get_named_type doc n = None" and rest: "try_fold ?step names ?doc = Ok doc'"
      by (auto simp: and_then_Ok_iff split: option.splits)
    have new: "n \<notin> set (type_names doc)" using n by (simp add: get_named_type_None)
    have "accepts_input ?doc n" by (rule accepts_new [OF new]) simp_all
    moreover note IH = Cons.IH [OF rest]
    moreover have "grown doc ?doc" by (rule grown_snoc) simp
    ultimately show ?case using new grown_trans [of doc ?doc doc'] accepts_input_mono [of ?doc n doc'] by auto
  qed simp
  from this [OF assms [unfolded add_builtin_scalar_types_def]] show ?thesis .
qed

lemma add_builtin_scalar_types_not_Panic: "add_builtin_scalar_types doc \<noteq> Panic"
proof -
  have "try_fold (\<lambda>name doc. case get_named_type doc name of
      None \<Rightarrow> Ok (doc @ [TypeDefinition (ScalarDef \<lparr>st_name = name, st_directives = []\<rparr>)])
    | Some _ \<Rightarrow> Err (TypeExists name)) names doc \<noteq> Panic" for names doc
    by (induction names arbitrary: doc) (auto split: option.splits)
  then show ?thesis by (simp add: add_builtin_scalar_types_def del: try_fold.simps)
qed

lemma field_filter_not_Panic: "field_filter_input_values doc f t \<noteq> Panic"
  by (induction doc f t rule: field_filter_input_values.induct) (auto split: option.splits type_definition.splits)

lemma field_input_values_not_Panic: "field_input_values doc fs \<noteq> Panic"
proof -
  let ?step = "\<lambda>f input_values. and_then (field_filter_input_values doc f (fd_field_type f)) (\<lambda>vs. Ok (input_values @ vs))"
  have "try_fold ?step fs acc \<noteq> Panic" for acc
  proof (induction fs arbitrary: acc)
    case (Cons f fs)
    then show ?case
      using field_filter_not_Panic [of doc f "fd_field_type f"]
      by (cases "field_filter_input_values doc f (fd_field_type f)") auto
  qed simp
  then show ?thesis by (simp add: field_input_values_def)
qed

lemma add_order_by_type_Ok:
  assumes "add_order_by_type name fs doc = Ok doc'"
  shows "grown doc doc' \<and> (distinct (type_names doc) \<longrightarrow> distinct (type_names doc')) \<and> accepts_input doc' (name @ ''_orderBy'')"
proof -
  let ?t = "EnumDef \<lparr>en_name = name @ ''_orderBy'', en_directives = [], en_values = map fd_name fs\<rparr>"
  from assms have d: "doc' = doc @ [TypeDefinition ?t]" "name @ ''_orderBy'' \<notin> set (type_names doc)"
    by (auto simp: add_order_by_type_def Let_def get_named_type_None split: option.splits)
  have "accepts_input doc' (name @ ''_orderBy'')" unfolding d(1) by (rule accepts_new [OF d(2)]) simp_all
  then show ?thesis using d grown_snoc [of "TypeDefinition ?t" doc] by simp
qed

lemma add_filter_type_Ok:
  assumes "add_filter_type name fs doc = Ok doc'"
  shows "grown doc doc' \<and> (distinct (type_names doc) \<longrightarrow> distinct (type_names doc'))"
proof -
  from assms consider "doc' = doc"
    | vs where "doc' = doc @ [TypeDefinition (InputObjectDef \<lparr>io_name = name @ ''_filter'', io_directives = [], io_fields = vs\<rparr>)]"
      "name @ ''_filter'' \<notin> set (type_names doc)"
    by (auto simp: add_filter_type_def Let_def get_named_type_None and_then_Ok_iff split: option.splits if_splits)
  then show ?thesis by cases (auto simp: grown_snoc)
qed

lemma add_types_Ok:
  assumes "try_fold (\<lambda>t doc. and_then (add_order_by_type (name t) (fs t) doc) (add_filter_type (name t) (fs t))) ts doc = Ok doc'"
  shows "grown doc doc' \<and> (distinct (type_names doc) \<longrightarrow> distinct (type_names doc')) \<and>
    (\<forall>t \<in> set ts. accepts_input doc' (name t @ ''_orderBy''))"
  using assms
proof (induction ts arbitrary: doc)
  case (Cons t ts)
  then obtain d1 d2 where d: "add_order_by_type (name t) (fs t) doc = Ok d1" "add_filter_type (name t) (fs t) d1 = Ok d2"
    and rest: "try_fold (\<lambda>t doc. and_then (add_order_by_type (name t) (fs t) doc) (add_filter_type (name t) (fs t))) ts d2 = Ok doc'"
    by (auto simp: and_then_Ok_iff)
  note a = add_order_by_type_Ok [OF d(1)] and b = add_filter_type_Ok [OF d(2)] and c = Cons.IH [OF rest]
  have "grown d1 doc'" using b c grown_trans by blast
  then show ?case using a b c grown_trans [of doc d1 doc'] accepts_input_mono by auto
qed simp

lemma add_types_not_Panic:
  "try_fold (\<lambda>t doc. and_then (add_order_by_type (name t) (fs t) doc) (add_filter_type (name t) (fs t))) ts doc \<noteq> Panic"
proof (induction ts arbitrary: doc)
  case (Cons t ts)
  have "add_order_by_type (name t) (fs t) doc \<noteq> Panic"
    by (simp add: add_order_by_type_def Let_def split: option.splits)
  moreover have "add_filter_type (name t) (fs t) d \<noteq> Panic" for d
    using field_input_values_not_Panic [of d "fs t"]
    by (cases "field_input_values d (fs t)") (auto simp: add_filter_type_def Let_def split: option.splits)
  ultimately have "and_then (add_order_by_type (name t) (fs t) doc) (add_filter_type (name t) (fs t)) \<noteq> Panic"
    by (cases "add_order_by_type (name t) (fs t) doc") auto
  then show ?case using Cons.IH
    by (cases "and_then (add_order_by_type (name t) (fs t) doc) (add_filter_type (name t) (fs t))") auto
qed simp

section \<open>Setting the arguments of fields\<close>

text \<open>A document without the arguments of its fields, which is all that \<open>add_field_arguments\<close> changes.\<close>

definition erase_fields :: "field_def list \<Rightarrow> field_def list" where
  "erase_fields = map (\<lambda>f. f\<lparr>fd_arguments := []\<rparr>)"

fun erase_type :: "type_definition \<Rightarrow> type_definition" where
  "erase_type (ObjectDef t) = ObjectDef (t\<lparr>ot_fields := erase_fields (ot_fields t)\<rparr>)"
| "erase_type (InterfaceDef t) = InterfaceDef (t\<lparr>it_fields := erase_fields (it_fields t)\<rparr>)"
| "erase_type t = t"

fun erase_definition :: "schema_definition \<Rightarrow> schema_definition" where
  "erase_definition (TypeDefinition t) = TypeDefinition (erase_type t)"
| "erase_definition d = d"

definition erase :: "document \<Rightarrow> document" where
  "erase = map erase_definition"

lemma erase_names [simp]: "get_type_name (erase_type t) = get_type_name t"
  by (cases t) auto

lemma named_type_erase: "get_named_type (erase doc) n = map_option erase_type (get_named_type doc n)"
proof (induction doc)
  case (Cons d doc)
  then show ?case by (cases d) (simp_all add: erase_def get_named_type_Cons)
qed (simp add: erase_def get_named_type_def)

lemma type_names_erase: "type_names (erase doc) = type_names doc"
proof (induction doc)
  case (Cons d doc)
  then show ?case by (cases d) (simp_all add: erase_def type_names_def)
qed (simp add: erase_def)

lemma input_objects_erase: "get_input_object_definitions (erase doc) = get_input_object_definitions doc"
proof (induction doc)
  case (Cons d doc)
  then show ?case
    by (cases d; cases "case d of TypeDefinition t \<Rightarrow> t"; cases "case d of TypeDefinition t \<Rightarrow> erase_type t")
      (auto simp: erase_def get_input_object_definitions_def map_filter_simps split: schema_definition.splits)
qed (simp add: erase_def)

lemma objects_erase:
  "get_object_type_definitions (erase doc) = map (\<lambda>t. t\<lparr>ot_fields := erase_fields (ot_fields t)\<rparr>) (get_object_type_definitions doc)"
proof (induction doc)
  case (Cons d doc)
  show ?case
  proof (cases d)
    case (TypeDefinition t)
    then show ?thesis using Cons.IH by (cases t) (simp_all add: erase_def get_object_type_definitions_def map_filter_simps)
  qed (use Cons.IH in \<open>simp_all add: erase_def get_object_type_definitions_def map_filter_simps\<close>)
qed (simp add: erase_def get_object_type_definitions_def map_filter_simps)

lemma fulltext_erase: "get_fulltext_directives (erase doc) = get_fulltext_directives doc"
proof -
  have "find (\<lambda>t. ot_name t = n) (map (\<lambda>t. t\<lparr>ot_fields := erase_fields (ot_fields t)\<rparr>) ts) =
    map_option (\<lambda>t. t\<lparr>ot_fields := erase_fields (ot_fields t)\<rparr>) (find (\<lambda>t. ot_name t = n) ts)" for n and ts :: "object_type list"
    by (induction ts) auto
  then show ?thesis
    by (auto simp: get_fulltext_directives_def get_object_type_definition_def objects_erase split: option.splits)
qed

lemma accepts_input_erase: "accepts_input (erase doc) n = accepts_input doc n"
proof (cases "get_named_type doc n")
  case (Some t)
  then show ?thesis by (cases t) (simp_all add: accepts_input_iff named_type_erase)
qed (simp add: accepts_input_iff named_type_erase)

lemma erase_eqD:
  assumes "erase a = erase b"
  shows "type_names a = type_names b" "get_fulltext_directives a = get_fulltext_directives b"
    "accepts_input a n = accepts_input b n" "get_input_object_definitions a = get_input_object_definitions b"
  using assms type_names_erase [of a] type_names_erase [of b] fulltext_erase [of a] fulltext_erase [of b]
    accepts_input_erase [of a n] accepts_input_erase [of b n] input_objects_erase [of a] input_objects_erase [of b] by simp_all

lemma erase_update_first:
  assumes "get_named_type doc n = Some t" and "erase_type t' = erase_type t"
  shows "erase (update_first (is_type_named n) (\<lambda>_. TypeDefinition t') doc) = erase doc"
  using assms(1)
proof (induction doc)
  case (Cons d doc)
  then show ?case using assms(2) by (cases d) (auto simp: erase_def get_named_type_Cons split: if_splits)
qed (simp add: get_named_type_def)

lemma erase_set_arguments:
  assumes "set_arguments n args fs = Ok fs'"
  shows "erase_fields fs' = erase_fields fs"
proof -
  have "erase_fields (update_first (\<lambda>f. fd_name f = n) (\<lambda>f. f\<lparr>fd_arguments := args\<rparr>) fs) = erase_fields fs"
    by (induction fs) (auto simp: erase_fields_def)
  with assms show ?thesis by (auto simp: set_arguments_def split: if_splits)
qed

lemma set_field_arguments_erase:
  "set_object_field_arguments n fn args doc = Ok doc' \<Longrightarrow> erase doc' = erase doc"
  "set_interface_field_arguments n fn args doc = Ok doc' \<Longrightarrow> erase doc' = erase doc"
  by (auto simp: set_object_field_arguments_def set_interface_field_arguments_def and_then_Ok_iff
      split: option.splits type_definition.splits intro!: erase_update_first dest!: erase_set_arguments)

lemma add_arguments_of_field_erase:
  assumes "add_arguments_of_field set_field ios input n f doc = Ok doc'"
    and "\<And>fn args doc doc'. set_field n fn args doc = Ok doc' \<Longrightarrow> erase doc' = erase doc"
  shows "erase doc' = erase doc"
  using assms by (auto simp: add_arguments_of_field_def and_then_Ok_iff split: option.splits if_splits)

lemma add_field_arguments_erase:
  assumes "add_field_arguments input doc = Ok doc'"
  shows "erase doc' = erase doc"
proof -
  have inner: "try_fold (add_arguments_of_field set_field ios input n) fs d = Ok d' \<Longrightarrow> erase d = erase doc \<Longrightarrow> erase d' = erase doc"
    if "\<And>n fn args d d'. set_field n fn args d = Ok d' \<Longrightarrow> erase d' = erase d" for set_field ios n fs d d'
    by (erule try_fold_invariant) (use add_arguments_of_field_erase that in fastforce)+
  note fold = try_fold_invariant [where P = "\<lambda>d. erase d = erase doc"]
  from assms obtain mid where
    o: "try_fold (\<lambda>t. try_fold (add_arguments_of_field set_object_field_arguments (get_input_object_definitions doc) input (ot_name t)) (ot_fields t))
             (get_object_type_definitions input) doc = Ok mid" and
    i: "try_fold (\<lambda>t. try_fold (add_arguments_of_field set_interface_field_arguments (get_input_object_definitions doc) input (it_name t)) (it_fields t))
             (get_interface_type_definitions input) mid = Ok doc'"
    by (auto simp: add_field_arguments_def Let_def and_then_Ok_iff)
  have "erase mid = erase doc" by (rule fold [OF o]) (use inner set_field_arguments_erase(1) in blast)+
  show ?thesis by (rule fold [OF i]) (use \<open>erase mid = erase doc\<close> inner set_field_arguments_erase(2) in blast)+
qed

lemma and_then_Panic_iff: "and_then r f = Panic \<longleftrightarrow> r = Panic \<or> (\<exists>a. r = Ok a \<and> f a = Panic)"
  by (cases r) auto

lemma try_fold_total:
  assumes "P s" and "\<And>x s. x \<in> set xs \<Longrightarrow> P s \<Longrightarrow> \<exists>t. f x s = Ok t \<and> P t"
  shows "\<exists>t. try_fold f xs s = Ok t \<and> P t"
  using assms
proof (induction xs arbitrary: s)
  case (Cons x xs)
  then obtain t where "f x s = Ok t" "P t" by (meson list.set_intros(1))
  with Cons.IH [of t] Cons.prems(2) show ?case by auto
qed simp

lemma erase_fields_names: "erase_fields fs = erase_fields gs \<Longrightarrow> map fd_name fs = map fd_name gs"
  by (drule arg_cong [where f = "map fd_name"]) (simp add: erase_fields_def comp_def)

lemma set_arguments_total:
  "erase_fields fs = erase_fields gs \<Longrightarrow> f \<in> set gs \<Longrightarrow> \<exists>fs'. set_arguments (fd_name f) args fs = Ok fs'"
proof -
  assume "erase_fields fs = erase_fields gs" "f \<in> set gs"
  then have "fd_name f \<in> set (map fd_name fs)" by (metis erase_fields_names image_eqI set_map)
  then show ?thesis by (auto simp: set_arguments_def list_ex_iff)
qed

lemma set_object_field_arguments_total:
  assumes "erase doc = erase base" and "get_named_type base (ot_name t) = Some (ObjectDef t)" and "f \<in> set (ot_fields t)"
  shows "\<exists>doc'. set_object_field_arguments (ot_name t) (fd_name f) args doc = Ok doc' \<and> erase doc' = erase base"
proof -
  have "map_option erase_type (get_named_type doc (ot_name t)) = Some (erase_type (ObjectDef t))"
    using named_type_erase [of doc "ot_name t"] named_type_erase [of base "ot_name t"] assms(1,2) by simp
  then obtain x where x: "get_named_type doc (ot_name t) = Some x" "erase_type x = erase_type (ObjectDef t)" by auto
  then obtain t' where t': "x = ObjectDef t'" by (cases x) auto
  have "erase_fields (ot_fields t') = erase_fields (ot_fields t)"
    using x(2) by (simp add: t') (metis object_type.ext_inject object_type.surjective object_type.update_convs(4))
  from set_arguments_total [OF this assms(3)] obtain fs where "set_arguments (fd_name f) args (ot_fields t') = Ok fs" by blast
  then have "\<exists>doc'. set_object_field_arguments (ot_name t) (fd_name f) args doc = Ok doc'"
    by (simp add: set_object_field_arguments_def x(1) t')
  then show ?thesis using set_field_arguments_erase(1) assms(1) by metis
qed

lemma set_interface_field_arguments_total:
  assumes "erase doc = erase base" and "get_named_type base (it_name t) = Some (InterfaceDef t)" and "f \<in> set (it_fields t)"
  shows "\<exists>doc'. set_interface_field_arguments (it_name t) (fd_name f) args doc = Ok doc' \<and> erase doc' = erase base"
proof -
  have "map_option erase_type (get_named_type doc (it_name t)) = Some (erase_type (InterfaceDef t))"
    using named_type_erase [of doc "it_name t"] named_type_erase [of base "it_name t"] assms(1,2) by simp
  then obtain x where x: "get_named_type doc (it_name t) = Some x" "erase_type x = erase_type (InterfaceDef t)" by auto
  then obtain t' where t': "x = InterfaceDef t'" by (cases x) auto
  have "erase_fields (it_fields t') = erase_fields (it_fields t)"
    using x(2) by (simp add: t') (metis interface_type.ext_inject interface_type.surjective interface_type.update_convs(3))
  from set_arguments_total [OF this assms(3)] obtain fs where "set_arguments (fd_name f) args (it_fields t') = Ok fs" by blast
  then have "\<exists>doc'. set_interface_field_arguments (it_name t) (fd_name f) args doc = Ok doc'"
    by (simp add: set_interface_field_arguments_def x(1) t')
  then show ?thesis using set_field_arguments_erase(2) assms(1) by metis
qed

lemma add_arguments_of_field_total:
  assumes "\<And>args. \<exists>doc'. set_field n (fd_name f) args doc = Ok doc' \<and> P doc'" and "P doc"
  shows "\<exists>doc'. add_arguments_of_field set_field ios input n f doc = Ok doc' \<and> P doc'"
proof (cases "get_referenced_entity_type input f")
  case (Some ty)
  then have "is_entity_type_definition ty" by (auto simp: get_referenced_entity_type_def split: option.splits if_splits)
  then obtain args where "referenced_arguments ios ty = Ok args" by (cases ty) (auto simp: referenced_arguments_def)
  then show ?thesis using assms Some by (simp add: add_arguments_of_field_def)
qed (simp add: add_arguments_of_field_def assms(2))

lemma add_field_arguments_total:
  assumes names: "distinct (type_names input)" and g: "grown input doc"
  shows "\<exists>doc'. add_field_arguments input doc = Ok doc'"
proof -
  let ?P = "\<lambda>d. erase d = erase doc"
  have named: "get_named_type doc (get_type_name t) = Some t" if "TypeDefinition t \<in> set input" for t
    using g named_type_unique [OF names [unfolded type_names_def] that] by (auto simp: grown_def get_named_type_append)
  have o: "get_named_type doc (ot_name t) = Some (ObjectDef t)" if "t \<in> set (get_object_type_definitions input)" for t
    using named [of "ObjectDef t"] that by (simp add: definition_mem)
  have i: "get_named_type doc (it_name t) = Some (InterfaceDef t)" if "t \<in> set (get_interface_type_definitions input)" for t
    using named [of "InterfaceDef t"] that by (simp add: definition_mem)
  let ?ios = "get_input_object_definitions doc"
  have "\<exists>d. try_fold (\<lambda>t. try_fold (add_arguments_of_field set_object_field_arguments ?ios input (ot_name t)) (ot_fields t))
      (get_object_type_definitions input) doc = Ok d \<and> ?P d"
    by (rule try_fold_total [where P = ?P], simp, rule try_fold_total [where P = ?P], assumption,
        rule add_arguments_of_field_total) (use set_object_field_arguments_total o in blast)+
  then obtain mid where mid: "try_fold (\<lambda>t. try_fold (add_arguments_of_field set_object_field_arguments ?ios input (ot_name t)) (ot_fields t))
      (get_object_type_definitions input) doc = Ok mid" "?P mid" by blast
  have "\<exists>d. try_fold (\<lambda>t. try_fold (add_arguments_of_field set_interface_field_arguments ?ios input (it_name t)) (it_fields t))
      (get_interface_type_definitions input) mid = Ok d \<and> ?P d"
    by (rule try_fold_total [where P = ?P], rule mid(2), rule try_fold_total [where P = ?P], assumption,
        rule add_arguments_of_field_total) (use set_interface_field_arguments_total i in blast)+
  then show ?thesis by (auto simp: add_field_arguments_def Let_def mid(1))
qed

section \<open>The root types\<close>

definition closed_field :: "document \<Rightarrow> field_def \<Rightarrow> bool" where
  "closed_field doc f \<longleftrightarrow>
     get_named_type doc (get_base_type (fd_field_type f)) \<noteq> None \<and>
     (\<forall>a \<in> set (fd_arguments f). is_input_type doc (iv_value_type a))"

text \<open>A document that has what the arguments of the generated fields refer to.\<close>

definition ready_document :: "document \<Rightarrow> string list \<Rightarrow> bool" where
  "ready_document doc names \<longleftrightarrow> distinct (type_names doc) \<and>
     (\<forall>n \<in> set [''Int'', ''ID'', ''String'', ''OrderDirection'', BLOCK_HEIGHT]. accepts_input doc n) \<and>
     (\<forall>n \<in> set names. n \<in> set (type_names doc) \<and> accepts_input doc (n @ ''_orderBy''))"

lemma ready_document_append: "ready_document doc names \<Longrightarrow> distinct (type_names (doc @ ds)) \<Longrightarrow> ready_document (doc @ ds) names"
  by (auto simp: ready_document_def accepts_input_append)

lemma accepts_input_object:
  assumes "distinct (type_names doc)" and "t \<in> set (get_input_object_definitions doc)"
  shows "accepts_input doc (io_name t)"
  using named_type_unique [OF assms(1) [unfolded type_names_def], of "InputObjectDef t"] assms(2)
  by (simp add: definition_mem accepts_input_iff)

lemma closed_field_append: "closed_field doc f \<Longrightarrow> closed_field (doc @ ds) f"
  by (auto simp: closed_field_def is_input_type_base accepts_input_append get_named_type_append)

lemma query_fields_closed:
  assumes "ready_document doc names" and "n \<in> set names"
  shows "\<forall>f \<in> set (query_fields_for_type infl doc n). closed_field doc f"
proof -
  have "accepts_input doc (n @ ''_filter'')" if io: "list_ex (\<lambda>t. io_name t = n @ ''_filter'') (get_input_object_definitions doc)"
  proof -
    from io obtain t where t: "t \<in> set (get_input_object_definitions doc)" "io_name t = n @ ''_filter''" by (auto simp: list_ex_iff)
    show ?thesis using accepts_input_object [OF _ t(1)] assms(1) by (simp add: t(2) ready_document_def)
  qed
  moreover have "get_named_type doc n \<noteq> None" using assms by (auto simp: ready_document_def get_named_type_None)
  ultimately show ?thesis
    using assms
    by (auto simp: query_fields_for_type_def Let_def closed_field_def collection_arguments_for_named_type_def is_input_type_base
        filter_input_value_def plain_input_def block_argument_def ready_document_def)
qed

lemma root_fields_closed:
  assumes "ready_document doc (map ot_name ts @ map it_name is)"
  shows "\<forall>f \<in> set (root_fields infl doc ts is). closed_field doc f"
proof
  fix f
  assume "f \<in> set (root_fields infl doc ts is)"
  then obtain n where "n \<in> set (map ot_name ts @ map it_name is)" "f \<in> set (query_fields_for_type infl doc n)"
    unfolding root_fields_def set_concat set_map by blast
  with query_fields_closed [OF assms] show "closed_field doc f" by blast
qed

lemma root_fields_complete:
  assumes "n \<in> set (map ot_name ts @ map it_name is)"
  shows "\<exists>f \<in> set (root_fields infl doc ts is). fd_name f = to_camel_case infl n \<and> fd_field_type f = NamedType n"
    "\<exists>f \<in> set (root_fields infl doc ts is). fd_name f = to_camel_case infl (to_plural infl n) \<and>
       fd_field_type f = NonNullType (ListType (NonNullType (NamedType n)))"
proof -
  let ?id = "query_fields_for_type infl doc n ! 0" and ?all = "query_fields_for_type infl doc n ! 1"
  have "set (query_fields_for_type infl doc n) \<subseteq> set (root_fields infl doc ts is)" using assms by (auto simp: root_fields_def)
  then have m: "?id \<in> set (root_fields infl doc ts is)" "?all \<in> set (root_fields infl doc ts is)"
    by (simp_all add: query_fields_for_type_def Let_def)
  show "\<exists>f \<in> set (root_fields infl doc ts is). fd_name f = to_camel_case infl n \<and> fd_field_type f = NamedType n"
    by (rule bexI [OF _ m(1)]) (simp add: query_fields_for_type_def Let_def)
  show "\<exists>f \<in> set (root_fields infl doc ts is). fd_name f = to_camel_case infl (to_plural infl n) \<and>
       fd_field_type f = NonNullType (ListType (NonNullType (NamedType n)))"
    by (rule bexI [OF _ m(2)]) (simp add: query_fields_for_type_def Let_def)
qed

text \<open>The query field of a validated \<open>@fulltext\<close> directive.\<close>

lemma fulltext_query_field:
  assumes "fulltext_describes input d def"
  obtains f t where "query_field_for_fulltext d = Ok (Some f)" "fd_name f = ft_name def" "fd_directives f = [d]"
    "t \<in> set (get_object_type_definitions input)" "get_base_type (fd_field_type f) = ot_name t"
    "\<forall>a \<in> set (fd_arguments f). get_base_type (iv_value_type a) \<in> {''String'', ''Int'', BLOCK_HEIGHT}"
proof -
  from assms obtain m rest t where n: "argument d ''name'' = Some (QString (ft_name def))"
    and i: "argument d ''include'' = Some (QList (QObject m # rest))" "map_of m ''entity'' = Some (QString (ot_name t))"
    and t: "t \<in> set (get_object_type_definitions input)"
    by (auto simp: fulltext_describes_def)
  show thesis by (rule that [OF _ _ _ t]) (auto simp: query_field_for_fulltext_def n i plain_input_def)
qed

lemma fulltext_fields:
  assumes "validate_fulltext_directives infl s = Ok []"
  obtains fs where "try_map query_field_for_fulltext (get_fulltext_directives (sc_document s)) = Ok (map Some fs)"
    "\<forall>f \<in> set fs. (\<exists>t \<in> set (get_object_type_definitions (sc_document s)). get_base_type (fd_field_type f) = ot_name t) \<and>
      (\<forall>a \<in> set (fd_arguments f). get_base_type (iv_value_type a) \<in> {''String'', ''Int'', BLOCK_HEIGHT})"
    "map (\<lambda>d. argument d ''name'') (get_fulltext_directives (sc_document s)) = map (\<lambda>f. Some (QString (fd_name f))) fs"
proof -
  let ?ds = "get_fulltext_directives (sc_document s)"
  let ?good = "\<lambda>f. (\<exists>t \<in> set (get_object_type_definitions (sc_document s)). get_base_type (fd_field_type f) = ot_name t) \<and>
      (\<forall>a \<in> set (fd_arguments f). get_base_type (iv_value_type a) \<in> {''String'', ''Int'', BLOCK_HEIGHT})"
  have "\<exists>f. query_field_for_fulltext d = Ok (Some f) \<and> argument d ''name'' = Some (QString (fd_name f)) \<and> ?good f" if "d \<in> set ?ds" for d
  proof -
    from validated_fulltext_directive(2) [OF assms that] obtain def where def: "fulltext_describes (sc_document s) d def" by blast
    then have "argument d ''name'' = Some (QString (ft_name def))" by (simp add: fulltext_describes_def)
    with fulltext_query_field [OF def] show ?thesis by metis
  qed
  then obtain g where g: "\<And>d. d \<in> set ?ds \<Longrightarrow>
      query_field_for_fulltext d = Ok (Some (g d)) \<and> argument d ''name'' = Some (QString (fd_name (g d))) \<and> ?good (g d)" by metis
  have "try_map query_field_for_fulltext ?ds = Ok (map (\<lambda>d. Some (g d)) ?ds)" by (rule try_map_Ok_total) (use g in blast)
  then have "try_map query_field_for_fulltext ?ds = Ok (map Some (map g ?ds))" by (simp add: comp_def)
  moreover have "\<forall>f \<in> set (map g ?ds). ?good f" using g by auto
  moreover have "map (\<lambda>d. argument d ''name'') ?ds = map (\<lambda>f. Some (QString (fd_name f))) (map g ?ds)" using g by simp
  ultimately show thesis by (rule that)
qed

section \<open>Properties\<close>

lemma generated_types_grown:
  assumes d1: "add_builtin_scalar_types (add_directives input) = Ok d1"
    and d3: "add_types_for_object_types os (add_block_height_type (add_order_direction_enum d1)) = Ok d3"
    and d4: "add_types_for_interface_types is d3 = Ok d4"
  shows "grown input d4" "grown d1 (add_block_height_type (add_order_direction_enum d1))"
    "grown (add_block_height_type (add_order_direction_enum d1)) d4" "grown d3 d4"
proof -
  let ?d2 = "add_block_height_type (add_order_direction_enum d1)"
  have dirs: "grown input (add_directives input)" and g2: "grown d1 ?d2"
    by (simp_all add: add_directives_def add_block_height_type_def add_order_direction_enum_def grown_def)
  have g3: "grown ?d2 d3" using add_types_Ok [OF d3 [unfolded add_types_for_object_types_def]] by (rule conjunct1)
  have g4: "grown d3 d4" using add_types_Ok [OF d4 [unfolded add_types_for_interface_types_def]] by (rule conjunct1)
  have g1: "grown input d1" using grown_trans [OF dirs conjunct1 [OF add_builtin_scalar_types_Ok [OF d1]]] .
  show "grown input d4" using grown_trans [OF grown_trans [OF g1 g2] grown_trans [OF g3 g4]] .
  show "grown d1 ?d2" "grown ?d2 d4" "grown d3 d4" by (rule g2, rule grown_trans [OF g3 g4], rule g4)
qed

lemma api_schema_of_Ok:
  assumes "api_schema_of infl input = Ok doc"
  obtains d4 d5 d6 where "grown input d4"
    "distinct (type_names input) \<Longrightarrow> ''OrderDirection'' \<notin> set (type_names input) \<Longrightarrow> BLOCK_HEIGHT \<notin> set (type_names input) \<Longrightarrow>
       ready_document d4 (map ot_name (get_object_type_definitions input) @ map it_name (get_interface_type_definitions input))"
    "add_field_arguments input d4 = Ok d5"
    "add_query_type infl (get_object_type_definitions input) (get_interface_type_definitions input) d5 = Ok d6"
    "add_subscription_type infl (get_object_type_definitions input) (get_interface_type_definitions input) d6 = Ok doc"
proof -
  let ?os = "get_object_type_definitions input" and ?is = "get_interface_type_definitions input"
  from assms obtain d1 d3 d4 d5 d6 where
    d1: "add_builtin_scalar_types (add_directives input) = Ok d1" and
    d3: "add_types_for_object_types ?os (add_block_height_type (add_order_direction_enum d1)) = Ok d3" and
    d4: "add_types_for_interface_types ?is d3 = Ok d4" and
    rest: "add_field_arguments input d4 = Ok d5" "add_query_type infl ?os ?is d5 = Ok d6" "add_subscription_type infl ?os ?is d6 = Ok doc"
    by (auto simp: api_schema_of_def Let_def and_then_Ok_iff)
  let ?d2 = "add_block_height_type (add_order_direction_enum d1)"
  note b = add_builtin_scalar_types_Ok [OF d1]
  note o = add_types_Ok [OF d3 [unfolded add_types_for_object_types_def]]
  note i = add_types_Ok [OF d4 [unfolded add_types_for_interface_types_def]]
  have dirs: "type_names (add_directives input) = type_names input" by (simp add: add_directives_def)
  note g = generated_types_grown(1) [OF d1 d3 d4] and g2 = generated_types_grown(2) [OF d1 d3 d4]
    and g24 = generated_types_grown(3) [OF d1 d3 d4] and g34 = generated_types_grown(4) [OF d1 d3 d4]
  have ready: "ready_document d4 (map ot_name ?os @ map it_name ?is)"
    if names: "distinct (type_names input)" "''OrderDirection'' \<notin> set (type_names input)" "BLOCK_HEIGHT \<notin> set (type_names input)"
  proof -
    have d1_names: "''OrderDirection'' \<notin> set (type_names d1)" "BLOCK_HEIGHT \<notin> set (type_names (add_order_direction_enum d1))"
      using b names dirs by (auto simp: BLOCK_HEIGHT_def add_order_direction_enum_def)
    have od: "accepts_input (add_order_direction_enum d1) ''OrderDirection''"
      unfolding add_order_direction_enum_def by (rule accepts_new [OF d1_names(1)]) simp_all
    have bh: "accepts_input ?d2 BLOCK_HEIGHT"
      unfolding add_block_height_type_def by (rule accepts_new [OF d1_names(2)]) simp_all
    have "accepts_input ?d2 ''OrderDirection''" using od by (simp add: add_block_height_type_def accepts_input_append)
    moreover have "accepts_input ?d2 n" if "n \<in> set [''Int'', ''ID'', ''String'']" for n
      using that b accepts_input_mono [OF _ g2] by auto
    ultimately have acc: "accepts_input d4 n" if "n \<in> set [''Int'', ''ID'', ''String'', ''OrderDirection'', BLOCK_HEIGHT]" for n
      using that bh accepts_input_mono [OF _ g24] by auto
    have "distinct (type_names ?d2)"
      using b names(1) dirs d1_names by (auto simp: add_block_height_type_def add_order_direction_enum_def)
    then have "distinct (type_names d4)" using o i by blast
    moreover have "n \<in> set (type_names d4) \<and> accepts_input d4 (n @ ''_orderBy'')" if "n \<in> set (map ot_name ?os @ map it_name ?is)" for n
    proof -
      from that consider t where "t \<in> set ?os" "n = ot_name t" | t where "t \<in> set ?is" "n = it_name t" by auto
      then have "n \<in> set (type_names input) \<and> accepts_input d4 (n @ ''_orderBy'')"
      proof cases
        case 1
        then have "ObjectDef t \<in> set (get_type_definitions input)"
          by (force simp: definition_mem get_type_definitions_def set_map_filter)
        then show ?thesis using 1 o accepts_input_mono [OF _ g34] by (force simp: type_names_def)
      next
        case 2
        then have "InterfaceDef t \<in> set (get_type_definitions input)"
          by (force simp: definition_mem get_type_definitions_def set_map_filter)
        then show ?thesis using 2 i by (force simp: type_names_def)
      qed
      then show ?thesis using grown_names [OF g] by blast
    qed
    ultimately show ?thesis using acc unfolding ready_document_def by blast
  qed
  show thesis by (rule that [OF g ready rest])
qed

lemma ready_document_erase:
  "erase a = erase b \<Longrightarrow> ready_document a names = ready_document b names"
  by (simp add: ready_document_def erase_eqD [of a b])

lemma get_fulltext_directives_grown: "grown a b \<Longrightarrow> get_fulltext_directives b = get_fulltext_directives a"
  by (simp add: get_fulltext_directives_def get_object_type_definition_def grown_objects)

lemma add_query_type_Ok:
  assumes "add_query_type infl ts is doc = Ok doc'" and "try_map query_field_for_fulltext (get_fulltext_directives doc) = Ok (map Some fs)"
  shows "doc' = doc @ [TypeDefinition (ObjectDef \<lparr>ot_name = ''Query'', ot_implements_interfaces = [], ot_directives = [],
      ot_fields = root_fields infl doc ts is @ fs\<rparr>)] \<and> ''Query'' \<notin> set (type_names doc)"
proof -
  have "List.map_filter (\<lambda>x. x) (map Some fs) = fs" by (induction fs) (simp_all add: map_filter_simps)
  then show ?thesis using assms by (auto simp: add_query_type_def get_named_type_None split: option.splits)
qed

lemma add_subscription_type_Ok:
  assumes "add_subscription_type infl ts is doc = Ok doc'"
  shows "doc' = doc @ [TypeDefinition (ObjectDef \<lparr>ot_name = ''Subscription'', ot_implements_interfaces = [], ot_directives = [],
      ot_fields = root_fields infl doc ts is\<rparr>)] \<and> ''Subscription'' \<notin> set (type_names doc)"
  using assms by (auto simp: add_subscription_type_def get_named_type_None split: option.splits)

lemma fulltext_field_closed:
  assumes ready: "ready_document doc (map ot_name ts @ ns)" and t: "\<exists>t \<in> set ts. get_base_type (fd_field_type f) = ot_name t"
    and a: "\<forall>a \<in> set (fd_arguments f). get_base_type (iv_value_type a) \<in> {''String'', ''Int'', BLOCK_HEIGHT}"
  shows "closed_field doc f"
proof -
  have "get_named_type doc (get_base_type (fd_field_type f)) \<noteq> None"
    using t ready by (auto simp: ready_document_def get_named_type_None)
  moreover have "is_input_type doc (iv_value_type x)" if "x \<in> set (fd_arguments f)" for x
    using a that ready by (auto simp: ready_document_def is_input_type_base)
  ultimately show ?thesis by (simp add: closed_field_def)
qed

text \<open>C24. The API schema of a subgraph schema with valid \<open>@fulltext\<close> directives, whose types have distinct names other
  than \<open>OrderDirection\<close> and \<open>Block_height\<close>, is closed and its type names are distinct: it has the root types
  \<open>Query\<close> and \<open>Subscription\<close>, the type of every field of these is defined, and every argument of them is of a defined
  input type (scalar, enum or input object). Each object and interface type has in both its field for a
  single entity and its field for a collection.\<close>

theorem api_schema_closed:
  assumes valid: "validate_fulltext_directives infl s = Ok []"
    and names: "distinct (type_names (sc_document s))" "''OrderDirection'' \<notin> set (type_names (sc_document s))"
      "BLOCK_HEIGHT \<notin> set (type_names (sc_document s))"
    and ok: "api_schema_of infl (sc_document s) = Ok doc"
  shows "distinct (type_names doc) \<and>
    (\<forall>root \<in> {''Query'', ''Subscription''}. \<exists>t. get_named_type doc root = Some (ObjectDef t) \<and>
       (\<forall>f \<in> set (ot_fields t). closed_field doc f) \<and>
       (\<forall>n \<in> set (map ot_name (get_object_type_definitions (sc_document s)) @ map it_name (get_interface_type_definitions (sc_document s))).
          (\<exists>f \<in> set (ot_fields t). fd_name f = to_camel_case infl n \<and> fd_field_type f = NamedType n) \<and>
          (\<exists>f \<in> set (ot_fields t). fd_name f = to_camel_case infl (to_plural infl n) \<and>
             fd_field_type f = NonNullType (ListType (NonNullType (NamedType n))))))"
proof -
  let ?input = "sc_document s"
  let ?os = "get_object_type_definitions ?input" and ?is = "get_interface_type_definitions ?input"
  let ?names = "map ot_name ?os @ map it_name ?is"
  from api_schema_of_Ok [OF ok] obtain d4 d5 d6 where g: "grown ?input d4"
    and ready4: "ready_document d4 ?names" and d5: "add_field_arguments ?input d4 = Ok d5"
    and d6: "add_query_type infl ?os ?is d5 = Ok d6" and d7: "add_subscription_type infl ?os ?is d6 = Ok doc"
    using names by metis
  have e: "erase d5 = erase d4" by (rule add_field_arguments_erase [OF d5])
  have ready5: "ready_document d5 ?names" using ready4 by (simp add: ready_document_erase [OF e])
  obtain fs where fs: "try_map query_field_for_fulltext (get_fulltext_directives ?input) = Ok (map Some fs)"
    and good: "\<forall>f \<in> set fs. (\<exists>t \<in> set ?os. get_base_type (fd_field_type f) = ot_name t) \<and>
      (\<forall>a \<in> set (fd_arguments f). get_base_type (iv_value_type a) \<in> {''String'', ''Int'', BLOCK_HEIGHT})"
    using fulltext_fields [OF valid] by metis
  have same: "get_fulltext_directives d5 = get_fulltext_directives ?input"
    using erase_eqD(2) [OF e] get_fulltext_directives_grown [OF g] by simp
  define q where "q = \<lparr>ot_name = ''Query'', ot_implements_interfaces = [], ot_directives = [],
      ot_fields = root_fields infl d5 ?os ?is @ fs\<rparr>"
  define sb where "sb = \<lparr>ot_name = ''Subscription'', ot_implements_interfaces = [], ot_directives = [],
      ot_fields = root_fields infl d6 ?os ?is\<rparr>"
  have q: "d6 = d5 @ [TypeDefinition (ObjectDef q)]" "''Query'' \<notin> set (type_names d5)"
    using add_query_type_Ok [OF d6] fs by (simp_all add: same q_def)
  have sb: "doc = d6 @ [TypeDefinition (ObjectDef sb)]" "''Subscription'' \<notin> set (type_names d6)"
    using add_subscription_type_Ok [OF d7] by (simp_all add: sb_def)
  have dist6: "distinct (type_names d6)" using ready5 q by (simp add: ready_document_def q_def)
  then have dist: "distinct (type_names doc)" using sb by (simp add: sb_def)
  have ready6: "ready_document d6 ?names" using ready_document_append [OF ready5] dist6 by (simp add: q(1))
  have "\<forall>f \<in> set fs. closed_field d5 f" using fulltext_field_closed [OF ready5] good by blast
  then have "\<forall>f \<in> set (ot_fields q). closed_field d5 f"
    using root_fields_closed [OF ready5] by (auto simp: q_def)
  then have cq: "\<forall>f \<in> set (ot_fields q). closed_field doc f" unfolding sb(1) q(1) using closed_field_append by blast
  have cs: "\<forall>f \<in> set (ot_fields sb). closed_field doc f"
    unfolding sb(1) using root_fields_closed [OF ready6] closed_field_append by (auto simp: sb_def)
  have named: "get_named_type doc ''Query'' = Some (ObjectDef q)" "get_named_type doc ''Subscription'' = Some (ObjectDef sb)"
    using named_type_unique [OF dist [unfolded type_names_def], of "ObjectDef q"]
      named_type_unique [OF dist [unfolded type_names_def], of "ObjectDef sb"] by (simp_all add: sb(1) q(1) q_def sb_def)
  have fields: "set (root_fields infl d5 ?os ?is) \<subseteq> set (ot_fields q)" "set (root_fields infl d6 ?os ?is) \<subseteq> set (ot_fields sb)"
    by (simp_all add: q_def sb_def)
  have "\<exists>f \<in> set (ot_fields q). fd_name f = to_camel_case infl n \<and> fd_field_type f = NamedType n"
    "\<exists>f \<in> set (ot_fields q). fd_name f = to_camel_case infl (to_plural infl n) \<and> fd_field_type f = NonNullType (ListType (NonNullType (NamedType n)))"
    "\<exists>f \<in> set (ot_fields sb). fd_name f = to_camel_case infl n \<and> fd_field_type f = NamedType n"
    "\<exists>f \<in> set (ot_fields sb). fd_name f = to_camel_case infl (to_plural infl n) \<and> fd_field_type f = NonNullType (ListType (NonNullType (NamedType n)))"
    if "n \<in> set ?names" for n
    using root_fields_complete [OF that, of infl d5] root_fields_complete [OF that, of infl d6] fields by blast+
  then show ?thesis using dist named cq cs by auto
qed

text \<open>C29. Deriving the API schema never panics, for a subgraph schema with valid \<open>@fulltext\<close> directives whose types have
  distinct names: neither on the lookups of types and fields when field arguments are added, nor on the
  \<open>unwrap\<close>s in the query fields for full-text search.\<close>

theorem api_schema_no_panic:
  assumes valid: "validate_fulltext_directives infl s = Ok []" and names: "distinct (type_names (sc_document s))"
  shows "api_schema_of infl (sc_document s) \<noteq> Panic"
proof
  let ?input = "sc_document s"
  let ?os = "get_object_type_definitions ?input" and ?is = "get_interface_type_definitions ?input"
  assume panic: "api_schema_of infl ?input = Panic"
  note builtin = add_builtin_scalar_types_not_Panic
  have types: "add_types_for_object_types ?os doc \<noteq> Panic" "add_types_for_interface_types ?is doc \<noteq> Panic" for doc
    unfolding add_types_for_object_types_def add_types_for_interface_types_def by (rule add_types_not_Panic)+
  have sub: "add_subscription_type infl ?os ?is doc \<noteq> Panic" for doc
    by (simp add: add_subscription_type_def split: option.splits)
  from panic obtain d1 d3 d4 where
    d1: "add_builtin_scalar_types (add_directives ?input) = Ok d1" and
    d3: "add_types_for_object_types ?os (add_block_height_type (add_order_direction_enum d1)) = Ok d3" and
    d4: "add_types_for_interface_types ?is d3 = Ok d4" and
    rest: "and_then (add_field_arguments ?input d4) (\<lambda>doc. and_then (add_query_type infl ?os ?is doc)
      (add_subscription_type infl ?os ?is)) = Panic"
    using builtin types by (auto simp: api_schema_of_def Let_def and_then_Panic_iff)
  have g: "grown ?input d4" using generated_types_grown [OF d1 d3 d4] by blast
  obtain d5 where d5: "add_field_arguments ?input d4 = Ok d5" using add_field_arguments_total [OF names g] by blast
  have same: "get_fulltext_directives d5 = get_fulltext_directives ?input"
    using erase_eqD(2) [OF add_field_arguments_erase [OF d5]] get_fulltext_directives_grown [OF g] by simp
  obtain fs where fs: "try_map query_field_for_fulltext (get_fulltext_directives ?input) = Ok (map Some fs)"
    using fulltext_fields [OF valid] by metis
  have "add_query_type infl ?os ?is d5 \<noteq> Panic" by (simp add: add_query_type_def same fs split: option.splits)
  then show False using rest sub by (auto simp: d5 and_then_Panic_iff)
qed

section \<open>Filter arguments\<close>

definition filter_operator :: "string \<Rightarrow> filter_op option" where
  "filter_operator = map_of
     [([], OpEqual), (''not'', OpNot), (''gt'', OpGreaterThan), (''lt'', OpLessThan), (''gte'', OpGreaterOrEqual),
      (''lte'', OpLessOrEqual), (''in'', OpIn), (''not_in'', OpNotIn), (''contains'', OpContains), (''not_contains'', OpNotContains),
      (''starts_with'', OpStartsWith), (''not_starts_with'', OpNotStartsWith), (''ends_with'', OpEndsWith),
      (''not_ends_with'', OpNotEndsWith)]"

fun operator_name :: "filter_op \<Rightarrow> string" where
  "operator_name OpEqual = []"
| "operator_name OpNot = ''not''"
| "operator_name OpGreaterThan = ''gt''"
| "operator_name OpLessThan = ''lt''"
| "operator_name OpGreaterOrEqual = ''gte''"
| "operator_name OpLessOrEqual = ''lte''"
| "operator_name OpIn = ''in''"
| "operator_name OpNotIn = ''not_in''"
| "operator_name OpContains = ''contains''"
| "operator_name OpNotContains = ''not_contains''"
| "operator_name OpStartsWith = ''starts_with''"
| "operator_name OpNotStartsWith = ''not_starts_with''"
| "operator_name OpEndsWith = ''ends_with''"
| "operator_name OpNotEndsWith = ''not_ends_with''"

lemma operator_name_unique: "filter_operator ft = Some op \<Longrightarrow> ft = operator_name op"
  by (auto simp: filter_operator_def split: if_splits)

lemma parse_filter_argument:
  assumes "\<forall>(suf, _) \<in> set filter_suffixes. \<not> suffix suf name" and "filter_operator ft = Some op"
  shows "parse_field_as_filter (iv_name (filter_input_value name ft t)) = (name, op)"
proof -
  note parse = filter_name_roundtrip [OF assms(1)]
  have "ft = [] \<and> op = OpEqual \<or> (''_'' @ ft, op) \<in> set filter_suffixes"
    using assms(2) by (auto simp: filter_operator_def filter_suffixes_def split: if_splits)
  then show ?thesis
  proof
    assume "(''_'' @ ft, op) \<in> set filter_suffixes"
    moreover from this have "ft \<noteq> []" by (auto simp: filter_suffixes_def)
    ultimately show ?thesis using parse by (auto simp: filter_input_value_def plain_input_def)
  qed (use parse in \<open>simp add: filter_input_value_def plain_input_def\<close>)
qed

definition filter_arguments :: "field_def \<Rightarrow> input_value list \<Rightarrow> bool" where
  "filter_arguments f vs \<longleftrightarrow>
     (\<exists>fts t. vs = map (\<lambda>ft. filter_input_value (fd_name f) ft (t ft)) fts \<and> distinct fts \<and>
        (\<forall>ft \<in> set fts. filter_operator ft \<noteq> None \<and> (ft \<in> {''in'', ''not_in''} \<longrightarrow> is_list (t ft))))"

lemma scalar_filter_arguments: "filter_arguments f (field_scalar_filter_input_values f n)"
proof -
  have "distinct (scalar_filter_types n) \<and> (\<forall>ft \<in> set (scalar_filter_types n). filter_operator ft \<noteq> None)"
    by (simp add: scalar_filter_types_def filter_operator_def)
  then show ?thesis unfolding filter_arguments_def field_scalar_filter_input_values_def
    by (intro exI [where x = "scalar_filter_types n"] exI conjI) (rule refl, auto)
qed

lemma list_filter_arguments:
  assumes "field_list_filter_input_values doc f t = Some vs"
  shows "filter_arguments f vs"
proof -
  from assms obtain ft where "vs = map (\<lambda>x. filter_input_value (fd_name f) x (ListType (NonNullType ft))) [[], ''not'', ''contains'', ''not_contains'']"
    by (auto simp: field_list_filter_input_values_def bind_eq_Some_conv)
  then show ?thesis unfolding filter_arguments_def
    by (intro exI [where x = "[[], ''not'', ''contains'', ''not_contains'']"] exI [where x = "\<lambda>_. ListType (NonNullType ft)"])
      (simp add: filter_operator_def)
qed

lemma enum_filter_arguments: "filter_arguments f (field_enum_filter_input_values f e)"
  unfolding filter_arguments_def field_enum_filter_input_values_def
  by (intro exI [where x = "[[], ''not'']"] exI [where x = "\<lambda>_. NamedType (en_name e)"]) (simp add: filter_operator_def)

lemma no_filter_arguments: "filter_arguments f []"
  unfolding filter_arguments_def by (intro exI [where x = "[]"]) simp

lemma field_filter_arguments: "field_filter_input_values doc f t = Ok vs \<Longrightarrow> filter_arguments f vs"
proof (induction doc f t rule: field_filter_input_values.induct)
  case (1 doc f name)
  then show ?case
    using scalar_filter_arguments enum_filter_arguments no_filter_arguments
    by (auto split: option.splits type_definition.splits if_splits)
next
  case (2 doc f t)
  then show ?case using list_filter_arguments no_filter_arguments by (auto split: option.splits)
qed simp

text \<open>C30. The filter arguments that the API schema offers for a field mean what the query code reads in them: for a field
  whose name ends in no operator suffix, every argument parses to that field and an operator, different arguments to
  different operators, and the arguments for \<open>in\<close> and \<open>not_in\<close> take lists.\<close>

theorem filter_arguments_parse_back:
  assumes "field_filter_input_values doc f t = Ok vs" and "\<forall>(suf, _) \<in> set filter_suffixes. \<not> suffix suf (fd_name f)"
  shows "(\<forall>v \<in> set vs. fst (parse_field_as_filter (iv_name v)) = fd_name f \<and>
      (snd (parse_field_as_filter (iv_name v)) \<in> {OpIn, OpNotIn} \<longrightarrow> is_list (iv_value_type v))) \<and>
    distinct (map (\<lambda>v. snd (parse_field_as_filter (iv_name v))) vs)"
proof -
  from field_filter_arguments [OF assms(1)] obtain fts ty
    where vs: "vs = map (\<lambda>ft. filter_input_value (fd_name f) ft (ty ft)) fts" and d: "distinct fts"
      and ops: "\<And>ft. ft \<in> set fts \<Longrightarrow> filter_operator ft \<noteq> None \<and> (ft \<in> {''in'', ''not_in''} \<longrightarrow> is_list (ty ft))"
    unfolding filter_arguments_def by blast
  have parse: "parse_field_as_filter (iv_name (filter_input_value (fd_name f) ft u)) = (fd_name f, the (filter_operator ft))"
    if "ft \<in> set fts" for ft u
    using parse_filter_argument [OF assms(2), of ft] ops [OF that] by auto
  have inj: "inj_on (\<lambda>ft. the (filter_operator ft)) (set fts)"
  proof (rule inj_onI)
    fix x y
    assume "x \<in> set fts" "y \<in> set fts" and eq: "the (filter_operator x) = the (filter_operator y)"
    then obtain ox oy where "filter_operator x = Some ox" "filter_operator y = Some oy" using ops by blast
    then show "x = y" using eq operator_name_unique [of x] operator_name_unique [of y] by simp
  qed
  have operators: "map (\<lambda>v. snd (parse_field_as_filter (iv_name v))) vs = map (\<lambda>ft. the (filter_operator ft)) fts"
    using parse by (simp add: vs)
  have "fst (parse_field_as_filter (iv_name v)) = fd_name f \<and>
      (snd (parse_field_as_filter (iv_name v)) \<in> {OpIn, OpNotIn} \<longrightarrow> is_list (iv_value_type v))" if v: "v \<in> set vs" for v
  proof -
    from v obtain ft where ft: "ft \<in> set fts" "v = filter_input_value (fd_name f) ft (ty ft)" by (auto simp: vs)
    obtain op where op: "filter_operator ft = Some op" using ops [OF ft(1)] by blast
    have "ft \<in> {''in'', ''not_in''}" if "op \<in> {OpIn, OpNotIn}" using that operator_name_unique [OF op] by auto
    moreover have "iv_value_type v = ty ft" by (simp add: ft(2) filter_input_value_def plain_input_def)
    ultimately show ?thesis using ops [OF ft(1)] parse [OF ft(1)] by (auto simp: ft(2) op)
  qed
  moreover have "distinct (map (\<lambda>v. snd (parse_field_as_filter (iv_name v))) vs)"
    unfolding operators distinct_map using d inj by blast
  ultimately show ?thesis by blast
qed

theorem filter_arguments_parse_back_witness:
  "list_all (\<lambda>v. fst (parse_field_as_filter (iv_name v)) = ''name'')
     (field_scalar_filter_input_values (plain_field ''name'' (NamedType ''String'')) ''String'')"
proof -
  let ?f = "plain_field ''name'' (NamedType ''String'')"
  let ?doc = "[TypeDefinition (ScalarDef \<lparr>st_name = ''String'', st_directives = []\<rparr>)]"
  have "field_filter_input_values ?doc ?f (NamedType ''String'') = Ok (field_scalar_filter_input_values ?f ''String'')"
    by (simp add: get_named_type_Cons)
  moreover have "\<forall>(suf, _) \<in> set filter_suffixes. \<not> suffix suf (fd_name ?f)"
    by (auto simp: filter_suffixes_def suffix_rev_prefix plain_field_def)
  ultimately show ?thesis
    using filter_arguments_parse_back [of ?doc ?f "NamedType ''String''"] by (simp add: plain_field_def list_all_iff)
qed

lemma demo_blog_api: "is_ok (api_schema_of demo_inflector (sc_document demo_blog))"
  by code_simp

lemma demo_blog_names: "type_names (sc_document demo_blog) = [''_Schema_'', ''User'', ''Post'']"
  by (simp add: demo_blog_defs)

theorem api_schema_no_panic_witness: "api_schema_of demo_inflector (sc_document demo_blog) \<noteq> Panic"
  by (rule api_schema_no_panic [OF demo_blog_fulltext]) (simp add: demo_blog_names)

theorem api_schema_closed_witness:
  "\<exists>doc t. api_schema_of demo_inflector (sc_document demo_blog) = Ok doc \<and> distinct (type_names doc) \<and>
     get_named_type doc ''Query'' = Some (ObjectDef t) \<and> list_all (closed_field doc) (ot_fields t)"
proof -
  obtain doc where ok: "api_schema_of demo_inflector (sc_document demo_blog) = Ok doc"
    using demo_blog_api by (cases "api_schema_of demo_inflector (sc_document demo_blog)") auto
  show ?thesis
    using api_schema_closed [OF demo_blog_fulltext _ _ _ ok] by (auto simp: demo_blog_names BLOCK_HEIGHT_def ok list_all_iff)
qed

section \<open>Names of full-text queries\<close>

text \<open>Validation does not keep a full-text query apart from the query of an entity: it compares the name of a
  \<open>@fulltext\<close> directive with names of fields, not with the query names made of the names of types. When
  a valid directive is named like the query of a type, the \<open>Query\<close> type that is derived has two fields of that name.\<close>

lemma fulltext_name_collides:
  assumes valid: "validate_fulltext_directives infl s = Ok []"
    and d: "d \<in> set (get_fulltext_directives (sc_document s))" "argument d ''name'' = Some (QString (to_camel_case infl (ot_name t)))"
    and t: "t \<in> set (get_object_type_definitions (sc_document s))"
    and ok: "api_schema_of infl (sc_document s) = Ok doc"
  shows "\<exists>q. get_named_type doc ''Query'' = Some (ObjectDef q) \<and> \<not> distinct (map fd_name (ot_fields q))"
proof -
  let ?input = "sc_document s"
  let ?os = "get_object_type_definitions ?input" and ?is = "get_interface_type_definitions ?input"
  from api_schema_of_Ok [OF ok] obtain d4 d5 d6 where g: "grown ?input d4" and d5: "add_field_arguments ?input d4 = Ok d5"
    and d6: "add_query_type infl ?os ?is d5 = Ok d6" and d7: "add_subscription_type infl ?os ?is d6 = Ok doc" by metis
  obtain fs where fs: "try_map query_field_for_fulltext (get_fulltext_directives ?input) = Ok (map Some fs)"
    and named: "map (\<lambda>d. argument d ''name'') (get_fulltext_directives ?input) = map (\<lambda>f. Some (QString (fd_name f))) fs"
    using fulltext_fields [OF valid] by metis
  have same: "get_fulltext_directives d5 = get_fulltext_directives ?input"
    using erase_eqD(2) [OF add_field_arguments_erase [OF d5]] get_fulltext_directives_grown [OF g] by simp
  define q where "q = \<lparr>ot_name = ''Query'', ot_implements_interfaces = [], ot_directives = [],
      ot_fields = root_fields infl d5 ?os ?is @ fs\<rparr>"
  have q: "d6 = d5 @ [TypeDefinition (ObjectDef q)]" "''Query'' \<notin> set (type_names d5)"
    using add_query_type_Ok [OF d6] fs by (simp_all add: same q_def)
  have "get_named_type d5 ''Query'' = None" using q(2) by (simp add: get_named_type_None)
  then have "get_named_type doc ''Query'' = Some (ObjectDef q)"
    using add_subscription_type_Ok [OF d7] by (simp add: q(1) q_def get_named_type_append get_named_type_Cons)
  moreover have "to_camel_case infl (ot_name t) \<in> fd_name ` set (root_fields infl d5 ?os ?is)"
    using root_fields_complete(1) [of "ot_name t" ?os ?is infl d5] t by force
  moreover have "Some (QString (to_camel_case infl (ot_name t))) \<in> set (map (\<lambda>f. Some (QString (fd_name f))) fs)"
    unfolding named [symmetric] using d by force
  ultimately show ?thesis by (fastforce simp: q_def)
qed

definition demo_clash :: schema where
  "demo_clash = schema_new ''clash''
     [TypeDefinition (ObjectDef \<lparr>ot_name = ''_Schema_'', ot_implements_interfaces = [],
        ot_directives = [demo_fulltext\<lparr>dir_arguments := (''name'', QString ''post'') # tl (dir_arguments demo_fulltext)\<rparr>], ot_fields = []\<rparr>),
      TypeDefinition (ObjectDef demo_user), TypeDefinition (ObjectDef demo_post)]"

definition demo_camel :: inflector where
  "demo_camel = \<lparr>to_camel_case = (\<lambda>s. if s = ''User'' then ''user'' else if s = ''Post'' then ''post'' else s),
     to_plural = (\<lambda>s. s @ ''s'')\<rparr>"

lemma demo_clash_valid: "schema_validate (\<lambda>_. []) demo_camel demo_clash [] = Ok ()"
  by code_simp

lemma demo_clash_api: "is_ok (api_schema_of demo_camel (sc_document demo_clash))"
  by code_simp

end
