(* ===== verification/Coercion.thy ===== *)
theory Coercion
  imports GqlAst
begin

text \<open>
  Coercion of GraphQL input values to the types of the schema (\<open>graphql/src/values/coercion.rs\<close>).
  The functions call each other through variables, default values and input object types, and
  nothing bounds the recursion: the first argument of \<open>coerce_value\<close> is the depth of the call stack
  that is left, counted in calls of this function, and running out of it is a panic; the other two
  functions take the \<open>coerce_value\<close> they call as a parameter. So is the printing of a float.
\<close>

section \<open>Decimal numerals\<close>

fun nat_to_string :: "nat \<Rightarrow> string" where
  "nat_to_string n =
     (if n < 10 then [char_of (48 + n)] else nat_to_string (n div 10) @ [char_of (48 + n mod 10)])"

declare nat_to_string.simps [simp del]

definition i64_to_string :: "64 word \<Rightarrow> string" where
  "i64_to_string i = (if sint i < 0 then ''-'' @ nat_to_string (nat (- sint i)) else nat_to_string (nat (sint i)))"

section \<open>Enums and scalars\<close>

fun coerce_enum :: "qvalue \<Rightarrow> enum_type \<Rightarrow> (qvalue, qvalue) result" where
  "coerce_enum QNull t = Ok QNull"
| "coerce_enum (QString name) t = (if name \<in> set (en_values t) then Ok (QEnum name) else Err (QString name))"
| "coerce_enum (QEnum name) t = (if name \<in> set (en_values t) then Ok (QEnum name) else Err (QEnum name))"
| "coerce_enum v t = Err v"

definition coerce_scalar :: "(64 word \<Rightarrow> string) \<Rightarrow> string \<Rightarrow> qvalue \<Rightarrow> (qvalue, qvalue) result" where
  "coerce_scalar f64_to_string name value =
     (case value of
        QNull \<Rightarrow> Ok QNull
      | QBoolean b \<Rightarrow> if name = ''Boolean'' then Ok (QBoolean b) else Err value
      | QFloat f \<Rightarrow> if name = ''BigDecimal'' then Ok (QString (f64_to_string f)) else Err value
      | QInt n \<Rightarrow>
          if name = ''BigDecimal'' then Ok (QString (i64_to_string n))
          else if name = ''Int'' then
            (if - (2 ^ 31) \<le> sint n \<and> sint n \<le> 2 ^ 31 - 1 then Ok (QInt (scast (ucast n :: i32))) else Err (QInt n))
          else if name = ''ID'' then Ok (QString (i64_to_string n))
          else if name = ''BigInt'' then Ok (QString (i64_to_string n))
          else Err value
      | QString s \<Rightarrow>
          if name = ''BigDecimal'' \<or> name = ''String'' \<or> name = ''ID'' \<or> name = ''Bytes'' \<or> name = ''BigInt''
          then Ok (QString s) else Err value
      | _ \<Rightarrow> Err value)"

section \<open>Values and arguments\<close>

type_synonym coercer = "qvalue \<Rightarrow> gtype \<Rightarrow> (qvalue, qvalue) result"

text \<open>The value of an argument: through a variable, or else its default.\<close>

definition argument_value :: "(string, qvalue) hashmap \<Rightarrow> qvalue option \<Rightarrow> input_value \<Rightarrow> qvalue option" where
  "argument_value variables value def =
     (case (case value of Some (QVariable name) \<Rightarrow> map_of variables name | _ \<Rightarrow> value) of
        Some v \<Rightarrow> Some v
      | None \<Rightarrow> iv_default_value def)"

definition coerce_input_value ::
  "coercer \<Rightarrow> (string, qvalue) hashmap \<Rightarrow> qvalue option \<Rightarrow> input_value \<Rightarrow>
     (qvalue option, query_execution_error) result" where
  "coerce_input_value coerce variables value def =
     (case argument_value variables value def of
        None \<Rightarrow>
          if is_non_null_type (iv_value_type def) then Err (MissingArgumentError (iv_position def) (iv_name def))
          else Ok None
      | Some v \<Rightarrow>
          (case coerce v (iv_value_type def) of
             Ok w \<Rightarrow> Ok (Some w)
           | Err w \<Rightarrow> Err (InvalidArgumentError (iv_position def) (iv_name def) w)
           | Panic \<Rightarrow> Panic))"

text \<open>One entry of an input object; \<open>object_for_error\<close> is the whole object.\<close>

definition coerce_entry ::
  "coercer \<Rightarrow> (string, qvalue) hashmap \<Rightarrow> input_object_type \<Rightarrow> qvalue \<Rightarrow> string \<times> qvalue \<Rightarrow>
     (string \<times> qvalue, qvalue) result" where
  "coerce_entry coerce variables t object_for_error = (\<lambda>(name, v).
     case find (\<lambda>f. iv_name f = name) (io_fields t) of
       None \<Rightarrow> Err object_for_error
     | Some def \<Rightarrow>
         (case coerce_input_value coerce variables (Some v) def of
            Ok (Some v') \<Rightarrow> Ok (name, v')
          | Ok None \<Rightarrow> Err object_for_error
          | Err _ \<Rightarrow> Err object_for_error
          | Panic \<Rightarrow> Panic))"

text \<open>The coerced object has the keys of the given one, so building it up replaces the values.\<close>

definition coerce_to_definition ::
  "coercer \<Rightarrow> (64 word \<Rightarrow> string) \<Rightarrow> (string \<Rightarrow> type_definition option) \<Rightarrow> (string, qvalue) hashmap \<Rightarrow>
     qvalue \<Rightarrow> string \<Rightarrow> (qvalue, qvalue) result" where
  "coerce_to_definition coerce f64_to_string resolver variables value definition =
     (case resolver definition of
        None \<Rightarrow> Err value
      | Some (EnumDef t) \<Rightarrow> coerce_enum value t
      | Some (ScalarDef t) \<Rightarrow> coerce_scalar f64_to_string (st_name t) value
      | Some (InputObjectDef t) \<Rightarrow>
          (case value of
             QObject object \<Rightarrow>
               and_then (try_map (coerce_entry coerce variables t (QObject object)) object)
                 (\<lambda>coerced. Ok (QObject coerced))
           | _ \<Rightarrow> Err value)
      | Some _ \<Rightarrow> Err value)"

definition coerce_step ::
  "coercer \<Rightarrow> (64 word \<Rightarrow> string) \<Rightarrow> (string \<Rightarrow> type_definition option) \<Rightarrow> (string, qvalue) hashmap \<Rightarrow> coercer" where
  "coerce_step coerce f64_to_string resolver variables value ty =
     (case ty of
        NonNullType t \<Rightarrow> if value = QNull then Err QNull else coerce value t
      | NamedType name \<Rightarrow>
          if value = QNull then Ok QNull
          else coerce_to_definition coerce f64_to_string resolver variables value name
      | ListType t \<Rightarrow>
          (case value of
             QNull \<Rightarrow> Ok QNull
           | QList vs \<Rightarrow> and_then (try_map (\<lambda>v. coerce v t) vs) (\<lambda>coerced. Ok (QList coerced))
           | _ \<Rightarrow> Err value))"

primrec coerce_value ::
  "nat \<Rightarrow> (64 word \<Rightarrow> string) \<Rightarrow> (string \<Rightarrow> type_definition option) \<Rightarrow> (string, qvalue) hashmap \<Rightarrow> coercer" where
  "coerce_value 0 f64_to_string resolver variables = (\<lambda>value ty. Panic)"
| "coerce_value (Suc d) f64_to_string resolver variables =
     coerce_step (coerce_value d f64_to_string resolver variables) f64_to_string resolver variables"

section \<open>What a value of a type is\<close>

fun scalar_conforms :: "string \<Rightarrow> qvalue \<Rightarrow> bool" where
  "scalar_conforms name (QBoolean _) \<longleftrightarrow> name = ''Boolean''"
| "scalar_conforms name (QInt n) \<longleftrightarrow> name = ''Int'' \<and> - (2 ^ 31) \<le> sint n \<and> sint n < 2 ^ 31"
| "scalar_conforms name (QString _) \<longleftrightarrow> name \<in> {''BigDecimal'', ''String'', ''ID'', ''Bytes'', ''BigInt''}"
| "scalar_conforms name _ \<longleftrightarrow> False"

inductive conforms :: "(string \<Rightarrow> type_definition option) \<Rightarrow> qvalue \<Rightarrow> gtype \<Rightarrow> bool" for resolver where
  conforms_null: "\<not> is_non_null_type t \<Longrightarrow> conforms resolver QNull t"
| conforms_non_null: "v \<noteq> QNull \<Longrightarrow> conforms resolver v t \<Longrightarrow> conforms resolver v (NonNullType t)"
| conforms_list: "(\<And>v. v \<in> set vs \<Longrightarrow> conforms resolver v t) \<Longrightarrow> conforms resolver (QList vs) (ListType t)"
| conforms_enum: "resolver n = Some (EnumDef e) \<Longrightarrow> x \<in> set (en_values e) \<Longrightarrow> conforms resolver (QEnum x) (NamedType n)"
| conforms_scalar: "resolver n = Some (ScalarDef s) \<Longrightarrow> scalar_conforms (st_name s) v \<Longrightarrow> conforms resolver v (NamedType n)"
| conforms_object: "resolver n = Some (InputObjectDef t) \<Longrightarrow>
    (\<And>k v. (k, v) \<in> set kvs \<Longrightarrow> \<exists>def. find (\<lambda>f. iv_name f = k) (io_fields t) = Some def
       \<and> conforms resolver v (iv_value_type def)) \<Longrightarrow>
    conforms resolver (QObject kvs) (NamedType n)"

lemma scast_ucast_i32:
  assumes "- (2 ^ 31) \<le> sint (n :: 64 word)" and "sint n < 2 ^ 31"
  shows "scast (ucast n :: i32) = n"
proof -
  have "sint (ucast n :: i32) = signed_take_bit 31 (uint n)" by (simp add: signed_ucast_eq)
  also have "\<dots> = signed_take_bit 31 (sint n)" by (simp add: sint_uint signed_take_bit_signed_take_bit)
  also have "\<dots> = sint n" using assms by (simp add: signed_take_bit_int_eq_self_iff)
  finally have "scast (ucast n :: i32) = (word_of_int (sint n) :: 64 word)" by (simp only: scast_eq)
  then show ?thesis by simp
qed

section \<open>Results conform\<close>

lemma coerce_enum_conforms:
  "coerce_enum v e = Ok w \<Longrightarrow> v \<noteq> QNull \<Longrightarrow> \<exists>x. w = QEnum x \<and> x \<in> set (en_values e)"
  by (cases v) (auto split: if_splits)

lemma coerce_scalar_conforms: "coerce_scalar fs s v = Ok w \<Longrightarrow> v \<noteq> QNull \<Longrightarrow> scalar_conforms s w"
  by (cases v) (auto simp: coerce_scalar_def scast_ucast_i32 split: if_splits)

lemma coerce_input_value_Ok:
  assumes "coerce_input_value coerce variables value def = Ok (Some w)"
  obtains v where "coerce v (iv_value_type def) = Ok w"
  using assms by (auto simp: coerce_input_value_def split: option.splits result.splits if_splits)

lemma coerce_step_conforms:
  assumes sound: "\<And>v t w. coerce v t = Ok w \<Longrightarrow> conforms resolver w t"
      "\<And>v t. coerce v t = Ok QNull \<Longrightarrow> v = QNull"
    and "coerce_step coerce fs resolver variables v t = Ok w"
  shows "conforms resolver w t"
proof (cases t)
  case (NamedType n)
  show ?thesis
  proof (cases "v = QNull")
    case True
    then show ?thesis using assms(3) NamedType by (auto simp: coerce_step_def intro: conforms_null)
  next
    case False
    then have c: "coerce_to_definition coerce fs resolver variables v n = Ok w"
      using assms(3) NamedType by (simp add: coerce_step_def)
    then obtain td where td: "resolver n = Some td" by (cases "resolver n") (auto simp: coerce_to_definition_def)
    show ?thesis
    proof (cases td)
      case (InputObjectDef t')
      then obtain kvs kvs' where o: "v = QObject kvs" "w = QObject kvs'"
          "try_map (coerce_entry coerce variables t' (QObject kvs)) kvs = Ok kvs'"
        using c td by (auto simp: coerce_to_definition_def and_then_Ok_iff split: qvalue.splits)
      have "\<exists>def. find (\<lambda>f. iv_name f = k) (io_fields t') = Some def \<and> conforms resolver x (iv_value_type def)"
        if kx: "(k, x) \<in> set kvs'" for k x
      proof -
        obtain kv where "coerce_entry coerce variables t' (QObject kvs) kv = Ok (k, x)"
          using try_map_mem_out [OF o(3) kx] by blast
        then show ?thesis
          by (auto simp: coerce_entry_def split: prod.splits option.splits result.splits
              elim!: coerce_input_value_Ok dest!: sound(1))
      qed
      then show ?thesis using td InputObjectDef NamedType o(2) by (auto intro: conforms_object)
    qed (use c td False NamedType in \<open>auto simp: coerce_to_definition_def intro: conforms_enum conforms_scalar
        dest: coerce_enum_conforms coerce_scalar_conforms\<close>)
  qed
next
  case (ListType t')
  then consider "w = QNull" | vs ws where "w = QList ws" "try_map (\<lambda>v. coerce v t') vs = Ok ws"
    using assms(3) by (auto simp: coerce_step_def and_then_Ok_iff split: qvalue.splits)
  then show ?thesis
  proof cases
    case 2
    have "conforms resolver x t'" if "x \<in> set ws" for x
      using try_map_mem_out [OF 2(2) that] sound(1) by blast
    then show ?thesis using 2(1) ListType by (auto intro: conforms_list)
  qed (use ListType in \<open>auto intro: conforms_null\<close>)
next
  case (NonNullType t')
  then have "v \<noteq> QNull" "coerce v t' = Ok w" using assms(3) by (auto simp: coerce_step_def split: if_splits)
  then show ?thesis using sound NonNullType by (metis conforms_non_null)
qed

lemma coerce_step_null:
  assumes "\<And>v t. coerce v t = Ok QNull \<Longrightarrow> v = QNull" and "coerce_step coerce fs resolver variables v t = Ok QNull"
  shows "v = QNull"
proof (rule ccontr)
  assume v: "v \<noteq> QNull"
  show False
  proof (cases t)
    case (NamedType n)
    then have c: "coerce_to_definition coerce fs resolver variables v n = Ok QNull"
      using assms(2) v by (simp add: coerce_step_def)
    then obtain td where td: "resolver n = Some td" by (cases "resolver n") (auto simp: coerce_to_definition_def)
    show False
      by (cases td; use c td v coerce_enum_conforms [of v _ QNull] coerce_scalar_conforms [of fs _ v QNull] in
          \<open>auto simp: coerce_to_definition_def and_then_Ok_iff split: qvalue.splits\<close>)
  qed (use assms v in \<open>auto simp: coerce_step_def and_then_Ok_iff split: qvalue.splits if_splits\<close>)
qed

lemma coerce_value_conforms:
  assumes "coerce_value d fs resolver variables v t = Ok w"
  shows "conforms resolver w t"
proof -
  have "(\<forall>v t w. coerce_value d fs resolver variables v t = Ok w \<longrightarrow> conforms resolver w t)
      \<and> (\<forall>v t. coerce_value d fs resolver variables v t = Ok QNull \<longrightarrow> v = QNull)"
  proof (induction d)
    case (Suc d)
    then have "\<And>v t w. coerce_value d fs resolver variables v t = Ok w \<Longrightarrow> conforms resolver w t"
        and n: "\<And>v t. coerce_value d fs resolver variables v t = Ok QNull \<Longrightarrow> v = QNull"
      by blast+
    from coerce_step_conforms [OF this] coerce_step_null [OF n] show ?case by simp
  qed simp
  then show ?thesis using assms by blast
qed

section \<open>Conforming values are fixed points\<close>

text \<open>\<open>P\<close> holds from some depth on; for finitely many conditions one depth will do.\<close>

definition eventually_deep :: "(nat \<Rightarrow> bool) \<Rightarrow> bool" where
  "eventually_deep P \<longleftrightarrow> (\<exists>d0. \<forall>d \<ge> d0. P d)"

lemma eventually_deep_all:
  assumes "finite S" and "\<And>x. x \<in> S \<Longrightarrow> eventually_deep (P x)"
  shows "eventually_deep (\<lambda>d. \<forall>x \<in> S. P x d)"
proof -
  obtain f where f: "\<forall>x \<in> S. \<forall>d \<ge> f x. P x d" using assms(2) unfolding eventually_deep_def by metis
  have "\<forall>d \<ge> Max (insert 0 (f ` S)). \<forall>x \<in> S. P x d"
    using f assms(1) by (meson Max_ge finite_imageI finite_insert image_eqI insertCI order_trans)
  then show ?thesis unfolding eventually_deep_def by blast
qed

lemma eventually_deep_Suc: "eventually_deep (\<lambda>d. P (Suc d)) \<Longrightarrow> eventually_deep P"
  unfolding eventually_deep_def by (metis Suc_le_D Suc_le_mono)

lemma eventually_deep_mono: "eventually_deep P \<Longrightarrow> (\<And>d. P d \<Longrightarrow> Q d) \<Longrightarrow> eventually_deep Q"
  unfolding eventually_deep_def by blast

lemma eventually_deep_step: "(\<And>d. P (Suc d)) \<Longrightarrow> eventually_deep P"
  by (rule eventually_deep_Suc) (simp add: eventually_deep_def)

lemma conforms_not_variable: "\<not> conforms resolver (QVariable x) t"
proof -
  have "v = QVariable x \<Longrightarrow> conforms resolver v t \<Longrightarrow> False" for v
    by (induction t) (auto elim: conforms.cases)
  then show ?thesis by blast
qed

lemma coerce_scalar_fixed: "scalar_conforms s v \<Longrightarrow> coerce_scalar fs s v = Ok v"
  by (cases v) (auto simp: coerce_scalar_def scast_ucast_i32)

lemma conforms_coerced:
  assumes "conforms resolver v t"
  shows "eventually_deep (\<lambda>d. coerce_value d fs resolver variables v t = Ok v)"
  using assms
proof induction
  case (conforms_null t)
  then show ?case by (intro eventually_deep_step) (cases t; simp add: coerce_step_def)
next
  case (conforms_non_null v t)
  show ?case by (rule eventually_deep_Suc, rule eventually_deep_mono [OF conforms_non_null.IH])
      (use conforms_non_null.hyps in \<open>simp add: coerce_step_def\<close>)
next
  case (conforms_list vs t)
  have "eventually_deep (\<lambda>d. \<forall>v \<in> set vs. coerce_value d fs resolver variables v t = Ok v)"
    using conforms_list.IH by (intro eventually_deep_all) auto
  then show ?case
    by (rule eventually_deep_Suc [OF eventually_deep_mono])
      (simp add: coerce_step_def try_map_Ok_total [where g = "\<lambda>v. v"])
next
  case (conforms_enum n e x)
  then show ?case
    by (intro eventually_deep_step) (simp add: coerce_step_def coerce_to_definition_def)
next
  case (conforms_scalar n s v)
  moreover have "v \<noteq> QNull" using conforms_scalar.hyps(2) by auto
  ultimately show ?case
    by (intro eventually_deep_step)
      (simp add: coerce_step_def coerce_to_definition_def coerce_scalar_fixed)
next
  case (conforms_object n t kvs)
  have "eventually_deep (\<lambda>d. \<forall>kv \<in> set kvs. coerce_entry (coerce_value d fs resolver variables) variables t (QObject kvs) kv = Ok kv)"
  proof (rule eventually_deep_all, simp)
    fix kv assume kv: "kv \<in> set kvs"
    obtain k v where [simp]: "kv = (k, v)" by (cases kv)
    obtain def where d: "find (\<lambda>f. iv_name f = k) (io_fields t) = Some def" "conforms resolver v (iv_value_type def)"
        "eventually_deep (\<lambda>d. coerce_value d fs resolver variables v (iv_value_type def) = Ok v)"
      using conforms_object.IH [of k v] kv by auto
    have "\<forall>x. v \<noteq> QVariable x" using d(2) conforms_not_variable by blast
    then show "eventually_deep (\<lambda>d. coerce_entry (coerce_value d fs resolver variables) variables t (QObject kvs) kv = Ok kv)"
      using d(1) by (intro eventually_deep_mono [OF d(3)])
        (auto simp: coerce_entry_def coerce_input_value_def argument_value_def split: qvalue.split)
  qed
  then show ?case
    by (rule eventually_deep_Suc [OF eventually_deep_mono])
      (use conforms_object.hyps in \<open>simp add: coerce_step_def coerce_to_definition_def try_map_Ok_total [where g = "\<lambda>kv. kv"]\<close>)
qed

section \<open>Coercion returns\<close>

text \<open>Values without variables, as they come from JSON and from the defaults of a schema.\<close>

fun const_value :: "qvalue \<Rightarrow> bool" where
  "const_value (QVariable _) \<longleftrightarrow> False"
| "const_value (QList vs) \<longleftrightarrow> list_all const_value vs"
| "const_value (QObject kvs) \<longleftrightarrow> list_all (\<lambda>(k, v). const_value v) kvs"
| "const_value _ \<longleftrightarrow> True"

definition const_defaults :: "(string \<Rightarrow> type_definition option) \<Rightarrow> bool" where
  "const_defaults resolver \<longleftrightarrow> (\<forall>n t. resolver n = Some (InputObjectDef t) \<longrightarrow>
     (\<forall>def \<in> set (io_fields t). \<forall>v. iv_default_value def = Some v \<longrightarrow> const_value v))"

definition returns ::
  "(64 word \<Rightarrow> string) \<Rightarrow> (string \<Rightarrow> type_definition option) \<Rightarrow> (string, qvalue) hashmap \<Rightarrow> qvalue \<Rightarrow> gtype \<Rightarrow> bool" where
  "returns fs resolver variables v t \<longleftrightarrow> eventually_deep (\<lambda>d. coerce_value d fs resolver variables v t \<noteq> Panic)"

lemma try_map_not_Panic: "(\<And>x. x \<in> set xs \<Longrightarrow> f x \<noteq> Panic) \<Longrightarrow> try_map f xs \<noteq> Panic"
proof (induction xs)
  case (Cons x xs)
  then have "try_map f xs \<noteq> Panic" "f x \<noteq> Panic" by simp_all
  then show ?case by (cases "f x"; cases "try_map f xs") simp_all
qed simp

lemma coerce_scalar_not_Panic [simp]: "coerce_scalar fs s v \<noteq> Panic"
  by (simp add: coerce_scalar_def split: qvalue.split)

lemma coerce_enum_not_Panic [simp]: "coerce_enum v e \<noteq> Panic"
  by (cases "(v, e)" rule: coerce_enum.cases) auto

lemma coerce_entry_returns:
  assumes "\<And>def w. find (\<lambda>f. iv_name f = fst kv) (io_fields t) = Some def \<Longrightarrow>
      argument_value variables (Some (snd kv)) def = Some w \<Longrightarrow> returns fs resolver variables w (iv_value_type def)"
  shows "eventually_deep (\<lambda>d. coerce_entry (coerce_value d fs resolver variables) variables t obj kv \<noteq> Panic)"
proof (cases "find (\<lambda>f. iv_name f = fst kv) (io_fields t)")
  case (Some def)
  show ?thesis
  proof (cases "argument_value variables (Some (snd kv)) def")
    case None
    with Some show ?thesis
      by (intro eventually_deep_step) (auto simp: coerce_entry_def coerce_input_value_def split: prod.splits if_splits)
  next
    case (Some w)
    show ?thesis
      by (rule eventually_deep_mono [OF assms [OF \<open>find _ _ = Some def\<close> Some, unfolded returns_def]])
        (use Some \<open>find _ _ = Some def\<close> in
          \<open>auto simp: coerce_entry_def coerce_input_value_def split: prod.splits result.splits\<close>)
  qed
qed (intro eventually_deep_step, auto simp: coerce_entry_def split: prod.splits)

lemma returns_step:
  assumes list: "\<And>vs x t. v = QList vs \<Longrightarrow> x \<in> set vs \<Longrightarrow> returns fs resolver variables x t"
    and object: "\<And>kvs k x n t def w. v = QObject kvs \<Longrightarrow> (k, x) \<in> set kvs \<Longrightarrow> resolver n = Some (InputObjectDef t) \<Longrightarrow>
      def \<in> set (io_fields t) \<Longrightarrow> argument_value variables (Some x) def = Some w \<Longrightarrow>
      returns fs resolver variables w (iv_value_type def)"
  shows "returns fs resolver variables v t"
proof (induction t)
  case (NamedType n)
  show ?case
  proof (cases "\<exists>t kvs. resolver n = Some (InputObjectDef t) \<and> v = QObject kvs")
    case True
    then obtain t kvs where o: "resolver n = Some (InputObjectDef t)" "v = QObject kvs" by blast
    have "eventually_deep (\<lambda>d. \<forall>kv \<in> set kvs.
        coerce_entry (coerce_value d fs resolver variables) variables t (QObject kvs) kv \<noteq> Panic)"
    proof (rule eventually_deep_all, simp)
      fix kv assume kv: "kv \<in> set kvs"
      show "eventually_deep (\<lambda>d. coerce_entry (coerce_value d fs resolver variables) variables t (QObject kvs) kv \<noteq> Panic)"
      proof (rule coerce_entry_returns)
        fix def w
        assume d: "find (\<lambda>f. iv_name f = fst kv) (io_fields t) = Some def" "argument_value variables (Some (snd kv)) def = Some w"
        then have "def \<in> set (io_fields t)" by (metis find_Some_iff nth_mem)
        then show "returns fs resolver variables w (iv_value_type def)"
          using object [OF o(2) _ o(1) _ d(2), of "fst kv"] kv by simp
      qed
    qed
    then show ?thesis unfolding returns_def
    proof (rule eventually_deep_Suc [OF eventually_deep_mono])
      fix d assume "\<forall>kv \<in> set kvs. coerce_entry (coerce_value d fs resolver variables) variables t (QObject kvs) kv \<noteq> Panic"
      then have "try_map (coerce_entry (coerce_value d fs resolver variables) variables t (QObject kvs)) kvs \<noteq> Panic"
        by (intro try_map_not_Panic) blast
      then show "coerce_value (Suc d) fs resolver variables v (NamedType n) \<noteq> Panic"
        using o by (cases "try_map (coerce_entry (coerce_value d fs resolver variables) variables t (QObject kvs)) kvs")
          (simp_all add: coerce_step_def coerce_to_definition_def)
    qed
  next
    case False
    then show ?thesis unfolding returns_def
      by (intro eventually_deep_step)
        (auto simp: coerce_step_def coerce_to_definition_def split: option.splits type_definition.splits qvalue.splits)
  qed
next
  case (ListType t)
  show ?case
  proof (cases "\<exists>vs. v = QList vs")
    case True
    then obtain vs where vs: "v = QList vs" by blast
    then have "eventually_deep (\<lambda>d. \<forall>x \<in> set vs. coerce_value d fs resolver variables x t \<noteq> Panic)"
      using list by (intro eventually_deep_all) (auto simp: returns_def)
    then show ?thesis unfolding returns_def
    proof (rule eventually_deep_Suc [OF eventually_deep_mono])
      fix d assume "\<forall>x \<in> set vs. coerce_value d fs resolver variables x t \<noteq> Panic"
      then have "try_map (\<lambda>x. coerce_value d fs resolver variables x t) vs \<noteq> Panic" by (intro try_map_not_Panic) blast
      then show "coerce_value (Suc d) fs resolver variables v (ListType t) \<noteq> Panic"
        using vs by (cases "try_map (\<lambda>x. coerce_value d fs resolver variables x t) vs") (simp_all add: coerce_step_def)
    qed
  next
    case False
    then show ?thesis unfolding returns_def
      by (intro eventually_deep_step) (auto simp: coerce_step_def split: qvalue.splits)
  qed
next
  case (NonNullType t)
  then show ?case unfolding returns_def
    by (rule eventually_deep_Suc [OF eventually_deep_mono]) (simp add: coerce_step_def)
qed

lemma size_entry: "(k, x) \<in> set kvs \<Longrightarrow> size x < size (QObject kvs)"
  by (induction kvs) auto

lemma size_element: "x \<in> set vs \<Longrightarrow> size x < size (QList vs)"
  by (induction vs) auto

lemma const_returns: "const_value v \<Longrightarrow> returns fs resolver variables v t"
proof (induction "size v" arbitrary: v t rule: less_induct)
  case less
  show ?case
  proof (rule returns_step)
    show "returns fs resolver variables x t'" if "v = QList vs" "x \<in> set vs" for vs x t'
      using that less size_element by (simp add: list_all_iff)
    fix kvs k x n t' def w
    assume kv: "v = QObject kvs" "(k, x) \<in> set kvs" and w: "argument_value variables (Some x) def = Some w"
    have "const_value x" using kv less.prems by (auto simp: list_all_iff)
    then have "w = x" using w by (cases x) (auto simp: argument_value_def)
    then show "returns fs resolver variables w (iv_value_type def)"
      using kv less.hyps [of x] size_entry \<open>const_value x\<close> by simp
  qed
qed

lemma coercion_returns:
  assumes "\<forall>n v. map_of variables n = Some v \<longrightarrow> const_value v" and "const_defaults resolver"
  shows "returns fs resolver variables v t"
proof (induction "size v" arbitrary: v t rule: less_induct)
  case less
  show ?case
  proof (rule returns_step)
    show "returns fs resolver variables x t'" if "v = QList vs" "x \<in> set vs" for vs x t'
      using that less size_element by simp
    fix kvs k x n t' def w
    assume kv: "v = QObject kvs" "(k, x) \<in> set kvs" and w: "argument_value variables (Some x) def = Some w"
      and def: "resolver n = Some (InputObjectDef t')" "def \<in> set (io_fields t')"
    have "w = x \<or> const_value w"
      using w assms def
      by (cases x) (auto simp: argument_value_def const_defaults_def split: option.splits)
    then show "returns fs resolver variables w (iv_value_type def)"
      using kv less.hyps [of x] size_entry const_returns by auto
  qed
qed

section \<open>Properties\<close>

text \<open>C37. With variables and default values that contain no variables themselves, coercing any value to any
  type returns once the stack is deep enough; what it returns is a value of the type (integers
  within 32 bits, enum values that exist, object entries that are fields, no null where the type
  forbids it); and a value of the type is returned unchanged.\<close>

theorem coercion_sound_and_complete:
  assumes "\<forall>n v. map_of variables n = Some v \<longrightarrow> const_value v" and "const_defaults resolver"
  shows "(\<exists>d0. \<forall>d \<ge> d0. coerce_value d fs resolver variables v t \<noteq> Panic)
    \<and> (\<forall>d w. coerce_value d fs resolver variables v t = Ok w \<longrightarrow> conforms resolver w t)
    \<and> (conforms resolver v t \<longrightarrow> (\<exists>d0. \<forall>d \<ge> d0. coerce_value d fs resolver variables v t = Ok v))"
  using coercion_returns [OF assms, of fs v t] conforms_coerced [of resolver v t fs variables] coerce_value_conforms
  unfolding returns_def eventually_deep_def by blast

definition demo_resolver :: "string \<Rightarrow> type_definition option" where
  "demo_resolver n =
     (if n = ''Int'' then Some (ScalarDef \<lparr>st_name = ''Int'', st_directives = []\<rparr>)
      else if n = ''Color'' then Some (EnumDef \<lparr>en_name = ''Color'', en_directives = [], en_values = [''red'', ''blue'']\<rparr>)
      else if n = ''Paint'' then Some (InputObjectDef \<lparr>io_name = ''Paint'', io_directives = [],
        io_fields = [\<lparr>iv_position = (0, 0), iv_name = ''color'', iv_value_type = NonNullType (NamedType ''Color''),
          iv_default_value = Some (QEnum ''red'')\<rparr>]\<rparr>)
      else None)"

theorem coercion_sound_and_complete_witness:
  "\<exists>d. coerce_value d (\<lambda>_. []) demo_resolver [(''c'', QString ''blue'')] (QObject [(''color'', QVariable ''c'')]) (NamedType ''Paint'')
      = Ok (QObject [(''color'', QEnum ''blue'')])
    \<and> conforms demo_resolver (QObject [(''color'', QEnum ''blue'')]) (NamedType ''Paint'')"
proof -
  let ?c = "coerce_value 4 (\<lambda>_. []) demo_resolver [(''c'', QString ''blue'')] (QObject [(''color'', QVariable ''c'')]) (NamedType ''Paint'')"
  have "?c = Ok (QObject [(''color'', QEnum ''blue'')])"
    by (simp add: coerce_step_def coerce_to_definition_def coerce_entry_def coerce_input_value_def argument_value_def
        demo_resolver_def numeral_eq_Suc)
  moreover have "const_defaults demo_resolver" by (auto simp: const_defaults_def demo_resolver_def split: if_splits)
  ultimately show ?thesis
    using coercion_sound_and_complete [of "[(''c'', QString ''blue'')]" demo_resolver "\<lambda>_. []"
        "QObject [(''color'', QVariable ''c'')]" "NamedType ''Paint''"] by (auto split: if_splits)
qed

end
