(* ===== verification/QueryChecks.thy ===== *)
theory QueryChecks
  imports Coercion
begin

text \<open>
  Checks of a GraphQL query before it is executed (\<open>graphql/src/execution/query.rs\<close>): coercion of its
  variables, validation of the selected fields, and the bound on its complexity. The introspection
  schema is a field of \<open>api_schema\<close>. Validation recurses through fragments without a bound, so its
  first argument is the depth of the stack that is left, and running out of it is a panic.
\<close>

record api_schema =
  as_document :: document
  as_id :: string
  as_introspection :: document
  as_introspection_query_type :: object_type

datatype query_kind = QueryKind | SubscriptionKind

record query =
  qr_schema :: api_schema
  qr_variables :: "(string, qvalue) hashmap"
  qr_selection_set :: "selection list"
  qr_fragments :: "(string, fragment_definition) hashmap"
  qr_kind :: query_kind
  qr_complexity :: u64

section \<open>Lookups with introspection\<close>

definition starts_with_underscores :: "string \<Rightarrow> bool" where
  "starts_with_underscores name = prefix ''__'' name"

definition exec_get_named_type :: "api_schema \<Rightarrow> string \<Rightarrow> type_definition option" where
  "exec_get_named_type api name =
     (if starts_with_underscores name then get_named_type (as_introspection api) name
      else get_named_type (as_document api) name)"

definition exec_get_field :: "api_schema \<Rightarrow> object_or_interface \<Rightarrow> string \<Rightarrow> field_def option" where
  "exec_get_field api oi name =
     (if name = ''__schema'' \<or> name = ''__type'' then get_field (IsObject (as_introspection_query_type api)) name
      else get_field oi name)"

definition exec_object_or_interface :: "api_schema \<Rightarrow> string \<Rightarrow> object_or_interface option" where
  "exec_object_or_interface api name =
     (if starts_with_underscores name then object_or_interface_of (as_introspection api) name
      else object_or_interface_of (as_document api) name)"

section \<open>Variables\<close>

definition coerce_variable ::
  "nat \<Rightarrow> (64 word \<Rightarrow> string) \<Rightarrow> api_schema \<Rightarrow> variable_definition \<Rightarrow> qvalue \<Rightarrow>
     (qvalue, query_execution_error list) result" where
  "coerce_variable d fs api vd value =
     (case coerce_value d fs (get_named_type (as_document api)) [] value (vd_var_type vd) of
        Ok v \<Rightarrow> Ok v
      | Err v \<Rightarrow> Err [InvalidArgumentError (vd_position vd) (vd_name vd) v]
      | Panic \<Rightarrow> Panic)"

text \<open>One variable definition: the coerced values, the errors and the variables not yet taken.\<close>

definition coerce_variable_def ::
  "nat \<Rightarrow> (64 word \<Rightarrow> string) \<Rightarrow> api_schema \<Rightarrow> variable_definition \<Rightarrow>
     (string, qvalue) hashmap \<times> query_execution_error list \<times> (string, qvalue) hashmap option \<Rightarrow>
     ((string, qvalue) hashmap \<times> query_execution_error list \<times> (string, qvalue) hashmap option,
      query_execution_error list) result" where
  "coerce_variable_def d fs api vd = (\<lambda>(coerced, errors, vars).
     if \<not> is_input_type (as_document api) (vd_var_type vd)
     then Ok (coerced, errors @ [InvalidVariableTypeError (vd_position vd) (vd_name vd)], vars)
     else
       let given = Option.bind vars (\<lambda>m. map_of m (vd_name vd));
           vars1 = map_option (hm_remove (vd_name vd)) vars
       in case (case given of Some v \<Rightarrow> Some v | None \<Rightarrow> vd_default_value vd) of
            None \<Rightarrow>
              Ok (coerced,
                  if is_non_null_type (vd_var_type vd) then errors @ [MissingVariableError (vd_position vd) (vd_name vd)]
                  else errors, vars1)
          | Some v \<Rightarrow>
              and_then (coerce_variable d fs api vd v) (\<lambda>w. Ok (hm_insert (vd_name vd) w coerced, errors, vars1)))"

definition coerce_variables ::
  "nat \<Rightarrow> (64 word \<Rightarrow> string) \<Rightarrow> api_schema \<Rightarrow> operation_definition \<Rightarrow> (string, qvalue) hashmap option \<Rightarrow>
     ((string, qvalue) hashmap, query_execution_error list) result" where
  "coerce_variables d fs api operation variables =
     and_then (try_fold (coerce_variable_def d fs api)
                 (case get_variable_definitions operation of None \<Rightarrow> [] | Some vds \<Rightarrow> vds) ([], [], variables))
       (\<lambda>(coerced, errors, _). if errors = [] then Ok coerced else Err errors)"

section \<open>Validation of fields\<close>

type_synonym validator =
  "string \<Rightarrow> object_or_interface \<Rightarrow> selection list \<Rightarrow> (query_execution_error list, query_execution_error list) result"

definition validate_selection ::
  "validator \<Rightarrow> query \<Rightarrow> string \<Rightarrow> object_or_interface \<Rightarrow> selection \<Rightarrow>
     (query_execution_error list, query_execution_error list) result" where
  "validate_selection validate q tyname ty sel =
     (case sel of
        FieldSel p _ name _ _ sels \<Rightarrow>
          (case exec_get_field (qr_schema q) ty name of
             Some s_field \<Rightarrow>
               let base_type = get_base_type (fd_field_type s_field)
               in if exec_get_named_type (qr_schema q) base_type = None then Ok [NamedTypeError base_type]
                  else (case exec_object_or_interface (qr_schema q) base_type of
                          Some ty' \<Rightarrow> validate base_type ty' sels
                        | None \<Rightarrow> Ok [])
           | None \<Rightarrow> Ok [UnknownField p tyname name])
      | FragmentSpread fragment_name \<Rightarrow>
          (case map_of (qr_fragments q) fragment_name of
             Some frag \<Rightarrow>
               (case exec_object_or_interface (qr_schema q) (fr_type_condition frag) of
                  Some ty' \<Rightarrow> validate (fr_type_condition frag) ty' (fr_selection_set frag)
                | None \<Rightarrow> Ok [NamedTypeError (fr_type_condition frag)])
           | None \<Rightarrow> Ok [UndefinedFragment fragment_name])
      | InlineFragment (Some tyname') sels \<Rightarrow>
          (case exec_object_or_interface (qr_schema q) tyname' of
             Some ty' \<Rightarrow> validate tyname' ty' sels
           | None \<Rightarrow> Ok [NamedTypeError tyname'])
      | InlineFragment None sels \<Rightarrow> validate tyname ty sels)"

primrec validate_fields_inner :: "nat \<Rightarrow> query \<Rightarrow> validator" where
  "validate_fields_inner 0 q = (\<lambda>tyname ty sels. Panic)"
| "validate_fields_inner (Suc d) q = (\<lambda>tyname ty sels.
     if sels = [] \<and> as_id (qr_schema q) \<noteq> ''subgraphs'' then Ok [EmptySelectionSet (oi_name ty)]
     else and_then (try_map (validate_selection (validate_fields_inner d q) q tyname ty) sels)
            (\<lambda>ess. Ok (concat ess)))"

definition validate_fields :: "nat \<Rightarrow> query \<Rightarrow> (unit, query_execution_error list) result" where
  "validate_fields d q =
     and_then (expect (get_root_query_type (as_document (qr_schema q)))) (\<lambda>root_type.
     and_then (validate_fields_inner d q ''Query'' (IsObject root_type) (qr_selection_set q)) (\<lambda>errors.
       if errors = [] then Ok () else Err errors))"

section \<open>Complexity\<close>

datatype complexity_error = CTooDeep | COverflow | CInvalid

definition checked_add :: "u64 \<Rightarrow> u64 \<Rightarrow> (u64, complexity_error) result" where
  "checked_add a b = (if unat a + unat b < 2 ^ 64 then Ok (a + b) else Err COverflow)"

definition checked_mul :: "u64 \<Rightarrow> u64 \<Rightarrow> (u64, complexity_error) result" where
  "checked_mul a b = (if unat a * unat b < 2 ^ 64 then Ok (a * b) else Err COverflow)"

fun ok_or :: "'a option \<Rightarrow> 'e \<Rightarrow> ('a, 'e) result" where
  "ok_or (Some a) e = Ok a"
| "ok_or None e = Err e"

definition type_field :: "api_schema \<Rightarrow> type_definition \<Rightarrow> string \<Rightarrow> field_def option" where
  "type_field api ty name =
     (case ty of
        ObjectDef t \<Rightarrow> exec_get_field api (IsObject t) name
      | InterfaceDef t \<Rightarrow> exec_get_field api (IsInterface t) name
      | _ \<Rightarrow> None)"

definition max_entities :: "(string \<times> qvalue) list \<Rightarrow> u64" where
  "max_entities args = (case get_argument_value args ''first'' of Some (QInt n) \<Rightarrow> n | _ \<Rightarrow> 100)"

text \<open>The closure of \<open>try_fold\<close>; the addition for fields that are no collections is not checked.\<close>

definition complexity_selection ::
  "query \<Rightarrow> (type_definition \<Rightarrow> selection list \<Rightarrow> (u64, complexity_error) result) \<Rightarrow> type_definition \<Rightarrow>
     selection \<Rightarrow> u64 \<Rightarrow> (u64, complexity_error) result" where
  "complexity_selection q inner ty sel total_complexity =
     (case sel of
        FieldSel _ _ name args _ sels \<Rightarrow>
          if sels = [] then Ok total_complexity
          else
            and_then (ok_or (type_field (qr_schema q) ty name) CInvalid) (\<lambda>s_field.
            and_then (ok_or (exec_get_named_type (qr_schema q) (get_base_type (fd_field_type s_field))) CInvalid) (\<lambda>ty'.
            and_then (inner ty' sels) (\<lambda>field_complexity.
              if \<not> is_list_or_non_null_list_field s_field then Ok (total_complexity + field_complexity)
              else
                and_then (checked_mul (max_entities args) field_complexity) (\<lambda>m.
                and_then (checked_add (max_entities args) m) (\<lambda>c. checked_add total_complexity c)))))
      | FragmentSpread fragment_name \<Rightarrow>
          and_then (expect (map_of (qr_fragments q) fragment_name)) (\<lambda>def.
          and_then (ok_or (exec_get_named_type (qr_schema q) (fr_type_condition def)) CInvalid) (\<lambda>ty'.
          and_then (inner ty' (fr_selection_set def)) (\<lambda>c. checked_add total_complexity c)))
      | InlineFragment cond sels \<Rightarrow>
          and_then (case cond of
                      Some tyname \<Rightarrow> ok_or (exec_get_named_type (qr_schema q) tyname) CInvalid
                    | None \<Rightarrow> Ok ty) (\<lambda>ty'.
          and_then (inner ty' sels) (\<lambda>c. checked_add total_complexity c)))"

function complexity_inner ::
  "query \<Rightarrow> 8 word \<Rightarrow> 8 word \<Rightarrow> type_definition \<Rightarrow> selection list \<Rightarrow> (u64, complexity_error) result" where
  "complexity_inner q max_depth depth ty sels =
     (if depth \<ge> max_depth then Err CTooDeep
      else try_fold (complexity_selection q (\<lambda>ty' sels'. complexity_inner q max_depth (depth + 1) ty' sels') ty) sels 0)"
  by auto
termination
proof (relation "measure (\<lambda>(_, max_depth, depth, _, _). unat max_depth - unat depth)", goal_cases)
  case (2 q max_depth depth ty sels ty' sels')
  then have "unat depth < unat max_depth" by (simp add: word_le_nat_alt)
  moreover from this have "unat (depth + 1) = unat depth + 1"
    using unsigned_less [of max_depth, where 'a = nat] by (simp add: unat_word_ariths del: unsigned_less)
  ultimately show ?case by simp
qed simp

declare complexity_inner.simps [simp del]

definition complexity :: "query \<Rightarrow> 8 word \<Rightarrow> (u64, query_execution_error) result" where
  "complexity q max_depth =
     and_then (expect (get_root_query_type_def (as_document (qr_schema q)))) (\<lambda>root_type.
       case complexity_inner q max_depth 0 root_type (qr_selection_set q) of
         Ok c \<Rightarrow> Ok c
       | Err CInvalid \<Rightarrow> Ok 0
       | Err CTooDeep \<Rightarrow> Err (TooDeep max_depth)
       | Err COverflow \<Rightarrow> Err (TooComplex (- 1) 0)
       | Panic \<Rightarrow> Panic)"

definition check_complexity :: "u64 option \<Rightarrow> 8 word \<Rightarrow> query \<Rightarrow> (query, query_execution_error list) result" where
  "check_complexity max_complexity max_depth q =
     (case max_complexity of
        Some limit \<Rightarrow>
          (case complexity q max_depth of
             Ok c \<Rightarrow> if c > limit then Err [TooComplex c limit] else Ok (q\<lparr>qr_complexity := c\<rparr>)
           | Err e \<Rightarrow> Err [e]
           | Panic \<Rightarrow> Panic)
      | None \<Rightarrow> Ok q)"

section \<open>Preparing a query\<close>

text \<open>The loop over the definitions of the document.\<close>

fun split_definition ::
  "query_definition \<Rightarrow> operation_definition option \<times> (string, fragment_definition) hashmap \<Rightarrow>
     (operation_definition option \<times> (string, fragment_definition) hashmap, query_execution_error list) result" where
  "split_definition (Operation op) (None, fragments) = Ok (Some op, fragments)"
| "split_definition (Operation op) (Some _, fragments) = Err [OperationNameRequired]"
| "split_definition (Fragment frag) (operation, fragments) = Ok (operation, hm_insert (fr_name frag) frag fragments)"

fun operation_parts :: "operation_definition \<Rightarrow> (query_kind \<times> selection list, query_execution_error list) result" where
  "operation_parts (OpQuery _ _ sels) = Ok (QueryKind, sels)"
| "operation_parts (OpSelectionSet sels) = Ok (QueryKind, sels)"
| "operation_parts (OpSubscription _ _ sels) = Ok (SubscriptionKind, sels)"
| "operation_parts (OpMutation _ _ _) = Err [NotSupported ''Mutations are not supported'']"

definition query_prepare ::
  "nat \<Rightarrow> (64 word \<Rightarrow> string) \<Rightarrow> api_schema \<Rightarrow> query_definition list \<Rightarrow> (string, qvalue) hashmap option \<Rightarrow>
     u64 option \<Rightarrow> 8 word \<Rightarrow> (query, query_execution_error list) result" where
  "query_prepare d fs api document variables max_complexity max_depth =
     and_then (try_fold split_definition document (None, [])) (\<lambda>(op_opt, fragments).
     and_then (ok_or op_opt [OperationNameRequired]) (\<lambda>operation.
     and_then (coerce_variables d fs api operation variables) (\<lambda>vars.
     and_then (operation_parts operation) (\<lambda>(kind, sels).
     let q = \<lparr>qr_schema = api, qr_variables = vars, qr_selection_set = sels, qr_fragments = fragments,
              qr_kind = kind, qr_complexity = 0\<rparr>
     in and_then (validate_fields d q) (\<lambda>_. check_complexity max_complexity max_depth q)))))"

section \<open>Valid selections\<close>

inductive valid_set :: "query \<Rightarrow> object_or_interface \<Rightarrow> selection list \<Rightarrow> bool"
  and valid_sel :: "query \<Rightarrow> object_or_interface \<Rightarrow> selection \<Rightarrow> bool" for q where
  valid_setI: "sels \<noteq> [] \<or> as_id (qr_schema q) = ''subgraphs'' \<Longrightarrow>
    (\<And>sel. sel \<in> set sels \<Longrightarrow> valid_sel q ty sel) \<Longrightarrow> valid_set q ty sels"
| valid_field: "exec_get_field (qr_schema q) ty name = Some f \<Longrightarrow>
    exec_get_named_type (qr_schema q) (get_base_type (fd_field_type f)) \<noteq> None \<Longrightarrow>
    (\<And>ty'. exec_object_or_interface (qr_schema q) (get_base_type (fd_field_type f)) = Some ty' \<Longrightarrow> valid_set q ty' sels) \<Longrightarrow>
    valid_sel q ty (FieldSel p a name args ds sels)"
| valid_spread: "map_of (qr_fragments q) n = Some frag \<Longrightarrow>
    exec_object_or_interface (qr_schema q) (fr_type_condition frag) = Some ty' \<Longrightarrow>
    valid_set q ty' (fr_selection_set frag) \<Longrightarrow> valid_sel q ty (FragmentSpread n)"
| valid_inline_on: "exec_object_or_interface (qr_schema q) n = Some ty' \<Longrightarrow> valid_set q ty' sels \<Longrightarrow>
    valid_sel q ty (InlineFragment (Some n) sels)"
| valid_inline: "valid_set q ty sels \<Longrightarrow> valid_sel q ty (InlineFragment None sels)"

lemma validate_selection_sound:
  assumes "\<And>tyname ty sels. validate tyname ty sels = Ok [] \<Longrightarrow> valid_set q ty sels"
    and "validate_selection validate q tyname ty sel = Ok []"
  shows "valid_sel q ty sel"
proof (cases sel)
  case (FieldSel p a name args ds sels)
  then show ?thesis using assms
    by (auto simp: validate_selection_def Let_def intro!: valid_field split: option.splits if_splits)
next
  case (FragmentSpread n)
  then show ?thesis using assms
    by (auto simp: validate_selection_def intro!: valid_spread split: option.splits)
next
  case (InlineFragment c sels)
  then show ?thesis using assms
    by (cases c) (auto simp: validate_selection_def intro!: valid_inline valid_inline_on split: option.splits)
qed

lemma validate_inner_sound: "validate_fields_inner d q tyname ty sels = Ok [] \<Longrightarrow> valid_set q ty sels"
proof (induction d arbitrary: tyname ty sels)
  case (Suc d)
  then obtain ess where ess: "sels \<noteq> [] \<or> as_id (qr_schema q) = ''subgraphs''"
      "try_map (validate_selection (validate_fields_inner d q) q tyname ty) sels = Ok ess" "concat ess = []"
    by (auto simp: and_then_Ok_iff split: if_splits)
  have "valid_sel q ty sel" if sel: "sel \<in> set sels" for sel
  proof -
    obtain es where "es \<in> set ess" "validate_selection (validate_fields_inner d q) q tyname ty sel = Ok es"
      using try_map_mem [OF ess(2) sel] by blast
    then have v: "validate_selection (validate_fields_inner d q) q tyname ty sel = Ok []" using ess(3) by simp
    show ?thesis
    proof (rule validate_selection_sound [where validate = "validate_fields_inner d q"])
      show "valid_set q ty' sels'" if "validate_fields_inner d q tyname' ty' sels' = Ok []" for tyname' ty' sels'
        using that by (rule Suc.IH)
    qed (rule v)
  qed
  with ess(1) show ?case by (rule valid_setI)
qed simp

lemma validate_inner_complete:
  "valid_set q ty sels \<Longrightarrow> eventually_deep (\<lambda>d. \<forall>tyname. validate_fields_inner d q tyname ty sels = Ok [])"
  "valid_sel q ty sel \<Longrightarrow>
     eventually_deep (\<lambda>d. \<forall>tyname. validate_selection (validate_fields_inner d q) q tyname ty sel = Ok [])"
proof (induction rule: valid_set_valid_sel.inducts)
  case (valid_setI sels ty)
  have "eventually_deep (\<lambda>d. \<forall>sel \<in> set sels. \<forall>tyname.
      validate_selection (validate_fields_inner d q) q tyname ty sel = Ok [])"
    using valid_setI by (intro eventually_deep_all) auto
  then show ?case
    by (rule eventually_deep_Suc [OF eventually_deep_mono])
      (use valid_setI(1) in \<open>auto simp: try_map_Ok_total [where g = "\<lambda>_. []"]\<close>)
next
  case (valid_field ty name f sels p a args ds)
  show ?case
  proof (cases "exec_object_or_interface (qr_schema q) (get_base_type (fd_field_type f))")
    case None
    then show ?thesis using valid_field
      by (intro eventually_deep_step) (simp add: validate_selection_def Let_def)
  next
    case (Some ty')
    show ?thesis
      by (rule eventually_deep_mono [OF valid_field(4) [OF Some]])
        (use valid_field(1,2) Some in \<open>simp add: validate_selection_def Let_def\<close>)
  qed
qed (auto simp: validate_selection_def elim!: eventually_deep_mono)

section \<open>Complexity without a bound\<close>

text \<open>The same count over unbounded numbers.\<close>

definition ideal_selection ::
  "query \<Rightarrow> (type_definition \<Rightarrow> selection list \<Rightarrow> (nat, complexity_error) result) \<Rightarrow> type_definition \<Rightarrow>
     selection \<Rightarrow> nat \<Rightarrow> (nat, complexity_error) result" where
  "ideal_selection q inner ty sel sofar =
     (case sel of
        FieldSel _ _ name args _ sels \<Rightarrow>
          if sels = [] then Ok sofar
          else
            and_then (ok_or (type_field (qr_schema q) ty name) CInvalid) (\<lambda>s_field.
            and_then (ok_or (exec_get_named_type (qr_schema q) (get_base_type (fd_field_type s_field))) CInvalid) (\<lambda>ty'.
            and_then (inner ty' sels) (\<lambda>c.
              Ok (sofar + (if is_list_or_non_null_list_field s_field
                           then unat (max_entities args) + unat (max_entities args) * c else c)))))
      | FragmentSpread fragment_name \<Rightarrow>
          and_then (expect (map_of (qr_fragments q) fragment_name)) (\<lambda>def.
          and_then (ok_or (exec_get_named_type (qr_schema q) (fr_type_condition def)) CInvalid) (\<lambda>ty'.
          and_then (inner ty' (fr_selection_set def)) (\<lambda>c. Ok (sofar + c))))
      | InlineFragment cond sels \<Rightarrow>
          and_then (case cond of
                      Some tyname \<Rightarrow> ok_or (exec_get_named_type (qr_schema q) tyname) CInvalid
                    | None \<Rightarrow> Ok ty) (\<lambda>ty'.
          and_then (inner ty' sels) (\<lambda>c. Ok (sofar + c))))"

primrec ideal_complexity :: "nat \<Rightarrow> query \<Rightarrow> type_definition \<Rightarrow> selection list \<Rightarrow> (nat, complexity_error) result" where
  "ideal_complexity 0 q = (\<lambda>ty sels. Err CTooDeep)"
| "ideal_complexity (Suc d) q = (\<lambda>ty sels. try_fold (ideal_selection q (ideal_complexity d q) ty) sels 0)"

lemma checked_simps [result_simps]:
  "checked_add a b = Ok c \<longleftrightarrow> c = a + b \<and> unat a + unat b < 2 ^ 64"
  "checked_mul a b = Ok c \<longleftrightarrow> c = a * b \<and> unat a * unat b < 2 ^ 64"
  by (auto simp: checked_add_def checked_mul_def)

lemma ok_or_Ok [result_simps]: "ok_or x e = Ok a \<longleftrightarrow> x = Some a"
  by (cases x) auto

lemma expect_Ok [result_simps]: "expect x = Ok a \<longleftrightarrow> x = Some a"
  by (cases x) auto

lemma complexity_selection_ideal:
  assumes "\<And>ty sels c. inner ty sels = Ok c \<Longrightarrow> \<exists>i. ideal ty sels = Ok i \<and> c = of_nat i"
    and "complexity_selection q inner ty sel (of_nat t) = Ok c"
  shows "\<exists>i. ideal_selection q ideal ty sel t = Ok i \<and> c = of_nat i"
proof (cases sel)
  case (FieldSel p a name args ds sels)
  show ?thesis
  proof (cases "sels = []")
    case False
    then obtain f ty' fc where e: "type_field (qr_schema q) ty name = Some f"
        "exec_get_named_type (qr_schema q) (get_base_type (fd_field_type f)) = Some ty'" "inner ty' sels = Ok fc"
        "c = of_nat t + (if is_list_or_non_null_list_field f then max_entities args + max_entities args * fc else fc)"
      using assms(2) FieldSel by (auto simp: complexity_selection_def result_simps split: if_splits)
    obtain i where i: "ideal ty' sels = Ok i" "fc = of_nat i" using assms(1) [OF e(3)] by blast
    let ?n = "t + (if is_list_or_non_null_list_field f then unat (max_entities args) + unat (max_entities args) * i else i)"
    have "c = of_nat ?n" using e(4) i(2) by simp
    then show ?thesis using FieldSel False e i by (simp add: ideal_selection_def)
  qed (use assms(2) FieldSel in \<open>simp add: complexity_selection_def ideal_selection_def\<close>)
next
  case (FragmentSpread n)
  then obtain fr ty' fc where e: "map_of (qr_fragments q) n = Some fr"
      "exec_get_named_type (qr_schema q) (fr_type_condition fr) = Some ty'" "inner ty' (fr_selection_set fr) = Ok fc"
      "c = of_nat t + fc"
    using assms(2) by (auto simp: complexity_selection_def result_simps)
  obtain i where "ideal ty' (fr_selection_set fr) = Ok i" "fc = of_nat i" using assms(1) [OF e(3)] by blast
  with e FragmentSpread show ?thesis by (intro exI [of _ "t + i"]) (simp add: ideal_selection_def)
next
  case (InlineFragment cond sels)
  then obtain ty' fc where e: "(case cond of Some tyname \<Rightarrow> ok_or (exec_get_named_type (qr_schema q) tyname) CInvalid
        | None \<Rightarrow> Ok ty) = Ok ty'" "inner ty' sels = Ok fc" "c = of_nat t + fc"
    using assms(2) by (auto simp: complexity_selection_def result_simps)
  obtain i where "ideal ty' sels = Ok i" "fc = of_nat i" using assms(1) [OF e(2)] by blast
  with e InlineFragment show ?thesis by (intro exI [of _ "t + i"]) (simp add: ideal_selection_def)
qed

lemma try_fold_ideal:
  assumes "\<And>sel t c. f sel (of_nat t) = Ok c \<Longrightarrow> \<exists>i. g sel t = Ok i \<and> c = of_nat i"
    and "try_fold f sels (of_nat t) = Ok (c :: u64)"
  shows "\<exists>i. try_fold g sels t = Ok i \<and> c = of_nat i"
  using assms(2)
proof (induction sels arbitrary: t)
  case (Cons sel sels)
  then obtain u where "f sel (of_nat t) = Ok u" "try_fold f sels u = Ok c" by (auto simp: and_then_Ok_iff)
  moreover from this(1) assms(1) obtain i where "g sel t = Ok i" "u = of_nat i" by blast
  ultimately show ?case using Cons.IH by simp
qed simp

lemma complexity_ideal:
  "complexity_inner q max_depth depth ty sels = Ok c \<Longrightarrow>
     \<exists>i. ideal_complexity (unat max_depth - unat depth) q ty sels = Ok i \<and> c = of_nat i"
proof (induction q max_depth depth ty sels arbitrary: c rule: complexity_inner.induct)
  case (1 q max_depth depth ty sels)
  then have nd: "\<not> max_depth \<le> depth" by (subst (asm) (2) complexity_inner.simps) (auto split: if_splits)
  then have "unat depth < unat max_depth" by (simp add: word_le_nat_alt)
  moreover from this have "unat (depth + 1) = unat depth + 1"
    using unsigned_less [of max_depth, where 'a = nat] by (simp add: unat_word_ariths del: unsigned_less)
  ultimately have k: "unat max_depth - unat depth = Suc (unat max_depth - unat (depth + 1))" by simp
  have "try_fold (complexity_selection q (\<lambda>ty' sels'. complexity_inner q max_depth (depth + 1) ty' sels') ty) sels (of_nat 0) = Ok c"
    using "1.prems" nd by (subst (asm) complexity_inner.simps) simp
  from try_fold_ideal [OF complexity_selection_ideal [OF "1.IH" [OF nd]] this]
  show ?case unfolding k by simp
qed

lemma try_map_Panic:
  assumes "x \<in> set xs" and "f x = Panic" and "\<And>y e. y \<in> set xs \<Longrightarrow> f y \<noteq> Err e"
  shows "try_map f xs = Panic"
  using assms
proof (induction xs)
  case (Cons y ys)
  show ?case
  proof (cases "f y")
    case (Ok b)
    then have "x \<in> set ys" using Cons.prems(1,2) by auto
    then show ?thesis using Cons Ok by simp
  qed (use Cons.prems(3) [of y] in simp_all)
qed simp

lemma validate_not_Err: "validate_fields_inner d q tyname ty sels \<noteq> Err e"
proof (induction d arbitrary: tyname ty sels)
  case (Suc d)
  have sel: "validate_selection (validate_fields_inner d q) q tyname ty sel \<noteq> Err e" for sel
    using Suc by (auto simp: validate_selection_def Let_def split: selection.split option.split)
  have "try_map (validate_selection (validate_fields_inner d q) q tyname ty) sels \<noteq> Err e"
  proof (induction sels)
    case (Cons s sels)
    then show ?case using sel [of s]
      by (cases "validate_selection (validate_fields_inner d q) q tyname ty s";
          cases "try_map (validate_selection (validate_fields_inner d q) q tyname ty) sels") auto
  qed simp
  then show ?case
    by (cases "try_map (validate_selection (validate_fields_inner d q) q tyname ty) sels") auto
qed simp

section \<open>Properties\<close>

text \<open>C38. Field validation accepts a query, given enough stack, exactly when its selections are valid: every
  selected field exists on its type and has a known type, fragments are defined on known types,
  and no selection set of an object is empty.\<close>

theorem validate_fields_iff:
  "(\<exists>d. validate_fields d q = Ok ()) \<longleftrightarrow>
    (\<exists>root. get_root_query_type (as_document (qr_schema q)) = Some root
       \<and> valid_set q (IsObject root) (qr_selection_set q))"
proof
  assume "\<exists>d. validate_fields d q = Ok ()"
  then obtain d root where "get_root_query_type (as_document (qr_schema q)) = Some root"
      "validate_fields_inner d q ''Query'' (IsObject root) (qr_selection_set q) = Ok []"
    by (auto simp: validate_fields_def result_simps split: if_splits)
  then show "\<exists>root. get_root_query_type (as_document (qr_schema q)) = Some root
       \<and> valid_set q (IsObject root) (qr_selection_set q)"
    using validate_inner_sound by blast
next
  assume "\<exists>root. get_root_query_type (as_document (qr_schema q)) = Some root
       \<and> valid_set q (IsObject root) (qr_selection_set q)"
  then obtain root d where "get_root_query_type (as_document (qr_schema q)) = Some root"
      "validate_fields_inner d q ''Query'' (IsObject root) (qr_selection_set q) = Ok []"
    using validate_inner_complete(1) unfolding eventually_deep_def by blast
  then show "\<exists>d. validate_fields d q = Ok ()" by (intro exI [of _ d]) (simp add: validate_fields_def)
qed

text \<open>C39. A fragment that spreads itself, spread at the root of a query, makes validation recurse without end:
  however deep the stack, it overflows, before the check that limits the depth of a query is reached.\<close>

theorem fragment_cycle_overflows:
  assumes "map_of (qr_fragments q) n = Some frag" and "FragmentSpread n \<in> set (fr_selection_set frag)"
    and "exec_object_or_interface (qr_schema q) (fr_type_condition frag) \<noteq> None"
    and "FragmentSpread n \<in> set (qr_selection_set q)"
    and "get_root_query_type (as_document (qr_schema q)) \<noteq> None"
  shows "validate_fields d q = Panic"
proof -
  obtain fty where fty: "exec_object_or_interface (qr_schema q) (fr_type_condition frag) = Some fty" using assms(3) by blast
  have inner: "validate_fields_inner d q tyname ty sels = Panic" if "FragmentSpread n \<in> set sels" for tyname ty sels
    using that
  proof (induction d arbitrary: tyname ty sels)
    case (Suc d)
    have "validate_selection (validate_fields_inner d q) q tyname ty (FragmentSpread n) = Panic"
      using assms(1) fty Suc.IH [OF assms(2)] by (simp add: validate_selection_def)
    moreover have "validate_selection (validate_fields_inner d q) q tyname ty sel \<noteq> Err e" for sel e
      using validate_not_Err by (auto simp: validate_selection_def Let_def split: selection.split option.split)
    ultimately have "try_map (validate_selection (validate_fields_inner d q) q tyname ty) sels = Panic"
      using try_map_Panic [OF Suc.prems] by blast
    with Suc.prems show ?case by auto
  qed simp
  show ?thesis using inner [OF assms(4)] assms(5) by (auto simp: validate_fields_def)
qed

definition demo_query_type :: object_type where
  "demo_query_type = \<lparr>ot_name = ''Query'', ot_implements_interfaces = [], ot_directives = [],
     ot_fields = [\<lparr>fd_name = ''me'', fd_arguments = [], fd_field_type = NamedType ''Query'', fd_directives = []\<rparr>,
       \<lparr>fd_name = ''all'', fd_arguments = [], fd_field_type = ListType (NamedType ''Query''), fd_directives = []\<rparr>,
       \<lparr>fd_name = ''id'', fd_arguments = [], fd_field_type = NamedType ''ID'', fd_directives = []\<rparr>]\<rparr>"

definition demo_api :: api_schema where
  "demo_api = \<lparr>as_document = [TypeDefinition (ObjectDef demo_query_type), TypeDefinition (ScalarDef \<lparr>st_name = ''ID'', st_directives = []\<rparr>)],
     as_id = ''Qm'', as_introspection = [], as_introspection_query_type = demo_query_type\<rparr>"

definition demo_query :: "(string, fragment_definition) hashmap \<Rightarrow> selection list \<Rightarrow> query" where
  "demo_query frags sels = \<lparr>qr_schema = demo_api, qr_variables = [], qr_selection_set = sels, qr_fragments = frags,
     qr_kind = QueryKind, qr_complexity = 0\<rparr>"

lemmas demo_lookups = demo_query_def demo_api_def demo_query_type_def exec_object_or_interface_def exec_get_named_type_def
  exec_get_field_def object_or_interface_of_def get_named_type_def get_type_definitions_def map_filter_simps
  starts_with_underscores_def get_root_query_type_def get_root_query_type_def_def get_object_type_definitions_def
  get_field_def TYPENAME_FIELD_def type_field_def is_list_or_non_null_list_field_def

theorem fragment_cycle_overflows_witness:
  "\<forall>d. validate_fields d (demo_query [(''F'', \<lparr>fr_name = ''F'', fr_type_condition = ''Query'', fr_selection_set = [FragmentSpread ''F'']\<rparr>)]
     [FragmentSpread ''F'']) = Panic"
  by (intro allI fragment_cycle_overflows [where n = "''F''"
        and frag = "\<lparr>fr_name = ''F'', fr_type_condition = ''Query'', fr_selection_set = [FragmentSpread ''F'']\<rparr>"])
    (simp_all add: demo_lookups)

text \<open>When a complexity is returned, it is the complexity of the query modulo \<open>2 ^ 64\<close>. It is the
  exact one as long as that fits into 64 bits; beyond that the fields that are no collections are
  added up without a check, and the sum wraps around.\<close>

lemma complexity_modulo:
  assumes "complexity_inner q max_depth 0 ty sels = Ok c"
  shows "\<exists>i. ideal_complexity (unat max_depth) q ty sels = Ok i \<and> unat c = i mod 2 ^ 64"
  using complexity_ideal [OF assms] by (auto simp: unat_of_nat take_bit_eq_mod)

text \<open>Validation does not look into the selection set of a scalar field, but the complexity check does
  and takes every fragment there for defined: a query that selects an undefined fragment from a
  scalar field passes validation and then panics.\<close>

lemma undefined_fragment_panics:
  assumes "get_root_query_type (as_document (qr_schema q)) = Some root"
    and "exec_get_field (qr_schema q) (IsObject root) name = Some f"
    and "exec_get_named_type (qr_schema q) (get_base_type (fd_field_type f)) = Some (ScalarDef s)"
    and "exec_object_or_interface (qr_schema q) (get_base_type (fd_field_type f)) = None"
    and "qr_selection_set q = [FieldSel p a name args ds [FragmentSpread n]]" and "map_of (qr_fragments q) n = None"
    and "2 \<le> max_depth"
  shows "validate_fields (Suc d) q = Ok () \<and> check_complexity (Some limit) max_depth q = Panic"
proof -
  have "validate_fields (Suc d) q = Ok ()"
    using assms(1-5) by (simp add: validate_fields_def validate_selection_def)
  moreover have depth: "\<not> max_depth \<le> 0" "\<not> max_depth \<le> 1" using assms(7) by (auto simp: word_le_nat_alt)
  have inner: "complexity_inner q max_depth 1 ty [FragmentSpread n] = Panic" for ty
    using depth(2) assms(6) by (simp add: complexity_inner.simps complexity_selection_def)
  have "complexity_inner q max_depth 0 (ObjectDef root) (qr_selection_set q) = Panic"
    using depth(1) assms(2,3,5) inner
    by (subst complexity_inner.simps) (simp add: complexity_selection_def type_field_def)
  then have "check_complexity (Some limit) max_depth q = Panic"
    using assms(1) by (simp add: check_complexity_def complexity_def get_root_query_type_def_def)
  ultimately show ?thesis by blast
qed

end
