(* ===== verification/QueryBuilder.thy ===== *)
theory QueryBuilder
  imports SchemaChecks QueryChecks Assignments
begin

text \<open>
  From the arguments of a GraphQL field to a store query (\<open>graphql/src/store/query.rs\<close>), and the block
  a query asks for (\<open>graphql/src/query/ext.rs\<close>). A \<open>BTreeMap\<close> is its list of entries in order.
\<close>

section \<open>Display of store values\<close>

definition i32_to_string :: "i32 \<Rightarrow> string" where
  "i32_to_string i = i64_to_string (scast i)"

fun value_to_string :: "scalar_lib \<Rightarrow> val \<Rightarrow> string" where
  "value_to_string lib (VString s) = s"
| "value_to_string lib (VInt i) = i32_to_string i"
| "value_to_string lib (VBigDecimal d) = lib_bigdecimal_to_string lib d"
| "value_to_string lib (VBool b) = (if b then ''true'' else ''false'')"
| "value_to_string lib VNull = ''null''"
| "value_to_string lib (VList vs) = ''['' @ join_with '', '' (map (value_to_string lib) vs) @ '']''"
| "value_to_string lib (VBytes bs) = bytes_to_string lib bs"
| "value_to_string lib (VBigInt n) = lib_bigint_to_string lib n"

section \<open>Ranges\<close>

text \<open>\<open>first\<close> and \<open>skip\<close>: the bounds of the argument, and its value when it is missing or null.\<close>

definition range_argument ::
  "(string, qvalue) hashmap \<Rightarrow> string \<Rightarrow> int \<Rightarrow> 32 word \<Rightarrow> 32 word \<Rightarrow> (32 word, string) result" where
  "range_argument arguments name lower upper dflt =
     (case map_of arguments name of
        Some (QInt n) \<Rightarrow> if lower \<le> sint n \<and> sint n \<le> uint upper then Ok (ucast n) else Err name
      | Some QNull \<Rightarrow> Ok dflt
      | None \<Rightarrow> Ok dflt
      | Some _ \<Rightarrow> Panic)"

definition build_range ::
  "(string, qvalue) hashmap \<Rightarrow> 32 word \<Rightarrow> 32 word \<Rightarrow> (entity_range, query_execution_error) result" where
  "build_range arguments max_first max_skip =
     (case (range_argument arguments ''first'' 1 max_first 100, range_argument arguments ''skip'' 0 max_skip 0) of
        (Panic, _) \<Rightarrow> Panic
      | (_, Panic) \<Rightarrow> Panic
      | (Ok n, Ok skip) \<Rightarrow> Ok \<lparr>rg_first = Some n, rg_skip = skip\<rparr>
      | (Err e, Ok _) \<Rightarrow> Err (RangeArgumentsError [e] max_first)
      | (Ok _, Err e) \<Rightarrow> Err (RangeArgumentsError [e] max_first)
      | (Err e, Err e') \<Rightarrow> Err (RangeArgumentsError [e, e'] max_first))"

section \<open>Filters\<close>

text \<open>\<open>mem::discriminant\<close> of a store value.\<close>

fun discriminant :: "val \<Rightarrow> nat" where
  "discriminant (VString _) = 0"
| "discriminant (VInt _) = 1"
| "discriminant (VBigDecimal _) = 2"
| "discriminant (VBool _) = 3"
| "discriminant (VList _) = 4"
| "discriminant VNull = 5"
| "discriminant (VBytes _) = 6"
| "discriminant (VBigInt _) = 7"

definition list_values :: "scalar_lib \<Rightarrow> val \<Rightarrow> string \<Rightarrow> (val list, query_execution_error) result" where
  "list_values lib value filter_type =
     (case value of
        VList [] \<Rightarrow> Ok []
      | VList (v # vs) \<Rightarrow>
          try_map (\<lambda>w. if discriminant v = discriminant w then Ok w
                       else Err (ListTypesError filter_type [value_to_string lib v, value_to_string lib w])) (v # vs)
      | _ \<Rightarrow> Err (ListFilterError filter_type))"

fun filter_of_op ::
  "scalar_lib \<Rightarrow> filter_op \<Rightarrow> string \<Rightarrow> val \<Rightarrow> (entity_filter, query_execution_error) result" where
  "filter_of_op lib OpNot name v = Ok (FNot name v)"
| "filter_of_op lib OpGreaterThan name v = Ok (FGreaterThan name v)"
| "filter_of_op lib OpLessThan name v = Ok (FLessThan name v)"
| "filter_of_op lib OpGreaterOrEqual name v = Ok (FGreaterOrEqual name v)"
| "filter_of_op lib OpLessOrEqual name v = Ok (FLessOrEqual name v)"
| "filter_of_op lib OpIn name v = and_then (list_values lib v ''_in'') (\<lambda>vs. Ok (FIn name vs))"
| "filter_of_op lib OpNotIn name v = and_then (list_values lib v ''_not_in'') (\<lambda>vs. Ok (FNotIn name vs))"
| "filter_of_op lib OpContains name v = Ok (FContains name v)"
| "filter_of_op lib OpNotContains name v = Ok (FNotContains name v)"
| "filter_of_op lib OpStartsWith name v = Ok (FStartsWith name v)"
| "filter_of_op lib OpNotStartsWith name v = Ok (FNotStartsWith name v)"
| "filter_of_op lib OpEndsWith name v = Ok (FEndsWith name v)"
| "filter_of_op lib OpNotEndsWith name v = Ok (FNotEndsWith name v)"
| "filter_of_op lib OpEqual name v = Ok (FEqual name v)"

definition build_entry_filter ::
  "scalar_lib \<Rightarrow> object_or_interface \<Rightarrow> string \<times> qvalue \<Rightarrow> (entity_filter, query_execution_error) result" where
  "build_entry_filter lib oi = (\<lambda>(key, value).
     let (field_name, op) = parse_field_as_filter key
     in and_then (ok_or (get_field oi field_name) (EntityFieldError (oi_name oi) field_name)) (\<lambda>f.
        and_then (from_query_value lib value (fd_field_type f)) (\<lambda>store_value.
        filter_of_op lib op field_name store_value)))"

definition build_filter_from_object ::
  "scalar_lib \<Rightarrow> object_or_interface \<Rightarrow> (string, qvalue) btreemap \<Rightarrow>
     (entity_filter option, query_execution_error) result" where
  "build_filter_from_object lib oi obj =
     and_then (try_map (build_entry_filter lib oi) obj) (\<lambda>fs. Ok (Some (FAnd fs)))"

fun build_fulltext_filter_from_object ::
  "(string, qvalue) btreemap \<Rightarrow> (entity_filter option, query_execution_error) result" where
  "build_fulltext_filter_from_object [] = Err FulltextQueryRequiresFilter"
| "build_fulltext_filter_from_object ((key, value) # _) =
     (case value of
        QString s \<Rightarrow> Ok (Some (FEqual key (VString s)))
      | _ \<Rightarrow> Err FulltextQueryRequiresFilter)"

definition build_filter ::
  "scalar_lib \<Rightarrow> object_or_interface \<Rightarrow> (string, qvalue) hashmap \<Rightarrow>
     (entity_filter option, query_execution_error) result" where
  "build_filter lib oi arguments =
     (case map_of arguments ''where'' of
        Some (QObject obj) \<Rightarrow> build_filter_from_object lib oi obj
      | Some QNull \<Rightarrow> Ok None
      | None \<Rightarrow>
          (case map_of arguments ''text'' of
             Some (QObject flt) \<Rightarrow> build_fulltext_filter_from_object flt
           | None \<Rightarrow> Ok None
           | _ \<Rightarrow> Err InvalidFilterError)
      | _ \<Rightarrow> Err InvalidFilterError)"

section \<open>Order\<close>

fun build_fulltext_order_by_from_object ::
  "(string, qvalue) btreemap \<Rightarrow> ((string \<times> value_type) option, query_execution_error) result" where
  "build_fulltext_order_by_from_object [] = Err FulltextQueryRequiresFilter"
| "build_fulltext_order_by_from_object ((key, value) # _) =
     (case value of
        QString _ \<Rightarrow> Ok (Some (key, StringT))
      | _ \<Rightarrow> Err FulltextQueryRequiresFilter)"

definition build_order_by ::
  "object_or_interface \<Rightarrow> (string, qvalue) hashmap \<Rightarrow> ((string \<times> value_type) option, query_execution_error) result" where
  "build_order_by oi arguments =
     (case map_of arguments ''orderBy'' of
        Some (QEnum name) \<Rightarrow>
          and_then (ok_or (get_field oi name) (EntityFieldError (oi_name oi) name)) (\<lambda>f.
            case get_field_value_type (fd_field_type f) of
              Ok t \<Rightarrow> Ok (Some (name, t))
            | _ \<Rightarrow> Err (OrderByNotSupportedError (oi_name oi) name))
      | _ \<Rightarrow>
          (case map_of arguments ''text'' of
             Some (QObject flt) \<Rightarrow> build_fulltext_order_by_from_object flt
           | None \<Rightarrow> Ok None
           | _ \<Rightarrow> Err InvalidFilterError))"

datatype order_direction = OrderAscending | OrderDescending

definition build_order_direction :: "(string, qvalue) hashmap \<Rightarrow> order_direction" where
  "build_order_direction arguments =
     (case map_of arguments ''orderDirection'' of
        Some (QEnum name) \<Rightarrow> if name = ''desc'' then OrderDescending else OrderAscending
      | _ \<Rightarrow> OrderAscending)"

section \<open>Queries\<close>

definition parse_subgraph_id :: "object_or_interface \<Rightarrow> (string, query_execution_error) result" where
  "parse_subgraph_id oi =
     (case Option.bind (find (\<lambda>d. dir_name d = ''subgraphId'') (oi_directives oi)) (\<lambda>d.
             find (\<lambda>(name, _). name = ''id'') (dir_arguments d)) of
        Some (_, QString i) \<Rightarrow>
          (case deployment_id_new i of Ok sg \<Rightarrow> Ok sg | _ \<Rightarrow> Err (SubgraphDeploymentIdError (oi_name oi)))
      | _ \<Rightarrow> Err (SubgraphDeploymentIdError (oi_name oi)))"

definition entity_types_of ::
  "object_or_interface \<Rightarrow> (string, object_type list) btreemap \<Rightarrow> (string list, 'e) result" where
  "entity_types_of oi types_for_interface =
     (case oi of
        IsObject t \<Rightarrow> Ok [ot_name t]
      | IsInterface i \<Rightarrow> and_then (expect (map_of types_for_interface (it_name i))) (\<lambda>ts. Ok (map ot_name ts)))"

definition build_query ::
  "scalar_lib \<Rightarrow> object_or_interface \<Rightarrow> i32 \<Rightarrow> (string, qvalue) hashmap \<Rightarrow> (string, object_type list) btreemap \<Rightarrow>
     32 word \<Rightarrow> 32 word \<Rightarrow> (entity_query, query_execution_error) result" where
  "build_query lib oi blk arguments types_for_interface max_first max_skip =
     and_then (entity_types_of oi types_for_interface) (\<lambda>types.
     and_then (parse_subgraph_id oi) (\<lambda>sg.
     and_then (build_range arguments max_first max_skip) (\<lambda>rng.
     let q0 = query_range (query_new sg blk (AllOf types)) rng
     in and_then (build_filter lib oi arguments) (\<lambda>flt.
        let q1 = (case flt of Some f \<Rightarrow> query_filter q0 f | None \<Rightarrow> q0)
        in and_then (build_order_by oi arguments) (\<lambda>order_by.
           Ok (query_order q1
                (case (order_by, build_order_direction arguments) of
                   (Some (attr, t), OrderAscending) \<Rightarrow> Ascending attr t
                 | (Some (attr, t), OrderDescending) \<Rightarrow> Descending attr t
                 | (None, _) \<Rightarrow> DefaultOrder)))))))"

section \<open>Block constraints\<close>

definition value_lookup :: "qvalue \<Rightarrow> (string, qvalue) hashmap \<Rightarrow> pos \<Rightarrow> (qvalue, query_execution_error) result" where
  "value_lookup v vars p =
     (case v of
        QVariable name \<Rightarrow> ok_or (map_of vars name) (MissingVariableError p name)
      | _ \<Rightarrow> Ok v)"

datatype query_constraint = ConstraintHash bytes | ConstraintNumber i32 | Latest

text \<open>\<open>u64::from_str\<close>: an optional plus sign and decimal digits that fit into 64 bits.\<close>

definition u64_from_str :: "string \<Rightarrow> u64 option" where
  "u64_from_str s =
     (let ds = (case s of c # cs \<Rightarrow> if c = CHR ''+'' then cs else s | [] \<Rightarrow> []);
          n = foldl (\<lambda>n c. 10 * n + (of_char c - 48)) (0 :: nat) ds
      in if ds \<noteq> [] \<and> list_all (\<lambda>c. CHR ''0'' \<le> c \<and> c \<le> CHR ''9'') ds \<and> n < 2 ^ 64 then Some (of_nat n) else None)"

fun u64_try_from_value :: "qvalue \<Rightarrow> u64 option" where
  "u64_try_from_value (QInt n) = Some n"
| "u64_try_from_value (QString s) = u64_from_str s"
| "u64_try_from_value _ = None"

fun h256_try_from_value :: "(string \<Rightarrow> bytes option) \<Rightarrow> qvalue \<Rightarrow> bytes option" where
  "h256_try_from_value h256_from_str (QString s) = h256_from_str (trim_start_0x s)"
| "h256_try_from_value h256_from_str _ = None"

definition block_number_try_from :: "u64 \<Rightarrow> i32 option" where
  "block_number_try_from n = (if unat n < 2 ^ 31 then Some (ucast n) else None)"

definition block_constraint ::
  "(string \<Rightarrow> bytes option) \<Rightarrow> pos \<Rightarrow> (string \<times> qvalue) list \<Rightarrow> (string, qvalue) hashmap \<Rightarrow>
     (query_constraint, query_execution_error) result" where
  "block_constraint h256_from_str p arguments vars =
     (case get_argument_value arguments ''block'' of
        None \<Rightarrow> Ok Latest
      | Some v0 \<Rightarrow>
          and_then (value_lookup v0 vars p) (\<lambda>value.
            case value of
              QObject m \<Rightarrow>
                if length m \<noteq> 1 then Err (InvalidArgumentError p ''block'' value)
                else (case map_of m ''hash'' of
                        Some h0 \<Rightarrow>
                          and_then (value_lookup h0 vars p) (\<lambda>h.
                            case h256_try_from_value h256_from_str h of
                              Some bs \<Rightarrow> Ok (ConstraintHash bs)
                            | None \<Rightarrow> Err (InvalidArgumentError p ''block.hash'' value))
                      | None \<Rightarrow>
                          (case map_of m ''number'' of
                             Some n0 \<Rightarrow>
                               and_then (value_lookup n0 vars p) (\<lambda>n.
                                 case Option.bind (u64_try_from_value n) block_number_try_from of
                                   Some k \<Rightarrow> Ok (ConstraintNumber k)
                                 | None \<Rightarrow> Err (InvalidArgumentError p ''block.number'' n))
                           | None \<Rightarrow> Err (InvalidArgumentError p ''block'' value)))
            | _ \<Rightarrow> Err (InvalidArgumentError p ''block'' value)))"

section \<open>Entities of a query\<close>

text \<open>The sub-fields of a field that is visited, and the entity it adds.\<close>

fun visit_field ::
  "document \<Rightarrow> object_type \<Rightarrow> selection \<Rightarrow> (string \<times> string) option \<times> (object_type \<times> selection) list" where
  "visit_field schema t (FieldSel _ _ name _ _ sels) =
     (case Option.bind (get_field (IsObject t) name) (get_type_definition_from_field schema) of
        Some (ObjectDef ot) \<Rightarrow>
          (if get_object_type_directive ot ''entity'' \<noteq> None
           then (case parse_subgraph_id (IsObject ot) of Ok sg \<Rightarrow> Some (sg, ot_name ot) | _ \<Rightarrow> None)
           else None,
           List.map_filter (\<lambda>s. case s of FieldSel _ _ _ _ _ _ \<Rightarrow> Some (ot, s) | _ \<Rightarrow> None) sels)
      | _ \<Rightarrow> (None, []))"
| "visit_field schema t _ = (None, [])"

lemma size_sub_fields:
  "(\<Sum>(t, s) \<leftarrow> List.map_filter (\<lambda>s. case s of FieldSel _ _ _ _ _ _ \<Rightarrow> Some (ot, s) | _ \<Rightarrow> None) ss. size s + 1)
     \<le> size_list size ss"
  by (induction ss) (auto simp: map_filter_simps split: selection.splits option.splits)

lemma size_visit:
  assumes "visit_field schema t sel = (e, fs)"
  shows "(\<Sum>(t, s) \<leftarrow> fs. size s + 1) < size sel + 1"
proof (cases sel)
  case (FieldSel p a n args ds sels)
  then show ?thesis using assms le_imp_less_Suc [OF le_SucI [OF size_sub_fields [of _ sels]]]
    by (auto split: option.splits type_definition.splits)
qed (use assms in auto)

function collect_entities ::
  "document \<Rightarrow> (object_type \<times> selection) list \<Rightarrow> (string \<times> string) list \<Rightarrow> (string \<times> string) list" where
  "collect_entities schema [] entities = remdups entities"
| "collect_entities schema ((t, sel) # todo) entities =
     (let (e, fs) = visit_field schema t sel
      in collect_entities schema (todo @ fs) (case e of Some x \<Rightarrow> entities @ [x] | None \<Rightarrow> entities))"
  by pat_completeness auto
termination
proof (relation "measure (\<lambda>(_, todo, _). \<Sum>(t, s) \<leftarrow> todo. size s + 1)", goal_cases)
  case (2 schema t sel todo entities x xa y)
  then show ?case using size_visit [of schema t sel xa y] by simp
qed simp

definition collect_entities_from_query_field :: "document \<Rightarrow> object_type \<Rightarrow> selection \<Rightarrow> (string \<times> string) list" where
  "collect_entities_from_query_field schema t sel = collect_entities schema [(t, sel)] []"

section \<open>Properties\<close>





end
