(* ===== verification/QueryCache.thy ===== *)
theory QueryCache
  imports QueryChecks StoreQuery LfuCache EthTypes
begin

text \<open>
  Caching of query results (\<open>graphql/src/execution/execution.rs\<close>, \<open>graphql/src/execution/cache.rs\<close>): the cache for
  recent blocks, the LFU cache for older ones, and the sharing of queries that are being executed. Requests
  run concurrently; a step of the model is what happens under one lock. The semaphore that limits the number
  of running queries is left out: it delays steps only. What executing
  a query gives may change from step to step; locale \<open>query_server\<close> asks of the hash that it has no collisions.
\<close>

section \<open>Results\<close>

text \<open>\<open>QueryResult\<close>; its errors are the execution errors that \<open>QueryError::from\<close> wraps.\<close>

record query_result =
  qrs_data :: "qvalue option"
  qrs_errors :: "query_execution_error list option"
  qrs_extensions :: "qvalue option"

definition query_result_empty :: query_result where
  "query_result_empty = \<lparr>qrs_data = Some (QObject []), qrs_errors = None, qrs_extensions = None\<rparr>"

definition query_result_new :: "qvalue option \<Rightarrow> query_result" where
  "query_result_new data = \<lparr>qrs_data = data, qrs_errors = None, qrs_extensions = None\<rparr>"

definition with_extensions :: "query_result \<Rightarrow> (string, qvalue) btreemap \<Rightarrow> query_result" where
  "with_extensions r extensions = r\<lparr>qrs_extensions := Some (QObject extensions)\<rparr>"

definition has_errors :: "query_result \<Rightarrow> bool" where
  "has_errors r \<longleftrightarrow> qrs_errors r \<noteq> None"

definition result_from_error :: "query_execution_error \<Rightarrow> query_result" where
  "result_from_error e = (query_result_new None)\<lparr>qrs_errors := Some [e]\<rparr>"

definition result_from_errors :: "query_execution_error list \<Rightarrow> query_result" where
  "result_from_errors es = \<lparr>qrs_data = None, qrs_errors = Some es, qrs_extensions = None\<rparr>"

definition result_from_map :: "(string, qvalue) btreemap \<Rightarrow> query_result" where
  "result_from_map m = query_result_new (Some (QObject m))"

text \<open>\<open>BTreeMap::append\<close>: the entries of the other map are inserted over ours.\<close>

definition bt_append :: "('k::linorder, 'v) btreemap \<Rightarrow> ('k, 'v) btreemap \<Rightarrow> ('k, 'v) btreemap" where
  "bt_append ours other = fold (\<lambda>(k, v). bt_insert k v) other ours"

definition result_append :: "query_result \<Rightarrow> query_result \<Rightarrow> (query_result, unit) result" where
  "result_append self other =
     (if qrs_extensions self \<noteq> None \<or> qrs_extensions other \<noteq> None then Panic
      else
        and_then
          (case (qrs_data self, qrs_data other) of
             (Some (QObject ours), Some (QObject theirs)) \<Rightarrow> Ok (Some (QObject (bt_append ours theirs)))
           | (Some _, Some _) \<Rightarrow> Panic
           | (None, d) \<Rightarrow> Ok d
           | (d, None) \<Rightarrow> Ok d) (\<lambda>data.
        Ok (self\<lparr>qrs_data := data,
          qrs_errors := (case (qrs_errors self, qrs_errors other) of
              (Some ours, Some theirs) \<Rightarrow> Some (ours @ theirs)
            | (None, e) \<Rightarrow> e
            | (e, None) \<Rightarrow> e)\<rparr>)))"

section \<open>The cache by block\<close>

record 'h cache_by_block =
  cb_block :: block_pointer
  cb_max_weight :: usize
  cb_weight :: usize
  cb_cache :: "('h, query_result) hashmap"

definition cache_by_block_new :: "block_pointer \<Rightarrow> usize \<Rightarrow> 'h cache_by_block" where
  "cache_by_block_new block max_weight = \<lparr>cb_block = block, cb_max_weight = max_weight, cb_weight = 0, cb_cache = []\<rparr>"

definition cache_by_block_insert ::
  "'h cache_by_block \<Rightarrow> 'h \<Rightarrow> query_result \<Rightarrow> usize \<Rightarrow> ('h cache_by_block \<times> bool, unit) result" where
  "cache_by_block_insert c key value weight =
     (if qrs_errors value \<noteq> None then Panic
      else if cb_weight c + weight \<le> cb_max_weight c
      then Ok (c\<lparr>cb_weight := cb_weight c + weight, cb_cache := hm_insert key value (cb_cache c)\<rparr>, True)
      else Ok (c, False))"

record weighted_result =
  wr_result :: query_result
  wr_weight :: usize

definition weighted_result_default :: weighted_result where
  "weighted_result_default = \<lparr>wr_result = query_result_new (Some QNull), wr_weight = 0\<rparr>"

text \<open>The settings, read from the environment.\<close>

record query_cache_config =
  CACHED_SUBGRAPH_IDS :: "string list"
  QUERY_CACHE_BLOCKS :: usize
  QUERY_CACHE_MAX_MEM :: usize
  QUERY_CACHE_STALE_PERIOD :: u64

definition CACHE_ALL :: "query_cache_config \<Rightarrow> bool" where
  "CACHE_ALL cfg \<longleftrightarrow> ''*'' \<in> set (CACHED_SUBGRAPH_IDS cfg)"

text \<open>The deque of a network has its most recent block in front.\<close>

type_synonym 'h query_block_cache = "(string \<times> 'h cache_by_block list) list"

fun update_found :: "('a \<Rightarrow> bool) \<Rightarrow> ('a \<Rightarrow> ('a \<times> 'b, 'e) result) \<Rightarrow> 'a list \<Rightarrow> ('a list \<times> 'b, 'e) result" where
  "update_found p f [] = Panic"
| "update_found p f (x # xs) =
     (if p x then and_then (f x) (\<lambda>(y, b). Ok (y # xs, b))
      else and_then (update_found p f xs) (\<lambda>(ys, b). Ok (x # ys, b)))"

definition blocks_insert ::
  "query_cache_config \<Rightarrow> block_pointer \<Rightarrow> 'h \<Rightarrow> query_result \<Rightarrow> usize \<Rightarrow> 'h cache_by_block list
   \<Rightarrow> ('h cache_by_block list \<times> bool, unit) result" where
  "blocks_insert cfg block_ptr key res weight cache =
     (if list_ex (\<lambda>c. cb_block c = block_ptr) cache
      then update_found (\<lambda>c. cb_block c = block_ptr) (\<lambda>c. cache_by_block_insert c key res weight) cache
      else if QUERY_CACHE_BLOCKS cfg > 0
      then
        (let should_insert = (case cache of [] \<Rightarrow> True | highest # _ \<Rightarrow> ptr_number (cb_block highest) \<le> ptr_number block_ptr)
         in if should_insert
            then
              (let cache = (if of_nat (length cache) = QUERY_CACHE_BLOCKS cfg then butlast cache else cache);
                   max_weight = QUERY_CACHE_MAX_MEM cfg div QUERY_CACHE_BLOCKS cfg
               in and_then (cache_by_block_insert (cache_by_block_new block_ptr max_weight) key res weight)
                    (\<lambda>(c, inserted). Ok (c # cache, inserted)))
            else Ok (cache, False))
      else Ok (cache, False))"

definition query_block_cache_insert ::
  "query_cache_config \<Rightarrow> string \<Rightarrow> block_pointer \<Rightarrow> 'h \<Rightarrow> query_result \<Rightarrow> usize \<Rightarrow> 'h query_block_cache
   \<Rightarrow> ('h query_block_cache \<times> bool, unit) result" where
  "query_block_cache_insert cfg network block_ptr key res weight caches =
     (let caches = (if list_ex (\<lambda>(n, _). n = network) caches then caches else caches @ [(network, [])])
      in update_found (\<lambda>(n, _). n = network)
           (\<lambda>(n, cache). and_then (blocks_insert cfg block_ptr key res weight cache) (\<lambda>(cache, b). Ok ((n, cache), b)))
           caches)"

definition query_block_cache_get :: "'h query_block_cache \<Rightarrow> string \<Rightarrow> block_pointer \<Rightarrow> 'h \<Rightarrow> query_result option" where
  "query_block_cache_get caches network block_ptr key =
     Option.bind (map_option snd (find (\<lambda>(n, _). n = network) caches)) (\<lambda>cache.
     Option.bind (find (\<lambda>c. cb_block c = block_ptr) cache) (\<lambda>c. map_of (cb_cache c) key))"

section \<open>Keys\<close>

text \<open>
  What identifies a query, as it is hashed: variables and fragments are hashed by their printed form, and
  the hash of a map does not depend on its order.
\<close>

record hashable_query =
  hq_schema_id :: string
  hq_variables :: "(string \<times> string) set"
  hq_fragments :: "(string \<times> string) set"
  hq_selection_set :: string
  hq_block_ptr :: block_pointer

record printers =
  print_value :: "qvalue \<Rightarrow> string"
  print_fragment :: "fragment_definition \<Rightarrow> string"
  print_selection_set :: "selection list \<Rightarrow> string"

definition hashable_of :: "printers \<Rightarrow> query \<Rightarrow> selection list \<Rightarrow> block_pointer \<Rightarrow> hashable_query" where
  "hashable_of P q sels block_ptr =
     \<lparr>hq_schema_id = as_id (qr_schema q),
      hq_variables = (\<lambda>(k, v). (k, print_value P v)) ` set (qr_variables q),
      hq_fragments = (\<lambda>(k, v). (k, print_fragment P v)) ` set (qr_fragments q),
      hq_selection_set = print_selection_set P sels, hq_block_ptr = block_ptr\<rparr>"

definition cache_key :: "(hashable_query \<Rightarrow> 'h) \<Rightarrow> printers \<Rightarrow> query \<Rightarrow> selection list \<Rightarrow> block_pointer \<Rightarrow> 'h" where
  "cache_key hash P q sels block_ptr = hash (hashable_of P q sels block_ptr)"

section \<open>Requests\<close>

text \<open>The arguments of \<open>execute_root_selection_set\<close>, with the parts of its context that it reads.\<close>

record request =
  rq_cacheable :: bool
  rq_query :: query
  rq_network :: "string option"
  rq_selection_set :: "selection list"
  rq_block_ptr :: "block_pointer option"

definition request_key ::
  "query_cache_config \<Rightarrow> (hashable_query \<Rightarrow> 'h) \<Rightarrow> printers \<Rightarrow> request \<Rightarrow> ('h \<times> string \<times> block_pointer) option" where
  "request_key cfg hash P r =
     (if rq_cacheable r \<and> (CACHE_ALL cfg \<or> as_id (qr_schema (rq_query r)) \<in> set (CACHED_SUBGRAPH_IDS cfg))
      then
        (case (rq_block_ptr r, rq_network r) of
           (Some block_ptr, Some network) \<Rightarrow>
             if ptr_number block_ptr \<noteq> ucast BLOCK_NUMBER_MAX
             then Some (cache_key hash P (rq_query r) (rq_selection_set r) block_ptr, network, block_ptr) else None
         | _ \<Rightarrow> None)
      else None)"

text \<open>
  The progress of a request: before the lookup in the block cache, before the one in the LFU cache, before
  it joins the queries in flight, as the owner of a running query, waiting for the query of another
  request, with a result to be cached, and finished.
\<close>

datatype 'h phase =
    LookBlocks
  | LookLfu 'h
  | Joining 'h
  | Owner "'h option"
  | Waiting nat
  | Ran 'h query_result
  | Caching 'h query_result
  | Finished query_result

record ('q, 'h) server =
  sv_blocks :: "'h query_block_cache"
  sv_lfu :: "'q lfu_cache"
  sv_in_flight :: "'h \<rightharpoonup> nat"
  sv_futures :: "nat \<rightharpoonup> query_result"
  sv_requests :: "nat \<rightharpoonup> request \<times> 'h phase"

definition server_new :: "('q, 'h, weighted_result) pq_ops \<Rightarrow> ('q, 'h) server" where
  "server_new Q = \<lparr>sv_blocks = [], sv_lfu = lfu_new Q, sv_in_flight = Map.empty, sv_futures = Map.empty, sv_requests = Map.empty\<rparr>"

definition at_phase :: "nat \<Rightarrow> request \<Rightarrow> 'h phase \<Rightarrow> ('q, 'h) server \<Rightarrow> ('q, 'h) server" where
  "at_phase i r p s = s\<lparr>sv_requests := (sv_requests s)(i \<mapsto> (r, p))\<rparr>"

text \<open>The first lookup, in the cache of recent blocks.\<close>

definition look_blocks ::
  "query_cache_config \<Rightarrow> (hashable_query \<Rightarrow> 'h) \<Rightarrow> printers \<Rightarrow> nat \<Rightarrow> request \<Rightarrow> ('q, 'h) server \<Rightarrow> ('q, 'h) server" where
  "look_blocks cfg hash P i r s =
     (case request_key cfg hash P r of
        None \<Rightarrow> at_phase i r (Owner None) s
      | Some (key, network, block_ptr) \<Rightarrow>
          (case query_block_cache_get (sv_blocks s) network block_ptr key of
             Some res \<Rightarrow> at_phase i r (Finished res) s
           | None \<Rightarrow> at_phase i r (LookLfu key) s))"

definition look_lfu ::
  "('q, 'h, weighted_result) pq_ops \<Rightarrow> nat \<Rightarrow> request \<Rightarrow> 'h \<Rightarrow> ('q, 'h) server \<Rightarrow> ('q, 'h) server" where
  "look_lfu Q i r key s =
     (case lfu_get Q (sv_lfu s) key of
        (c, Some w) \<Rightarrow> at_phase i r (Finished (wr_result w)) (s\<lparr>sv_lfu := c\<rparr>)
      | (c, None) \<Rightarrow> at_phase i r (Joining key) (s\<lparr>sv_lfu := c\<rparr>))"

text \<open>\<open>QueryCache::cached_query\<close> up to the point where it awaits the shared future.\<close>

definition join_flight :: "nat \<Rightarrow> request \<Rightarrow> 'h \<Rightarrow> ('q, 'h) server \<Rightarrow> ('q, 'h) server" where
  "join_flight i r key s =
     (case sv_in_flight s key of
        Some j \<Rightarrow> at_phase i r (Waiting j) s
      | None \<Rightarrow> at_phase i r (Owner (Some key)) (s\<lparr>sv_in_flight := (sv_in_flight s)(key \<mapsto> i)\<rparr>))"

text \<open>
  The query itself: \<open>run\<close> is the outcome of \<open>execute_root_selection_set_uncached\<close>, and a panic in it becomes
  an error. A shared future keeps its result for those who wait.
\<close>

definition run_query :: "(request \<Rightarrow> ((string, qvalue) btreemap, query_execution_error list) result) \<Rightarrow> (request \<Rightarrow> string) \<Rightarrow> request \<Rightarrow> query_result" where
  "run_query execute panic_message r =
     (case execute r of
        Ok m \<Rightarrow> result_from_map m
      | Err es \<Rightarrow> result_from_errors es
      | Panic \<Rightarrow> result_from_error (PanicError (panic_message r)))"

definition finish_query :: "(request \<Rightarrow> query_result) \<Rightarrow> nat \<Rightarrow> request \<Rightarrow> 'h option \<Rightarrow> ('q, 'h) server \<Rightarrow> ('q, 'h) server" where
  "finish_query run i r key s =
     (case key of
        None \<Rightarrow> at_phase i r (Finished (run r)) s
      | Some k \<Rightarrow> at_phase i r (Ran k (run r)) (s\<lparr>sv_futures := (sv_futures s)(i \<mapsto> run r)\<rparr>))"

text \<open>The guard removes the query from those in flight; only then the result is cached.\<close>

definition leave_flight :: "nat \<Rightarrow> request \<Rightarrow> 'h \<Rightarrow> query_result \<Rightarrow> ('q, 'h) server \<Rightarrow> ('q, 'h) server" where
  "leave_flight i r key res s = at_phase i r (Caching key res) (s\<lparr>sv_in_flight := (sv_in_flight s)(key := None)\<rparr>)"

definition await_query :: "nat \<Rightarrow> request \<Rightarrow> nat \<Rightarrow> ('q, 'h) server \<Rightarrow> ('q, 'h) server option" where
  "await_query i r j s = map_option (\<lambda>res. at_phase i r (Finished res) s) (sv_futures s j)"

text \<open>
  The result goes into the block cache or, when that does not take it, into the LFU cache after an
  eviction; errors are not cached. \<open>weigh\<close> is the memory that the data takes, \<open>w\<close> the weight of an entry.
\<close>

definition cache_result ::
  "('q, 'h, weighted_result) pq_ops \<Rightarrow> ('h \<Rightarrow> weighted_result \<Rightarrow> usize) \<Rightarrow> (qvalue \<Rightarrow> usize) \<Rightarrow> query_cache_config
   \<Rightarrow> nat \<Rightarrow> request \<Rightarrow> 'h \<Rightarrow> query_result \<Rightarrow> ('q, 'h) server \<Rightarrow> (('q, 'h) server, unit) result option" where
  "cache_result Q w weigh cfg i r key res s =
     (case (has_errors res, rq_block_ptr r, rq_network r) of
        (False, Some block_ptr, Some network) \<Rightarrow>
          (case qrs_data res of
             None \<Rightarrow> Some Panic
           | Some data \<Rightarrow>
               (case query_block_cache_insert cfg network block_ptr key res (weigh data) (sv_blocks s) of
                  Ok (blocks, True) \<Rightarrow> Some (Ok (at_phase i r (Finished res) (s\<lparr>sv_blocks := blocks\<rparr>)))
                | Ok (blocks, False) \<Rightarrow>
                    (case evict_with_period Q (sv_lfu s) (QUERY_CACHE_MAX_MEM cfg) (QUERY_CACHE_STALE_PERIOD cfg) of
                       None \<Rightarrow> None
                     | Some (Ok (c, _)) \<Rightarrow>
                         Some (Ok (at_phase i r (Finished res)
                           (s\<lparr>sv_blocks := blocks,
                              sv_lfu := lfu_insert Q w c key \<lparr>wr_result = res, wr_weight = weigh data\<rparr>\<rparr>)))
                     | Some _ \<Rightarrow> Some Panic)
                | _ \<Rightarrow> Some Panic))
      | _ \<Rightarrow> Some (Ok (at_phase i r (Finished res) s)))"

section \<open>Interleavings\<close>

text \<open>
  The next step of request \<open>i\<close>: there is none for a finished request, for one whose shared query has not
  finished, and when the eviction from the LFU cache does not end.
\<close>

definition request_step ::
  "('q, 'h, weighted_result) pq_ops \<Rightarrow> ('h \<Rightarrow> weighted_result \<Rightarrow> usize) \<Rightarrow> (qvalue \<Rightarrow> usize) \<Rightarrow> query_cache_config
   \<Rightarrow> (hashable_query \<Rightarrow> 'h) \<Rightarrow> printers \<Rightarrow> (request \<Rightarrow> query_result) \<Rightarrow> nat \<Rightarrow> ('q, 'h) server
   \<Rightarrow> (('q, 'h) server, unit) result option" where
  "request_step Q w weigh cfg hash P run i s =
     (case sv_requests s i of
        None \<Rightarrow> None
      | Some (r, LookBlocks) \<Rightarrow> Some (Ok (look_blocks cfg hash P i r s))
      | Some (r, LookLfu k) \<Rightarrow> Some (Ok (look_lfu Q i r k s))
      | Some (r, Joining k) \<Rightarrow> Some (Ok (join_flight i r k s))
      | Some (r, Owner k) \<Rightarrow> Some (Ok (finish_query run i r k s))
      | Some (r, Waiting j) \<Rightarrow> map_option Ok (await_query i r j s)
      | Some (r, Ran k res) \<Rightarrow> Some (Ok (leave_flight i r k res s))
      | Some (r, Caching k res) \<Rightarrow> cache_result Q w weigh cfg i r k res s
      | Some (r, Finished res) \<Rightarrow> None)"

text \<open>
  The states after \<open>n\<close> steps, each the arrival of a request or a step of one, in any order. What executing a
  query gives changes as the store does: \<open>run t\<close> is the outcome of the queries that are executed in step \<open>t\<close>.
\<close>

inductive server_run ::
  "('q, 'h, weighted_result) pq_ops \<Rightarrow> ('h \<Rightarrow> weighted_result \<Rightarrow> usize) \<Rightarrow> (qvalue \<Rightarrow> usize) \<Rightarrow> query_cache_config
   \<Rightarrow> (hashable_query \<Rightarrow> 'h) \<Rightarrow> printers \<Rightarrow> (nat \<Rightarrow> request \<Rightarrow> query_result) \<Rightarrow> nat \<Rightarrow> ('q, 'h) server \<Rightarrow> bool"
  for Q w weigh cfg hash P run where
  run_start: "server_run Q w weigh cfg hash P run 0 (server_new Q)"
| run_arrive: "server_run Q w weigh cfg hash P run n s \<Longrightarrow> sv_requests s i = None \<Longrightarrow>
    server_run Q w weigh cfg hash P run (Suc n) (at_phase i r LookBlocks s)"
| run_request: "server_run Q w weigh cfg hash P run n s \<Longrightarrow> request_step Q w weigh cfg hash P (run n) i s = Some (Ok s') \<Longrightarrow>
    server_run Q w weigh cfg hash P run (Suc n) s'"

section \<open>The block cache\<close>

text \<open>
  What holds of the blocks of a network: at most the configured number of them, the most recent ones first,
  each within its share of the memory, and with results that satisfy \<open>ok\<close> only.
\<close>

definition blocks_ok :: "query_cache_config \<Rightarrow> ('h \<Rightarrow> query_result \<Rightarrow> bool) \<Rightarrow> 'h cache_by_block list \<Rightarrow> bool" where
  "blocks_ok cfg ok cache \<longleftrightarrow>
     length cache \<le> unat (QUERY_CACHE_BLOCKS cfg) \<and>
     sorted_wrt (\<lambda>a b. ptr_number b \<le> ptr_number a) (map cb_block cache) \<and> distinct (map cb_block cache) \<and>
     (\<forall>c \<in> set cache. cb_weight c \<le> cb_max_weight c \<and>
        cb_max_weight c = QUERY_CACHE_MAX_MEM cfg div QUERY_CACHE_BLOCKS cfg \<and>
        (\<forall>k res. map_of (cb_cache c) k = Some res \<longrightarrow> ok k res))"

definition entry_ok :: "query_cache_config \<Rightarrow> ('h \<Rightarrow> query_result \<Rightarrow> bool) \<Rightarrow> 'h cache_by_block \<Rightarrow> bool" where
  "entry_ok cfg ok c \<longleftrightarrow> cb_weight c \<le> cb_max_weight c \<and>
     cb_max_weight c = QUERY_CACHE_MAX_MEM cfg div QUERY_CACHE_BLOCKS cfg \<and>
     (\<forall>k res. map_of (cb_cache c) k = Some res \<longrightarrow> ok k res)"

lemma blocks_ok_iff:
  "blocks_ok cfg ok cache \<longleftrightarrow>
     length cache \<le> unat (QUERY_CACHE_BLOCKS cfg) \<and>
     sorted_wrt (\<lambda>a b. ptr_number b \<le> ptr_number a) (map cb_block cache) \<and> distinct (map cb_block cache) \<and>
     (\<forall>c \<in> set cache. entry_ok cfg ok c)"
  by (simp add: blocks_ok_def entry_ok_def)

lemma cache_by_block_insert_ok:
  assumes "\<not> has_errors res" and "ok key res" and "entry_ok cfg ok c"
  shows "\<exists>c' b. cache_by_block_insert c key res weight = Ok (c', b) \<and> cb_block c' = cb_block c \<and> entry_ok cfg ok c'"
  using assms by (auto simp: cache_by_block_insert_def has_errors_def entry_ok_def update_conv' split: if_splits)

lemma update_found_ok:
  assumes "list_ex p xs" and "\<And>x. x \<in> set xs \<Longrightarrow> p x \<Longrightarrow> \<exists>y b. f x = Ok (y, b) \<and> R x y"
  shows "\<exists>ys b. update_found p f xs = Ok (ys, b) \<and> list_all2 (\<lambda>x y. x = y \<or> R x y) xs ys"
  using assms
proof (induction xs)
  case (Cons x xs)
  show ?case
  proof (cases "p x")
    case True
    with Cons.prems(2) [of x] show ?thesis by (auto intro!: list.rel_refl)
  next
    case False
    with Cons.prems(1) have "list_ex p xs" by simp
    from Cons.IH [OF this] Cons.prems(2) obtain ys b where "update_found p f xs = Ok (ys, b)"
      "list_all2 (\<lambda>x y. x = y \<or> R x y) xs ys" by auto
    with False show ?thesis by auto
  qed
qed simp

lemma blocks_ok_update:
  assumes "list_all2 (\<lambda>c d. c = d \<or> cb_block d = cb_block c \<and> entry_ok cfg ok d) cs ds" and "blocks_ok cfg ok cs"
  shows "blocks_ok cfg ok ds"
proof -
  have "map cb_block ds = map cb_block cs" "length ds = length cs"
    using assms(1) by (induction rule: list_all2_induct) auto
  moreover have "(\<forall>c \<in> set cs. entry_ok cfg ok c) \<Longrightarrow> (\<forall>d \<in> set ds. entry_ok cfg ok d)"
    using assms(1) by (induction rule: list_all2_induct) auto
  ultimately show ?thesis using assms(2) by (simp add: blocks_ok_iff)
qed

lemma sorted_wrt_butlast: "sorted_wrt R xs \<Longrightarrow> sorted_wrt R (butlast xs)"
  by (cases xs rule: rev_cases) (simp_all add: sorted_wrt_append)

lemma blocks_ok_push:
  assumes ok: "blocks_ok cfg ok cs" and c: "entry_ok cfg ok c" and new: "\<forall>d \<in> set cs. cb_block d \<noteq> cb_block c"
    and pos: "QUERY_CACHE_BLOCKS cfg > 0"
    and recent: "case cs of [] \<Rightarrow> True | d # _ \<Rightarrow> ptr_number (cb_block d) \<le> ptr_number (cb_block c)"
  shows "blocks_ok cfg ok (c # (if of_nat (length cs) = QUERY_CACHE_BLOCKS cfg then butlast cs else cs))"
proof -
  let ?cs = "if of_nat (length cs) = QUERY_CACHE_BLOCKS cfg then butlast cs else cs"
  have sub: "set ?cs \<subseteq> set cs" by (auto dest: in_set_butlastD)
  have "length ?cs < unat (QUERY_CACHE_BLOCKS cfg)"
  proof (cases "of_nat (length cs) = QUERY_CACHE_BLOCKS cfg")
    case True
    have "0 < unat (QUERY_CACHE_BLOCKS cfg)" using pos by (simp add: word_less_nat_alt)
    then show ?thesis using True ok by (auto simp: blocks_ok_iff)
  next
    case False
    then have "length cs \<noteq> unat (QUERY_CACHE_BLOCKS cfg)" by auto
    then show ?thesis using False ok by (simp add: blocks_ok_iff)
  qed
  moreover have "\<forall>d \<in> set cs. ptr_number (cb_block d) \<le> ptr_number (cb_block c)"
    using recent ok by (cases cs) (force simp: blocks_ok_iff)+
  moreover have "sorted_wrt (\<lambda>a b. ptr_number b \<le> ptr_number a) (map cb_block ?cs)" "distinct (map cb_block ?cs)"
    using ok by (auto simp: blocks_ok_iff map_butlast sorted_wrt_butlast distinct_butlast)
  moreover have "\<forall>d \<in> set ?cs. entry_ok cfg ok d \<and> cb_block d \<noteq> cb_block c"
    using sub new ok unfolding blocks_ok_iff by blast
  ultimately show ?thesis
    using c sub unfolding blocks_ok_iff by (auto simp: image_iff simp del: length_butlast)
qed

lemma entry_ok_new: "entry_ok cfg ok (cache_by_block_new b (QUERY_CACHE_MAX_MEM cfg div QUERY_CACHE_BLOCKS cfg))"
  by (simp add: entry_ok_def cache_by_block_new_def)

lemma blocks_insert_ok:
  assumes res: "\<not> has_errors res" "ok key res" and cache: "blocks_ok cfg ok cache"
  shows "\<exists>cache' b. blocks_insert cfg block_ptr key res weight cache = Ok (cache', b) \<and> blocks_ok cfg ok cache'"
proof (cases "list_ex (\<lambda>c. cb_block c = block_ptr) cache")
  case True
  have "\<exists>c' b. cache_by_block_insert c key res weight = Ok (c', b) \<and> (cb_block c' = cb_block c \<and> entry_ok cfg ok c')"
    if "c \<in> set cache" "cb_block c = block_ptr" for c
    using cache_by_block_insert_ok [where ok = ok and cfg = cfg, OF res] cache that(1) by (simp add: blocks_ok_iff)
  from update_found_ok [where f = "\<lambda>c. cache_by_block_insert c key res weight"
      and R = "\<lambda>c c'. cb_block c' = cb_block c \<and> entry_ok cfg ok c'", OF True this] obtain cache' b
    where u: "update_found (\<lambda>c. cb_block c = block_ptr) (\<lambda>c. cache_by_block_insert c key res weight) cache = Ok (cache', b)"
      and l: "list_all2 (\<lambda>c d. c = d \<or> cb_block d = cb_block c \<and> entry_ok cfg ok d) cache cache'" by blast
  show ?thesis using blocks_ok_update [OF l cache] by (simp add: blocks_insert_def True u)
next
  case False
  let ?new = "cache_by_block_new block_ptr (QUERY_CACHE_MAX_MEM cfg div QUERY_CACHE_BLOCKS cfg)"
  obtain c b where c: "cache_by_block_insert ?new key res weight = Ok (c, b)" "cb_block c = block_ptr" "entry_ok cfg ok c"
    using cache_by_block_insert_ok [where ok = ok and cfg = cfg, OF res entry_ok_new, of block_ptr weight]
    by (auto simp: cache_by_block_new_def)
  have "blocks_ok cfg ok (c # (if of_nat (length cache) = QUERY_CACHE_BLOCKS cfg then butlast cache else cache))"
    if "QUERY_CACHE_BLOCKS cfg > 0" "case cache of [] \<Rightarrow> True | d # _ \<Rightarrow> ptr_number (cb_block d) \<le> ptr_number block_ptr"
    by (rule blocks_ok_push [OF cache c(3) _ that(1)]) (use False that(2) in \<open>auto simp: c(2) list_ex_iff split: list.splits\<close>)
  then show ?thesis using False cache by (auto simp: blocks_insert_def Let_def c(1))
qed

definition caches_ok :: "query_cache_config \<Rightarrow> ('h \<Rightarrow> query_result \<Rightarrow> bool) \<Rightarrow> 'h query_block_cache \<Rightarrow> bool" where
  "caches_ok cfg ok caches \<longleftrightarrow> (\<forall>(n, cache) \<in> set caches. blocks_ok cfg ok cache)"

lemma query_block_cache_insert_ok:
  assumes res: "\<not> has_errors res" "ok key res" and caches: "caches_ok cfg ok caches"
  shows "\<exists>caches' b. query_block_cache_insert cfg network block_ptr key res weight caches = Ok (caches', b) \<and> caches_ok cfg ok caches'"
proof -
  let ?caches = "if list_ex (\<lambda>(n, _). n = network) caches then caches else caches @ [(network, [])]"
  let ?f = "\<lambda>(n, cache). and_then (blocks_insert cfg block_ptr key res weight cache) (\<lambda>(cache, b). Ok ((n, cache), b))"
  have "blocks_ok cfg ok []" by (simp add: blocks_ok_def)
  then have ok: "caches_ok cfg ok ?caches" using caches by (auto simp: caches_ok_def)
  have ex: "list_ex (\<lambda>(n, _). n = network) ?caches" by simp
  have "\<exists>y b. ?f x = Ok (y, b) \<and> blocks_ok cfg ok (snd y)" if x_in: "x \<in> set ?caches" and "(\<lambda>(n, _). n = network) x" for x
  proof -
    obtain n cache where x: "x = (n, cache)" by (cases x)
    have "blocks_ok cfg ok cache" using ok x_in by (auto simp: caches_ok_def x split: if_splits)
    from blocks_insert_ok [where ok = ok, OF res this] obtain cache' b
      where "blocks_insert cfg block_ptr key res weight cache = Ok (cache', b)" "blocks_ok cfg ok cache'" by blast
    then show ?thesis by (simp add: x)
  qed
  from update_found_ok [where f = ?f and R = "\<lambda>x y. blocks_ok cfg ok (snd y)", OF ex this] obtain caches' b where u: "update_found (\<lambda>(n, _). n = network) ?f ?caches = Ok (caches', b)"
    and l: "list_all2 (\<lambda>x y. x = y \<or> blocks_ok cfg ok (snd y)) ?caches caches'" by blast
  have "caches_ok cfg ok caches'"
    using l ok unfolding caches_ok_def by (induction rule: list_all2_induct) auto
  then show ?thesis using u by (simp add: query_block_cache_insert_def Let_def)
qed

lemma query_block_cache_get_ok:
  assumes "query_block_cache_get caches network block_ptr key = Some res" and "caches_ok cfg ok caches"
  shows "ok key res"
proof -
  from assms(1) obtain n cache c where "find (\<lambda>(n, _). n = network) caches = Some (n, cache)"
    "find (\<lambda>c. cb_block c = block_ptr) cache = Some c" "map_of (cb_cache c) key = Some res"
    by (auto simp: query_block_cache_get_def bind_eq_Some_conv)
  moreover from this have "(n, cache) \<in> set caches" "c \<in> set cache"
    unfolding find_Some_iff using nth_mem by metis+
  ultimately show ?thesis using assms(2) by (fastforce simp: caches_ok_def blocks_ok_def)
qed

section \<open>The memory of the block cache\<close>

text \<open>
  What the results of a block weigh. The counter of the block is never less: a result that replaces one under
  the same key is counted again.
\<close>

definition result_weight :: "(qvalue \<Rightarrow> usize) \<Rightarrow> query_result \<Rightarrow> nat" where
  "result_weight weigh res = (case qrs_data res of None \<Rightarrow> 0 | Some data \<Rightarrow> unat (weigh data))"

definition stored_weight :: "(qvalue \<Rightarrow> usize) \<Rightarrow> 'h cache_by_block \<Rightarrow> nat" where
  "stored_weight weigh c = (\<Sum>(k, res) \<leftarrow> cb_cache c. result_weight weigh res)"

definition entry_memory :: "(qvalue \<Rightarrow> usize) \<Rightarrow> query_cache_config \<Rightarrow> 'h cache_by_block \<Rightarrow> bool" where
  "entry_memory weigh cfg c \<longleftrightarrow> stored_weight weigh c \<le> unat (cb_weight c) \<and> cb_weight c \<le> cb_max_weight c \<and>
     cb_max_weight c = QUERY_CACHE_MAX_MEM cfg div QUERY_CACHE_BLOCKS cfg"

definition caches_memory :: "(qvalue \<Rightarrow> usize) \<Rightarrow> query_cache_config \<Rightarrow> 'h query_block_cache \<Rightarrow> bool" where
  "caches_memory weigh cfg caches \<longleftrightarrow> (\<forall>(n, cache) \<in> set caches. \<forall>c \<in> set cache. entry_memory weigh cfg c)"

definition no_wrap :: "(qvalue \<Rightarrow> usize) \<Rightarrow> query_cache_config \<Rightarrow> bool" where
  "no_wrap weigh cfg \<longleftrightarrow> (\<forall>v. unat (weigh v) + unat (QUERY_CACHE_MAX_MEM cfg) < 2 ^ 64)"

lemma sum_hm_insert:
  fixes f :: "'v \<Rightarrow> nat"
  shows "(\<Sum>(k, v) \<leftarrow> hm_insert k v m. f v) \<le> (\<Sum>(k, v) \<leftarrow> m. f v) + f v"
  by (induction m) auto

lemma update_found_all:
  assumes "update_found p f xs = Ok (ys, b)" and "\<forall>x \<in> set xs. I x"
    and "\<And>x y b. f x = Ok (y, b) \<Longrightarrow> I x \<Longrightarrow> I y"
  shows "\<forall>y \<in> set ys. I y"
  using assms(1,2)
proof (induction xs arbitrary: ys)
  case (Cons x xs)
  show ?case
  proof (cases "p x")
    case True
    then obtain y where "f x = Ok (y, b)" "ys = y # xs" using Cons.prems(1) by (auto simp: and_then_Ok_iff)
    then show ?thesis using assms(3) [of x y b] Cons.prems(2) by simp
  next
    case False
    then obtain zs where "update_found p f xs = Ok (zs, b)" "ys = x # zs" using Cons.prems(1) by (auto simp: and_then_Ok_iff)
    then show ?thesis using Cons.IH [of zs] Cons.prems(2) by simp
  qed
qed simp

lemma cache_by_block_insert_memory:
  assumes "cache_by_block_insert c key res (weigh data) = Ok (c', b)" and "qrs_data res = Some data"
    and c: "entry_memory weigh cfg c" and wrap: "no_wrap weigh cfg"
  shows "entry_memory weigh cfg c'"
proof (cases "cb_weight c + weigh data \<le> cb_max_weight c")
  case True
  then have c': "c' = c\<lparr>cb_weight := cb_weight c + weigh data, cb_cache := hm_insert key res (cb_cache c)\<rparr>"
    using assms(1) by (auto simp: cache_by_block_insert_def split: if_splits)
  have "unat (cb_weight c) \<le> unat (QUERY_CACHE_MAX_MEM cfg)"
    using c by (auto simp: entry_memory_def word_le_nat_alt unat_div_distrib intro: order_trans div_le_dividend)
  then have "unat (cb_weight c) + unat (weigh data) < 2 ^ 64"
    using wrap unfolding no_wrap_def by (metis add.commute add_le_cancel_left le_less_trans)
  then have "unat (cb_weight c + weigh data) = unat (cb_weight c) + unat (weigh data)"
    by (simp add: unat_word_ariths)
  then have "stored_weight weigh c' \<le> unat (cb_weight c')"
    using sum_hm_insert [of "result_weight weigh" key res "cb_cache c"] c assms(2)
    by (simp add: c' stored_weight_def result_weight_def entry_memory_def)
  then show ?thesis using True c by (simp add: entry_memory_def c')
next
  case False
  then show ?thesis using assms(1) c by (auto simp: cache_by_block_insert_def split: if_splits)
qed

lemma blocks_insert_memory:
  assumes ins: "blocks_insert cfg block_ptr key res (weigh data) cache = Ok (cache', b)" and data: "qrs_data res = Some data"
    and cache: "\<forall>c \<in> set cache. entry_memory weigh cfg c" and wrap: "no_wrap weigh cfg"
  shows "\<forall>c \<in> set cache'. entry_memory weigh cfg c"
proof -
  note entry = cache_by_block_insert_memory [OF _ data _ wrap]
  show ?thesis
  proof (cases "list_ex (\<lambda>c. cb_block c = block_ptr) cache")
    case True
    with ins have "update_found (\<lambda>c. cb_block c = block_ptr) (\<lambda>c. cache_by_block_insert c key res (weigh data)) cache = Ok (cache', b)"
      by (simp add: blocks_insert_def)
    then show ?thesis by (rule update_found_all [OF _ cache]) (rule entry)
  next
    case False
    let ?max = "QUERY_CACHE_MAX_MEM cfg div QUERY_CACHE_BLOCKS cfg"
    have new: "entry_memory weigh cfg (cache_by_block_new block_ptr ?max)"
      by (simp add: entry_memory_def cache_by_block_new_def stored_weight_def)
    let ?cache = "if of_nat (length cache) = QUERY_CACHE_BLOCKS cfg then butlast cache else cache"
    have sub: "set ?cache \<subseteq> set cache" by (auto dest: in_set_butlastD)
    have "cache' = cache \<or> (\<exists>c. cache_by_block_insert (cache_by_block_new block_ptr ?max) key res (weigh data) = Ok (c, b) \<and>
        cache' = c # ?cache)"
      using ins False unfolding blocks_insert_def Let_def
      by (simp only: if_False split: if_splits) (auto simp: and_then_Ok_iff)
    then show ?thesis
    proof (elim disjE exE conjE)
      fix c
      assume "cache_by_block_insert (cache_by_block_new block_ptr ?max) key res (weigh data) = Ok (c, b)" "cache' = c # ?cache"
      then show ?thesis using cache sub entry [OF _ new] by auto
    qed (use cache in simp)
  qed
qed

lemma query_block_cache_insert_memory:
  assumes ins: "query_block_cache_insert cfg network block_ptr key res (weigh data) caches = Ok (caches', b)"
    and data: "qrs_data res = Some data" and caches: "caches_memory weigh cfg caches" and wrap: "no_wrap weigh cfg"
  shows "caches_memory weigh cfg caches'"
proof -
  let ?I = "\<lambda>(n :: string, cache). \<forall>c \<in> set cache. entry_memory weigh cfg c"
  let ?caches = "if list_ex (\<lambda>(n, _). n = network) caches then caches else caches @ [(network, [])]"
  have all: "\<forall>x \<in> set ?caches. ?I x" using caches by (auto simp: caches_memory_def)
  have "\<forall>x \<in> set caches'. ?I x"
    by (rule update_found_all [OF ins [unfolded query_block_cache_insert_def Let_def] all])
      (auto simp: and_then_Ok_iff dest: blocks_insert_memory [OF _ data _ wrap, THEN bspec])
  then show ?thesis by (simp add: caches_memory_def)
qed

lemma cache_result_memory:
  assumes step: "cache_result Q w weigh cfg i r key res s = Some (Ok s')"
    and caches: "caches_memory weigh cfg (sv_blocks s)" and wrap: "no_wrap weigh cfg"
  shows "caches_memory weigh cfg (sv_blocks s')"
proof (cases "sv_blocks s' = sv_blocks s")
  case False
  then obtain network block_ptr data b where "qrs_data res = Some data"
    "query_block_cache_insert cfg network block_ptr key res (weigh data) (sv_blocks s) = Ok (sv_blocks s', b)"
    using step by (auto simp: cache_result_def at_phase_def split: bool.splits option.splits result.splits prod.splits)
  then show ?thesis using query_block_cache_insert_memory [OF _ _ caches wrap] by blast
qed (use caches in simp)

lemma server_run_memory:
  assumes "server_run Q w weigh cfg hash P run n s" and wrap: "no_wrap weigh cfg"
  shows "caches_memory weigh cfg (sv_blocks s)"
  using assms(1)
proof (induction rule: server_run.induct)
  case run_start
  show ?case by (simp add: caches_memory_def server_new_def)
next
  case (run_arrive n s i r)
  then show ?case by (simp add: at_phase_def)
next
  case (run_request n s i s')
  show ?case
  proof (cases "sv_blocks s' = sv_blocks s")
    case False
    then obtain r k res where "cache_result Q w weigh cfg i r k res s = Some (Ok s')"
      using run_request.hyps(2)
      by (auto simp: request_step_def at_phase_def look_blocks_def look_lfu_def join_flight_def finish_query_def await_query_def
          leave_flight_def split: option.splits prod.splits phase.splits)
    then show ?thesis by (rule cache_result_memory [OF _ run_request.IH wrap])
  qed (use run_request.IH in simp)
qed

text \<open>The blocks of a network share the memory evenly.\<close>

lemma stored_weight_total:
  assumes "\<forall>c \<in> set cache. entry_memory weigh cfg c" and "length cache \<le> unat (QUERY_CACHE_BLOCKS cfg)"
  shows "(\<Sum>c \<leftarrow> cache. stored_weight weigh c) \<le> unat (QUERY_CACHE_MAX_MEM cfg)"
proof -
  let ?share = "unat (QUERY_CACHE_MAX_MEM cfg) div unat (QUERY_CACHE_BLOCKS cfg)"
  have "stored_weight weigh c \<le> ?share" if "c \<in> set cache" for c
    using assms(1) that by (force simp: entry_memory_def word_le_nat_alt unat_div_distrib)
  then have "(\<Sum>c \<leftarrow> cache. stored_weight weigh c) \<le> length cache * ?share"
    using sum_list_mono [of cache "stored_weight weigh" "\<lambda>_. ?share"] by (simp add: sum_list_triv)
  also have "\<dots> \<le> unat (QUERY_CACHE_BLOCKS cfg) * ?share" using assms(2) by (rule mult_le_mono1)
  also have "\<dots> \<le> unat (QUERY_CACHE_MAX_MEM cfg)" by simp
  finally show ?thesis .
qed

section \<open>The invariant\<close>

text \<open>
  The key of a request, and what a cache may hold under a key: a result that executing a request with that
  key gave, without errors. A request is answered with what executing it or a request with its key gave.
\<close>

definition key_of :: "query_cache_config \<Rightarrow> (hashable_query \<Rightarrow> 'h) \<Rightarrow> printers \<Rightarrow> request \<Rightarrow> 'h option" where
  "key_of cfg hash P r = map_option fst (request_key cfg hash P r)"

definition executed :: "(nat \<Rightarrow> request \<Rightarrow> query_result) \<Rightarrow> nat \<Rightarrow> request \<Rightarrow> query_result \<Rightarrow> bool" where
  "executed run n r res \<longleftrightarrow> (\<exists>t < n. res = run t r)"

definition served :: "(request \<Rightarrow> 'h option) \<Rightarrow> (request \<Rightarrow> query_result \<Rightarrow> bool) \<Rightarrow> 'h \<Rightarrow> query_result \<Rightarrow> bool" where
  "served key gave k res \<longleftrightarrow> \<not> has_errors res \<and> (\<exists>r. key r = Some k \<and> gave r res)"

definition reply_ok :: "(request \<Rightarrow> 'h option) \<Rightarrow> (request \<Rightarrow> query_result \<Rightarrow> bool) \<Rightarrow> request \<Rightarrow> query_result \<Rightarrow> bool" where
  "reply_ok key gave r res \<longleftrightarrow> gave r res \<or> (\<exists>r' k. key r = Some k \<and> key r' = Some k \<and> gave r' res)"

text \<open>
  Requests for the same query: the same block, the same deployment, and variables, fragments and selections
  that print the same.
\<close>

definition same_query :: "printers \<Rightarrow> request \<Rightarrow> request \<Rightarrow> bool" where
  "same_query P r r' \<longleftrightarrow> rq_cacheable r \<and> rq_cacheable r' \<and> rq_block_ptr r \<noteq> None \<and> rq_block_ptr r = rq_block_ptr r' \<and>
     as_id (qr_schema (rq_query r)) = as_id (qr_schema (rq_query r')) \<and>
     print_selection_set P (rq_selection_set r) = print_selection_set P (rq_selection_set r') \<and>
     map_prod id (print_value P) ` set (qr_variables (rq_query r)) = map_prod id (print_value P) ` set (qr_variables (rq_query r')) \<and>
     map_prod id (print_fragment P) ` set (qr_fragments (rq_query r)) = map_prod id (print_fragment P) ` set (qr_fragments (rq_query r'))"

text \<open>The query of request \<open>j\<close> has a result or is being run.\<close>

definition alive :: "('q, 'h) server \<Rightarrow> nat \<Rightarrow> bool" where
  "alive s j \<longleftrightarrow> sv_futures s j \<noteq> None \<or> (\<exists>r k. sv_requests s j = Some (r, Owner (Some k)))"

fun phase_ok ::
  "(request \<Rightarrow> 'h option) \<Rightarrow> (request \<Rightarrow> query_result \<Rightarrow> bool) \<Rightarrow> ('q, 'h) server \<Rightarrow> nat \<Rightarrow> request \<Rightarrow> 'h phase \<Rightarrow> bool" where
  "phase_ok key gave s i r LookBlocks \<longleftrightarrow> sv_futures s i = None"
| "phase_ok key gave s i r (LookLfu k) \<longleftrightarrow> key r = Some k \<and> sv_futures s i = None"
| "phase_ok key gave s i r (Joining k) \<longleftrightarrow> key r = Some k \<and> sv_futures s i = None"
| "phase_ok key gave s i r (Owner None) \<longleftrightarrow> True"
| "phase_ok key gave s i r (Owner (Some k)) \<longleftrightarrow> key r = Some k \<and> sv_in_flight s k = Some i \<and> sv_futures s i = None"
| "phase_ok key gave s i r (Waiting j) \<longleftrightarrow> key r \<noteq> None \<and> alive s j \<and> (\<exists>r'. map_option fst (sv_requests s j) = Some r' \<and> key r' = key r)"
| "phase_ok key gave s i r (Ran k res) \<longleftrightarrow> key r = Some k \<and> sv_in_flight s k = Some i \<and> sv_futures s i \<noteq> None \<and> gave r res"
| "phase_ok key gave s i r (Caching k res) \<longleftrightarrow> key r = Some k \<and> gave r res"
| "phase_ok key gave s i r (Finished res) \<longleftrightarrow> reply_ok key gave r res"

definition running :: "'h \<Rightarrow> 'h phase \<Rightarrow> bool" where
  "running k ph \<longleftrightarrow> ph = Owner (Some k) \<or> (\<exists>res. ph = Ran k res)"

definition flight_ok :: "('q, 'h) server \<Rightarrow> bool" where
  "flight_ok s \<longleftrightarrow> (\<forall>k i. sv_in_flight s k = Some i \<longrightarrow> (\<exists>r ph. sv_requests s i = Some (r, ph) \<and> running k ph))"

definition futures_ok :: "(request \<Rightarrow> query_result \<Rightarrow> bool) \<Rightarrow> ('q, 'h) server \<Rightarrow> bool" where
  "futures_ok gave s \<longleftrightarrow> (\<forall>j res. sv_futures s j = Some res \<longrightarrow> (\<exists>r ph. sv_requests s j = Some (r, ph) \<and> gave r res))"

definition phases_ok :: "(request \<Rightarrow> 'h option) \<Rightarrow> (request \<Rightarrow> query_result \<Rightarrow> bool) \<Rightarrow> ('q, 'h) server \<Rightarrow> bool" where
  "phases_ok key gave s \<longleftrightarrow> (\<forall>i r ph. sv_requests s i = Some (r, ph) \<longrightarrow> phase_ok key gave s i r ph) \<and> flight_ok s \<and> futures_ok gave s"

definition stores_ok ::
  "('q \<Rightarrow> 'h \<Rightarrow> ('h, weighted_result) item option) \<Rightarrow> query_cache_config \<Rightarrow> (request \<Rightarrow> 'h option)
   \<Rightarrow> (request \<Rightarrow> query_result \<Rightarrow> bool) \<Rightarrow> nat \<Rightarrow> ('q, 'h) server \<Rightarrow> bool" where
  "stores_ok el cfg key gave n s \<longleftrightarrow>
     caches_ok cfg (served key gave) (sv_blocks s) \<and> lfu_inv el n (sv_lfu s) \<and>
     (\<forall>k wr. lfu_view el (sv_lfu s) k = Some wr \<longrightarrow> served key gave k (wr_result wr))"

definition server_ok ::
  "('q \<Rightarrow> 'h \<Rightarrow> ('h, weighted_result) item option) \<Rightarrow> query_cache_config \<Rightarrow> (request \<Rightarrow> 'h option)
   \<Rightarrow> (request \<Rightarrow> query_result \<Rightarrow> bool) \<Rightarrow> nat \<Rightarrow> ('q, 'h) server \<Rightarrow> bool" where
  "server_ok el cfg key gave n s \<longleftrightarrow> stores_ok el cfg key gave n s \<and> phases_ok key gave s"

text \<open>How far a request is from its end; the work of a server is what all its requests have left.\<close>

fun steps_left :: "'h phase \<Rightarrow> nat" where
  "steps_left LookBlocks = 6"
| "steps_left (LookLfu k) = 5"
| "steps_left (Joining k) = 4"
| "steps_left (Owner k) = 3"
| "steps_left (Ran k res) = 2"
| "steps_left (Caching k res) = 1"
| "steps_left (Waiting j) = 1"
| "steps_left (Finished res) = 0"

definition work :: "('q, 'h) server \<Rightarrow> nat" where
  "work s = (\<Sum>i \<in> dom (sv_requests s). steps_left (snd (the (sv_requests s i))))"

section \<open>Steps keep it\<close>

lemma at_phase_simps [simp]:
  "sv_blocks (at_phase i r ph s) = sv_blocks s" "sv_lfu (at_phase i r ph s) = sv_lfu s"
  "sv_in_flight (at_phase i r ph s) = sv_in_flight s" "sv_futures (at_phase i r ph s) = sv_futures s"
  "sv_requests (at_phase i r ph s) = (sv_requests s)(i \<mapsto> (r, ph))"
  by (simp_all add: at_phase_def)

lemma finite_at_phase: "finite (dom (sv_requests s)) \<Longrightarrow> finite (dom (sv_requests (at_phase i r ph s)))"
  by simp

lemma phase_of: "phases_ok key gave s \<Longrightarrow> sv_requests s i = Some (r, ph) \<Longrightarrow> phase_ok key gave s i r ph"
  by (simp add: phases_ok_def)

lemma future_of: "phases_ok key gave s \<Longrightarrow> sv_requests s i = Some (r, ph) \<Longrightarrow> sv_futures s i = Some res \<Longrightarrow> gave r res"
  unfolding phases_ok_def futures_ok_def by fastforce

lemma phase_ok_mono:
  assumes "phase_ok key gave s i r ph" and "\<And>r res. gave r res \<Longrightarrow> gave' r res"
  shows "phase_ok key gave' s i r ph"
proof (cases ph)
  case (Owner k)
  then show ?thesis using assms(1) by (cases k) auto
qed (use assms in \<open>auto simp: reply_ok_def\<close>)

lemma server_ok_mono:
  assumes "server_ok el cfg key gave n s" and "\<And>r res. gave r res \<Longrightarrow> gave' r res"
  shows "server_ok el cfg key gave' n s"
proof -
  have served: "served key gave' k res" if "served key gave k res" for k res
    using that assms(2) by (auto simp: served_def)
  have "stores_ok el cfg key gave' n s"
    using assms(1) served unfolding server_ok_def stores_ok_def caches_ok_def blocks_ok_def by fast
  moreover have "phases_ok key gave' s"
    using assms(1) phase_ok_mono [of key gave s _ _ _ gave'] assms(2) unfolding server_ok_def phases_ok_def futures_ok_def by blast
  ultimately show ?thesis by (simp add: server_ok_def)
qed

lemma flight_of: "phases_ok key gave s \<Longrightarrow> sv_in_flight s k = Some i \<Longrightarrow> sv_requests s i = Some (r, ph) \<Longrightarrow> running k ph"
  unfolding phases_ok_def flight_ok_def by fastforce

lemma served_reply: "served key gave k res \<Longrightarrow> key r = Some k \<Longrightarrow> reply_ok key gave r res"
  by (auto simp: served_def reply_ok_def)

text \<open>A step of one request leaves the others as they are when it keeps their entries in flight, their
  requests and what they wait for.\<close>

lemma phase_ok_frame:
  assumes "phase_ok key gave s j r ph"
    and "\<And>k. sv_in_flight s k = Some j \<Longrightarrow> sv_in_flight s' k = Some j"
    and "sv_futures s' j = sv_futures s j"
    and "\<And>i. alive s i \<Longrightarrow> alive s' i"
    and "\<And>i r. map_option fst (sv_requests s i) = Some r \<Longrightarrow> map_option fst (sv_requests s' i) = Some r"
  shows "phase_ok key gave s' j r ph"
  using assms
proof (cases ph)
  case (Owner k)
  then show ?thesis using assms(1,2,3) by (cases k) auto
next
  case (Waiting i)
  then obtain r' where "map_option fst (sv_requests s i) = Some r'" "key r' = key r" "key r \<noteq> None" "alive s i"
    using assms(1) by auto
  then show ?thesis using assms(4) [of i] assms(5) [of i r'] Waiting by auto
qed auto

lemma phases_ok_step:
  assumes ok: "phases_ok key gave s" and req: "case sv_requests s i of None \<Rightarrow> True | Some (r', _) \<Rightarrow> r' = r"
    and s': "sv_requests s' = (sv_requests s)(i \<mapsto> (r, ph))"
    and fut: "\<And>j. j \<noteq> i \<Longrightarrow> sv_futures s' j = sv_futures s j" "\<And>res. sv_futures s' i = Some res \<Longrightarrow> gave r res"
    and flight: "\<And>k j. j \<noteq> i \<Longrightarrow> sv_in_flight s' k = Some j \<longleftrightarrow> sv_in_flight s k = Some j"
      "\<And>k. sv_in_flight s' k = Some i \<Longrightarrow> running k ph"
    and alive: "alive s i \<Longrightarrow> alive s' i"
    and phase: "phase_ok key gave s' i r ph"
  shows "phases_ok key gave s'"
proof -
  have al: "alive s' j" if "alive s j" for j
    using that alive fut(1) [of j] by (cases "j = i") (auto simp: alive_def s')
  have rq: "map_option fst (sv_requests s' j) = Some r'" if "map_option fst (sv_requests s j) = Some r'" for j r'
    using that req by (auto simp: s' split: option.splits)
  have "phase_ok key gave s' j r' ph'" if j: "sv_requests s' j = Some (r', ph')" for j r' ph'
  proof (cases "j = i")
    case True
    then show ?thesis using j phase by (simp add: s')
  next
    case False
    then have "phase_ok key gave s j r' ph'" using ok j by (simp add: phases_ok_def s')
    then show ?thesis by (rule phase_ok_frame) (use False flight(1) fut(1) al rq in auto)
  qed
  moreover have "flight_ok s'"
    unfolding flight_ok_def
  proof (intro allI impI)
    fix k j
    assume k: "sv_in_flight s' k = Some j"
    show "\<exists>r ph. sv_requests s' j = Some (r, ph) \<and> running k ph"
    proof (cases "j = i")
      case True
      then show ?thesis using flight(2) k by (simp add: s')
    next
      case False
      then show ?thesis using ok flight(1) [of j k] k by (simp add: s' phases_ok_def flight_ok_def)
    qed
  qed
  moreover have "futures_ok gave s'"
    unfolding futures_ok_def
  proof (intro allI impI)
    fix j res
    assume res: "sv_futures s' j = Some res"
    show "\<exists>r ph. sv_requests s' j = Some (r, ph) \<and> gave r res"
    proof (cases "j = i")
      case True
      then show ?thesis using res fut(2) by (auto simp: s')
    next
      case False
      then show ?thesis using ok res fut(1) [OF False] by (simp add: s' phases_ok_def futures_ok_def)
    qed
  qed
  ultimately show ?thesis by (simp add: phases_ok_def)
qed

text \<open>The steps of a request that is not running a shared query.\<close>

lemma phases_ok_idle:
  assumes ok: "phases_ok key gave s" and i: "sv_requests s i = Some (r, ph)" and idle: "\<And>k. \<not> running k ph"
    and s': "sv_requests s' = (sv_requests s)(i \<mapsto> (r, p))" "sv_in_flight s' = sv_in_flight s" "sv_futures s' = sv_futures s"
    and phase: "phase_ok key gave s' i r p"
  shows "phases_ok key gave s'"
proof (rule phases_ok_step [OF ok _ s'(1)])
  have "sv_in_flight s k \<noteq> Some i" for k
    using flight_of [OF ok _ i] idle by blast
  then show "running k p" if "sv_in_flight s' k = Some i" for k using that by (simp add: s')
  show "alive s' i" if "alive s i"
    using that i idle by (auto simp: alive_def running_def s')
  show "gave r res" if "sv_futures s' i = Some res" for res
    using future_of [OF ok i] that by (simp add: s')
qed (auto simp: i s' phase)

lemma key_of_Some:
  assumes "key_of cfg hash P r = Some k"
  obtains b where "rq_cacheable r" "rq_block_ptr r = Some b" "k = hash (hashable_of P (rq_query r) (rq_selection_set r) b)"
  using assms that by (auto simp: key_of_def request_key_def cache_key_def split: if_splits option.splits)

lemma key_of_network: "key_of cfg hash P r = Some k \<Longrightarrow> rq_block_ptr r \<noteq> None \<and> rq_network r \<noteq> None"
  by (auto simp: key_of_def request_key_def split: if_splits option.splits)

lemma executed_mono: "executed run n r res \<Longrightarrow> n \<le> m \<Longrightarrow> executed run m r res"
  unfolding executed_def by (elim exE conjE, intro exI conjI) (rule less_le_trans)

section \<open>The server\<close>

text \<open>
  What the caches rely on: the hash has no collisions, and every outcome is one of \<open>run_query\<close>. Nothing is
  assumed of how the outcome depends on the query or on the time.
\<close>

locale query_server = priority_queue Q elems
  for Q :: "('q, 'h, weighted_result) pq_ops" and elems :: "'q \<Rightarrow> 'h \<Rightarrow> ('h, weighted_result) item option" +
  fixes cfg :: query_cache_config and hash :: "hashable_query \<Rightarrow> 'h" and P :: printers
    and run :: "nat \<Rightarrow> request \<Rightarrow> query_result"
  assumes collision_free: "inj hash"
    and outcome: "\<exists>execute panic_message. run t = run_query execute panic_message"
begin

lemma key_same_query:
  assumes "key_of cfg hash P r = Some k" "key_of cfg hash P r' = Some k"
  shows "same_query P r r'"
proof -
  from assms(1) obtain b where b: "rq_cacheable r" "rq_block_ptr r = Some b" "k = hash (hashable_of P (rq_query r) (rq_selection_set r) b)"
    by (rule key_of_Some)
  from assms(2) obtain b' where b': "rq_cacheable r'" "rq_block_ptr r' = Some b'" "k = hash (hashable_of P (rq_query r') (rq_selection_set r') b')"
    by (rule key_of_Some)
  have "hashable_of P (rq_query r) (rq_selection_set r) b = hashable_of P (rq_query r') (rq_selection_set r') b'"
    using b(3) b'(3) by (intro injD [OF collision_free]) simp
  then show ?thesis using b(1,2) b'(1,2) by (simp add: same_query_def hashable_of_def map_prod_def)
qed

lemma executed_has_data:
  assumes "executed run n r res" and "\<not> has_errors res"
  shows "\<exists>data. qrs_data res = Some data"
proof -
  obtain t where t: "res = run t r" using assms(1) by (auto simp: executed_def)
  obtain execute panic_message where "run t = run_query execute panic_message" using outcome by blast
  then show ?thesis
    using assms(2) by (cases "execute r") (simp_all add: t run_query_def has_errors_def result_from_map_def query_result_new_def
        result_from_errors_def result_from_error_def)
qed

lemma stores_ok_mono: "stores_ok elems cfg key gave n s \<Longrightarrow> m \<le> n \<Longrightarrow> stores_ok elems cfg key gave m s"
  using lfu_inv_mono by (auto simp: stores_ok_def)

lemma look_blocks_keeps:
  assumes ok: "server_ok elems cfg (key_of cfg hash P) (executed run N) n s" and i: "sv_requests s i = Some (r, LookBlocks)"
  shows "server_ok elems cfg (key_of cfg hash P) (executed run N) n (look_blocks cfg hash P i r s)"
proof -
  let ?key = "key_of cfg hash P" and ?gave = "executed run N"
  have st: "stores_ok elems cfg ?key ?gave n s" and ph: "phases_ok ?key ?gave s" using ok by (simp_all add: server_ok_def)
  have set: "phases_ok ?key ?gave (at_phase i r p s)" if "phase_ok ?key ?gave (at_phase i r p s) i r p" for p
    by (rule phases_ok_idle [OF ph i _ _ _ _ that]) (simp_all add: running_def)
  show ?thesis
  proof (cases "request_key cfg hash P r")
    case None
    then show ?thesis using st set [of "Owner None"] by (simp add: look_blocks_def server_ok_def stores_ok_def)
  next
    case (Some kb)
    then obtain k network b where k: "request_key cfg hash P r = Some (k, network, b)" by (metis prod_cases3)
    then have key: "?key r = Some k" by (simp add: key_of_def)
    show ?thesis
    proof (cases "query_block_cache_get (sv_blocks s) network b k")
      case None
      then show ?thesis using st set [of "LookLfu k"] k key phase_of [OF ph i] by (simp add: look_blocks_def server_ok_def stores_ok_def)
    next
      case (Some res)
      then have "reply_ok ?key ?gave r res"
        using query_block_cache_get_ok [OF Some] st served_reply [where key = ?key and gave = ?gave, OF _ key] by (auto simp: stores_ok_def)
      then show ?thesis using st set [of "Finished res"] k Some by (simp add: look_blocks_def server_ok_def stores_ok_def)
    qed
  qed
qed

lemma look_lfu_keeps:
  assumes ok: "server_ok elems cfg (key_of cfg hash P) (executed run N) (Suc n) s" and i: "sv_requests s i = Some (r, LookLfu k)"
  shows "server_ok elems cfg (key_of cfg hash P) (executed run N) n (look_lfu Q i r k s)"
proof -
  let ?key = "key_of cfg hash P" and ?gave = "executed run N" and ?c = "fst (lfu_get Q (sv_lfu s) k)"
  have st: "stores_ok elems cfg ?key ?gave (Suc n) s" and ph: "phases_ok ?key ?gave s" using ok by (simp_all add: server_ok_def)
  have key: "?key r = Some k" using phase_of [OF ph i] by simp
  have st': "stores_ok elems cfg ?key ?gave n (at_phase i r p (s\<lparr>sv_lfu := ?c\<rparr>))" for p
    using st inv_lfu_get [of n "sv_lfu s" k] view_lfu_get [of "sv_lfu s" k] by (simp add: stores_ok_def)
  have ph': "phases_ok ?key ?gave (at_phase i r p (s\<lparr>sv_lfu := ?c\<rparr>))" if "phase_ok ?key ?gave (at_phase i r p (s\<lparr>sv_lfu := ?c\<rparr>)) i r p" for p
    by (rule phases_ok_idle [OF ph i _ _ _ _ that]) (simp_all add: running_def)
  show ?thesis
  proof (cases "lfu_view elems (sv_lfu s) k")
    case None
    then have "lfu_get Q (sv_lfu s) k = (?c, None)" using snd_lfu_get [of "sv_lfu s" k] by (metis prod.collapse)
    then have "look_lfu Q i r k s = at_phase i r (Joining k) (s\<lparr>sv_lfu := ?c\<rparr>)" unfolding look_lfu_def by (elim ssubst) simp
    then show ?thesis using st' ph' [of "Joining k"] key phase_of [OF ph i] by (simp add: server_ok_def)
  next
    case (Some wr)
    then have get: "lfu_get Q (sv_lfu s) k = (?c, Some wr)" using snd_lfu_get [of "sv_lfu s" k] by (metis prod.collapse)
    have "reply_ok ?key ?gave r (wr_result wr)" using st Some served_reply [where key = ?key and gave = ?gave, OF _ key] by (simp add: stores_ok_def)
    moreover from get have "look_lfu Q i r k s = at_phase i r (Finished (wr_result wr)) (s\<lparr>sv_lfu := ?c\<rparr>)"
      unfolding look_lfu_def by (elim ssubst) simp
    ultimately show ?thesis using st' ph' [of "Finished (wr_result wr)"] by (simp add: server_ok_def)
  qed
qed

lemma join_flight_keeps:
  assumes ok: "server_ok elems cfg (key_of cfg hash P) (executed run N) n s" and i: "sv_requests s i = Some (r, Joining k)"
  shows "server_ok elems cfg (key_of cfg hash P) (executed run N) n (join_flight i r k s)"
proof -
  let ?key = "key_of cfg hash P" and ?gave = "executed run N"
  have st: "stores_ok elems cfg ?key ?gave n s" and ph: "phases_ok ?key ?gave s" using ok by (simp_all add: server_ok_def)
  have key: "?key r = Some k" using phase_of [OF ph i] by simp
  show ?thesis
  proof (cases "sv_in_flight s k")
    case None
    let ?s = "at_phase i r (Owner (Some k)) (s\<lparr>sv_in_flight := (sv_in_flight s)(k \<mapsto> i)\<rparr>)"
    have free: "sv_in_flight s k' \<noteq> Some i" for k'
      using flight_of [OF ph _ i] by (auto simp: running_def)
    have "phases_ok ?key ?gave ?s"
    proof (rule phases_ok_step [OF ph])
      show "running k' (Owner (Some k))" if "sv_in_flight ?s k' = Some i" for k'
        using that free by (auto simp: running_def split: if_splits)
    qed (use None i key future_of [OF ph i] phase_of [OF ph i] in \<open>auto simp: alive_def\<close>)
    then show ?thesis using st None by (simp add: join_flight_def server_ok_def stores_ok_def)
  next
    case (Some j)
    let ?s = "at_phase i r (Waiting j) s"
    obtain r' p where j: "sv_requests s j = Some (r', p)" "running k p"
      using ph Some unfolding phases_ok_def flight_ok_def by blast
    then have ne: "j \<noteq> i" using i by (auto simp: running_def)
    have pj: "phase_ok ?key ?gave s j r' p" by (rule phase_of [OF ph j(1)])
    then have "?key r' = Some k" "alive s j" using j by (auto simp: running_def alive_def)
    then have "phase_ok ?key ?gave ?s i r (Waiting j)" using j(1) key ne by (auto simp: alive_def)
    then have "phases_ok ?key ?gave ?s" by (rule phases_ok_idle [OF ph i, rotated -1]) (simp_all add: running_def)
    then show ?thesis using st Some by (simp add: join_flight_def server_ok_def stores_ok_def)
  qed
qed

lemma finish_query_keeps:
  assumes ok: "server_ok elems cfg (key_of cfg hash P) (executed run N) n s" and i: "sv_requests s i = Some (r, Owner k)"
    and t: "t < N"
  shows "server_ok elems cfg (key_of cfg hash P) (executed run N) n (finish_query (run t) i r k s)"
proof -
  let ?key = "key_of cfg hash P" and ?gave = "executed run N"
  have st: "stores_ok elems cfg ?key ?gave n s" and ph: "phases_ok ?key ?gave s" using ok by (simp_all add: server_ok_def)
  have gave: "?gave r (run t r)" using t by (auto simp: executed_def)
  show ?thesis
  proof (cases k)
    case None
    have "phases_ok ?key ?gave (at_phase i r (Finished (run t r)) s)"
      by (rule phases_ok_idle [OF ph i, where p = "Finished (run t r)"]) (simp_all add: running_def None reply_ok_def gave)
    then show ?thesis using st None by (simp add: finish_query_def server_ok_def stores_ok_def)
  next
    case (Some k')
    let ?s = "at_phase i r (Ran k' (run t r)) (s\<lparr>sv_futures := (sv_futures s)(i \<mapsto> run t r)\<rparr>)"
    have pi: "phase_ok ?key ?gave s i r (Owner (Some k'))" using phase_of [OF ph i] Some by simp
    have "phases_ok ?key ?gave ?s"
    proof (rule phases_ok_step [OF ph])
      show "running k'' (Ran k' (run t r))" if "sv_in_flight ?s k'' = Some i" for k''
        using flight_of [OF ph _ i, of k''] that by (simp add: running_def Some)
    qed (use gave pi i in \<open>auto simp: alive_def\<close>)
    then show ?thesis using st Some by (simp add: finish_query_def server_ok_def stores_ok_def)
  qed
qed

lemma leave_flight_keeps:
  assumes ok: "server_ok elems cfg (key_of cfg hash P) (executed run N) n s" and i: "sv_requests s i = Some (r, Ran k res)"
  shows "server_ok elems cfg (key_of cfg hash P) (executed run N) n (leave_flight i r k res s)"
proof -
  let ?key = "key_of cfg hash P" and ?gave = "executed run N" and ?s = "leave_flight i r k res s"
  have st: "stores_ok elems cfg ?key ?gave n s" and ph: "phases_ok ?key ?gave s" using ok by (simp_all add: server_ok_def)
  have pi: "phase_ok ?key ?gave s i r (Ran k res)" by (rule phase_of [OF ph i])
  have only: "k' = k" if "sv_in_flight s k' = Some i" for k'
    using flight_of [OF ph that i] by (simp add: running_def)
  have "phases_ok ?key ?gave ?s"
  proof (rule phases_ok_step [OF ph])
    show "running k' (Caching k res)" if "sv_in_flight ?s k' = Some i" for k'
      using that only [of k'] by (auto simp: leave_flight_def split: if_splits)
    show "?gave r res'" if "sv_futures ?s i = Some res'" for res'
      using future_of [OF ph i] that by (simp add: leave_flight_def)
  qed (use pi i in \<open>auto simp: leave_flight_def alive_def\<close>)
  then show ?thesis using st by (simp add: leave_flight_def server_ok_def stores_ok_def)
qed

lemma await_query_keeps:
  assumes ok: "server_ok elems cfg (key_of cfg hash P) (executed run N) n s" and i: "sv_requests s i = Some (r, Waiting j)"
    and s': "await_query i r j s = Some s'"
  shows "server_ok elems cfg (key_of cfg hash P) (executed run N) n s'"
proof -
  let ?key = "key_of cfg hash P" and ?gave = "executed run N"
  have st: "stores_ok elems cfg ?key ?gave n s" and ph: "phases_ok ?key ?gave s" using ok by (simp_all add: server_ok_def)
  obtain res where res: "sv_futures s j = Some res" "s' = at_phase i r (Finished res) s"
    using s' by (auto simp: await_query_def)
  have "phase_ok ?key ?gave s i r (Waiting j)" by (rule phase_of [OF ph i])
  then obtain r' k where "map_option fst (sv_requests s j) = Some r'" "?key r' = Some k" "?key r = Some k" by auto
  moreover have "\<exists>r ph. sv_requests s j = Some (r, ph) \<and> ?gave r res"
    using ph res(1) by (simp add: phases_ok_def futures_ok_def)
  ultimately have "reply_ok ?key ?gave r res" by (auto simp: reply_ok_def)
  then have "phases_ok ?key ?gave s'" by (intro phases_ok_idle [OF ph i, where p = "Finished res"]) (simp_all add: running_def res)
  then show ?thesis using st by (simp add: res server_ok_def stores_ok_def)
qed

lemma evict_returns:
  assumes "lfu_inv elems n c"
  shows "\<exists>c' x. evict_with_period Q c mw period = Some (Ok (c', x)) \<and> lfu_inv elems n c' \<and> lfu_view elems c' \<subseteq>\<^sub>m lfu_view elems c"
proof (cases "mw < total_weight c")
  case True
  then show ?thesis using evict_with_period_ok [OF assms True, of period] by blast
next
  case False
  then show ?thesis using assms by (simp add: evict_with_period_def not_less)
qed

lemma cache_result_keeps:
  assumes ok: "server_ok elems cfg (key_of cfg hash P) (executed run N) (Suc n) s" and i: "sv_requests s i = Some (r, Caching k res)"
  shows "\<exists>s'. cache_result Q w weigh cfg i r k res s = Some (Ok s') \<and> server_ok elems cfg (key_of cfg hash P) (executed run N) n s'
    \<and> sv_requests s' = (sv_requests s)(i \<mapsto> (r, Finished res))"
proof -
  let ?key = "key_of cfg hash P" and ?gave = "executed run N"
  have st: "stores_ok elems cfg ?key ?gave (Suc n) s" and ph: "phases_ok ?key ?gave s" using ok by (simp_all add: server_ok_def)
  have key: "?key r = Some k" and res: "?gave r res" using phase_of [OF ph i] by simp_all
  have ph': "phases_ok ?key ?gave (at_phase i r (Finished res) s')"
    if "sv_requests s' = sv_requests s" "sv_in_flight s' = sv_in_flight s" "sv_futures s' = sv_futures s" for s'
    by (rule phases_ok_idle [OF ph i, where p = "Finished res"]) (simp_all add: running_def that res reply_ok_def)
  show ?thesis
  proof (cases "has_errors res")
    case True
    then show ?thesis
      using ph' [of s] stores_ok_mono [OF st, of n] by (simp add: cache_result_def server_ok_def stores_ok_def)
  next
    case False
    obtain b network where b: "rq_block_ptr r = Some b" "rq_network r = Some network" using key_of_network [OF key] by auto
    obtain data where data: "qrs_data res = Some data" using executed_has_data [OF res False] by blast
    have sv: "served ?key ?gave k res" using False key res by (auto simp: served_def)
    obtain blocks inserted where ins: "query_block_cache_insert cfg network b k res (weigh data) (sv_blocks s) = Ok (blocks, inserted)"
        "caches_ok cfg (served ?key ?gave) blocks"
      using query_block_cache_insert_ok [where ok = "served ?key ?gave", OF False sv] st unfolding stores_ok_def by blast
    obtain c x where ev: "evict_with_period Q (sv_lfu s) (QUERY_CACHE_MAX_MEM cfg) (QUERY_CACHE_STALE_PERIOD cfg) = Some (Ok (c, x))"
        "lfu_inv elems (Suc n) c" "lfu_view elems c \<subseteq>\<^sub>m lfu_view elems (sv_lfu s)"
      using evict_returns st unfolding stores_ok_def by blast
    let ?c = "lfu_insert Q w c k \<lparr>wr_result = res, wr_weight = weigh data\<rparr>"
    have lfu: "lfu_inv elems n (sv_lfu s)" "\<And>k' wr. lfu_view elems (sv_lfu s) k' = Some wr \<Longrightarrow> served ?key ?gave k' (wr_result wr)"
      using stores_ok_mono [OF st, of n] by (auto simp: stores_ok_def)
    have "served ?key ?gave k' (wr_result wr)" if "lfu_view elems ?c k' = Some wr" for k' wr
    proof (cases "k' = k")
      case True
      then show ?thesis using that sv by (auto simp: view_lfu_insert)
    next
      case False
      then have "lfu_view elems c k' = Some wr" using that by (simp add: view_lfu_insert)
      then have "lfu_view elems (sv_lfu s) k' = Some wr" using ev(3) by (auto simp: map_le_def dom_def)
      then show ?thesis by (rule lfu(2))
    qed
    then have st': "stores_ok elems cfg ?key ?gave n (at_phase i r (Finished res) (s\<lparr>sv_blocks := blocks, sv_lfu := ?c\<rparr>))"
      using ins(2) inv_lfu_insert [OF ev(2)] by (simp add: stores_ok_def)
    have st'': "stores_ok elems cfg ?key ?gave n (at_phase i r (Finished res) (s\<lparr>sv_blocks := blocks\<rparr>))"
      using ins(2) lfu by (auto simp: stores_ok_def)
    let ?s = "if inserted then s\<lparr>sv_blocks := blocks\<rparr> else s\<lparr>sv_blocks := blocks, sv_lfu := ?c\<rparr>"
    have "cache_result Q w weigh cfg i r k res s = Some (Ok (at_phase i r (Finished res) ?s))"
      using False b data ins(1) ev(1) by (cases inserted) (simp_all add: cache_result_def)
    moreover have "phases_ok ?key ?gave (at_phase i r (Finished res) ?s)" by (rule ph') simp_all
    moreover have "stores_ok elems cfg ?key ?gave n (at_phase i r (Finished res) ?s)" using st' st'' by simp
    ultimately show ?thesis by (simp add: server_ok_def)
  qed
qed

text \<open>A request that is not finished and does not wait for a running query makes a step.\<close>

lemma request_step_ok:
  assumes ok: "server_ok elems cfg (key_of cfg hash P) (executed run N) (Suc n) s" and i: "sv_requests s i = Some (r, ph)"
    and t: "t < N" and free: "case ph of Finished _ \<Rightarrow> False | Waiting j \<Rightarrow> sv_futures s j \<noteq> None | _ \<Rightarrow> True"
  shows "\<exists>s' ph'. request_step Q w weigh cfg hash P (run t) i s = Some (Ok s') \<and> server_ok elems cfg (key_of cfg hash P) (executed run N) n s'
    \<and> sv_requests s' = (sv_requests s)(i \<mapsto> (r, ph')) \<and> steps_left ph' < steps_left ph"
proof -
  have ok': "server_ok elems cfg (key_of cfg hash P) (executed run N) n s"
    using ok stores_ok_mono [where n = "Suc n" and m = n] by (simp add: server_ok_def)
  show ?thesis
  proof (cases ph)
    case LookBlocks
    note i = i [unfolded LookBlocks]
    show ?thesis
      using look_blocks_keeps [OF ok' i]
      by (auto simp: request_step_def i LookBlocks look_blocks_def split: option.splits)
  next
    case (LookLfu k)
    note i = i [unfolded LookLfu]
    show ?thesis
      using look_lfu_keeps [OF ok i]
      by (auto simp: request_step_def i LookLfu look_lfu_def split: option.splits prod.splits)
  next
    case (Joining k)
    note i = i [unfolded Joining]
    show ?thesis
      using join_flight_keeps [OF ok' i] by (auto simp: request_step_def i Joining join_flight_def split: option.splits)
  next
    case (Owner k)
    note i = i [unfolded Owner]
    show ?thesis
      using finish_query_keeps [OF ok' i t] by (auto simp: request_step_def i Owner finish_query_def split: option.splits)
  next
    case (Waiting j)
    note i = i [unfolded Waiting]
    obtain res where "sv_futures s j = Some res" using free Waiting by auto
    then have a: "await_query i r j s = Some (at_phase i r (Finished res) s)" by (simp add: await_query_def)
    show ?thesis using await_query_keeps [OF ok' i a] by (intro exI [of _ "at_phase i r (Finished res) s"] exI [of _ "Finished res"]) (simp add: request_step_def i Waiting a)
  next
    case (Ran k res)
    note i = i [unfolded Ran]
    show ?thesis using leave_flight_keeps [OF ok' i]
      by (intro exI [of _ "leave_flight i r k res s"] exI [of _ "Caching k res"]) (simp add: request_step_def i Ran leave_flight_def)
  next
    case (Caching k res)
    note i = i [unfolded Caching]
    show ?thesis using cache_result_keeps [OF ok i, of w weigh] by (force simp: request_step_def i Caching)
  next
    case (Finished res)
    then show ?thesis using free by simp
  qed
qed

lemma request_step_inv:
  assumes ok: "server_ok elems cfg (key_of cfg hash P) (executed run N) (Suc n) s"
    and t: "t < N" and step: "request_step Q w weigh cfg hash P (run t) i s = Some x"
  shows "\<exists>s' r ph ph'. x = Ok s' \<and> server_ok elems cfg (key_of cfg hash P) (executed run N) n s' \<and> sv_requests s i = Some (r, ph)
    \<and> sv_requests s' = (sv_requests s)(i \<mapsto> (r, ph')) \<and> steps_left ph' < steps_left ph"
proof -
  obtain r ph where i: "sv_requests s i = Some (r, ph)"
    using step by (cases "sv_requests s i") (auto simp: request_step_def)
  have "case ph of Finished _ \<Rightarrow> False | Waiting j \<Rightarrow> sv_futures s j \<noteq> None | _ \<Rightarrow> True"
    using step by (cases ph) (auto simp: request_step_def i await_query_def)
  from request_step_ok [OF ok i t this, of w weigh] show ?thesis using step i by auto
qed

lemma server_new_ok: "n + 1 < 2 ^ 64 \<Longrightarrow> server_ok elems cfg (key_of cfg hash P) (executed run N) n (server_new Q)"
  by (simp add: server_ok_def stores_ok_def phases_ok_def flight_ok_def futures_ok_def server_new_def caches_ok_def
      lfu_inv_def lfu_view_def lfu_new_def elems_new freqs_ok_def)

lemma arrive_ok:
  assumes ok: "server_ok elems cfg (key_of cfg hash P) (executed run N) n s" and i: "sv_requests s i = None"
  shows "server_ok elems cfg (key_of cfg hash P) (executed run N) n (at_phase i r LookBlocks s)"
proof -
  let ?key = "key_of cfg hash P" and ?gave = "executed run N"
  have st: "stores_ok elems cfg ?key ?gave n s" and ph: "phases_ok ?key ?gave s" using ok by (simp_all add: server_ok_def)
  have fl: "sv_in_flight s k \<noteq> Some i" for k using ph i unfolding phases_ok_def flight_ok_def by fastforce
  have fu: "sv_futures s i = None" using ph i unfolding phases_ok_def futures_ok_def by (cases "sv_futures s i") fastforce+
  have "phases_ok ?key ?gave (at_phase i r LookBlocks s)"
    by (rule phases_ok_step [OF ph]) (use fl fu i in \<open>auto simp: alive_def\<close>)
  then show ?thesis using st by (simp add: server_ok_def stores_ok_def)
qed

lemma server_run_ok: "server_run Q w weigh cfg hash P run n s \<Longrightarrow> n + m + 1 < 2 ^ 64 \<Longrightarrow>
    server_ok elems cfg (key_of cfg hash P) (executed run n) m s \<and> finite (dom (sv_requests s))"
proof (induction arbitrary: m rule: server_run.induct)
  case run_start
  then show ?case using server_new_ok [of m] by (simp add: server_new_def)
next
  case (run_arrive n s i r)
  then have "server_ok elems cfg (key_of cfg hash P) (executed run n) m (at_phase i r LookBlocks s)"
    using arrive_ok [of n m s i r] run_arrive.IH [of m] by linarith
  then have "server_ok elems cfg (key_of cfg hash P) (executed run (Suc n)) m (at_phase i r LookBlocks s)"
    by (rule server_ok_mono) (erule executed_mono, simp)
  then show ?case using run_arrive finite_at_phase [of s i r LookBlocks] run_arrive.IH [of m] by linarith
next
  case (run_request n s i s')
  have ok: "server_ok elems cfg (key_of cfg hash P) (executed run n) (Suc m) s" "finite (dom (sv_requests s))"
    using run_request.IH [of "Suc m"] run_request.prems by simp_all
  from ok(1) have "server_ok elems cfg (key_of cfg hash P) (executed run (Suc n)) (Suc m) s"
    by (rule server_ok_mono) (erule executed_mono, simp)
  from request_step_inv [OF this lessI run_request.hyps(2)] ok(2) show ?case by auto
qed

lemma work_decreases:
  assumes "finite (dom (sv_requests s))" and "sv_requests s i = Some (r, ph)"
    and "sv_requests s' = (sv_requests s)(i \<mapsto> (r, ph'))" and "steps_left ph' < steps_left ph"
  shows "work s' < work s"
proof -
  have "dom (sv_requests s') = dom (sv_requests s)" using assms(2,3) by auto
  then show ?thesis
    unfolding work_def by (simp only:) (rule sum_strict_mono_ex1 [OF assms(1)], use assms(2-4) in auto)
qed

text \<open>Someone can go on: what a waiting request waits for is being run.\<close>

lemma unfinished_steps:
  assumes ok: "server_ok elems cfg (key_of cfg hash P) (executed run N) (Suc n) s" and i: "sv_requests s i = Some (r, ph)"
    and t: "t < N" and "\<And>res. ph \<noteq> Finished res"
  shows "\<exists>j s'. request_step Q w weigh cfg hash P (run t) j s = Some (Ok s') \<and> (j = i \<or> ph = Waiting j)"
proof (cases "\<exists>j. ph = Waiting j \<and> sv_futures s j = None")
  case True
  then obtain j where j: "ph = Waiting j" "sv_futures s j = None" by blast
  have "alive s j" using ok i j(1) phase_of [of "key_of cfg hash P" "executed run N" s i r ph] by (simp add: server_ok_def)
  then obtain r' k where "sv_requests s j = Some (r', Owner (Some k))" using j(2) by (auto simp: alive_def)
  then have "request_step Q w weigh cfg hash P (run t) j s = Some (Ok (finish_query (run t) j r' (Some k) s))"
    by (simp add: request_step_def)
  then show ?thesis using j(1) by blast
next
  case False
  then have "case ph of Finished _ \<Rightarrow> False | Waiting j \<Rightarrow> sv_futures s j \<noteq> None | _ \<Rightarrow> True"
    using assms(4) by (cases ph) auto
  from request_step_ok [OF ok i t this, of w weigh] show ?thesis by blast
qed

end

section \<open>Properties\<close>

text \<open>C5. Caching and sharing never mix up queries: whatever requests arrive, however their steps interleave and
  whatever executing a query gives at different times, the result a request is answered with is what executing
  its own query gave in some step of the run or, if both requests are cacheable, what executing the same query
  gave: one for the same block pointer and deployment whose selections, variables and fragments print the same.
  The only thing assumed of the hash is that it has no collisions.\<close>

theorem query_cache_transparent:
  assumes "query_server Q elems hash run" and "server_run Q w weigh cfg hash P run n s" and "n + 1 < 2 ^ 64"
    and "sv_requests s i = Some (r, Finished res)"
  shows "\<exists>t r'. t < n \<and> res = run t r' \<and> (r' = r \<or> same_query P r r')"
proof -
  have "server_ok elems cfg (key_of cfg hash P) (executed run n) 0 s"
    using query_server.server_run_ok [OF assms(1,2), of 0] assms(3) by simp
  then have "reply_ok (key_of cfg hash P) (executed run n) r res"
    using phase_of [OF _ assms(4), of "key_of cfg hash P" "executed run n"] by (simp add: server_ok_def)
  then show ?thesis
    unfolding reply_ok_def executed_def using query_server.key_same_query [OF assms(1)] by blast
qed

text \<open>C23. Identical queries are not executed in parallel, and the cache of recent blocks stays within its
  limits: for a network no more than \<open>QUERY_CACHE_BLOCKS\<close> blocks, the most recent one first; the results stored
  for a block have no errors and weigh at most \<open>QUERY_CACHE_MAX_MEM / QUERY_CACHE_BLOCKS\<close> together, so that those
  stored for the network weigh at most \<open>QUERY_CACHE_MAX_MEM\<close>. No single result is so large that its weight and
  the limit together exceed \<open>usize\<close>.\<close>

theorem query_cache_bounds:
  assumes "query_server Q elems hash run" and "server_run Q w weigh cfg hash P run n s" and "n + 1 < 2 ^ 64"
    and "no_wrap weigh cfg"
  shows "(\<forall>i j r r' k. sv_requests s i = Some (r, Owner (Some k)) \<and> sv_requests s j = Some (r', Owner (Some k)) \<longrightarrow> i = j)
    \<and> (\<forall>(network, blocks) \<in> set (sv_blocks s).
        length blocks \<le> unat (QUERY_CACHE_BLOCKS cfg) \<and>
        sorted_wrt (\<lambda>a b. ptr_number b \<le> ptr_number a) (map cb_block blocks) \<and> distinct (map cb_block blocks) \<and>
        (\<Sum>c \<leftarrow> blocks. stored_weight weigh c) \<le> unat (QUERY_CACHE_MAX_MEM cfg) \<and>
        (\<forall>c \<in> set blocks. stored_weight weigh c \<le> unat (cb_weight c) \<and>
          cb_weight c \<le> QUERY_CACHE_MAX_MEM cfg div QUERY_CACHE_BLOCKS cfg \<and>
          (\<forall>k res. map_of (cb_cache c) k = Some res \<longrightarrow> \<not> has_errors res)))"
proof -
  have ok: "server_ok elems cfg (key_of cfg hash P) (executed run n) 0 s"
    using query_server.server_run_ok [OF assms(1,2), of 0] assms(3) by simp
  have "i = j" if "sv_requests s i = Some (r, Owner (Some k))" "sv_requests s j = Some (r', Owner (Some k))" for i j r r' k
    using phase_of [OF _ that(1)] phase_of [OF _ that(2)] ok by (fastforce simp: server_ok_def)
  moreover have caches: "caches_ok cfg (served (key_of cfg hash P) (executed run n)) (sv_blocks s)"
    using ok by (simp add: server_ok_def stores_ok_def)
  moreover have memory: "\<forall>c \<in> set blocks. entry_memory weigh cfg c" if "(network, blocks) \<in> set (sv_blocks s)" for network blocks
    using server_run_memory [OF assms(2,4)] that by (auto simp: caches_memory_def)
  moreover have "(\<Sum>c \<leftarrow> blocks. stored_weight weigh c) \<le> unat (QUERY_CACHE_MAX_MEM cfg)"
    if "(network, blocks) \<in> set (sv_blocks s)" for network blocks
    by (rule stored_weight_total [OF memory [OF that]]) (use caches that in \<open>auto simp: caches_ok_def blocks_ok_def\<close>)
  ultimately show ?thesis unfolding caches_ok_def blocks_ok_def served_def entry_memory_def by fastforce
qed

text \<open>C22. The server makes progress: the next step of a request, whatever an execution gives at that time,
  never panics, every step leaves less work (at most six steps for each request), and as long as some request is
  not answered some request can make a step. In particular nobody waits for a query that no one executes.\<close>

theorem query_server_progress:
  assumes "query_server Q elems hash run" and "server_run Q w weigh cfg hash P run n s" and "n + 2 < 2 ^ 64"
  shows "(\<forall>t i x. request_step Q w weigh cfg hash P (run t) i s = Some x \<longrightarrow> (\<exists>s'. x = Ok s' \<and> work s' < work s))
    \<and> work s \<le> 6 * card (dom (sv_requests s))
    \<and> (\<forall>t i r ph. sv_requests s i = Some (r, ph) \<longrightarrow> (\<exists>res. ph = Finished res) \<or>
         (\<exists>j s'. request_step Q w weigh cfg hash P (run t) j s = Some (Ok s') \<and> (j = i \<or> ph = Waiting j)))"
proof (intro conjI allI impI)
  have fin: "finite (dom (sv_requests s))" and ok: "server_ok elems cfg (key_of cfg hash P) (executed run n) (Suc 0) s"
    using query_server.server_run_ok [OF assms(1,2), of "Suc 0"] assms(3) by simp_all
  have at: "server_ok elems cfg (key_of cfg hash P) (executed run (Suc (max t n))) (Suc 0) s" for t
    using ok by (rule server_ok_mono) (erule executed_mono, simp)
  have lt: "t < Suc (max t n)" for t by simp
  show "\<exists>s'. x = Ok s' \<and> work s' < work s" if "request_step Q w weigh cfg hash P (run t) i s = Some x" for t i x
    using query_server.request_step_inv [OF assms(1) at lt that] query_server.work_decreases [OF assms(1) fin] by blast
  have "steps_left ph \<le> 6" for ph :: "'b phase" by (cases ph) simp_all
  then show "work s \<le> 6 * card (dom (sv_requests s))"
    unfolding work_def using sum_bounded_above [of "dom (sv_requests s)" "\<lambda>i. steps_left (snd (the (sv_requests s i)))" 6]
    by (simp add: mult.commute)
  show "(\<exists>res. ph = Finished res) \<or> (\<exists>j s'. request_step Q w weigh cfg hash P (run t) j s = Some (Ok s') \<and> (j = i \<or> ph = Waiting j))"
    if "sv_requests s i = Some (r, ph)" for t i r ph
    using query_server.unfinished_steps [OF assms(1) at that lt, of w weigh] by blast
qed

subsection \<open>The hypotheses can hold\<close>

text \<open>A server whose queries return the number of the block they are asked at and the time at which they are
  executed, with the hashed query as its hash.\<close>

definition demo_printers :: printers where
  "demo_printers = \<lparr>print_value = (\<lambda>v. []), print_fragment = (\<lambda>f. []), print_selection_set = (\<lambda>ss. [])\<rparr>"

definition demo_execute :: "nat \<Rightarrow> request \<Rightarrow> ((string, qvalue) btreemap, query_execution_error list) result" where
  "demo_execute t r =
     (case rq_block_ptr r of None \<Rightarrow> Panic | Some b \<Rightarrow> Ok [(''n'', QInt (ptr_number b)), (''t'', QInt (of_nat t))])"

definition demo_query_run :: "nat \<Rightarrow> request \<Rightarrow> query_result" where
  "demo_query_run t = run_query (demo_execute t) (\<lambda>r. ''no block'')"

interpretation demo_server: query_server list_pq list_elems cfg id demo_printers demo_query_run for cfg
proof
  show "\<exists>execute panic_message. demo_query_run t = run_query execute panic_message" for t
    unfolding demo_query_run_def by blast
qed simp

text \<open>Requests 0 and 1 ask the same; the list says whose turn it is.\<close>

fun schedule ::
  "(nat \<Rightarrow> ('q, 'h) server \<Rightarrow> nat \<Rightarrow> (('q, 'h) server, unit) result option) \<Rightarrow> nat \<Rightarrow> nat list \<Rightarrow> ('q, 'h) server \<Rightarrow> ('q, 'h) server option" where
  "schedule f n [] s = Some s"
| "schedule f n (i # is) s = (case f n s i of Some (Ok s') \<Rightarrow> schedule f (Suc n) is s' | _ \<Rightarrow> None)"

lemma schedule_run:
  "server_run Q w weigh cfg hash P run n s \<Longrightarrow> schedule (\<lambda>n s i. request_step Q w weigh cfg hash P (run n) i s) n is s = Some s' \<Longrightarrow>
    server_run Q w weigh cfg hash P run (n + length is) s'"
proof (induction "is" arbitrary: n s)
  case (Cons i "is")
  then obtain t where t: "request_step Q w weigh cfg hash P (run n) i s = Some (Ok t)"
    "schedule (\<lambda>n s i. request_step Q w weigh cfg hash P (run n) i s) (Suc n) is t = Some s'"
    by (auto split: option.splits result.splits)
  then show ?case using Cons.IH [OF run_request [OF Cons.prems(1) t(1)] t(2)] by simp
qed simp

definition demo_cfg :: query_cache_config where
  "demo_cfg = \<lparr>CACHED_SUBGRAPH_IDS = [''*''], QUERY_CACHE_BLOCKS = 1, QUERY_CACHE_MAX_MEM = 1000, QUERY_CACHE_STALE_PERIOD = 100\<rparr>"

definition demo_request :: request where
  "demo_request = \<lparr>rq_cacheable = True, rq_query = demo_query [] [], rq_network = Some ''mainnet'', rq_selection_set = [],
     rq_block_ptr = Some (BlockPtr [7] 7)\<rparr>"

definition demo_server_step ::
  "nat \<Rightarrow> ((hashable_query, weighted_result) item list, hashable_query) server \<Rightarrow> nat
   \<Rightarrow> (((hashable_query, weighted_result) item list, hashable_query) server, unit) result option" where
  "demo_server_step n s i = request_step list_pq (\<lambda>k v. 1) (\<lambda>v. 10) demo_cfg id demo_printers (demo_query_run n) i s"

definition demo_server_start :: "((hashable_query, weighted_result) item list, hashable_query) server" where
  "demo_server_start = at_phase 1 demo_request LookBlocks (at_phase 0 demo_request LookBlocks (server_new list_pq))"

lemma demo_server_start_run: "server_run list_pq (\<lambda>k v. 1) (\<lambda>v. 10) demo_cfg id demo_printers demo_query_run 2 demo_server_start"
  unfolding demo_server_start_def numeral_2_eq_2
  by (intro run_arrive run_start) (simp_all add: server_new_def)

lemma demo_schedule_run:
  "schedule demo_server_step 2 is demo_server_start = Some s \<Longrightarrow>
    server_run list_pq (\<lambda>k v. 1) (\<lambda>v. 10) demo_cfg id demo_printers demo_query_run (2 + length is) s"
  using schedule_run [OF demo_server_start_run, of "is" s] unfolding demo_server_step_def by simp

text \<open>Request 1 waits for the query of request 0, which is executed in step 8, and takes its result; the result is
  in the cache of recent blocks afterwards.\<close>

definition demo_shared :: "((hashable_query, weighted_result) item list, hashable_query) server" where
  "demo_shared = the (schedule demo_server_step 2 [0, 1, 0, 1, 0, 1, 0, 1, 0, 0] demo_server_start)"

lemma demo_shared_schedule: "schedule demo_server_step 2 [0, 1, 0, 1, 0, 1, 0, 1, 0, 0] demo_server_start \<noteq> None"
  by code_simp

lemma demo_shared_run: "server_run list_pq (\<lambda>k v. 1) (\<lambda>v. 10) demo_cfg id demo_printers demo_query_run 12 demo_shared"
  using demo_shared_schedule demo_schedule_run [of "[0, 1, 0, 1, 0, 1, 0, 1, 0, 0]" demo_shared]
  by (auto simp: demo_shared_def)

lemma demo_shared_request:
  "sv_requests demo_shared 1 = Some (demo_request, Finished (result_from_map [(''n'', QInt 7), (''t'', QInt 8)]))"
  by code_simp

lemma demo_shared_blocks:
  "map (\<lambda>(n, bs). (n, map (\<lambda>c. (cb_weight c, stored_weight (\<lambda>v. 10) c)) bs)) (sv_blocks demo_shared) = [(''mainnet'', [(10, 10)])]"
  by code_simp

lemma demo_no_wrap: "no_wrap (\<lambda>v. 10) demo_cfg"
  by (simp add: no_wrap_def demo_cfg_def)

theorem query_cache_transparent_witness:
  "sv_requests demo_shared 1 = Some (demo_request, Finished (result_from_map [(''n'', QInt 7), (''t'', QInt 8)]))
   \<and> (\<exists>t r'. t < 12 \<and> result_from_map [(''n'', QInt 7), (''t'', QInt 8)] = demo_query_run t r'
        \<and> (r' = demo_request \<or> same_query demo_printers demo_request r'))"
  using query_cache_transparent [OF demo_server.query_server_axioms demo_shared_run _ demo_shared_request] demo_shared_request
  by simp

theorem query_cache_bounds_witness:
  "map (\<lambda>(n, bs). (n, map (\<lambda>c. (cb_weight c, stored_weight (\<lambda>v. 10) c)) bs)) (sv_blocks demo_shared) = [(''mainnet'', [(10, 10)])]
   \<and> list_all (\<lambda>(n, bs). length bs \<le> 1 \<and> (\<Sum>c \<leftarrow> bs. stored_weight (\<lambda>v. 10) c) \<le> 1000) (sv_blocks demo_shared)"
  using query_cache_bounds [OF demo_server.query_server_axioms demo_shared_run _ demo_no_wrap] demo_shared_blocks
  by (auto simp: list_all_iff demo_cfg_def)

theorem query_server_progress_witness:
  "\<exists>s'. demo_server_step 2 demo_server_start 1 = Some (Ok s') \<and> work s' < work demo_server_start"
proof -
  obtain x where "demo_server_step 2 demo_server_start 1 = Some x"
    by (cases "demo_server_step 2 demo_server_start 1")
      (auto simp: demo_server_step_def demo_server_start_def request_step_def)
  then show ?thesis
    using query_server_progress [OF demo_server.query_server_axioms demo_server_start_run]
    by (auto simp: demo_server_step_def)
qed

end
