(* ===== verification/Execution.thy ===== *)
theory Execution
  imports QueryBuilder QueryCache
begin

text \<open>
  Execution of a prepared query (\<open>graphql/src/execution/execution.rs\<close>, \<open>graphql/src/execution/resolver.rs\<close>,
  \<open>graphql/src/store/resolver.rs\<close>). The data of a query is fetched before it is executed; execution arranges it in the shape of the
  query. A \<open>Resolver\<close> is a record of its methods. Execution of nested objects recurses without a bound of its own:
  \<open>executor_stack bottom d\<close> runs the code on a call stack of depth \<open>d\<close> with any executor \<open>bottom\<close> below it, and
  the program is the instance where running out of the stack is a panic. What the clock
  says when a field is reached is a function of the place of the field in the response, so that every
  possible timing is some such function.
\<close>

section \<open>Resolvers\<close>

type_synonym arguments = "(string, qvalue) hashmap"
type_synonym errors = "query_execution_error list"

record resolver =
  rs_prefetch :: "query \<Rightarrow> selection list \<Rightarrow> (qvalue option, errors) result"
  rs_objects :: "qvalue option \<Rightarrow> selection \<Rightarrow> field_def \<Rightarrow> object_or_interface \<Rightarrow> arguments \<Rightarrow> (qvalue, query_execution_error) result"
  rs_object :: "qvalue option \<Rightarrow> selection \<Rightarrow> field_def \<Rightarrow> object_or_interface \<Rightarrow> arguments \<Rightarrow> (qvalue, query_execution_error) result"
  rs_enum_value :: "selection \<Rightarrow> enum_type \<Rightarrow> qvalue option \<Rightarrow> (qvalue, query_execution_error) result"
  rs_scalar_value :: "object_type \<Rightarrow> selection \<Rightarrow> scalar_type \<Rightarrow> qvalue option \<Rightarrow> arguments \<Rightarrow> (qvalue, query_execution_error) result"
  rs_enum_values :: "selection \<Rightarrow> enum_type \<Rightarrow> qvalue option \<Rightarrow> (qvalue, errors) result"
  rs_scalar_values :: "selection \<Rightarrow> scalar_type \<Rightarrow> qvalue option \<Rightarrow> (qvalue, errors) result"
  rs_abstract_type :: "document \<Rightarrow> type_definition \<Rightarrow> qvalue \<Rightarrow> (object_type option, errors) result"

text \<open>The methods that the trait provides.\<close>

definition default_enum_value :: "selection \<Rightarrow> enum_type \<Rightarrow> qvalue option \<Rightarrow> (qvalue, query_execution_error) result" where
  "default_enum_value field t value = Ok (case value of None \<Rightarrow> QNull | Some v \<Rightarrow> v)"

definition default_scalar_value ::
  "object_type \<Rightarrow> selection \<Rightarrow> scalar_type \<Rightarrow> qvalue option \<Rightarrow> arguments \<Rightarrow> (qvalue, query_execution_error) result" where
  "default_scalar_value parent field t value args = Ok (case value of None \<Rightarrow> QNull | Some v \<Rightarrow> v)"

definition default_enum_values :: "selection \<Rightarrow> enum_type \<Rightarrow> qvalue option \<Rightarrow> (qvalue, errors) result" where
  "default_enum_values field t value = Ok (case value of None \<Rightarrow> QNull | Some v \<Rightarrow> v)"

definition default_scalar_values :: "selection \<Rightarrow> scalar_type \<Rightarrow> qvalue option \<Rightarrow> (qvalue, errors) result" where
  "default_scalar_values field t value = Ok (case value of None \<Rightarrow> QNull | Some v \<Rightarrow> v)"

definition default_abstract_type :: "document \<Rightarrow> type_definition \<Rightarrow> qvalue \<Rightarrow> (object_type option, errors) result" where
  "default_abstract_type schema abstract_type object_value =
     (case object_value of
        QObject data \<Rightarrow>
          (case map_of data ''__typename'' of
             Some (QString name) \<Rightarrow>
               (case get_named_type schema name of
                  Some (ObjectDef t) \<Rightarrow> Ok (Some t)
                | _ \<Rightarrow> Panic)
           | _ \<Rightarrow> Panic)
      | _ \<Rightarrow> Panic)"

text \<open>\<open>StoreResolver\<close>: the values are those that were prefetched.\<close>

definition store_resolve_objects ::
  "qvalue option \<Rightarrow> selection \<Rightarrow> field_def \<Rightarrow> object_or_interface \<Rightarrow> arguments \<Rightarrow> (qvalue, query_execution_error) result" where
  "store_resolve_objects prefetched field field_definition ty args =
     (case prefetched of
        Some child \<Rightarrow> Ok child
      | None \<Rightarrow> Err (ResolveEntitiesError (''internal error resolving '' @ oi_name ty @ ''.'' @ sel_name field @
                  '': expected prefetched result, but found nothing'')))"

definition store_resolve_object ::
  "qvalue option \<Rightarrow> selection \<Rightarrow> field_def \<Rightarrow> object_or_interface \<Rightarrow> arguments \<Rightarrow> (qvalue, query_execution_error) result" where
  "store_resolve_object prefetched field field_definition ty args =
     (case prefetched of
        Some (QList children) \<Rightarrow>
          if length children > 1
          then and_then (expect (get_derived_from_field ty field_definition)) (\<lambda>derived_from_field.
                 Err (AmbiguousDerivedFromResult (sel_position field) (sel_name field) (oi_name ty) (fd_name derived_from_field)))
          else Ok (case children of [] \<Rightarrow> QNull | child # _ \<Rightarrow> child)
      | _ \<Rightarrow> Err (ResolveEntitiesError (''internal error resolving '' @ oi_name ty @ ''.'' @ sel_name field @
                '': expected prefetched result, but found nothing'')))"

definition store_resolver :: "(query \<Rightarrow> selection list \<Rightarrow> (qvalue, errors) result) \<Rightarrow> resolver" where
  "store_resolver prefetch =
     \<lparr>rs_prefetch = (\<lambda>q ss. and_then (prefetch q ss) (\<lambda>v. Ok (Some v))),
      rs_objects = store_resolve_objects, rs_object = store_resolve_object,
      rs_enum_value = default_enum_value, rs_scalar_value = default_scalar_value,
      rs_enum_values = default_enum_values, rs_scalar_values = default_scalar_values,
      rs_abstract_type = default_abstract_type\<rparr>"

section \<open>The context\<close>

text \<open>A place in the response: response keys and indices of list elements.\<close>

type_synonym path = "(string + nat) list"

record execution_context =
  xc_query :: query
  xc_resolver :: resolver
  xc_late :: "path \<Rightarrow> bool"
  xc_coercion_depth :: nat
  xc_float_to_string :: "64 word \<Rightarrow> string"

definition xc_document :: "execution_context \<Rightarrow> document" where
  "xc_document ctx = as_document (qr_schema (xc_query ctx))"

text \<open>\<open>introspection_resolver\<close> is the resolver over the given schema, and the introspection schema has itself for introspection.\<close>

definition as_introspection_query :: "query \<Rightarrow> query" where
  "as_introspection_query q =
     (let api = qr_schema q
      in q\<lparr>qr_schema := api\<lparr>as_document := as_introspection api\<rparr>\<rparr>)"

definition as_introspection_context :: "(document \<Rightarrow> resolver) \<Rightarrow> execution_context \<Rightarrow> execution_context" where
  "as_introspection_context introspection_resolver ctx =
     ctx\<lparr>xc_resolver := introspection_resolver (xc_document ctx), xc_query := as_introspection_query (xc_query ctx)\<rparr>"

section \<open>Collecting fields\<close>

definition does_fragment_type_apply :: "query \<Rightarrow> object_type \<Rightarrow> string \<Rightarrow> bool" where
  "does_fragment_type_apply q object_type name =
     (case get_named_type (as_document (qr_schema q)) name of
        Some (ObjectDef ot) \<Rightarrow> object_type = ot
      | Some (InterfaceDef it) \<Rightarrow> it_name it \<in> set (ot_implements_interfaces object_type)
      | Some (UnionDef ut) \<Rightarrow> ot_name object_type \<in> set (un_types ut)
      | _ \<Rightarrow> False)"

text \<open>\<open>IndexMap::entry(key).or_default().push(value)\<close>: keys stay in the order in which they came.\<close>

fun index_push :: "'k \<Rightarrow> 'v \<Rightarrow> ('k \<times> 'v list) list \<Rightarrow> ('k \<times> 'v list) list" where
  "index_push k v [] = [(k, [v])]"
| "index_push k v ((k', vs) # rest) = (if k' = k then (k', vs @ [v]) # rest else (k', vs) # index_push k v rest)"

definition is_selected :: "query \<Rightarrow> selection \<Rightarrow> bool" where
  "is_selected q sel \<longleftrightarrow> \<not> skip_selection sel (qr_variables q) \<and> include_selection sel (qr_variables q)"

definition applies_inline :: "query \<Rightarrow> object_type \<Rightarrow> string option \<Rightarrow> bool" where
  "applies_inline q object_type cond = (case cond of Some c \<Rightarrow> does_fragment_type_apply q object_type c | None \<Rightarrow> True)"

text \<open>One selection; \<open>collect\<close> is the recursive call.\<close>

definition collect_selection ::
  "(selection list \<Rightarrow> string set \<Rightarrow> (string \<times> selection list) list \<Rightarrow> (string set \<times> (string \<times> selection list) list, errors) result)
   \<Rightarrow> query \<Rightarrow> object_type \<Rightarrow> selection \<Rightarrow> string set \<Rightarrow> (string \<times> selection list) list
   \<Rightarrow> (string set \<times> (string \<times> selection list) list, errors) result" where
  "collect_selection collect q t sel visited grouped =
     (if \<not> is_selected q sel then Ok (visited, grouped)
      else case sel of
          FieldSel p a n args ds ss \<Rightarrow> Ok (visited, index_push (get_response_key sel) sel grouped)
        | FragmentSpread name \<Rightarrow>
            if name \<in> visited then Ok (visited, grouped)
            else
              (case map_of (qr_fragments q) name of
                 None \<Rightarrow> Panic
               | Some fragment \<Rightarrow>
                   if does_fragment_type_apply q t (fr_type_condition fragment)
                   then collect (fr_selection_set fragment) (insert name visited) grouped
                   else Ok (insert name visited, grouped))
        | InlineFragment cond ss \<Rightarrow>
            if applies_inline q t cond then collect ss visited grouped else Ok (visited, grouped))"

text \<open>The selections, visited fragments and grouped that it may be called with.\<close>

definition enters ::
  "query \<Rightarrow> selection \<Rightarrow> string set \<Rightarrow> (string \<times> selection list) list \<Rightarrow> selection list \<Rightarrow> string set \<Rightarrow> (string \<times> selection list) list \<Rightarrow> bool" where
  "enters q sel visited grouped ss v out \<longleftrightarrow> out = grouped \<and>
     ((\<exists>name fragment. sel = FragmentSpread name \<and> name \<notin> visited \<and> map_of (qr_fragments q) name = Some fragment \<and>
         ss = fr_selection_set fragment \<and> v = insert name visited) \<or>
      (\<exists>cond. sel = InlineFragment cond ss \<and> v = visited))"

lemma collect_selection_cong [fundef_cong]:
  assumes "q = q'" "t = t'" "sel = sel'" "visited = visited'" "grouped = grouped'"
    and "\<And>ss v out. enters q' sel' visited' grouped' ss v out \<Longrightarrow> f ss v out = g ss v out"
  shows "collect_selection f q t sel visited grouped = collect_selection g q' t' sel' visited' grouped'"
  using assms by (cases sel) (auto simp: collect_selection_def enters_def split: option.splits)

function collect_fields_inner ::
  "query \<Rightarrow> object_type \<Rightarrow> selection list \<Rightarrow> string set \<Rightarrow> (string \<times> selection list) list
   \<Rightarrow> (string set \<times> (string \<times> selection list) list, errors) result" where
  "collect_fields_inner q t [] visited grouped = Ok (visited, grouped)"
| "collect_fields_inner q t (sel # rest) visited grouped =
     and_then (collect_selection (collect_fields_inner q t) q t sel visited grouped)
       (\<lambda>(visited, grouped). collect_fields_inner q t rest visited grouped)"
  by pat_completeness auto

text \<open>The fragments that have been visited only become more, so a fragment that spreads itself is entered once.\<close>

lemma collect_selection_visited:
  assumes "collect_selection collect q t sel visited grouped = Ok (visited', grouped')"
    and "\<And>ss v out v' out'. enters q sel visited grouped ss v out \<Longrightarrow> collect ss v out = Ok (v', out') \<Longrightarrow> v \<subseteq> v'"
  shows "visited \<subseteq> visited'"
proof (cases sel)
  case (FieldSel p a n args ds ss)
  then show ?thesis using assms(1) by (auto simp: collect_selection_def split: if_splits)
next
  case (FragmentSpread name)
  have "insert name visited \<subseteq> visited'"
    if "name \<notin> visited" "map_of (qr_fragments q) name = Some fragment"
      "collect (fr_selection_set fragment) (insert name visited) grouped = Ok (visited', grouped')" for fragment
    using assms(2) [OF _ that(3)] that(1,2) by (auto simp: enters_def FragmentSpread)
  then show ?thesis using assms(1) FragmentSpread by (auto simp: collect_selection_def split: if_splits option.splits)
next
  case (InlineFragment cond ss)
  then show ?thesis using assms(1) assms(2) [of ss visited grouped visited' grouped']
    by (auto simp: collect_selection_def enters_def split: if_splits)
qed

lemma collect_visited:
  assumes "collect_fields_inner_dom (q, t, sels, visited, grouped)"
    and "collect_fields_inner q t sels visited grouped = Ok (visited', grouped')"
  shows "visited \<subseteq> visited'"
  using assms
proof (induction arbitrary: visited' grouped' rule: collect_fields_inner.pinduct)
  case (1 q t visited grouped)
  then show ?case by (simp add: collect_fields_inner.psimps)
next
  case (2 q t sel rest visited grouped)
  from 2 obtain v out where first: "collect_selection (collect_fields_inner q t) q t sel visited grouped = Ok (v, out)"
      and rest: "collect_fields_inner q t rest v out = Ok (visited', grouped')"
    by (auto simp: collect_fields_inner.psimps and_then_Ok_iff)
  have "visited \<subseteq> v" by (rule collect_selection_visited [OF first]) (rule 2(2))
  moreover have "v \<subseteq> visited'" using 2(3) [OF first _ rest] by simp
  ultimately show ?case by blast
qed

lemma enters_smaller:
  assumes "enters q sel visited grouped ss v out"
  shows "card (fst ` set (qr_fragments q) - v) < card (fst ` set (qr_fragments q) - visited) \<or>
    v = visited \<and> size_list size ss < size sel"
proof -
  have "card (fst ` set (qr_fragments q) - insert name visited) < card (fst ` set (qr_fragments q) - visited)"
    if "name \<notin> visited" "map_of (qr_fragments q) name = Some fragment" for name fragment
    using that by (intro psubset_card_mono) (force dest: map_of_SomeD)+
  then show ?thesis using assms by (auto simp: enters_def)
qed

termination collect_fields_inner
proof (relation "measures [\<lambda>(q, t, sels, visited, grouped). card (fst ` set (qr_fragments q) - visited),
      \<lambda>(q, t, sels, visited, grouped). size_list size sels]", goal_cases)
  case 1
  then show ?case by simp
next
  case (2 q t sel rest visited grouped ss v out)
  then show ?case using enters_smaller [OF 2] by auto
next
  case (3 q t sel rest visited grouped x v out)
  have "collect_selection (collect_fields_inner q t) q t sel visited grouped = Ok (v, out)" using 3 by simp
  then have "visited \<subseteq> v"
  proof (rule collect_selection_visited)
    show "va \<subseteq> v'" if "enters q sel visited grouped ss va outa" "collect_fields_inner q t ss va outa = Ok (v', out')"
      for ss va outa v' out'
      by (rule collect_visited [OF _ that(2)]) (use 3 that(1) in blast)
  qed
  then have "card (fst ` set (qr_fragments q) - v) \<le> card (fst ` set (qr_fragments q) - visited)"
    by (intro card_mono) auto
  then show ?case by auto
qed

definition collect_fields :: "query \<Rightarrow> object_type \<Rightarrow> selection list list \<Rightarrow> ((string \<times> selection list) list, errors) result" where
  "collect_fields q t selection_sets =
     and_then (try_fold (\<lambda>ss (visited, grouped). collect_fields_inner q t ss visited grouped) selection_sets ({}, []))
       (\<lambda>(visited, grouped). Ok grouped)"

section \<open>Arguments and resolved values\<close>

text \<open>A \<open>text\<close> argument is wrapped in an object with the name of the field.\<close>

definition coerce_argument ::
  "execution_context \<Rightarrow> selection \<Rightarrow> input_value \<Rightarrow> arguments \<times> errors \<Rightarrow> (arguments \<times> errors, errors) result" where
  "coerce_argument ctx field argument_def = (\<lambda>(coerced, errs).
     let value = get_argument_value (sel_arguments field) (iv_name argument_def);
         variables = qr_variables (xc_query ctx);
         coerce = coerce_value (xc_coercion_depth ctx) (xc_float_to_string ctx) (get_named_type (xc_document ctx)) variables
     in case coerce_input_value coerce variables value argument_def of
          Ok (Some v) \<Rightarrow>
            Ok (hm_insert (iv_name argument_def)
                  (if iv_name argument_def = ''text'' then QObject [(sel_name field, v)] else v) coerced, errs)
        | Ok None \<Rightarrow> Ok (coerced, errs)
        | Err e \<Rightarrow> Ok (coerced, errs @ [e])
        | Panic \<Rightarrow> Panic)"

definition coerce_argument_values :: "execution_context \<Rightarrow> object_type \<Rightarrow> selection \<Rightarrow> (arguments, errors) result" where
  "coerce_argument_values ctx t field =
     and_then (try_fold (coerce_argument ctx field)
                 (case get_argument_definitions t (sel_name field) of None \<Rightarrow> [] | Some defs \<Rightarrow> defs) ([], []))
       (\<lambda>(coerced, errs). if errs = [] then Ok coerced else Err errs)"

text \<open>\<open>map_err(|e| vec![e])\<close>.\<close>

definition one_error :: "('a, 'e) result \<Rightarrow> ('a, 'e list) result" where
  "one_error r = (case r of Ok v \<Rightarrow> Ok v | Err e \<Rightarrow> Err [e] | Panic \<Rightarrow> Panic)"

definition resolve_field_value_for_named_type ::
  "execution_context \<Rightarrow> object_type \<Rightarrow> qvalue option \<Rightarrow> selection \<Rightarrow> field_def \<Rightarrow> string \<Rightarrow> arguments \<Rightarrow> (qvalue, errors) result" where
  "resolve_field_value_for_named_type ctx t field_value field field_definition tyname args =
     (case get_named_type (xc_document ctx) tyname of
        None \<Rightarrow> Err [NamedTypeError tyname]
      | Some named_type \<Rightarrow>
          one_error
            (case named_type of
               ObjectDef ot \<Rightarrow> rs_object (xc_resolver ctx) field_value field field_definition (IsObject ot) args
             | EnumDef et \<Rightarrow> rs_enum_value (xc_resolver ctx) field et field_value
             | ScalarDef st \<Rightarrow> rs_scalar_value (xc_resolver ctx) t field st field_value args
             | InterfaceDef it \<Rightarrow> rs_object (xc_resolver ctx) field_value field field_definition (IsInterface it) args
             | UnionDef _ \<Rightarrow> Err (Unimplemented ''unions'')
             | InputObjectDef _ \<Rightarrow> Panic))"

fun resolve_field_value_for_list_type ::
  "execution_context \<Rightarrow> qvalue option \<Rightarrow> selection \<Rightarrow> field_def \<Rightarrow> gtype \<Rightarrow> arguments \<Rightarrow> (qvalue, errors) result" where
  "resolve_field_value_for_list_type ctx field_value field field_definition (NonNullType inner) args =
     resolve_field_value_for_list_type ctx field_value field field_definition inner args"
| "resolve_field_value_for_list_type ctx field_value field field_definition (NamedType tyname) args =
     (case get_named_type (xc_document ctx) tyname of
        None \<Rightarrow> Err [NamedTypeError tyname]
      | Some (ObjectDef t) \<Rightarrow> one_error (rs_objects (xc_resolver ctx) field_value field field_definition (IsObject t) args)
      | Some (EnumDef t) \<Rightarrow> rs_enum_values (xc_resolver ctx) field t field_value
      | Some (ScalarDef t) \<Rightarrow> rs_scalar_values (xc_resolver ctx) field t field_value
      | Some (InterfaceDef t) \<Rightarrow> one_error (rs_objects (xc_resolver ctx) field_value field field_definition (IsInterface t) args)
      | Some (UnionDef _) \<Rightarrow> Err [Unimplemented ''unions'']
      | Some (InputObjectDef _) \<Rightarrow> Panic)"
| "resolve_field_value_for_list_type ctx field_value field field_definition (ListType _) args =
     Err [Unimplemented ''nested list types'']"

fun resolve_field_value ::
  "execution_context \<Rightarrow> object_type \<Rightarrow> qvalue option \<Rightarrow> selection \<Rightarrow> field_def \<Rightarrow> gtype \<Rightarrow> arguments \<Rightarrow> (qvalue, errors) result" where
  "resolve_field_value ctx t field_value field field_definition (NonNullType inner) args =
     resolve_field_value ctx t field_value field field_definition inner args"
| "resolve_field_value ctx t field_value field field_definition (NamedType tyname) args =
     resolve_field_value_for_named_type ctx t field_value field field_definition tyname args"
| "resolve_field_value ctx t field_value field field_definition (ListType inner) args =
     resolve_field_value_for_list_type ctx field_value field field_definition inner args"

section \<open>Completing values\<close>

definition resolve_abstract_type :: "execution_context \<Rightarrow> type_definition \<Rightarrow> qvalue \<Rightarrow> (object_type, errors) result" where
  "resolve_abstract_type ctx abstract_type object_value =
     and_then (rs_abstract_type (xc_resolver ctx) (xc_document ctx) abstract_type object_value)
       (\<lambda>t. case t of Some t \<Rightarrow> Ok t | None \<Rightarrow> Err [AbstractTypeError (get_type_name abstract_type)])"

type_synonym executor = "path \<Rightarrow> selection list list \<Rightarrow> object_type \<Rightarrow> qvalue option \<Rightarrow> (qvalue, errors) result"

text \<open>The elements of a list are completed in place: where completion fails there is a null, and the errors are collected.\<close>

definition completed_places :: "(qvalue, errors) result list \<Rightarrow> (qvalue, errors) result" where
  "completed_places rs =
     (if Panic \<in> set rs then Panic
      else
        let errs = concat (List.map_filter (\<lambda>r. case r of Err es \<Rightarrow> Some es | _ \<Rightarrow> None) rs)
        in if errs = [] then Ok (QList (map (\<lambda>r. case r of Ok v \<Rightarrow> v | _ \<Rightarrow> QNull) rs)) else Err errs)"

definition complete_named ::
  "executor \<Rightarrow> execution_context \<Rightarrow> path \<Rightarrow> selection \<Rightarrow> selection list \<Rightarrow> type_definition \<Rightarrow> qvalue \<Rightarrow> (qvalue, errors) result" where
  "complete_named execute ctx path field flds named_type v =
     (case named_type of
        ScalarDef t \<Rightarrow>
          (case coerce_scalar (xc_float_to_string ctx) (st_name t) v of
             Ok w \<Rightarrow> Ok w
           | Err w \<Rightarrow> Err [ScalarCoercionError (sel_position field) (sel_name field) w (st_name t)]
           | Panic \<Rightarrow> Panic)
      | EnumDef t \<Rightarrow>
          (case coerce_enum v t of
             Ok w \<Rightarrow> Ok w
           | Err w \<Rightarrow> Err [EnumCoercionError (sel_position field) (sel_name field) w (en_name t) (en_values t)]
           | Panic \<Rightarrow> Panic)
      | ObjectDef t \<Rightarrow> execute path (map sel_set flds) t (Some v)
      | InterfaceDef _ \<Rightarrow> and_then (resolve_abstract_type ctx named_type v) (\<lambda>t. execute path (map sel_set flds) t (Some v))
      | UnionDef _ \<Rightarrow> and_then (resolve_abstract_type ctx named_type v) (\<lambda>t. execute path (map sel_set flds) t (Some v))
      | InputObjectDef _ \<Rightarrow> Panic)"

fun complete_value ::
  "executor \<Rightarrow> execution_context \<Rightarrow> path \<Rightarrow> selection \<Rightarrow> gtype \<Rightarrow> selection list \<Rightarrow> qvalue \<Rightarrow> (qvalue, errors) result" where
  "complete_value execute ctx path field (NonNullType inner) flds v =
     and_then (complete_value execute ctx path field inner flds v)
       (\<lambda>w. if w = QNull then Err [NonNullError (sel_position field) (sel_name field)] else Ok w)"
| "complete_value execute ctx path field (ListType inner) flds v =
     (case v of
        QNull \<Rightarrow> Ok QNull
      | QList vs \<Rightarrow> completed_places (map (\<lambda>(i, x). complete_value execute ctx (path @ [Inr i]) field inner flds x) (enumerate 0 vs))
      | _ \<Rightarrow> Err [ListValueError (sel_position field) (sel_name field)])"
| "complete_value execute ctx path field (NamedType name) flds v =
     (if v = QNull then Ok QNull
      else and_then (expect (get_named_type (xc_document ctx) name)) (\<lambda>named_type.
             complete_named execute ctx path field flds named_type v))"

definition execute_field ::
  "executor \<Rightarrow> execution_context \<Rightarrow> path \<Rightarrow> object_type \<Rightarrow> qvalue option \<Rightarrow> selection \<Rightarrow> field_def \<Rightarrow> selection list
   \<Rightarrow> (qvalue, errors) result" where
  "execute_field execute ctx path t field_value field field_definition flds =
     and_then (coerce_argument_values ctx t field) (\<lambda>args.
     and_then (resolve_field_value ctx t field_value field field_definition (fd_field_type field_definition) args) (\<lambda>v.
       complete_value execute ctx path field (fd_field_type field_definition) flds v))"

section \<open>Selection sets\<close>

definition prefetch_key :: "string \<Rightarrow> string" where
  "prefetch_key response_key = ''prefetch:'' @ response_key"

definition bt_remove :: "'k \<Rightarrow> ('k, 'v) btreemap \<Rightarrow> ('k, 'v) btreemap" where
  "bt_remove k m = filter (\<lambda>(k', _). k' \<noteq> k) m"

text \<open>The names of fields that are selected more than once.\<close>

fun repeated :: "string list \<Rightarrow> string set \<Rightarrow> string set" where
  "repeated [] seen = {}"
| "repeated (n # ns) seen = (if n \<in> seen then insert n (repeated ns seen) else repeated ns (insert n seen))"

definition multiple_response_keys :: "(string \<times> selection list) list \<Rightarrow> string set" where
  "multiple_response_keys grouped = repeated (map sel_name (concat (map snd grouped))) {}"

text \<open>The value that was fetched for a field is taken out of the object, unless another field needs it too.\<close>

definition take_value ::
  "string set \<Rightarrow> string \<Rightarrow> string \<Rightarrow> (string, qvalue) btreemap \<Rightarrow> qvalue option \<times> (string, qvalue) btreemap" where
  "take_value multiple response_key name obj =
     (case map_of obj (prefetch_key response_key) of
        Some v \<Rightarrow> (Some v, bt_remove (prefetch_key response_key) obj)
      | None \<Rightarrow> (map_of obj name, if name \<in> multiple then obj else bt_remove name obj))"

fun execute_groups ::
  "executor \<Rightarrow> execution_context \<Rightarrow> path \<Rightarrow> object_type \<Rightarrow> string set \<Rightarrow> (string \<times> selection list) list
   \<Rightarrow> (string, qvalue) btreemap option \<Rightarrow> errors \<Rightarrow> (string, qvalue) btreemap \<Rightarrow> (errors \<times> (string, qvalue) btreemap, errors) result" where
  "execute_groups execute ctx path t multiple [] prefetched errs m = Ok (errs, m)"
| "execute_groups execute ctx path t multiple ((response_key, flds) # rest) prefetched errs m =
     (let path' = path @ [Inl response_key]
      in if xc_late ctx path' then Ok (errs @ [Timeout], m)
         else
           and_then (expect (get_field (IsObject t) (sel_name (hd flds)))) (\<lambda>field_definition.
             let (field_value, prefetched') =
                   (case prefetched of
                      None \<Rightarrow> (None, None)
                    | Some obj \<Rightarrow> (let (v, obj') = take_value multiple response_key (sel_name (hd flds)) obj in (v, Some obj')))
             in case execute_field execute ctx path' t field_value (hd flds) field_definition flds of
                  Ok v \<Rightarrow> execute_groups execute ctx path t multiple rest prefetched' errs (bt_insert response_key v m)
                | Err es \<Rightarrow> execute_groups execute ctx path t multiple rest prefetched' (errs @ es) m
                | Panic \<Rightarrow> Panic))"

definition execute_level ::
  "executor \<Rightarrow> execution_context \<Rightarrow> path \<Rightarrow> selection list list \<Rightarrow> object_type \<Rightarrow> qvalue option
   \<Rightarrow> ((string, qvalue) btreemap, errors) result" where
  "execute_level execute ctx path sets t prefetched =
     and_then (case prefetched of
                 None \<Rightarrow> Ok None
               | Some (QObject obj) \<Rightarrow> Ok (Some obj)
               | Some _ \<Rightarrow> Panic) (\<lambda>prefetched_object.
     and_then (collect_fields (xc_query ctx) t sets) (\<lambda>grouped.
     and_then (execute_groups execute ctx path t (multiple_response_keys grouped) grouped prefetched_object [] []) (\<lambda>(errs, m).
       if errs = [] then Ok m else Err errs)))"

primrec executor_stack :: "executor \<Rightarrow> nat \<Rightarrow> execution_context \<Rightarrow> executor" where
  "executor_stack bottom 0 ctx = bottom"
| "executor_stack bottom (Suc d) ctx = (\<lambda>path sets t prefetched.
     and_then (execute_level (executor_stack bottom d ctx) ctx path sets t prefetched) (\<lambda>m. Ok (QObject m)))"

definition execute_selection_set :: "nat \<Rightarrow> execution_context \<Rightarrow> executor" where
  "execute_selection_set d ctx = executor_stack (\<lambda>path sets t prefetched. Panic) d ctx"

definition execute_selection_set_to_map ::
  "(execution_context \<Rightarrow> executor) \<Rightarrow> execution_context \<Rightarrow> path \<Rightarrow> selection list list \<Rightarrow> object_type \<Rightarrow> qvalue option
   \<Rightarrow> ((string, qvalue) btreemap, errors) result" where
  "execute_selection_set_to_map execute ctx = execute_level (execute ctx) ctx"

section \<open>The root\<close>

definition is_introspection_field :: "api_schema \<Rightarrow> string \<Rightarrow> bool" where
  "is_introspection_field api name \<longleftrightarrow> find (\<lambda>f. fd_name f = name) (ot_fields (as_introspection_query_type api)) \<noteq> None"

definition execute_root ::
  "(execution_context \<Rightarrow> executor) \<Rightarrow> (document \<Rightarrow> resolver) \<Rightarrow> execution_context \<Rightarrow> selection list \<Rightarrow> object_type \<Rightarrow> ((string, qvalue) btreemap, errors) result" where
  "execute_root execute introspection_resolver ctx sels root_type =
     (let q = xc_query ctx; api = qr_schema q
      in and_then (collect_fields q root_type [sels]) (\<lambda>grouped.
         let is_intro = (\<lambda>(_, flds). is_introspection_field api (sel_name (hd flds)));
             intro_set = concat (map snd (filter is_intro grouped));
             data_set = concat (map snd (filter (Not \<circ> is_intro) grouped))
         in and_then
              (if data_set = [] then Ok []
               else and_then (rs_prefetch (xc_resolver ctx) q sels) (\<lambda>initial_data.
                      execute_selection_set_to_map execute ctx [] [data_set] root_type initial_data)) (\<lambda>values.
              if intro_set = [] then Ok values
              else and_then (execute_selection_set_to_map execute (as_introspection_context introspection_resolver ctx) [] [intro_set]
                               (as_introspection_query_type api) None) (\<lambda>intro_values.
                     Ok (bt_append values intro_values)))))"

definition execute_root_selection_set_uncached ::
  "nat \<Rightarrow> (document \<Rightarrow> resolver) \<Rightarrow> execution_context \<Rightarrow> selection list \<Rightarrow> object_type \<Rightarrow> ((string, qvalue) btreemap, errors) result" where
  "execute_root_selection_set_uncached d = execute_root (execute_selection_set d)"

section \<open>What is collected\<close>

text \<open>The selection lists that count for an object of type \<open>t\<close>: the list itself and those of the fragments in it that apply.\<close>

inductive visits :: "query \<Rightarrow> object_type \<Rightarrow> selection list \<Rightarrow> selection list \<Rightarrow> bool" for q t sels where
  visits_start: "visits q t sels sels"
| visits_spread: "visits q t sels ss \<Longrightarrow> FragmentSpread name \<in> set ss \<Longrightarrow> is_selected q (FragmentSpread name) \<Longrightarrow>
    map_of (qr_fragments q) name = Some fragment \<Longrightarrow> does_fragment_type_apply q t (fr_type_condition fragment) \<Longrightarrow>
    visits q t sels (fr_selection_set fragment)"
| visits_inline: "visits q t sels ss \<Longrightarrow> InlineFragment cond ss' \<in> set ss \<Longrightarrow> is_selected q (InlineFragment cond ss') \<Longrightarrow>
    applies_inline q t cond \<Longrightarrow> visits q t sels ss'"

fun is_field :: "selection \<Rightarrow> bool" where
  "is_field (FieldSel _ _ _ _ _ _) = True"
| "is_field _ = False"

definition field_selected :: "query \<Rightarrow> object_type \<Rightarrow> selection list \<Rightarrow> selection \<Rightarrow> bool" where
  "field_selected q t sels f \<longleftrightarrow> (\<exists>ss. visits q t sels ss \<and> f \<in> set ss \<and> is_field f \<and> is_selected q f)"

definition fragment_spread :: "query \<Rightarrow> object_type \<Rightarrow> selection list \<Rightarrow> string \<Rightarrow> bool" where
  "fragment_spread q t sels name \<longleftrightarrow>
     (\<exists>ss. visits q t sels ss \<and> FragmentSpread name \<in> set ss \<and> is_selected q (FragmentSpread name))"

lemma visits_trans: "visits q t ss ss' \<Longrightarrow> visits q t sels ss \<Longrightarrow> visits q t sels ss'"
  by (induction rule: visits.induct) (auto intro: visits.intros)

lemma visits_mono: "visits q t ss ss' \<Longrightarrow> set ss \<subseteq> set sels \<Longrightarrow> ss' = ss \<or> visits q t sels ss'"
proof (induction rule: visits.induct)
  case (visits_spread ss' name fragment)
  then show ?case using visits.visits_spread [OF visits_start, of name sels q fragment t] visits.visits_spread [of q t sels ss' name fragment] by blast
next
  case (visits_inline ss' cond ss'')
  then show ?case using visits.visits_inline [OF visits_start, of cond ss'' sels q t] visits.visits_inline [of q t sels ss' cond ss''] by blast
qed simp

lemma field_selected_mono: "field_selected q t ss f \<Longrightarrow> set ss \<subseteq> set sels \<Longrightarrow> field_selected q t sels f"
  unfolding field_selected_def using visits_mono visits_start by blast

lemma fragment_spread_mono: "fragment_spread q t ss f \<Longrightarrow> set ss \<subseteq> set sels \<Longrightarrow> fragment_spread q t sels f"
  unfolding fragment_spread_def using visits_mono visits_start by blast

subsection \<open>Groups by response key\<close>

definition fields_of :: "('k \<times> 'v list) list \<Rightarrow> 'v set" where
  "fields_of grouped = (\<Union>(k, fs) \<in> set grouped. set fs)"

definition groups_ok :: "(string \<times> selection list) list \<Rightarrow> bool" where
  "groups_ok grouped \<longleftrightarrow> distinct (map fst grouped) \<and>
     (\<forall>(k, fs) \<in> set grouped. fs \<noteq> [] \<and> (\<forall>f \<in> set fs. is_field f \<and> get_response_key f = k))"

lemma fields_of_push: "fields_of (index_push k f grouped) = insert f (fields_of grouped)"
  by (induction k f grouped rule: index_push.induct) (auto simp: fields_of_def)

lemma keys_push: "fst ` set (index_push k f grouped) = insert k (fst ` set grouped)"
  by (induction k f grouped rule: index_push.induct) auto

lemma groups_ok_push: "groups_ok grouped \<Longrightarrow> is_field f \<Longrightarrow> groups_ok (index_push (get_response_key f) f grouped)"
proof (induction "get_response_key f" f grouped rule: index_push.induct)
  case (2 f k' fs rest)
  then have "groups_ok rest" by (simp add: groups_ok_def)
  with 2 show ?case using keys_push [of "get_response_key f" f rest] by (auto simp: groups_ok_def)
qed (simp add: groups_ok_def)

subsection \<open>The search\<close>

text \<open>A selection is covered when its field is in \<open>F\<close> or its fragment was visited.\<close>

fun covered :: "query \<Rightarrow> object_type \<Rightarrow> string set \<Rightarrow> selection set \<Rightarrow> selection \<Rightarrow> bool" where
  "covered q t visited F (FieldSel p a n args ds ss) \<longleftrightarrow>
     (is_selected q (FieldSel p a n args ds ss) \<longrightarrow> FieldSel p a n args ds ss \<in> F)"
| "covered q t visited F (FragmentSpread name) \<longleftrightarrow> (is_selected q (FragmentSpread name) \<longrightarrow> name \<in> visited)"
| "covered q t visited F (InlineFragment cond ss) \<longleftrightarrow>
     (is_selected q (InlineFragment cond ss) \<and> applies_inline q t cond \<longrightarrow> (\<forall>sel \<in> set ss. covered q t visited F sel))"

lemma covered_field: "is_field f \<Longrightarrow> covered q t visited F f \<longleftrightarrow> (is_selected q f \<longrightarrow> f \<in> F)"
  by (cases f) auto

lemma covered_mono: "covered q t visited F sel \<Longrightarrow> visited \<subseteq> visited' \<Longrightarrow> F \<subseteq> F' \<Longrightarrow> covered q t visited' F' sel"
  by (induction q t visited F sel rule: covered.induct) auto

definition fragment_covered :: "query \<Rightarrow> object_type \<Rightarrow> string set \<Rightarrow> selection set \<Rightarrow> string \<Rightarrow> bool" where
  "fragment_covered q t visited F name \<longleftrightarrow>
     (\<exists>fragment. map_of (qr_fragments q) name = Some fragment \<and>
        (does_fragment_type_apply q t (fr_type_condition fragment) \<longrightarrow>
           (\<forall>sel \<in> set (fr_selection_set fragment). covered q t visited F sel)))"

lemma fragment_covered_mono:
  "fragment_covered q t visited F name \<Longrightarrow> visited \<subseteq> visited' \<Longrightarrow> F \<subseteq> F' \<Longrightarrow> fragment_covered q t visited' F' name"
  unfolding fragment_covered_def using covered_mono by blast

definition searched ::
  "query \<Rightarrow> object_type \<Rightarrow> selection list \<Rightarrow> string set \<Rightarrow> (string \<times> selection list) list \<Rightarrow> string set
   \<Rightarrow> (string \<times> selection list) list \<Rightarrow> bool" where
  "searched q t sels visited grouped visited' grouped' \<longleftrightarrow>
     visited \<subseteq> visited' \<and> fields_of grouped \<subseteq> fields_of grouped' \<and>
     (\<forall>sel \<in> set sels. covered q t visited' (fields_of grouped') sel) \<and>
     (\<forall>name \<in> visited' - visited. fragment_covered q t visited' (fields_of grouped') name) \<and>
     (\<forall>f \<in> fields_of grouped'. f \<in> fields_of grouped \<or> field_selected q t sels f) \<and>
     (groups_ok grouped \<longrightarrow> groups_ok grouped')"

lemma searched_Nil: "searched q t [] visited grouped visited grouped"
  by (simp add: searched_def)

lemma searched_Cons:
  assumes first: "searched q t [sel] v g v1 g1" and rest: "searched q t rest v1 g1 v2 g2"
  shows "searched q t (sel # rest) v g v2 g2"
proof -
  have sub: "v \<subseteq> v1" "v1 \<subseteq> v2" "fields_of g \<subseteq> fields_of g1" "fields_of g1 \<subseteq> fields_of g2"
    using assms by (auto simp: searched_def)
  have "covered q t v2 (fields_of g2) sel" using first covered_mono sub(2,4) by (auto simp: searched_def)
  then have "\<forall>s \<in> set (sel # rest). covered q t v2 (fields_of g2) s" using rest by (auto simp: searched_def)
  moreover have "fragment_covered q t v2 (fields_of g2) name" if "name \<in> v2 - v" for name
  proof (cases "name \<in> v1")
    case True
    then have "fragment_covered q t v1 (fields_of g1) name" using first that by (simp add: searched_def)
    then show ?thesis using fragment_covered_mono sub(2,4) by blast
  next
    case False
    then show ?thesis using rest that by (simp add: searched_def)
  qed
  moreover have "f \<in> fields_of g \<or> field_selected q t (sel # rest) f" if "f \<in> fields_of g2" for f
  proof -
    have "f \<in> fields_of g1 \<or> field_selected q t rest f" using rest that by (simp add: searched_def)
    moreover have "f \<in> fields_of g1 \<Longrightarrow> f \<in> fields_of g \<or> field_selected q t [sel] f" using first by (simp add: searched_def)
    ultimately show ?thesis
      using field_selected_mono [of q t rest f "sel # rest"] field_selected_mono [of q t "[sel]" f "sel # rest"] by auto
  qed
  ultimately show ?thesis using sub assms by (simp add: searched_def) blast
qed

lemma searched_field:
  "is_selected q f \<Longrightarrow> is_field f \<Longrightarrow> searched q t [f] v g v (index_push (get_response_key f) f g)"
  unfolding searched_def field_selected_def
  by (auto simp: fields_of_push groups_ok_push covered_field intro: visits_start)

lemma searched_skipped: "\<not> is_selected q sel \<Longrightarrow> searched q t [sel] v g v g"
  by (cases sel) (auto simp: searched_def)

lemma searched_seen: "name \<in> v \<Longrightarrow> searched q t [FragmentSpread name] v g v g"
  by (auto simp: searched_def)

lemma searched_other_type:
  "map_of (qr_fragments q) name = Some fragment \<Longrightarrow> \<not> does_fragment_type_apply q t (fr_type_condition fragment) \<Longrightarrow>
    searched q t [FragmentSpread name] v g (insert name v) g"
  by (auto simp: searched_def fragment_covered_def)

lemma searched_fragment:
  assumes fr: "map_of (qr_fragments q) name = Some fragment" "does_fragment_type_apply q t (fr_type_condition fragment)"
    and sel: "is_selected q (FragmentSpread name)"
    and s: "searched q t (fr_selection_set fragment) (insert name v) g v' g'"
  shows "searched q t [FragmentSpread name] v g v' g'"
proof -
  have vis: "visits q t [FragmentSpread name] (fr_selection_set fragment)"
    by (rule visits_spread [OF visits_start _ sel fr]) simp
  have "field_selected q t [FragmentSpread name] f" if "field_selected q t (fr_selection_set fragment) f" for f
    using that visits_trans [OF _ vis] unfolding field_selected_def by blast
  moreover have "fragment_covered q t v' (fields_of g') name" using s fr by (auto simp: searched_def fragment_covered_def)
  ultimately show ?thesis using s unfolding searched_def by auto
qed

lemma searched_inline:
  assumes ap: "applies_inline q t cond" and sel: "is_selected q (InlineFragment cond ss)" and s: "searched q t ss v g v' g'"
  shows "searched q t [InlineFragment cond ss] v g v' g'"
proof -
  have vis: "visits q t [InlineFragment cond ss] ss"
    by (rule visits_inline [OF visits_start _ sel ap]) simp
  have "field_selected q t [InlineFragment cond ss] f" if "field_selected q t ss f" for f
    using that visits_trans [OF _ vis] unfolding field_selected_def by blast
  then show ?thesis using s unfolding searched_def by auto
qed

lemma searched_other_inline: "\<not> applies_inline q t cond \<Longrightarrow> searched q t [InlineFragment cond ss] v g v g"
  by (auto simp: searched_def)

text \<open>The search succeeds or meets a fragment that does not exist.\<close>

definition missing_spread :: "query \<Rightarrow> object_type \<Rightarrow> selection list \<Rightarrow> bool" where
  "missing_spread q t sels \<longleftrightarrow> (\<exists>name. fragment_spread q t sels name \<and> map_of (qr_fragments q) name = None)"

lemma missing_spread_mono: "missing_spread q t ss \<Longrightarrow> set ss \<subseteq> set sels \<Longrightarrow> missing_spread q t sels"
  unfolding missing_spread_def using fragment_spread_mono by blast

lemma missing_spread_visits: "missing_spread q t ss \<Longrightarrow> visits q t sels ss \<Longrightarrow> missing_spread q t sels"
  unfolding missing_spread_def fragment_spread_def using visits_trans by blast

definition search_outcome ::
  "query \<Rightarrow> object_type \<Rightarrow> selection list \<Rightarrow> string set \<Rightarrow> (string \<times> selection list) list
   \<Rightarrow> (string set \<times> (string \<times> selection list) list, errors) result \<Rightarrow> bool" where
  "search_outcome q t sels v g r \<longleftrightarrow>
     (case r of Ok (v', g') \<Rightarrow> searched q t sels v g v' g' | Err _ \<Rightarrow> False | Panic \<Rightarrow> missing_spread q t sels)"

lemma collect_selection_outcome:
  assumes "\<And>ss v' out. enters q sel v g ss v' out \<Longrightarrow> search_outcome q t ss v' out (collect ss v' out)"
  shows "search_outcome q t [sel] v g (collect_selection collect q t sel v g)"
proof (cases "is_selected q sel")
  case False
  then show ?thesis using searched_skipped by (simp add: collect_selection_def search_outcome_def)
next
  case True
  show ?thesis
  proof (cases sel)
    case (FieldSel p a n args ds ss)
    then show ?thesis using True searched_field [of q sel] by (simp add: collect_selection_def search_outcome_def)
  next
    case (InlineFragment cond ss)
    show ?thesis
    proof (cases "applies_inline q t cond")
      case ap: True
      have vis: "visits q t [sel] ss" using True ap visits_inline [OF visits_start, of cond ss "[sel]"] by (simp add: InlineFragment)
      have "search_outcome q t ss v g (collect ss v g)" using assms by (simp add: enters_def InlineFragment)
      then have "search_outcome q t [sel] v g (collect ss v g)"
        using searched_inline [OF ap] True missing_spread_visits [OF _ vis]
        by (auto simp: search_outcome_def InlineFragment split: result.splits)
      then show ?thesis using True ap InlineFragment by (simp add: collect_selection_def)
    next
      case False
      then show ?thesis using True InlineFragment searched_other_inline by (simp add: collect_selection_def search_outcome_def)
    qed
  next
    case (FragmentSpread name)
    show ?thesis
    proof (cases "name \<in> v \<or> map_of (qr_fragments q) name = None")
      case seen: True
      have "fragment_spread q t [sel] name" using True visits_start unfolding fragment_spread_def FragmentSpread by fastforce
      then show ?thesis
        using True seen FragmentSpread searched_seen [of name v q t g]
        by (auto simp: collect_selection_def search_outcome_def missing_spread_def)
    next
      case False
      then obtain fr where fr: "name \<notin> v" "map_of (qr_fragments q) name = Some fr" by auto
      show ?thesis
      proof (cases "does_fragment_type_apply q t (fr_type_condition fr)")
        case ap: True
        have vis: "visits q t [sel] (fr_selection_set fr)"
          using True fr ap visits_spread [OF visits_start, of name "[sel]"] by (simp add: FragmentSpread)
        have "search_outcome q t (fr_selection_set fr) (insert name v) g (collect (fr_selection_set fr) (insert name v) g)"
          using assms fr by (auto simp: enters_def FragmentSpread)
        then have "search_outcome q t [sel] v g (collect (fr_selection_set fr) (insert name v) g)"
          using searched_fragment [OF fr(2) ap] True missing_spread_visits [OF _ vis]
          by (auto simp: search_outcome_def FragmentSpread split: result.splits)
        then show ?thesis using True ap fr FragmentSpread by (simp add: collect_selection_def)
      next
        case no: False
        then show ?thesis using True fr FragmentSpread searched_other_type [OF fr(2) no] by (simp add: collect_selection_def search_outcome_def)
      qed
    qed
  qed
qed

lemma collect_fields_inner_outcome: "search_outcome q t sels v g (collect_fields_inner q t sels v g)"
proof (induction q t sels v g rule: collect_fields_inner.induct)
  case (1 q t v g)
  then show ?case using searched_Nil by (simp add: search_outcome_def)
next
  case (2 q t sel rest v g)
  have first: "search_outcome q t [sel] v g (collect_selection (collect_fields_inner q t) q t sel v g)"
    by (rule collect_selection_outcome) (rule 2(1))
  show ?case
  proof (cases "collect_selection (collect_fields_inner q t) q t sel v g")
    case (Ok vg)
    then obtain v1 g1 where ok: "collect_selection (collect_fields_inner q t) q t sel v g = Ok (v1, g1)" by (cases vg) simp
    have "search_outcome q t rest v1 g1 (collect_fields_inner q t rest v1 g1)" using 2(2) [OF ok refl] .
    then show ?thesis
      using first ok searched_Cons missing_spread_mono [of q t rest "sel # rest"]
      by (auto simp: search_outcome_def split: result.splits)
  next
    case Panic
    then show ?thesis using first missing_spread_mono [of q t "[sel]" "sel # rest"] by (simp add: search_outcome_def)
  qed (use first in \<open>simp add: search_outcome_def\<close>)
qed

text \<open>At the end nothing that counts is left out.\<close>

lemma all_covered:
  assumes "visits q t sels ss" and "\<forall>sel \<in> set sels. covered q t visited F sel"
    and "\<forall>name \<in> visited. fragment_covered q t visited F name"
  shows "\<forall>sel \<in> set ss. covered q t visited F sel"
  using assms(1)
proof (induction rule: visits.induct)
  case (visits_spread ss name fragment)
  then have "name \<in> visited" by (metis covered.simps(2))
  then show ?case using visits_spread assms(3) by (auto simp: fragment_covered_def)
next
  case (visits_inline ss cond ss')
  then have "covered q t visited F (InlineFragment cond ss')" by blast
  then show ?case using visits_inline by auto
qed (rule assms(2))

lemma collect_fields_concat:
  "try_fold (\<lambda>ss (v, g). collect_fields_inner q t ss v g) sets (v, g) = collect_fields_inner q t (concat sets) v g"
proof (induction sets arbitrary: v g)
  case (Cons ss sets)
  have "collect_fields_inner q t (xs @ ys) v g = and_then (collect_fields_inner q t xs v g) (\<lambda>(v, g). collect_fields_inner q t ys v g)"
    for xs ys v g
    by (induction xs arbitrary: v g) (auto simp: and_then_assoc case_prod_unfold intro!: and_then_cong)
  then show ?case using Cons.IH by (auto simp: case_prod_unfold intro!: and_then_cong)
qed simp

lemma searched_all:
  assumes "searched q t sels {} [] v g"
  shows "\<not> missing_spread q t sels" and "field_selected q t sels f \<Longrightarrow> f \<in> fields_of g"
proof -
  have cov: "\<forall>sel \<in> set sels. covered q t v (fields_of g) sel" "\<forall>name \<in> v. fragment_covered q t v (fields_of g) name"
    using assms by (simp_all add: searched_def)
  show "\<not> missing_spread q t sels"
  proof
    assume "missing_spread q t sels"
    then obtain name ss where n: "visits q t sels ss" "FragmentSpread name \<in> set ss" "is_selected q (FragmentSpread name)"
        "map_of (qr_fragments q) name = None"
      by (auto simp: missing_spread_def fragment_spread_def)
    then have "name \<in> v" using all_covered [OF n(1) cov] by (metis covered.simps(2))
    then show False using cov(2) n(4) by (auto simp: fragment_covered_def)
  qed
  show "f \<in> fields_of g" if f: "field_selected q t sels f"
  proof -
    obtain ss where "visits q t sels ss" "f \<in> set ss" "is_field f" "is_selected q f" using f by (auto simp: field_selected_def)
    then show ?thesis using all_covered [OF _ cov] covered_field by blast
  qed
qed

lemma collect_fields_searched: "collect_fields q t sets = Ok groups \<Longrightarrow> \<exists>v. searched q t (concat sets) {} [] v groups"
  using collect_fields_inner_outcome [of q t "concat sets" "{}" "[]"]
  by (auto simp: collect_fields_def collect_fields_concat and_then_Ok_iff search_outcome_def split: prod.splits)

lemma collect_fields_groups: "collect_fields q t sets = Ok groups \<Longrightarrow> groups_ok groups"
  using collect_fields_searched by (fastforce simp: searched_def groups_ok_def)

lemma collect_fields_selected:
  "collect_fields q t sets = Ok groups \<Longrightarrow> f \<in> fields_of groups \<Longrightarrow> is_selected q f \<and> field_selected q t (concat sets) f"
  using collect_fields_searched [of q t sets groups] unfolding searched_def field_selected_def by (auto simp: fields_of_def [of "[]"])

lemma collect_fields_complete:
  "collect_fields q t sets = Ok groups \<Longrightarrow> field_selected q t (concat sets) f \<Longrightarrow> f \<in> fields_of groups"
  using collect_fields_searched searched_all(2) by metis

section \<open>Collection is exact\<close>

text \<open>C9. Collecting the fields of a selection set for an object type always returns, also when fragments spread
  themselves: it panics exactly when some fragment that counts does not exist. Otherwise it gives the fields that are selected for
  the type, directly or through fragments that apply, grouped by their response keys.\<close>

theorem collect_fields_exact:
  "case collect_fields q t sets of
     Ok groups \<Rightarrow> \<not> missing_spread q t (concat sets) \<and> groups_ok groups
       \<and> (\<forall>f. f \<in> fields_of groups \<longleftrightarrow> field_selected q t (concat sets) f)
   | Err es \<Rightarrow> False
   | Panic \<Rightarrow> missing_spread q t (concat sets)"
proof (cases "collect_fields q t sets")
  case (Ok groups)
  then show ?thesis
    using collect_fields_searched [OF Ok] searched_all(1) collect_fields_groups [OF Ok] collect_fields_selected [OF Ok]
      collect_fields_complete [OF Ok] by auto
qed (use collect_fields_inner_outcome [of q t "concat sets" "{}" "[]"] in
    \<open>auto simp: collect_fields_def collect_fields_concat search_outcome_def split: result.splits prod.splits\<close>)

section \<open>Responses\<close>

text \<open>
  What a response is, by the types of the schema. An object of a type answers selection sets when it has a
  value for every response key collected for the type and no other, each of the type of its field. Behind an
  interface or a union stands some object type of the schema.
\<close>

definition concrete_type :: "document \<Rightarrow> type_definition \<Rightarrow> object_type \<Rightarrow> bool" where
  "concrete_type schema named_type t =
     (case named_type of
        ObjectDef t' \<Rightarrow> t = t'
      | InterfaceDef _ \<Rightarrow> get_named_type schema (ot_name t) = Some (ObjectDef t)
      | UnionDef _ \<Rightarrow> get_named_type schema (ot_name t) = Some (ObjectDef t)
      | _ \<Rightarrow> False)"

inductive completed :: "query \<Rightarrow> gtype \<Rightarrow> selection list \<Rightarrow> qvalue \<Rightarrow> bool"
  and answers :: "query \<Rightarrow> object_type \<Rightarrow> selection list list \<Rightarrow> (string, qvalue) btreemap \<Rightarrow> bool" for q where
  completed_null: "\<not> is_non_null_type ty \<Longrightarrow> completed q ty flds QNull"
| completed_non_null: "v \<noteq> QNull \<Longrightarrow> completed q ty flds v \<Longrightarrow> completed q (NonNullType ty) flds v"
| completed_list: "(\<And>v. v \<in> set vs \<Longrightarrow> completed q ty flds v) \<Longrightarrow> completed q (ListType ty) flds (QList vs)"
| completed_scalar: "get_named_type (as_document (qr_schema q)) n = Some (ScalarDef s) \<Longrightarrow> scalar_conforms (st_name s) v \<Longrightarrow>
    completed q (NamedType n) flds v"
| completed_enum: "get_named_type (as_document (qr_schema q)) n = Some (EnumDef e) \<Longrightarrow> x \<in> set (en_values e) \<Longrightarrow>
    completed q (NamedType n) flds (QEnum x)"
| completed_object: "get_named_type (as_document (qr_schema q)) n = Some td \<Longrightarrow>
    concrete_type (as_document (qr_schema q)) td t \<Longrightarrow> answers q t (map sel_set flds) m \<Longrightarrow>
    completed q (NamedType n) flds (QObject m)"
| answers_all: "collect_fields q t sets = Ok groups \<Longrightarrow> bt_wf m \<Longrightarrow> fst ` set m = fst ` set groups \<Longrightarrow>
    (\<And>k flds. (k, flds) \<in> set groups \<Longrightarrow> \<exists>fd v. get_field (IsObject t) (sel_name (hd flds)) = Some fd \<and>
       map_of m k = Some v \<and> completed q (fd_field_type fd) flds v) \<Longrightarrow>
    answers q t sets m"

text \<open>What a nested execution gives when it is right; errors are never reported by an empty list.\<close>

definition sound_executor :: "query \<Rightarrow> executor \<Rightarrow> bool" where
  "sound_executor q execute \<longleftrightarrow> (\<forall>path sets t v.
     execute path sets t v \<noteq> Err [] \<and> (\<forall>w. execute path sets t v = Ok w \<longrightarrow> (\<exists>m. w = QObject m \<and> answers q t sets m)))"

lemma completed_places_Ok:
  assumes "completed_places rs = Ok w" and "Err [] \<notin> set rs"
  shows "\<exists>vs. w = QList vs \<and> rs = map Ok vs"
proof -
  let ?vs = "map (\<lambda>r. case r of Ok v \<Rightarrow> v | _ \<Rightarrow> QNull) rs"
  have "\<exists>v. r = Ok v" if r: "r \<in> set rs" for r
  proof (cases r)
    case (Err es)
    have "es \<in> set (List.map_filter (\<lambda>r. case r of Err es \<Rightarrow> Some es | _ \<Rightarrow> None) rs)"
      using r Err by (force simp: set_map_filter)
    then have "es = []" using assms(1) by (auto simp: completed_places_def Let_def split: if_splits)
    then show ?thesis using assms(2) r Err by simp
  qed (use assms(1) r in \<open>auto simp: completed_places_def split: if_splits\<close>)
  then have "map (\<lambda>r. Ok (case r of Ok v \<Rightarrow> v | _ \<Rightarrow> QNull)) rs = rs" by (intro map_idI) force
  then have "rs = map Ok ?vs" by (simp add: comp_def)
  moreover have "w = QList ?vs" using assms(1) by (auto simp: completed_places_def Let_def split: if_splits)
  ultimately show ?thesis by blast
qed

lemma completed_places_Err: "completed_places rs \<noteq> Err []"
  by (auto simp: completed_places_def Let_def)

lemma and_then_Err_iff: "and_then r f = Err e \<longleftrightarrow> r = Err e \<or> (\<exists>a. r = Ok a \<and> f a = Err e)"
  by (cases r) auto

lemma try_fold_not_Err: "(\<And>x s. f x s \<noteq> Err e) \<Longrightarrow> try_fold f xs s \<noteq> Err e"
  by (induction xs arbitrary: s) (auto simp: and_then_Err_iff)

lemma one_error_not_empty [simp]: "one_error r \<noteq> Err []"
  by (cases r) (auto simp: one_error_def)

lemma expect_not_Err [simp]: "expect x \<noteq> Err e"
  by (cases x) auto

lemma coerce_argument_values_not_empty: "coerce_argument_values ctx t field \<noteq> Err []"
proof -
  have "coerce_argument ctx field d s \<noteq> Err []" for d s
    by (auto simp: coerce_argument_def Let_def split: prod.splits result.splits option.splits)
  then have "try_fold (coerce_argument ctx field) ds s \<noteq> Err []" for ds s by (rule try_fold_not_Err)
  then show ?thesis unfolding coerce_argument_values_def by (auto simp: and_then_Err_iff split: if_splits)
qed

lemma resolve_list_not_empty:
  "xc_resolver ctx = store_resolver pf \<Longrightarrow> resolve_field_value_for_list_type ctx fv field fd ty args \<noteq> Err []"
  by (induction ctx fv field fd ty args rule: resolve_field_value_for_list_type.induct)
    (auto simp: store_resolver_def default_enum_values_def default_scalar_values_def split: option.splits type_definition.splits)

lemma resolve_field_value_not_empty:
  "xc_resolver ctx = store_resolver pf \<Longrightarrow> resolve_field_value ctx t fv field fd ty args \<noteq> Err []"
  by (induction ctx t fv field fd ty args rule: resolve_field_value.induct)
    (auto simp: resolve_list_not_empty resolve_field_value_for_named_type_def split: option.splits)

lemma resolve_abstract_type_store:
  assumes "xc_resolver ctx = store_resolver pf"
  shows "resolve_abstract_type ctx td v \<noteq> Err []"
    and "resolve_abstract_type ctx td v = Ok t \<Longrightarrow> get_named_type (xc_document ctx) (ot_name t) = Some (ObjectDef t)"
proof -
  have name: "ot_name x = name" if found: "get_named_type schema name = Some (ObjectDef x)" for schema name x
  proof -
    obtain i where i: "get_type_name (get_type_definitions schema ! i) = name" "ObjectDef x = get_type_definitions schema ! i"
      using found unfolding get_named_type_def find_Some_iff by metis
    show ?thesis using i(1) [folded i(2)] by simp
  qed
  have ty: "rs_abstract_type (xc_resolver ctx) = default_abstract_type" by (simp add: assms store_resolver_def)
  show "resolve_abstract_type ctx td v \<noteq> Err []"
    unfolding resolve_abstract_type_def ty
    by (auto simp: and_then_Err_iff default_abstract_type_def split: qvalue.splits option.splits type_definition.splits)
  show "get_named_type (xc_document ctx) (ot_name t) = Some (ObjectDef t)" if "resolve_abstract_type ctx td v = Ok t"
  proof -
    from that obtain name where "get_named_type (xc_document ctx) name = Some (ObjectDef t)"
      unfolding resolve_abstract_type_def ty
      by (auto simp: default_abstract_type_def and_then_Ok_iff split: qvalue.splits option.splits type_definition.splits)
    then show ?thesis using name by metis
  qed
qed

lemma complete_named_sound:
  assumes exec: "sound_executor (xc_query ctx) execute" and store: "xc_resolver ctx = store_resolver pf"
    and td: "get_named_type (xc_document ctx) n = Some td" and v: "v \<noteq> QNull"
  shows "complete_named execute ctx path field flds td v \<noteq> Err []"
    and "complete_named execute ctx path field flds td v = Ok w \<Longrightarrow> w \<noteq> QNull \<and> completed (xc_query ctx) (NamedType n) flds w"
proof -
  note abs = resolve_abstract_type_store [OF store]
  have ex: "execute path (map sel_set flds) t (Some v) \<noteq> Err []" for t using exec by (simp add: sound_executor_def)
  have obj: "w \<noteq> QNull \<and> completed (xc_query ctx) (NamedType n) flds w"
    if conc: "concrete_type (xc_document ctx) td t" and run: "execute path (map sel_set flds) t (Some v) = Ok w" for t w
  proof -
    obtain m where "w = QObject m" "answers (xc_query ctx) t (map sel_set flds) m"
      using exec run unfolding sound_executor_def by blast
    then show ?thesis using conc td by (auto simp: xc_document_def intro: completed_object)
  qed
  show "complete_named execute ctx path field flds td v \<noteq> Err []"
    using ex abs(1) by (auto simp: complete_named_def and_then_Err_iff split: type_definition.splits result.splits)
  show "w \<noteq> QNull \<and> completed (xc_query ctx) (NamedType n) flds w" if w: "complete_named execute ctx path field flds td v = Ok w"
  proof (cases td)
    case (ScalarDef s)
    then have "coerce_scalar (xc_float_to_string ctx) (st_name s) v = Ok w"
      using w by (auto simp: complete_named_def split: result.splits)
    then have c: "scalar_conforms (st_name s) w" using coerce_scalar_conforms v by blast
    then have "w \<noteq> QNull" by auto
    then show ?thesis using c td ScalarDef by (auto simp: xc_document_def intro: completed_scalar)
  next
    case (EnumDef e)
    then have "coerce_enum v e = Ok w" using w by (auto simp: complete_named_def split: result.splits)
    then show ?thesis using coerce_enum_conforms [of v e w] v td EnumDef by (auto simp: xc_document_def intro: completed_enum)
  next
    case (ObjectDef t)
    then show ?thesis using w obj [of t w] by (simp add: complete_named_def concrete_type_def)
  next
    case (InterfaceDef i)
    then show ?thesis using w obj abs(2) [of td v] by (auto simp: complete_named_def concrete_type_def and_then_Ok_iff)
  next
    case (UnionDef u)
    then show ?thesis using w obj abs(2) [of td v] by (auto simp: complete_named_def concrete_type_def and_then_Ok_iff)
  qed (use w in \<open>simp add: complete_named_def\<close>)
qed

lemma complete_value_sound:
  assumes exec: "sound_executor (xc_query ctx) execute" and store: "xc_resolver ctx = store_resolver pf"
  shows "complete_value execute ctx path field ty flds v \<noteq> Err [] \<and>
    (\<forall>w. complete_value execute ctx path field ty flds v = Ok w \<longrightarrow> completed (xc_query ctx) ty flds w)"
proof (induction ty arbitrary: path v)
  case (NamedType n)
  show ?case
    using complete_named_sound [OF exec store, of n _ v path field flds]
    by (auto simp: and_then_Ok_iff and_then_Err_iff expect_Ok intro: completed_null)
next
  case (ListType ty)
  let ?rs = "\<lambda>vs. map (\<lambda>(i, x). complete_value execute ctx (path @ [Inr i]) field ty flds x) (enumerate 0 vs)"
  have "completed (xc_query ctx) (ListType ty) flds w" if w: "completed_places (?rs vs) = Ok w" for vs w
  proof -
    have "Err [] \<noteq> complete_value execute ctx p field ty flds x" for p x using ListType [of p x] by (auto dest: sym)
    then have "Err [] \<notin> set (?rs vs)" by auto
    from completed_places_Ok [OF w this] obtain ws where ws: "w = QList ws" "?rs vs = map Ok ws" by blast
    have "completed (xc_query ctx) ty flds x" if "x \<in> set ws" for x
    proof -
      have "Ok x \<in> set (?rs vs)" using ws(2) that by simp
      then show ?thesis using ListType by auto
    qed
    then show ?thesis using ws(1) by (auto intro: completed_list)
  qed
  then show ?case using completed_places_Err by (auto split: qvalue.splits intro: completed_null)
next
  case (NonNullType ty)
  then show ?case by (auto simp: and_then_Ok_iff and_then_Err_iff intro: completed_non_null split: if_splits)
qed

lemma execute_field_sound:
  assumes exec: "sound_executor (xc_query ctx) execute" and store: "xc_resolver ctx = store_resolver pf"
  shows "execute_field execute ctx path t fv field fd flds \<noteq> Err []"
    and "execute_field execute ctx path t fv field fd flds = Ok w \<Longrightarrow> completed (xc_query ctx) (fd_field_type fd) flds w"
  unfolding execute_field_def
  using complete_value_sound [OF exec store] coerce_argument_values_not_empty resolve_field_value_not_empty [OF store]
  by (auto simp: and_then_Ok_iff and_then_Err_iff)

text \<open>The loop over the groups: with no error, every response key gets the value of its field.\<close>

definition answered :: "query \<Rightarrow> object_type \<Rightarrow> (string, qvalue) btreemap \<Rightarrow> string \<times> selection list \<Rightarrow> bool" where
  "answered q t m = (\<lambda>(k, flds). \<exists>fd v. get_field (IsObject t) (sel_name (hd flds)) = Some fd \<and> map_of m k = Some v \<and>
     completed q (fd_field_type fd) flds v)"

lemma execute_groups_not_Err: "execute_groups execute ctx path t multiple groups pre errs m \<noteq> Err es"
  by (induction execute ctx path t multiple groups pre errs m rule: execute_groups.induct)
    (auto simp: Let_def and_then_Err_iff split: result.splits prod.splits option.splits)

lemma execute_groups_sound:
  assumes exec: "sound_executor (xc_query ctx) execute" and store: "xc_resolver ctx = store_resolver pf"
    and "execute_groups execute ctx path t multiple groups pre errs m = Ok ([], m')" and "distinct (map fst groups)" and "bt_wf m"
  shows "errs = [] \<and> bt_wf m' \<and> fst ` set m' = fst ` set m \<union> fst ` set groups \<and>
    (\<forall>k. k \<notin> fst ` set groups \<longrightarrow> map_of m' k = map_of m k) \<and> (\<forall>g \<in> set groups. answered (xc_query ctx) t m' g)"
  using assms(3-5)
proof (induction groups arbitrary: pre errs m)
  case (Cons g groups)
  obtain k flds where g: "g = (k, flds)" by (cases g)
  have late: "\<not> xc_late ctx (path @ [Inl k])" using Cons.prems(1) by (auto simp: g)
  obtain fd where fd: "get_field (IsObject t) (sel_name (hd flds)) = Some fd"
    using Cons.prems(1) late by (cases "get_field (IsObject t) (sel_name (hd flds))") (auto simp: g Let_def)
  obtain fv pre' where pre: "(case pre of None \<Rightarrow> (None, None)
      | Some obj \<Rightarrow> (let (v, obj') = take_value multiple k (sel_name (hd flds)) obj in (v, Some obj'))) = (fv, pre')"
    by fastforce
  let ?x = "execute_field execute ctx (path @ [Inl k]) t fv (hd flds) fd flds"
  have run: "(case ?x of Ok v \<Rightarrow> execute_groups execute ctx path t multiple groups pre' errs (bt_insert k v m)
      | Err es \<Rightarrow> execute_groups execute ctx path t multiple groups pre' (errs @ es) m | Panic \<Rightarrow> Panic) = Ok ([], m')"
    using Cons.prems(1) late fd pre by (simp add: g Let_def split: prod.splits)
  show ?case
  proof (cases ?x)
    case (Ok v)
    then have rest: "execute_groups execute ctx path t multiple groups pre' errs (bt_insert k v m) = Ok ([], m')" using run by simp
    have k: "k \<notin> fst ` set groups" "distinct (map fst groups)" using Cons.prems(2) by (auto simp: g)
    have "completed (xc_query ctx) (fd_field_type fd) flds v" using execute_field_sound(2) [OF exec store Ok] .
    moreover note Cons.IH [OF rest k(2)]
    moreover have "map_of (bt_insert k v m) k = Some v" by (simp add: map_of_bt_insert)
    ultimately show ?thesis
      using Cons.prems(3) k(1) fd by (auto simp: g set_fst_bt_insert map_of_bt_insert answered_def)
  next
    case (Err es)
    then have "es = []" using run Cons.IH [of pre' "errs @ es" m] Cons.prems(2,3) by (simp add: g)
    then show ?thesis using execute_field_sound(1) [OF exec store] Err by blast
  qed (use run in simp)
qed simp

lemma execute_level_sound:
  assumes exec: "sound_executor (xc_query ctx) execute" and store: "xc_resolver ctx = store_resolver pf"
  shows "execute_level execute ctx path sets t pre \<noteq> Err []"
    and "execute_level execute ctx path sets t pre = Ok m \<Longrightarrow> answers (xc_query ctx) t sets m"
proof -
  have "collect_fields (xc_query ctx) t sets \<noteq> Err []"
    using collect_fields_inner_outcome [of "xc_query ctx" t "concat sets" "{}" "[]"]
    by (auto simp: collect_fields_def collect_fields_concat and_then_Err_iff search_outcome_def split: prod.splits)
  then show "execute_level execute ctx path sets t pre \<noteq> Err []"
    by (auto simp: execute_level_def and_then_Err_iff execute_groups_not_Err split: option.splits qvalue.splits if_splits)
  show "answers (xc_query ctx) t sets m" if ok: "execute_level execute ctx path sets t pre = Ok m"
  proof -
    obtain obj groups where g: "collect_fields (xc_query ctx) t sets = Ok groups"
        and run: "execute_groups execute ctx path t (multiple_response_keys groups) groups obj [] [] = Ok ([], m)"
      using ok by (auto simp: execute_level_def and_then_Ok_iff split: if_splits)
    have "distinct (map fst groups)" using collect_fields_groups [OF g] by (simp add: groups_ok_def)
    from execute_groups_sound [OF exec store run this]
    show ?thesis by (intro answers_all [OF g]) (auto simp: answered_def)
  qed
qed

lemma execute_selection_set_sound:
  assumes store: "xc_resolver ctx = store_resolver pf"
  shows "sound_executor (xc_query ctx) (execute_selection_set d ctx)"
  unfolding execute_selection_set_def
proof (induction d)
  case (Suc d)
  note level = execute_level_sound [OF Suc.IH store]
  show ?case
    unfolding sound_executor_def using level by (auto simp: and_then_Err_iff and_then_Ok_iff)
qed (simp add: sound_executor_def)

subsection \<open>The depth of the recursion\<close>

text \<open>Nested executions get smaller values, so what they do at other values does not matter.\<close>

definition agree_below :: "nat \<Rightarrow> executor \<Rightarrow> executor \<Rightarrow> bool" where
  "agree_below n e e' \<longleftrightarrow> (\<forall>path sets t v. size v < n \<longrightarrow> e path sets t (Some v) = e' path sets t (Some v))"

lemma complete_value_agree:
  "agree_below n e e' \<Longrightarrow> size v < n \<Longrightarrow> complete_value e ctx path field ty flds v = complete_value e' ctx path field ty flds v"
proof (induction ty arbitrary: path v)
  case (NamedType name)
  then have "e p sets t (Some v) = e' p sets t (Some v)" for p sets t by (simp add: agree_below_def)
  then have "complete_named e ctx path field flds td v = complete_named e' ctx path field flds td v" for td
    by (simp add: complete_named_def split: type_definition.splits)
  then show ?case by simp
next
  case (ListType ty)
  have "complete_value e ctx (path @ [Inr i]) field ty flds x = complete_value e' ctx (path @ [Inr i]) field ty flds x"
    if "v = QList vs" "(i, x) \<in> set (enumerate 0 vs)" for vs i x
  proof -
    have "x \<in> set vs" using that(2) by (auto simp: in_set_enumerate_eq)
    then show ?thesis using ListType size_element [of x vs] that(1) by simp
  qed
  then show ?case by (auto split: qvalue.splits intro!: arg_cong [where f = completed_places] map_cong)
next
  case (NonNullType ty)
  then show ?case by simp
qed

lemma resolve_list_size:
  "xc_resolver ctx = store_resolver pf \<Longrightarrow> resolve_field_value_for_list_type ctx fv field fd ty args = Ok v \<Longrightarrow>
    v = QNull \<or> fv = Some v"
  by (induction ctx fv field fd ty args rule: resolve_field_value_for_list_type.induct)
    (auto simp: store_resolver_def default_enum_values_def default_scalar_values_def store_resolve_objects_def one_error_def
      split: option.splits type_definition.splits result.splits)

lemma store_object_size: "store_resolve_object fv field fd ty args = Ok v \<Longrightarrow> v = QNull \<or> (\<exists>vs. fv = Some (QList vs) \<and> v \<in> set vs)"
  by (auto simp: store_resolve_object_def and_then_Ok_iff split: option.splits qvalue.splits if_splits list.splits)

lemma resolve_field_value_size:
  assumes store: "xc_resolver ctx = store_resolver pf" and "resolve_field_value ctx t fv field fd ty args = Ok v"
  shows "v = QNull \<or> (\<exists>x. fv = Some x \<and> size v \<le> size x)"
  using assms(2)
proof (induction ty)
  case (NamedType n)
  have obj: "v = QNull \<or> (\<exists>x. fv = Some x \<and> size v \<le> size x)" if "store_resolve_object fv field fd oi args = Ok v" for oi
    using store_object_size [OF that] size_element by fastforce
  show ?case
    using NamedType obj
    by (auto simp: resolve_field_value_for_named_type_def store store_resolver_def default_enum_value_def default_scalar_value_def
        one_error_def split: option.splits type_definition.splits result.splits)
next
  case (ListType ty)
  then show ?case using resolve_list_size [OF store] by fastforce
qed simp

lemma execute_field_agree:
  assumes store: "xc_resolver ctx = store_resolver pf" and ag: "agree_below n e e'" and n: "0 < n"
    and fv: "\<And>x. fv = Some x \<Longrightarrow> size x < n"
  shows "execute_field e ctx path t fv field fd flds = execute_field e' ctx path t fv field fd flds"
proof -
  have "complete_value e ctx path field ty flds v = complete_value e' ctx path field ty flds v"
    if r: "resolve_field_value ctx t fv field fd ty' args = Ok v" for args ty ty' v
  proof (rule complete_value_agree [OF ag])
    show "size v < n" using resolve_field_value_size [OF store r] n fv by (auto dest: le_less_trans)
  qed
  then show ?thesis unfolding execute_field_def by (intro and_then_cong refl) auto
qed

lemma take_value_mem:
  "take_value multiple k name obj = (fv, obj') \<Longrightarrow> set obj' \<subseteq> set obj \<and> (\<forall>x. fv = Some x \<longrightarrow> (\<exists>k'. (k', x) \<in> set obj))"
  by (auto simp: take_value_def bt_remove_def split: option.splits if_splits dest: map_of_SomeD)

lemma execute_groups_agree:
  assumes store: "xc_resolver ctx = store_resolver pf" and ag: "agree_below (size (QObject obj0)) e e'"
  shows "set obj \<subseteq> set obj0 \<Longrightarrow>
    execute_groups e ctx path t multiple groups (Some obj) errs m = execute_groups e' ctx path t multiple groups (Some obj) errs m"
proof (induction groups arbitrary: obj errs m)
  case (Cons g groups)
  obtain k flds where g: "g = (k, flds)" by (cases g)
  obtain fv obj' where tv: "take_value multiple k (sel_name (hd flds)) obj = (fv, obj')" by fastforce
  note mem = take_value_mem [OF tv]
  have "size x < size (QObject obj0)" if "fv = Some x" for x using mem Cons.prems that size_entry by blast
  then have "execute_field e ctx (path @ [Inl k]) t fv (hd flds) fd flds = execute_field e' ctx (path @ [Inl k]) t fv (hd flds) fd flds" for fd
    by (intro execute_field_agree [OF store ag]) simp_all
  moreover have "set obj' \<subseteq> set obj0" using mem Cons.prems by blast
  ultimately show ?case
    using Cons.IH [of obj'] by (simp add: g Let_def tv cong: and_then_cong result.case_cong)
qed simp

lemma execute_level_agree:
  assumes store: "xc_resolver ctx = store_resolver pf" and ag: "agree_below (size v) e e'"
  shows "execute_level e ctx path sets t (Some v) = execute_level e' ctx path sets t (Some v)"
proof (cases v)
  case (QObject obj)
  show ?thesis using execute_groups_agree [OF store, of obj e e' obj] ag by (simp add: execute_level_def QObject)
qed (simp_all add: execute_level_def)

lemma executor_stack_depth:
  assumes store: "xc_resolver ctx = store_resolver pf"
  shows "size v < d \<Longrightarrow> size v < d' \<Longrightarrow> executor_stack b d ctx path sets t (Some v) = executor_stack b' d' ctx path sets t (Some v)"
proof (induction "size v" arbitrary: v d d' path sets t rule: less_induct)
  case less
  obtain k k' where d: "d = Suc k" "d' = Suc k'" using less.prems by (cases d; cases d') auto
  have "agree_below (size v) (executor_stack b k ctx) (executor_stack b' k' ctx)"
    unfolding agree_below_def by (intro allI impI less.hyps) (use less.prems d in auto)
  from execute_level_agree [OF store this] show ?case by (simp add: d)
qed

subsection \<open>The root selection set\<close>

text \<open>Collecting fields that have been collected gives the same groups.\<close>

lemma collect_collected:
  assumes "\<forall>f \<in> set fs. is_field f \<and> is_selected q f \<and> get_response_key f = k" and "k \<notin> fst ` set g" and "fs \<noteq> []"
  shows "collect_fields_inner q t (fs @ rest) v g = collect_fields_inner q t rest v (g @ [(k, fs)])"
proof -
  have push: "index_push k f (g @ [(k, xs)]) = g @ [(k, xs @ [f])]" for f xs
    using assms(2) by (induction g) auto
  have more: "collect_fields_inner q t (ys @ rest) v (g @ [(k, xs)]) = collect_fields_inner q t rest v (g @ [(k, xs @ ys)])"
    if "set ys \<subseteq> set fs" for xs ys
    using that
  proof (induction ys arbitrary: xs)
    case (Cons y ys)
    then have y: "is_field y" "is_selected q y" "get_response_key y = k" using assms(1) by auto
    then have "collect_selection (collect_fields_inner q t) q t y v (g @ [(k, xs)]) = Ok (v, g @ [(k, xs @ [y])])"
      using push [of y xs] by (cases y) (auto simp: collect_selection_def)
    then show ?case using Cons.IH [of "xs @ [y]"] Cons.prems by simp
  qed simp
  obtain f fs' where fs: "fs = f # fs'" using assms(3) by (cases fs) auto
  have first: "index_push k f g = g @ [(k, [f])]" using assms(2) by (induction g) auto
  have f: "is_field f" "is_selected q f" "get_response_key f = k" using assms(1) fs by auto
  then have "collect_selection (collect_fields_inner q t) q t f v g = Ok (v, g @ [(k, [f])])"
    using first by (cases f) (auto simp: collect_selection_def)
  moreover have "set fs' \<subseteq> set fs" using fs by auto
  ultimately show ?thesis using more [of fs' "[f]"] by (simp add: fs)
qed

lemma recollect_groups:
  assumes "groups_ok (g @ groups)" and "\<forall>f \<in> fields_of groups. is_selected q f"
  shows "collect_fields_inner q t (concat (map snd groups)) v g = Ok (v, g @ groups)"
  using assms
proof (induction groups arbitrary: g)
  case (Cons x groups)
  obtain k fs where x: "x = (k, fs)" by (cases x)
  have fs: "\<forall>f \<in> set fs. is_field f \<and> is_selected q f \<and> get_response_key f = k" "k \<notin> fst ` set g" "fs \<noteq> []"
    using Cons.prems by (auto simp: groups_ok_def x fields_of_def)
  show ?case
    using collect_collected [OF fs, of t "concat (map snd groups)" v] Cons.IH [of "g @ [x]"] Cons.prems
    by (simp add: x fields_of_def)
qed simp

lemma collect_fields_again:
  assumes "collect_fields q t sets = Ok groups"
  shows "collect_fields q t [concat (map snd groups)] = Ok groups"
  using recollect_groups [of "[]" groups q t "{}"] collect_fields_groups [OF assms] collect_fields_selected [OF assms]
  by (simp add: collect_fields_def)

definition selects_data :: "query \<Rightarrow> object_type \<Rightarrow> selection list \<Rightarrow> bool" where
  "selects_data q root sels \<longleftrightarrow> (\<forall>f. field_selected q root sels f \<longrightarrow> \<not> is_introspection_field (qr_schema q) (sel_name f))"

lemma no_introspection:
  assumes "collect_fields q root [sels] = Ok groups"
    and "selects_data q root sels"
  shows "filter (\<lambda>(_, flds). is_introspection_field (qr_schema q) (sel_name (hd flds))) groups = []"
    and "filter (Not \<circ> (\<lambda>(_, flds). is_introspection_field (qr_schema q) (sel_name (hd flds)))) groups = groups"
proof -
  have "\<not> is_introspection_field (qr_schema q) (sel_name (hd flds))" if kf: "(k, flds) \<in> set groups" for k flds
  proof -
    have "hd flds \<in> set flds" using collect_fields_groups [OF assms(1)] kf by (auto simp: groups_ok_def)
    then have "hd flds \<in> fields_of groups" using kf by (auto simp: fields_of_def)
    then show ?thesis using collect_fields_selected [OF assms(1)] assms(2) by (simp add: selects_data_def)
  qed
  then show "filter (\<lambda>(_, flds). is_introspection_field (qr_schema q) (sel_name (hd flds))) groups = []"
    "filter (Not \<circ> (\<lambda>(_, flds). is_introspection_field (qr_schema q) (sel_name (hd flds)))) groups = groups"
    by (auto simp: filter_empty_conv intro!: filter_True)
qed

text \<open>Without introspection fields, execution is that of the selected data.\<close>

lemma execute_root_data:
  assumes "selects_data (xc_query ctx) root sels"
  shows "execute_root execute intro ctx sels root =
    and_then (collect_fields (xc_query ctx) root [sels]) (\<lambda>groups.
      if groups = [] then Ok []
      else and_then (rs_prefetch (xc_resolver ctx) (xc_query ctx) sels) (\<lambda>v.
             execute_selection_set_to_map execute ctx [] [concat (map snd groups)] root v))"
proof -
  have keep: "and_then r Ok = r" for r :: "('a, 'e) result" by (cases r) simp_all
  have "concat (map snd groups) = [] \<longleftrightarrow> groups = []" if "collect_fields (xc_query ctx) root [sels] = Ok groups" for groups
    using collect_fields_groups [OF that] by (cases groups) (auto simp: groups_ok_def)
  then show ?thesis
    unfolding execute_root_def Let_def
    by (intro and_then_cong refl) (simp add: no_introspection(1) [OF _ assms] no_introspection(2) [OF _ assms] keep del: concat_eq_Nil_conv o_apply)
qed

lemma answers_same_groups: "answers q t sets m \<Longrightarrow> collect_fields q t sets' = collect_fields q t sets \<Longrightarrow> answers q t sets' m"
  by (erule answers.cases) (rule answers_all, auto)

section \<open>Execution is right\<close>

lemma execute_root_answers:
  assumes "xc_resolver ctx = store_resolver prefetch"
    and "selects_data (xc_query ctx) root sels"
    and "execute_root_selection_set_uncached d intro ctx sels root = Ok m"
  shows "answers (xc_query ctx) root [sels] m"
proof -
  obtain groups where g: "collect_fields (xc_query ctx) root [sels] = Ok groups"
    and run: "groups = [] \<and> m = [] \<or> (\<exists>v. execute_selection_set_to_map (execute_selection_set d) ctx [] [concat (map snd groups)] root v = Ok m)"
    using assms(3) unfolding execute_root_selection_set_uncached_def execute_root_data [OF assms(2)] by (auto simp: and_then_Ok_iff split: if_splits)
  have "answers (xc_query ctx) root [concat (map snd groups)] m" if "execute_selection_set_to_map (execute_selection_set d) ctx [] [concat (map snd groups)] root v = Ok m" for v
    using execute_level_sound(2) [OF execute_selection_set_sound [OF assms(1)] assms(1)] that
    by (simp add: execute_selection_set_to_map_def)
  then show ?thesis
    using run answers_same_groups [OF _ g [folded collect_fields_again [OF g]]] answers_all [OF g, of m] by auto
qed

text \<open>C11. Execution of selected data against the store ends, whatever the fragments of the query are: on a call
  stack as deep as the data that was fetched, the code below the stack is never reached. Whatever runs there, for
  any depth from the size of the data on, the result is that of the program. (Root selections for introspection
  are executed by another resolver.)\<close>

theorem execution_terminates:
  assumes "xc_resolver ctx = store_resolver prefetch"
    and "selects_data (xc_query ctx) root sels"
    and "prefetch (xc_query ctx) sels = Ok v" and "size v \<le> d"
  shows "execute_root (executor_stack bottom d) intro ctx sels root = execute_root_selection_set_uncached (size v) intro ctx sels root"
proof -
  have "agree_below (size v) (executor_stack bottom d ctx) (execute_selection_set (size v) ctx)"
    unfolding agree_below_def execute_selection_set_def
    by (intro allI impI executor_stack_depth [OF assms(1)]) (use assms(4) in auto)
  note level = execute_level_agree [OF assms(1) this]
  have "rs_prefetch (xc_resolver ctx) (xc_query ctx) sels = Ok (Some v)"
    using assms(1,3) by (simp add: store_resolver_def)
  then show ?thesis
    unfolding execute_root_selection_set_uncached_def execute_root_data [OF assms(2)] execute_selection_set_to_map_def
    by (simp add: level cong: if_cong)
qed

subsection \<open>A query\<close>

definition demo_field :: "string \<Rightarrow> gtype \<Rightarrow> field_def" where
  "demo_field name ty = \<lparr>fd_name = name, fd_arguments = [], fd_field_type = ty, fd_directives = []\<rparr>"

definition demo_user :: object_type where
  "demo_user = \<lparr>ot_name = ''User'', ot_implements_interfaces = [], ot_directives = [],
     ot_fields = [demo_field ''name'' (NonNullType (NamedType ''String'')), demo_field ''friends'' (ListType (NamedType ''User''))]\<rparr>"

definition demo_root :: object_type where
  "demo_root = \<lparr>ot_name = ''Query'', ot_implements_interfaces = [], ot_directives = [],
     ot_fields = [demo_field ''user'' (NamedType ''User'')]\<rparr>"

definition demo_social :: api_schema where
  "demo_social = \<lparr>as_document = [TypeDefinition (ObjectDef demo_root), TypeDefinition (ObjectDef demo_user),
       TypeDefinition (ScalarDef \<lparr>st_name = ''String'', st_directives = []\<rparr>)],
     as_id = ''Qm'', as_introspection = [],
     as_introspection_query_type = \<lparr>ot_name = ''Query'', ot_implements_interfaces = [], ot_directives = [],
       ot_fields = [demo_field ''__schema'' (NamedType ''__Schema'')]\<rparr>\<rparr>"

text \<open>A fragment that spreads itself, over two users.\<close>

definition demo_person :: fragment_definition where
  "demo_person = \<lparr>fr_name = ''person'', fr_type_condition = ''User'', fr_selection_set =
     [FieldSel (1, 1) None ''name'' [] [] [], FieldSel (1, 2) (Some ''knows'') ''friends'' [] [] [FragmentSpread ''person'']]\<rparr>"

definition demo_sels :: "selection list" where
  "demo_sels = [FieldSel (0, 0) None ''user'' [] [] [FragmentSpread ''person'', FragmentSpread ''person'']]"

definition demo_fetched :: qvalue where
  "demo_fetched =
     (let user = \<lambda>n fs. QObject [(''name'', QString n), (''prefetch:knows'', QList fs)]
      in QObject [(''prefetch:user'', QList [user ''ann'' [user ''bob'' []]])])"

definition demo_context :: execution_context where
  "demo_context =
     \<lparr>xc_query = \<lparr>qr_schema = demo_social, qr_variables = [], qr_selection_set = demo_sels,
        qr_fragments = [(''person'', demo_person)], qr_kind = QueryKind, qr_complexity = 0\<rparr>,
      xc_resolver = store_resolver (\<lambda>q ss. Ok demo_fetched), xc_late = (\<lambda>p. False), xc_coercion_depth = 10,
      xc_float_to_string = (\<lambda>f. [])\<rparr>"

definition demo_response :: "(string, qvalue) btreemap" where
  "demo_response =
     (let user = \<lambda>n fs. QObject [(''knows'', QList fs), (''name'', QString n)]
      in [(''user'', user ''ann'' [user ''bob'' []])])"

lemma demo_executed:
  "execute_root_selection_set_uncached 20 (\<lambda>d. xc_resolver demo_context) demo_context demo_sels demo_root = Ok demo_response"
  by code_simp

lemma demo_selects_data: "selects_data (xc_query demo_context) demo_root demo_sels"
proof -
  have g: "collect_fields (xc_query demo_context) demo_root [demo_sels] = Ok [(''user'', demo_sels)]" by code_simp
  have "f \<in> set demo_sels" if "field_selected (xc_query demo_context) demo_root demo_sels f" for f
    using collect_fields_complete [OF g, of f] that by (simp add: fields_of_def)
  then have "sel_name f = ''user''" if "field_selected (xc_query demo_context) demo_root demo_sels f" for f
    using that by (fastforce simp: demo_sels_def)
  moreover have "\<not> is_introspection_field (qr_schema (xc_query demo_context)) ''user''"
    by (simp add: is_introspection_field_def demo_context_def demo_social_def demo_field_def)
  ultimately show ?thesis by (auto simp: selects_data_def)
qed

theorem execution_terminates_witness:
  "execute_root (executor_stack (\<lambda>path sets t v. Ok QNull) 20) (\<lambda>d. xc_resolver demo_context) demo_context demo_sels demo_root = Ok demo_response"
proof -
  have "size demo_fetched \<le> 20" by (simp add: demo_fetched_def)
  note ends = execution_terminates [OF _ demo_selects_data _ this, of "\<lambda>q ss. Ok demo_fetched" _ "\<lambda>d. xc_resolver demo_context"]
  show ?thesis
    using ends [of "\<lambda>path sets t v. Ok QNull"] ends [of "\<lambda>path sets t v. Panic"] demo_executed
    by (simp add: demo_context_def execute_root_selection_set_uncached_def [of 20] execute_selection_set_def [abs_def])
qed

end
