(* ===== verification/Runner.thy ===== *)
theory Runner
  imports Execution StoreEvents Assignments "HOL-Library.Multiset"
begin

text \<open>
  Running queries and subscriptions (\<open>graphql/src/runner.rs\<close>, \<open>graphql/src/query/mod.rs\<close>, \<open>graphql/src/subscription/mod.rs\<close>,
  \<open>graphql/src/store/resolver.rs\<close>): the root fields of a query are grouped by the block they ask for, each group
  is executed at its block, and the results are put together. Afterwards the runner checks that no
  block the query looked at has been reverted in the meantime. The store, the decision of the load manager and the prefetching of data are
  parameters; the order in which a hash map is iterated is one too.
\<close>

section \<open>Deployments and blocks\<close>

record deployment_state =
  dst_id :: string
  dst_reorg_count :: "32 word"
  dst_max_reorg_depth :: "32 word"
  dst_latest_block :: i32

definition deployment_state_meta :: deployment_state where
  "deployment_state_meta = \<lparr>dst_id = SUBGRAPHS_ID, dst_reorg_count = 0, dst_max_reorg_depth = 0, dst_latest_block = BLOCK_NUMBER_MAX\<rparr>"

text \<open>The methods of the store that the runner uses; errors are their messages.\<close>

record deployment_store =
  dss_uses_relational_schema :: "string \<Rightarrow> (bool, string) result"
  dss_block_ptr :: "string \<Rightarrow> (block_pointer option, string) result"
  dss_block_number :: "string \<Rightarrow> bytes \<Rightarrow> (i32 option, string) result"
  dss_deployment_state :: "string \<Rightarrow> (deployment_state, string) result"

definition store_result :: "('a, string) result \<Rightarrow> ('a, errors) result" where
  "store_result r = (case r of Ok a \<Rightarrow> Ok a | Err e \<Rightarrow> Err [StoreError e] | Panic \<Rightarrow> Panic)"

definition zero_hash :: bytes where
  "zero_hash = replicate 32 0"

definition locate_block :: "deployment_store \<Rightarrow> query_constraint \<Rightarrow> string \<Rightarrow> (block_pointer, errors) result" where
  "locate_block store bc subgraph =
     and_then (store_result (dss_uses_relational_schema store subgraph)) (\<lambda>relational.
       if relational \<and> \<not> is_meta subgraph
       then
         (case bc of
            ConstraintNumber number \<Rightarrow>
              and_then (store_result (dss_block_ptr store subgraph)) (\<lambda>ptr.
              and_then (expect ptr) (\<lambda>ptr.
                if ptr_number ptr < scast number then Err [ValueParseError ''block.number'']
                else Ok (BlockPtr zero_hash (scast number))))
          | ConstraintHash hash \<Rightarrow>
              and_then (store_result (dss_block_number store subgraph hash)) (\<lambda>number.
                case number of
                  None \<Rightarrow> Err [ValueParseError ''block.hash'']
                | Some number \<Rightarrow> Ok (BlockPtr hash (scast number)))
          | Latest \<Rightarrow>
              and_then (store_result (dss_block_ptr store subgraph)) expect)
       else if bc = Latest then Ok (BlockPtr zero_hash (scast BLOCK_NUMBER_MAX))
       else Err [NotSupported ''This subgraph uses JSONB storage, which does not support querying at a specific block height. Redeploy a new version of this subgraph to enable this feature.''])"

text \<open>The block number of the resolver and the pointer.\<close>

definition at_block :: "deployment_store \<Rightarrow> query_constraint \<Rightarrow> string \<Rightarrow> (i32 \<times> block_pointer, errors) result" where
  "at_block store bc subgraph =
     (case locate_block store bc subgraph of
        Ok ptr \<Rightarrow> Ok (ucast (ptr_number ptr), ptr)
      | Err es \<Rightarrow> Err es
      | Panic \<Rightarrow> Err [PanicError ''panic''])"

text \<open>Whether what the query saw may have changed; \<open>allow\<close> is the setting that skips the check.\<close>

definition deployment_changed :: "bool \<Rightarrow> deployment_store \<Rightarrow> deployment_state \<Rightarrow> u64 \<Rightarrow> (unit, errors) result" where
  "deployment_changed allow store state latest_block =
     (if allow then Ok ()
      else
        and_then (store_result (dss_deployment_state store (dst_id state))) (\<lambda>new_state.
          if \<not> dst_reorg_count state \<le> dst_reorg_count new_state then Panic
          else if dst_reorg_count state < dst_reorg_count new_state
          then
            (let n_blocks = dst_max_reorg_depth new_state * (dst_reorg_count new_state - dst_reorg_count state)
             in if latest_block + ucast n_blocks > scast (dst_latest_block state) then Err [DeploymentReverted] else Ok ())
          else Ok ()))"

section \<open>Queries\<close>

definition is_query :: "query \<Rightarrow> bool" where
  "is_query q = (case qr_kind q of QueryKind \<Rightarrow> True | SubscriptionKind \<Rightarrow> False)"

definition is_subscription :: "query \<Rightarrow> bool" where
  "is_subscription q = (case qr_kind q of SubscriptionKind \<Rightarrow> True | QueryKind \<Rightarrow> False)"

text \<open>The fields of the root selection set by the block they ask for; other selections are passed over.\<close>

definition add_block_constraint ::
  "(string \<Rightarrow> bytes option) \<Rightarrow> (string, qvalue) hashmap \<Rightarrow> selection
   \<Rightarrow> (query_constraint \<times> selection list) list \<times> errors \<Rightarrow> ((query_constraint \<times> selection list) list \<times> errors, errors) result" where
  "add_block_constraint h256_from_str variables sel = (\<lambda>(bcs, errs).
     case sel of
       FieldSel p a n args ds ss \<Rightarrow>
         (case block_constraint h256_from_str p args variables of
            Ok bc \<Rightarrow> Ok (index_push bc sel bcs, errs)
          | Err e \<Rightarrow> Ok (bcs, errs @ [e])
          | Panic \<Rightarrow> Panic)
     | _ \<Rightarrow> Ok (bcs, errs))"

definition query_block_constraint ::
  "(string \<Rightarrow> bytes option) \<Rightarrow> query \<Rightarrow> ((query_constraint \<times> selection list) list, errors) result" where
  "query_block_constraint h256_from_str q =
     and_then (try_fold (add_block_constraint h256_from_str (qr_variables q)) (qr_selection_set q) ([], []))
       (\<lambda>(bcs, errs). if errs \<noteq> [] then Err errs else Ok bcs)"

text \<open>What the runner is given: the store, the load manager, the data of a block, and the parameters of execution.\<close>

record runner =
  rn_store :: deployment_store
  rn_decide :: "query \<Rightarrow> (unit, query_execution_error) result"
  rn_prefetch :: "i32 \<Rightarrow> query \<Rightarrow> selection list \<Rightarrow> (qvalue, errors) result"
  rn_introspection :: "document \<Rightarrow> resolver"
  rn_late :: "path \<Rightarrow> bool"
  rn_stack :: nat
  rn_float_to_string :: "64 word \<Rightarrow> string"
  rn_h256_from_str :: "string \<Rightarrow> bytes option"
  rn_panic_message :: string
  rn_allow_deployment_change :: bool
  rn_iter :: "(query_constraint \<times> selection list) list \<Rightarrow> (query_constraint \<times> selection list) list"

definition runner_context :: "runner \<Rightarrow> query \<Rightarrow> i32 \<Rightarrow> execution_context" where
  "runner_context R q block =
     \<lparr>xc_query = q, xc_resolver = store_resolver (rn_prefetch R block), xc_late = rn_late R,
      xc_coercion_depth = rn_stack R, xc_float_to_string = rn_float_to_string R\<rparr>"

text \<open>\<open>execute_query\<close>, for a request that no cache answers. Theory \<open>QueryCache\<close> shows what the caches may answer
  instead: what \<open>request_outcome\<close> gave earlier, for this request or for the same query at the same block pointer.\<close>

definition root_request :: "query \<Rightarrow> selection list \<Rightarrow> block_pointer option \<Rightarrow> request" where
  "root_request q sels ptr = \<lparr>rq_cacheable = True, rq_query = q, rq_network = None, rq_selection_set = sels, rq_block_ptr = ptr\<rparr>"

definition execute_query :: "runner \<Rightarrow> query \<Rightarrow> selection list \<Rightarrow> block_pointer \<Rightarrow> i32 \<Rightarrow> (query_result, errors) result" where
  "execute_query R q sels ptr block =
     (if \<not> is_query q then Ok (result_from_error (NotSupported ''Only queries are supported''))
      else
        and_then (expect (get_root_query_type (as_document (qr_schema q)))) (\<lambda>root_type.
          Ok (run_query
                (\<lambda>r. execute_root_selection_set_uncached (rn_stack R) (rn_introspection R) (runner_context R q block)
                       (rq_selection_set r) root_type)
                (\<lambda>r. rn_panic_message R) (root_request q sels (Some ptr)))))"

definition request_block :: "request \<Rightarrow> i32" where
  "request_block r = (case rq_block_ptr r of Some ptr \<Rightarrow> ucast (ptr_number ptr) | None \<Rightarrow> BLOCK_NUMBER_MAX)"

definition request_outcome :: "runner \<Rightarrow> request \<Rightarrow> query_result" where
  "request_outcome R = run_query
     (\<lambda>r. and_then (expect (get_root_query_type (as_document (qr_schema (rq_query r))))) (\<lambda>root_type.
            execute_root_selection_set_uncached (rn_stack R) (rn_introspection R) (runner_context R (rq_query r) (request_block r))
              (rq_selection_set r) root_type))
     (\<lambda>r. rn_panic_message R)"

lemma execute_query_outcome:
  assumes "at_block (rn_store R) bc (as_id (qr_schema q)) = Ok (block, ptr)" and "is_query q"
    and "get_root_query_type (as_document (qr_schema q)) = Some t"
  shows "execute_query R q sels ptr block = Ok (request_outcome R (root_request q sels (Some ptr)))"
  using assms
  by (auto simp: execute_query_def request_outcome_def run_query_def root_request_def request_block_def at_block_def
      split: result.splits)

text \<open>The server of theory \<open>QueryCache\<close> over runners: the store, and with it the runner, changes from step to step.\<close>

interpretation runner_server: query_server list_pq list_elems cfg id P "\<lambda>t. request_outcome (R t)"
  for cfg P and R :: "nat \<Rightarrow> runner"
  by unfold_locales (auto simp: request_outcome_def)

definition unit_error :: "('a, unit) result \<Rightarrow> ('a, errors) result" where
  "unit_error r = (case r of Ok a \<Rightarrow> Ok a | _ \<Rightarrow> Panic)"

definition execute_group ::
  "runner \<Rightarrow> query \<Rightarrow> query_constraint \<times> selection list \<Rightarrow> (query_result \<times> u64, errors) result" where
  "execute_group R q = (\<lambda>(bc, sels).
     and_then (at_block (rn_store R) bc (as_id (qr_schema q))) (\<lambda>(block, ptr).
     and_then (execute_query R q sels ptr block) (\<lambda>res. Ok (res, ptr_number ptr))))"

definition append_group ::
  "runner \<Rightarrow> query \<Rightarrow> query_constraint \<times> selection list \<Rightarrow> query_result \<times> u64 \<Rightarrow> (query_result \<times> u64, errors) result" where
  "append_group R q grp = (\<lambda>(partial_res, max_block).
     and_then (execute_group R q grp) (\<lambda>(res, number).
     and_then (unit_error (result_append partial_res res)) (\<lambda>partial_res.
       Ok (partial_res, max max_block number))))"

definition runner_execute :: "runner \<Rightarrow> query \<Rightarrow> deployment_state \<Rightarrow> (query_result, errors) result" where
  "runner_execute R q state =
     and_then (one_error (rn_decide R q)) (\<lambda>_.
     and_then (query_block_constraint (rn_h256_from_str R) q) (\<lambda>bcs.
       case rn_iter R bcs of
         [] \<Rightarrow> Panic
       | grp # rest \<Rightarrow>
           and_then (execute_group R q grp) (\<lambda>first.
           and_then (try_fold (append_group R q) rest first) (\<lambda>(res, max_block).
           and_then (deployment_changed (rn_allow_deployment_change R) (rn_store R) state max_block) (\<lambda>_.
             Ok res)))))"

text \<open>\<open>run_query_with_complexity\<close>, from the document of the query.\<close>

definition run_query_with_complexity ::
  "runner \<Rightarrow> api_schema \<Rightarrow> query_definition list \<Rightarrow> (string, qvalue) hashmap option \<Rightarrow> deployment_state \<Rightarrow> u64 option \<Rightarrow> 8 word
   \<Rightarrow> (query_result, errors) result" where
  "run_query_with_complexity R api document variables state max_complexity max_depth =
     (case and_then (query_prepare (rn_stack R) (rn_float_to_string R) api document variables max_complexity max_depth)
             (\<lambda>q. runner_execute R q state) of
        Err es \<Rightarrow> Ok (result_from_errors es)
      | r \<Rightarrow> r)"

section \<open>Subscriptions\<close>

text \<open>The events of the stream and the end of the lookup; a stream is a list of what it yields.\<close>

definition create_source_event_stream ::
  "execution_context \<Rightarrow> (object_type \<Rightarrow> selection \<Rightarrow> ('s, query_execution_error) result) \<Rightarrow> ('s, errors) result" where
  "create_source_event_stream ctx resolve_stream =
     and_then (ok_or (get_root_subscription_type (xc_document ctx)) [NoRootSubscriptionObjectType]) (\<lambda>subscription_type.
     and_then (collect_fields (xc_query ctx) subscription_type [qr_selection_set (xc_query ctx)]) (\<lambda>grouped.
       if grouped = [] then Err [EmptyQuery]
       else if length grouped > 1 then Err [MultipleSubscriptionFields]
       else
         (let field = hd (snd (hd grouped))
          in and_then (coerce_argument_values ctx subscription_type field) (\<lambda>_.
               one_error (resolve_stream subscription_type field)))))"

definition execute_subscription_event :: "runner \<Rightarrow> query \<Rightarrow> store_event \<Rightarrow> query_result" where
  "execute_subscription_event R q event =
     (case get_root_subscription_type (as_document (qr_schema q)) of
        None \<Rightarrow> result_from_error NoRootSubscriptionObjectType
      | Some subscription_type \<Rightarrow>
          run_query
            (\<lambda>r. execute_root_selection_set_uncached (rn_stack R) (rn_introspection R) (runner_context R q BLOCK_NUMBER_MAX)
                   (rq_selection_set r) subscription_type)
            (\<lambda>r. rn_panic_message R) (root_request q (qr_selection_set q) None))"

text \<open>An empty event in front makes the query run at least once.\<close>

definition map_source_to_response_stream ::
  "(store_event \<Rightarrow> query_result) \<Rightarrow> (store_event, unit) result list \<Rightarrow> query_result list" where
  "map_source_to_response_stream execute source_stream =
     map (\<lambda>res. case res of Ok event \<Rightarrow> execute event | _ \<Rightarrow> result_from_error EventStreamError)
       (Ok \<lparr>ev_tag = 0, ev_changes = {}\<rparr> # source_stream)"

definition execute_prepared_subscription ::
  "runner \<Rightarrow> query \<Rightarrow> (object_type \<Rightarrow> selection \<Rightarrow> ((store_event, unit) result list, query_execution_error) result)
   \<Rightarrow> (query_result list, errors) result" where
  "execute_prepared_subscription R q resolve_stream =
     (if \<not> is_subscription q then Err [NotSupported ''Only subscriptions are supported'']
      else
        and_then (create_source_event_stream (runner_context R q BLOCK_NUMBER_MAX) resolve_stream) (\<lambda>source_stream.
          Ok (map_source_to_response_stream (execute_subscription_event R q) source_stream)))"

text \<open>The stream of the store: \<open>subscribe\<close> is the subscription to the given entities, throttled while the deployment syncs.\<close>

definition store_resolve_field_stream ::
  "((string \<times> string) list \<Rightarrow> string \<Rightarrow> 's) \<Rightarrow> document \<Rightarrow> object_type \<Rightarrow> selection \<Rightarrow> ('s, query_execution_error) result" where
  "store_resolve_field_stream subscribe schema object_type field =
     (let entities = collect_entities_from_query_field schema object_type field
      in and_then (parse_subgraph_id (IsObject object_type)) (\<lambda>deployment_id. Ok (subscribe entities deployment_id)))"

definition run_subscription ::
  "runner \<Rightarrow> ((string \<times> string) list \<Rightarrow> string \<Rightarrow> (store_event, unit) result list) \<Rightarrow> api_schema \<Rightarrow> query_definition list
   \<Rightarrow> (string, qvalue) hashmap option \<Rightarrow> u64 option \<Rightarrow> 8 word \<Rightarrow> (query_result list, errors) result" where
  "run_subscription R subscribe api document variables max_complexity max_depth =
     and_then (query_prepare (rn_stack R) (rn_float_to_string R) api document variables max_complexity max_depth) (\<lambda>q.
     and_then (one_error (rn_decide R q)) (\<lambda>_.
       execute_prepared_subscription R q (store_resolve_field_stream subscribe (as_document api))))"

section \<open>Grouping\<close>

definition push_all :: "('a \<Rightarrow> 'k) \<Rightarrow> 'a list \<Rightarrow> ('k \<times> 'a list) list \<Rightarrow> ('k \<times> 'a list) list" where
  "push_all key xs g = fold (\<lambda>x. index_push (key x) x) xs g"

lemma map_of_index_push:
  "map_of (index_push k v g) = (map_of g)(k \<mapsto> (case map_of g k of None \<Rightarrow> [v] | Some vs \<Rightarrow> vs @ [v]))"
  by (induction k v g rule: index_push.induct) auto

lemma distinct_index_push: "distinct (map fst g) \<Longrightarrow> distinct (map fst (index_push k v g))"
proof (induction k v g rule: index_push.induct)
  case (2 k v k' vs rest)
  then show ?case using keys_push [of k v rest] by auto
qed simp

lemma distinct_push_all: "distinct (map fst g) \<Longrightarrow> distinct (map fst (push_all key xs g))"
  unfolding push_all_def by (induction xs arbitrary: g) (simp_all add: distinct_index_push)

lemma map_of_push_all:
  "map_of (push_all key xs g) k =
     (let ys = filter (\<lambda>x. key x = k) xs
      in case map_of g k of None \<Rightarrow> (if ys = [] then None else Some ys) | Some vs \<Rightarrow> Some (vs @ ys))"
  unfolding push_all_def
  by (induction xs arbitrary: g) (auto simp: map_of_index_push Let_def split: option.splits)

text \<open>The block constraint of a field, and the groups: each has the fields with its constraint.\<close>

definition constraint_of :: "(string \<Rightarrow> bytes option) \<Rightarrow> query \<Rightarrow> selection \<Rightarrow> (query_constraint, query_execution_error) result" where
  "constraint_of h q f = block_constraint h (sel_position f) (sel_arguments f) (qr_variables q)"

lemma add_block_constraint_field:
  "is_field f \<Longrightarrow> add_block_constraint h (qr_variables q) f (g, es) =
     (case constraint_of h q f of Ok bc \<Rightarrow> Ok (index_push bc f g, es) | Err e \<Rightarrow> Ok (g, es @ [e]) | Panic \<Rightarrow> Panic)"
  by (cases f) (simp_all add: add_block_constraint_def constraint_of_def split: result.splits)

lemma block_constraints_run:
  assumes "try_fold (add_block_constraint h (qr_variables q)) sels (g, es) = Ok (bcs, [])" and "list_all is_field sels"
  shows "es = [] \<and> (\<forall>f \<in> set sels. \<exists>bc. constraint_of h q f = Ok bc) \<and>
    bcs = push_all (\<lambda>f. case constraint_of h q f of Ok bc \<Rightarrow> bc | _ \<Rightarrow> Latest) sels g"
  using assms
proof (induction sels arbitrary: g es)
  case (Cons f sels)
  have f: "is_field f" "list_all is_field sels" using Cons.prems(2) by simp_all
  note step = add_block_constraint_field [OF f(1), of h q g es]
  show ?case
    by (cases "constraint_of h q f")
      (use Cons.prems(1) step f(2) Cons.IH [of "index_push (case constraint_of h q f of Ok bc \<Rightarrow> bc | _ \<Rightarrow> Latest) f g" es]
        Cons.IH [of g "es @ [case constraint_of h q f of Err e \<Rightarrow> e]"] in \<open>simp_all add: push_all_def\<close>)
qed (simp add: push_all_def)

lemma query_block_constraint_groups:
  assumes "query_block_constraint h q = Ok bcs" and "list_all is_field (qr_selection_set q)"
  shows "distinct (map fst bcs)"
    and "\<And>f. f \<in> set (qr_selection_set q) \<Longrightarrow> \<exists>bc fs. constraint_of h q f = Ok bc \<and> (bc, fs) \<in> set bcs \<and> f \<in> set fs"
    and "\<And>bc fs. (bc, fs) \<in> set bcs \<Longrightarrow> fs = filter (\<lambda>f. constraint_of h q f = Ok bc) (qr_selection_set q)"
proof -
  let ?sels = "qr_selection_set q" and ?key = "\<lambda>f. case constraint_of h q f of Ok bc \<Rightarrow> bc | _ \<Rightarrow> Latest"
  have run: "try_fold (add_block_constraint h (qr_variables q)) ?sels ([], []) = Ok (bcs, [])"
    using assms(1) by (auto simp: query_block_constraint_def and_then_Ok_iff split: if_splits)
  note r = block_constraints_run [OF run assms(2)]
  have eq: "?key f = bc \<longleftrightarrow> constraint_of h q f = Ok bc" if "f \<in> set ?sels" for f bc using r that by auto
  show d: "distinct (map fst bcs)" using r distinct_push_all [of "[]" ?key ?sels] by simp
  have m: "map_of bcs bc = (let ys = filter (\<lambda>f. constraint_of h q f = Ok bc) ?sels in if ys = [] then None else Some ys)" for bc
    using r map_of_push_all [of ?key ?sels "[]" bc] eq by (simp add: Let_def cong: filter_cong)
  show "fs = filter (\<lambda>f. constraint_of h q f = Ok bc) ?sels" if "(bc, fs) \<in> set bcs" for bc fs
    using m [of bc] map_of_is_SomeI [OF d that] by (simp add: Let_def split: if_splits)
  show "\<exists>bc fs. constraint_of h q f = Ok bc \<and> (bc, fs) \<in> set bcs \<and> f \<in> set fs" if f: "f \<in> set ?sels" for f
  proof -
    obtain bc where bc: "constraint_of h q f = Ok bc" using r f by blast
    let ?fs = "filter (\<lambda>f. constraint_of h q f = Ok bc) ?sels"
    have mem: "f \<in> set ?fs" using f bc by simp
    then have "?fs \<noteq> []" by (metis empty_iff empty_set)
    then have "map_of bcs bc = Some ?fs" using m [of bc] by (simp add: Let_def)
    then show ?thesis using bc mem map_of_SomeD by fast
  qed
qed

section \<open>Putting results together\<close>

lemma map_of_bt_append [map_simps]: "bt_wf other \<Longrightarrow> map_of (bt_append ours other) = map_of ours ++ map_of other"
proof (induction other arbitrary: ours)
  case (Cons kv other)
  obtain k v where kv: "kv = (k, v)" by (cases kv)
  have "k \<notin> fst ` set other" "bt_wf other" using Cons.prems by (auto simp: kv bt_wf_Cons)
  moreover from this have "map_of other k = None" by (simp add: map_of_eq_None_iff)
  ultimately show ?case
    using Cons.IH [of "bt_insert k v ours"]
    by (auto simp: bt_append_def kv map_of_bt_insert fun_eq_iff map_add_def split: option.splits)
qed (simp add: bt_append_def)

lemma keys_bt_append: "fst ` set (bt_append ours other) = fst ` set ours \<union> fst ` set other"
  unfolding bt_append_def by (induction other arbitrary: ours) (simp_all add: set_fst_bt_insert case_prod_unfold)

lemma bt_wf_append [simp]: "bt_wf ours \<Longrightarrow> bt_wf (bt_append ours other)"
  unfolding bt_append_def by (induction other arbitrary: ours) auto

subsection \<open>Selection sets of fields\<close>

definition selected_keys :: "query \<Rightarrow> selection list \<Rightarrow> string set" where
  "selected_keys q fs = get_response_key ` {f \<in> set fs. is_selected q f}"

definition fields_at :: "query \<Rightarrow> string \<Rightarrow> selection list \<Rightarrow> selection list" where
  "fields_at q k fs = filter (\<lambda>f. is_selected q f \<and> get_response_key f = k) fs"

lemma collect_only_fields:
  "list_all is_field fs \<Longrightarrow> collect_fields_inner q t fs v g = Ok (v, push_all get_response_key (filter (is_selected q) fs) g)"
proof (induction fs arbitrary: g)
  case (Cons f fs)
  have "collect_selection (collect_fields_inner q t) q t f v g =
      Ok (v, if is_selected q f then index_push (get_response_key f) f g else g)"
    using Cons.prems by (cases f) (auto simp: collect_selection_def)
  then show ?case using Cons by (simp add: push_all_def)
qed (simp add: push_all_def)

lemma answers_fields:
  assumes "list_all is_field fs"
  shows "answers q t [fs] m \<longleftrightarrow>
    bt_wf m \<and> fst ` set m = selected_keys q fs \<and> (\<forall>k \<in> selected_keys q fs. answered q t m (k, fields_at q k fs))"
proof -
  let ?g = "push_all get_response_key (filter (is_selected q) fs) []"
  have g: "collect_fields q t [fs] = Ok ?g" by (simp add: collect_fields_def collect_only_fields [OF assms])
  have look: "map_of ?g k = (if k \<in> selected_keys q fs then Some (fields_at q k fs) else None)" for k
    using map_of_push_all [of get_response_key "filter (is_selected q) fs" "[]" k]
    by (auto simp: fields_at_def selected_keys_def filter_empty_conv Let_def conj_commute)
  have d: "distinct (map fst ?g)" by (rule distinct_push_all) simp
  have mem: "(k, flds) \<in> set ?g \<longleftrightarrow> k \<in> selected_keys q fs \<and> flds = fields_at q k fs" for k flds
    unfolding map_of_eq_Some_iff [OF d, symmetric] look by auto
  have keys: "fst ` set ?g = selected_keys q fs" unfolding dom_map_of_conv_image_fst [symmetric] dom_def look by simp
  show ?thesis
  proof
    assume "answers q t [fs] m"
    then show "bt_wf m \<and> fst ` set m = selected_keys q fs \<and> (\<forall>k \<in> selected_keys q fs. answered q t m (k, fields_at q k fs))"
      by (cases rule: answers.cases) (use g keys mem in \<open>auto simp: answered_def\<close>)
  next
    assume "bt_wf m \<and> fst ` set m = selected_keys q fs \<and> (\<forall>k \<in> selected_keys q fs. answered q t m (k, fields_at q k fs))"
    then show "answers q t [fs] m"
      by (intro answers_all [OF g]) (use keys mem in \<open>auto simp: answered_def\<close>)
  qed
qed

text \<open>What has been put together so far answers the groups that were executed.\<close>

definition answers_groups :: "query \<Rightarrow> object_type \<Rightarrow> (query_constraint \<times> selection list) list \<Rightarrow> (string, qvalue) btreemap \<Rightarrow> bool" where
  "answers_groups q t grps m \<longleftrightarrow>
     bt_wf m \<and> fst ` set m = (\<Union>(bc, fs) \<in> set grps. selected_keys q fs) \<and>
     (\<forall>(bc, fs) \<in> set grps. \<forall>k \<in> selected_keys q fs. answered q t m (k, fields_at q k fs))"

lemma answered_cong: "map_of m k = map_of m' k \<Longrightarrow> answered q t m (k, fs) \<longleftrightarrow> answered q t m' (k, fs)"
  by (simp add: answered_def)

lemma answers_groups_append:
  assumes ours: "answers_groups q t grps m" and other: "answers q t [fs] m'" and "list_all is_field fs"
    and disj: "\<forall>(bc', fs') \<in> set grps. selected_keys q fs' \<inter> selected_keys q fs = {}"
  shows "answers_groups q t (grps @ [(bc, fs)]) (bt_append m m')"
proof -
  have m': "bt_wf m'" "fst ` set m' = selected_keys q fs" "\<forall>k \<in> selected_keys q fs. answered q t m' (k, fields_at q k fs)"
    using other answers_fields [OF assms(3)] by blast+
  have new: "map_of (bt_append m m') k = map_of m' k" if "k \<in> selected_keys q fs" for k
  proof -
    have "map_of m' k \<noteq> None" using that m'(2) by (simp add: map_of_eq_None_iff)
    then show ?thesis by (auto simp: map_of_bt_append [OF m'(1)])
  qed
  have old: "map_of (bt_append m m') k = map_of m k" if "k \<notin> selected_keys q fs" for k
  proof -
    have "map_of m' k = None" using that m'(2) by (simp add: map_of_eq_None_iff)
    then show ?thesis by (simp add: map_of_bt_append [OF m'(1)] map_add_def)
  qed
  have "answered q t (bt_append m m') (k, fields_at q k fs')" if "(bc', fs') \<in> set grps" "k \<in> selected_keys q fs'" for bc' fs' k
  proof -
    have "k \<notin> selected_keys q fs" using disj that by blast
    then show ?thesis using answered_cong [OF old] ours that by (auto simp: answers_groups_def)
  qed
  moreover have "answered q t (bt_append m m') (k, fields_at q k fs)" if "k \<in> selected_keys q fs" for k
    using answered_cong [OF new [OF that]] m'(3) that by blast
  ultimately show ?thesis
    using ours m'(2) unfolding answers_groups_def by (auto simp: keys_bt_append)
qed

text \<open>One group: when it reports no error, its data answers its fields.\<close>

lemma execute_group_answers:
  assumes kind: "is_query q" and root: "get_root_query_type (as_document (qr_schema q)) = Some t" and data: "selects_data q t fs"
    and run: "execute_group R q (bc, fs) = Ok (res, n)" and ok: "qrs_errors res = None"
  shows "\<exists>m. res = result_from_map m \<and> answers q t [fs] m"
proof -
  obtain block where res: "res = run_query
      (\<lambda>r. execute_root_selection_set_uncached (rn_stack R) (rn_introspection R) (runner_context R q block) (rq_selection_set r) t)
      (\<lambda>r. rn_panic_message R) (root_request q fs (Some (BlockPtr h b)))" for h b
    using run by (auto simp: execute_group_def execute_query_def kind root and_then_Ok_iff run_query_def root_request_def split: prod.splits)
  have ctx: "xc_resolver (runner_context R q block) = store_resolver (rn_prefetch R block)" "xc_query (runner_context R q block) = q"
    by (simp_all add: runner_context_def)
  obtain m where m: "execute_root_selection_set_uncached (rn_stack R) (rn_introspection R) (runner_context R q block) fs t = Ok m"
      "res = result_from_map m"
    using res ok
    by (cases "execute_root_selection_set_uncached (rn_stack R) (rn_introspection R) (runner_context R q block) fs t")
      (auto simp: run_query_def root_request_def result_from_errors_def result_from_error_def)
  have "answers q t [fs] m" using execute_root_answers [OF ctx(1) _ m(1)] data by (simp add: ctx(2))
  then show ?thesis using m(2) by blast
qed

lemma result_append_data:
  assumes "result_append (result_from_map m) (result_from_map m') = Ok res"
  shows "res = result_from_map (bt_append m m')"
  using assms by (auto simp: result_append_def result_from_map_def query_result_new_def)

lemma result_append_errors:
  "result_append r r' = Ok res \<Longrightarrow> qrs_errors res = None \<Longrightarrow> qrs_errors r = None \<and> qrs_errors r' = None"
  by (auto simp: result_append_def and_then_Ok_iff split: option.splits if_splits)

definition keys_disjoint :: "query \<Rightarrow> (query_constraint \<times> selection list) list \<Rightarrow> bool" where
  "keys_disjoint q grps \<longleftrightarrow> sorted_wrt (\<lambda>(bc, fs) (bc', fs'). selected_keys q fs \<inter> selected_keys q fs' = {}) grps"

lemma unit_error_Ok [simp]: "unit_error r = Ok a \<longleftrightarrow> r = Ok a"
  by (cases r) (auto simp: unit_error_def)

lemma append_group_Ok:
  assumes "append_group R q (bc, fs) (r, n) = Ok (r', n')"
  obtains res b where "execute_group R q (bc, fs) = Ok (res, b)" "result_append r res = Ok r'"
  using assms by (auto simp: append_group_def and_then_Ok_iff)

lemma append_groups_errors:
  "try_fold (append_group R q) rest (r, n) = Ok (res, n') \<Longrightarrow> qrs_errors res = None \<Longrightarrow> qrs_errors r = None"
proof (induction rest arbitrary: r n)
  case (Cons grp rest)
  obtain bc fs where grp: "grp = (bc, fs)" by (cases grp)
  obtain r1 n1 where step: "append_group R q (bc, fs) (r, n) = Ok (r1, n1)" and rest: "try_fold (append_group R q) rest (r1, n1) = Ok (res, n')"
    using Cons.prems(1) by (auto simp: grp and_then_Ok_iff)
  have "qrs_errors r1 = None" by (rule Cons.IH [OF rest Cons.prems(2)])
  then show ?case using append_group_Ok [OF step] result_append_errors by metis
qed simp

lemma append_groups_answers:
  assumes kind: "is_query q" and root: "get_root_query_type (as_document (qr_schema q)) = Some t"
  shows "try_fold (append_group R q) rest (result_from_map m, n) = Ok (res, n') \<Longrightarrow> qrs_errors res = None \<Longrightarrow>
    answers_groups q t seen m \<Longrightarrow> keys_disjoint q (seen @ rest) \<Longrightarrow>
    \<forall>(bc, fs) \<in> set rest. list_all is_field fs \<and> selects_data q t fs \<Longrightarrow>
    \<exists>m'. res = result_from_map m' \<and> answers_groups q t (seen @ rest) m'"
proof (induction rest arbitrary: m n seen)
  case (Cons grp rest)
  obtain bc fs where grp: "grp = (bc, fs)" by (cases grp)
  obtain r1 n1 where step: "append_group R q (bc, fs) (result_from_map m, n) = Ok (r1, n1)"
      and rest: "try_fold (append_group R q) rest (r1, n1) = Ok (res, n')"
    using Cons.prems(1) by (auto simp: grp and_then_Ok_iff)
  obtain part b where part: "execute_group R q (bc, fs) = Ok (part, b)" "result_append (result_from_map m) part = Ok r1"
    by (rule append_group_Ok [OF step])
  have "qrs_errors r1 = None" by (rule append_groups_errors [OF rest Cons.prems(2)])
  then have "qrs_errors part = None" using result_append_errors [OF part(2)] by blast
  then obtain m1 where m1: "part = result_from_map m1" "answers q t [fs] m1"
    using execute_group_answers [OF kind root _ part(1)] Cons.prems(5) by (auto simp: grp)
  have r1: "r1 = result_from_map (bt_append m m1)" using result_append_data part(2) m1(1) by blast
  have "answers_groups q t (seen @ [(bc, fs)]) (bt_append m m1)"
    by (rule answers_groups_append [OF Cons.prems(3) m1(2)])
      (use Cons.prems(4,5) in \<open>auto simp: grp keys_disjoint_def sorted_wrt_append\<close>)
  then show ?case using Cons.IH [OF rest [unfolded r1] Cons.prems(2), of "seen @ [(bc, fs)]"] Cons.prems(4,5) by (simp add: grp)
qed auto

text \<open>Fields with one response key ask for one block.\<close>

definition blocks_agree :: "(string \<Rightarrow> bytes option) \<Rightarrow> query \<Rightarrow> bool" where
  "blocks_agree h q \<longleftrightarrow> (\<forall>f \<in> set (qr_selection_set q). \<forall>g \<in> set (qr_selection_set q).
     get_response_key f = get_response_key g \<longrightarrow> constraint_of h q f = constraint_of h q g)"

lemma groups_answer_query:
  assumes bcs: "query_block_constraint h q = Ok bcs" and flds: "list_all is_field (qr_selection_set q)" and agree: "blocks_agree h q"
    and m: "answers_groups q t grps m" and grps: "set grps = set bcs"
  shows "answers q t [qr_selection_set q] m"
proof -
  let ?sels = "qr_selection_set q"
  note G = query_block_constraint_groups [OF bcs flds]
  have keys: "selected_keys q ?sels = (\<Union>(bc, fs) \<in> set bcs. selected_keys q fs)"
  proof
    show "selected_keys q ?sels \<subseteq> (\<Union>(bc, fs) \<in> set bcs. selected_keys q fs)"
      using G(2) by (fastforce simp: selected_keys_def)
    show "(\<Union>(bc, fs) \<in> set bcs. selected_keys q fs) \<subseteq> selected_keys q ?sels"
      using G(3) by (fastforce simp: selected_keys_def)
  qed
  have "answered q t m (k, fields_at q k ?sels)" if k: "k \<in> selected_keys q ?sels" for k
  proof -
    obtain f where f: "f \<in> set ?sels" "is_selected q f" "get_response_key f = k" using k by (auto simp: selected_keys_def)
    obtain bc fs where bc: "constraint_of h q f = Ok bc" "(bc, fs) \<in> set bcs" "f \<in> set fs" using G(2) [OF f(1)] by blast
    have "constraint_of h q x = Ok bc" if "x \<in> set ?sels" "get_response_key x = k" for x
      using agree f(1,3) bc(1) that unfolding blocks_agree_def by metis
    then have "fields_at q k fs = fields_at q k ?sels"
      unfolding fields_at_def by (subst G(3) [OF bc(2)]) (auto intro!: filter_cong)
    moreover have "k \<in> selected_keys q fs" using f(2,3) bc(3) by (auto simp: selected_keys_def)
    ultimately show ?thesis using m bc(2) grps unfolding answers_groups_def by fastforce
  qed
  then show ?thesis using m keys grps unfolding answers_fields [OF flds] answers_groups_def by simp
qed

lemma groups_keys_disjoint:
  assumes bcs: "query_block_constraint h q = Ok bcs" and flds: "list_all is_field (qr_selection_set q)" and agree: "blocks_agree h q"
    and grps: "set grps = set bcs" "distinct (map fst grps)"
  shows "keys_disjoint q grps"
proof -
  note G = query_block_constraint_groups [OF bcs flds]
  have dis: "selected_keys q fs \<inter> selected_keys q fs' = {}" if x: "(bc, fs) \<in> set bcs" "(bc', fs') \<in> set bcs" "bc \<noteq> bc'" for bc fs bc' fs'
  proof -
    have "get_response_key f \<noteq> get_response_key f'" if ff: "f \<in> set fs" "f' \<in> set fs'" for f f'
    proof -
      have "constraint_of h q f = Ok bc" "f \<in> set (qr_selection_set q)" using G(3) [OF x(1)] ff(1) by auto
      moreover have "constraint_of h q f' = Ok bc'" "f' \<in> set (qr_selection_set q)" using G(3) [OF x(2)] ff(2) by auto
      ultimately have "get_response_key f = get_response_key f' \<Longrightarrow> Ok bc = (Ok bc' :: (_, query_execution_error) result)"
        using agree unfolding blocks_agree_def by metis
      then show ?thesis using x(3) by auto
    qed
    then show ?thesis by (auto simp: selected_keys_def)
  qed
  have "selected_keys q (snd (grps ! i)) \<inter> selected_keys q (snd (grps ! j)) = {}" if "i < j" "j < length grps" for i j
  proof (rule dis)
    show "(fst (grps ! i), snd (grps ! i)) \<in> set bcs" "(fst (grps ! j), snd (grps ! j)) \<in> set bcs" 
      using grps(1) nth_mem [of i grps] nth_mem [of j grps] that by simp_all
    show "fst (grps ! i) \<noteq> fst (grps ! j)" using grps(2) that by (simp add: distinct_conv_nth)
  qed
  then show ?thesis unfolding keys_disjoint_def sorted_wrt_iff_nth_less by (simp add: case_prod_unfold)
qed

section \<open>Reverted blocks\<close>

text \<open>
  What the store keeps of a deployment while blocks are added and reverted, as \<open>DeploymentState\<close> documents it: the number of
  reverted blocks goes up by one with every revert, and the greatest depth of a reorganisation is at least one then.
  \<open>low\<close> is the lowest head since \<open>s\<close>; blocks up to it have not been touched.
\<close>

inductive deployment_runs :: "deployment_state \<Rightarrow> deployment_state \<Rightarrow> int \<Rightarrow> bool" for s where
  runs_start: "deployment_runs s s (sint (dst_latest_block s))"
| runs_forward: "deployment_runs s u low \<Longrightarrow> dst_reorg_count u' = dst_reorg_count u \<Longrightarrow> dst_max_reorg_depth u' = dst_max_reorg_depth u \<Longrightarrow>
    sint (dst_latest_block u') = sint (dst_latest_block u) + 1 \<Longrightarrow> deployment_runs s u' low"
| runs_revert: "deployment_runs s u low \<Longrightarrow> unat (dst_reorg_count u') = unat (dst_reorg_count u) + 1 \<Longrightarrow>
    dst_max_reorg_depth u \<le> dst_max_reorg_depth u' \<Longrightarrow> 1 \<le> dst_max_reorg_depth u' \<Longrightarrow>
    sint (dst_latest_block u') = sint (dst_latest_block u) - 1 \<Longrightarrow> deployment_runs s u' (min low (sint (dst_latest_block u')))"

lemma uint_scast_nonneg: "0 \<le> sint (w :: i32) \<Longrightarrow> uint (scast w :: u64) = sint w"
proof -
  assume nonneg: "0 \<le> sint w"
  have "uint (scast w :: u64) = sint w mod 2 ^ 64" unfolding scast_eq uint_word_of_int by simp
  also have "\<dots> = sint w" using nonneg sint_lt [of w] by (intro mod_pos_pos_trivial) simp_all
  finally show ?thesis .
qed

lemma uint_ucast_u64: "uint (ucast (w :: 32 word) :: u64) = uint w"
  by (rule uint_up_ucast) (simp add: is_up)

lemma deployment_runs_low:
  "deployment_runs s u low \<Longrightarrow>
     low \<le> sint (dst_latest_block u) \<and> dst_reorg_count s \<le> dst_reorg_count u \<and>
     sint (dst_latest_block s) - (int (unat (dst_reorg_count u)) - int (unat (dst_reorg_count s))) \<le> low \<and>
     (dst_reorg_count s < dst_reorg_count u \<longrightarrow> 1 \<le> dst_max_reorg_depth u)"
proof (induction rule: deployment_runs.induct)
  case (runs_revert u low u')
  then show ?case by (auto simp: word_le_nat_alt word_less_nat_alt)
qed auto

section \<open>Properties\<close>

text \<open>C7. Running a query answers it: when the runner reports no error for a query whose root selections are
  all data fields (no fragment and no introspection field at the root) and whose root fields of one response key
  ask for one block, the result has exactly the response keys of the query
  and every value is of the type of its field, although the fields were executed in groups, each at its
  own block, in any order. Lists are lists, non-null fields are not null, numbers are in range, enums are among their values.\<close>

theorem run_query_conforms:
  assumes "runner_execute R q state = Ok res" and "\<not> has_errors res" and "is_query q"
    and "get_root_query_type (as_document (qr_schema q)) = Some t" and "list_all is_field (qr_selection_set q)"
    and "selects_data q t (qr_selection_set q)" and "blocks_agree (rn_h256_from_str R) q"
    and "\<And>bcs. mset (rn_iter R bcs) = mset bcs"
  shows "\<exists>m. res = result_from_map m \<and> answers q t [qr_selection_set q] m"
proof -
  let ?h = "rn_h256_from_str R" and ?sels = "qr_selection_set q"
  obtain bcs grp rest first max_block where bcs: "query_block_constraint ?h q = Ok bcs" and iter: "rn_iter R bcs = grp # rest"
      and first: "execute_group R q grp = Ok first" and more: "try_fold (append_group R q) rest first = Ok (res, max_block)"
  proof -
    obtain bcs where bcs: "query_block_constraint ?h q = Ok bcs"
        and run: "(case rn_iter R bcs of [] \<Rightarrow> Panic | grp # rest \<Rightarrow>
           and_then (execute_group R q grp) (\<lambda>first.
           and_then (try_fold (append_group R q) rest first) (\<lambda>(res, max_block).
           and_then (deployment_changed (rn_allow_deployment_change R) (rn_store R) state max_block) (\<lambda>_. Ok res)))) = Ok res"
      using assms(1) unfolding runner_execute_def and_then_Ok_iff by blast
    show ?thesis
    proof (cases "rn_iter R bcs")
      case (Cons grp rest)
      then show ?thesis using run that [OF bcs Cons] by (auto simp: and_then_Ok_iff)
    qed (use run in simp)
  qed
  obtain r0 n0 where r0: "first = (r0, n0)" by (cases first)
  obtain bc fs where grp: "grp = (bc, fs)" by (cases grp)
  note G = query_block_constraint_groups [OF bcs assms(5)]
  have set: "set (grp # rest) = set bcs" using assms(8) [of bcs] iter by (metis set_mset_mset)
  have "mset (map fst (grp # rest)) = mset (map fst bcs)" using assms(8) [of bcs] iter by (metis mset_map)
  then have dist: "distinct (map fst (grp # rest))" using G(1) mset_eq_imp_distinct_iff by blast
  have flds: "list_all is_field xs \<and> selects_data q t xs" if "(b, xs) \<in> set (grp # rest)" for b xs
  proof -
    have "(b, xs) \<in> set bcs" using that unfolding set .
    from G(3) [OF this] have "set xs \<subseteq> set ?sels" by auto
    then show ?thesis using assms(5,6) field_selected_mono [of q t xs _ ?sels] by (auto simp: list_all_iff selects_data_def)
  qed
  have none: "qrs_errors res = None" using assms(2) by (simp add: has_errors_def)
  then have "qrs_errors r0 = None" using append_groups_errors more r0 by blast
  then obtain m0 where m0: "r0 = result_from_map m0" "answers q t [fs] m0"
    using execute_group_answers [OF assms(3,4) _ first [unfolded r0 grp]] flds [of bc fs] by (auto simp: grp)
  have "answers_groups q t [grp] m0"
    using m0(2) answers_fields [of fs q t m0] flds [of bc fs] by (simp add: answers_groups_def grp)
  then obtain m where "res = result_from_map m" "answers_groups q t ([grp] @ rest) m"
    using append_groups_answers [OF assms(3,4) more [unfolded r0 m0(1)] none] groups_keys_disjoint [OF bcs assms(5,7) set dist] flds
    by fastforce
  then show ?thesis using groups_answer_query [OF bcs assms(5,7) _ set] by auto
qed

text \<open>C10. The check for reverted blocks is right: when it passes, then no block up to the one the query looked at
  has been reverted since the state of the deployment was read, as long as the product of depth and
  number of reverts fits into 32 bits.\<close>

theorem deployment_unchanged:
  assumes "deployment_changed False store s b = Ok ()" and "dss_deployment_state store (dst_id s) = Ok u" and "deployment_runs s u low"
    and "unat (dst_max_reorg_depth u) * (unat (dst_reorg_count u) - unat (dst_reorg_count s)) < 2 ^ 32"
    and "0 \<le> sint (dst_latest_block s)" and "uint b \<le> sint (dst_latest_block s)"
  shows "uint b \<le> low"
proof (cases "dst_reorg_count s < dst_reorg_count u")
  case True
  let ?n = "unat (dst_max_reorg_depth u) * (unat (dst_reorg_count u) - unat (dst_reorg_count s))"
  note low = deployment_runs_low [OF assms(3)]
  have le: "dst_reorg_count s \<le> dst_reorg_count u" using True by simp
  have diff: "unat (dst_reorg_count u - dst_reorg_count s) = unat (dst_reorg_count u) - unat (dst_reorg_count s)"
    by (rule unat_sub [OF le])
  have n: "unat (dst_max_reorg_depth u * (dst_reorg_count u - dst_reorg_count s)) = ?n"
    using assms(4) by (simp add: unat_word_ariths diff)
  let ?b = "b + ucast (dst_max_reorg_depth u * (dst_reorg_count u - dst_reorg_count s))"
  have ok: "?b \<le> scast (dst_latest_block s)"
    using assms(1,2) True le by (auto simp: deployment_changed_def store_result_def Let_def not_less split: if_splits)
  have latest: "uint (scast (dst_latest_block s) :: u64) = sint (dst_latest_block s)"
    using assms(5) sint_lt [of "dst_latest_block s"] by (simp add: uint_scast_nonneg)
  have "uint ?b = uint b + int ?n"
  proof -
    have "int ?n < 2 ^ 32" using assms(4) by (metis of_nat_less_iff of_nat_numeral of_nat_power)
    then have "uint b + int ?n < 2 ^ 64" using assms(6) sint_lt [of "dst_latest_block s"] by simp
    moreover have "uint (ucast (dst_max_reorg_depth u * (dst_reorg_count u - dst_reorg_count s)) :: u64) = int ?n"
      unfolding uint_ucast_u64 unfolding uint_nat n by (rule refl)
    ultimately show ?thesis by (simp add: uint_word_ariths(1))
  qed
  then have passed: "uint b + int ?n \<le> sint (dst_latest_block s)" using ok latest by (simp add: word_le_def)
  have "unat (dst_reorg_count u) - unat (dst_reorg_count s) \<le> ?n" using low True by (simp add: word_le_nat_alt)
  then have "int (unat (dst_reorg_count u) - unat (dst_reorg_count s)) \<le> int ?n" by (simp only: of_nat_le_iff)
  moreover have "int (unat (dst_reorg_count u) - unat (dst_reorg_count s)) = int (unat (dst_reorg_count u)) - int (unat (dst_reorg_count s))"
    using le by (simp only: word_le_nat_alt of_nat_diff)
  ultimately show ?thesis using passed low by linarith
next
  case False
  then show ?thesis using deployment_runs_low [OF assms(3)] assms(6) by auto
qed

text \<open>C32. A query whose root selections are all fragments has no block constraint, and the runner panics.\<close>

theorem runner_panics_without_root_fields:
  assumes "rn_decide R q = Ok ()" and "list_all (Not \<circ> is_field) (qr_selection_set q)" and "rn_iter R [] = []"
  shows "runner_execute R q state = Panic"
proof -
  have "try_fold (add_block_constraint h vars) sels acc = Ok acc" if "list_all (Not \<circ> is_field) sels" for h vars sels acc
    using that
  proof (induction sels)
    case (Cons sel sels)
    then show ?case by (cases sel; cases acc) (simp_all add: add_block_constraint_def)
  qed simp
  then have "query_block_constraint (rn_h256_from_str R) q = Ok []" using assms(2) by (simp add: query_block_constraint_def)
  then show ?thesis using assms(1,3) by (simp add: runner_execute_def one_error_def)
qed

subsection \<open>A subgraph with two users\<close>

text \<open>The user has another name since block 4.\<close>

definition demo_store :: deployment_store where
  "demo_store = \<lparr>dss_uses_relational_schema = (\<lambda>id. Ok True), dss_block_ptr = (\<lambda>id. Ok (Some (BlockPtr zero_hash 10))),
     dss_block_number = (\<lambda>id h. Ok (Some 3)),
     dss_deployment_state = (\<lambda>id. Ok \<lparr>dst_id = id, dst_reorg_count = 1, dst_max_reorg_depth = 1, dst_latest_block = 9\<rparr>)\<rparr>"

definition demo_runner :: runner where
  "demo_runner =
     \<lparr>rn_store = demo_store, rn_decide = (\<lambda>q. Ok ()),
      rn_prefetch = (\<lambda>block q sels.
        let user = QList [QObject [(''name'', QString (if block = 3 then ''ann'' else ''anne''))]]
        in Ok (QObject [(''prefetch:before'', user), (''prefetch:user'', user)])),
      rn_introspection = (\<lambda>d. xc_resolver demo_context), rn_late = (\<lambda>p. False), rn_stack = 10,
      rn_float_to_string = (\<lambda>f. []), rn_h256_from_str = (\<lambda>s. Some zero_hash), rn_panic_message = [], rn_allow_deployment_change = True,
      rn_iter = rev\<rparr>"

definition demo_root_sels :: "selection list" where
  "demo_root_sels = [FieldSel (0, 0) None ''user'' [] [] [FieldSel (1, 1) None ''name'' [] [] []],
     FieldSel (0, 1) (Some ''before'') ''user'' [(''block'', QObject [(''hash'', QString ''0x00'')])] [] [FieldSel (1, 1) None ''name'' [] [] []]]"

definition demo_blocks_query :: query where
  "demo_blocks_query = \<lparr>qr_schema = demo_social, qr_variables = [], qr_selection_set = demo_root_sels, qr_fragments = [],
     qr_kind = QueryKind, qr_complexity = 0\<rparr>"

definition demo_answer :: "(string, qvalue) btreemap" where
  "demo_answer = [(''before'', QObject [(''name'', QString ''ann'')]), (''user'', QObject [(''name'', QString ''anne'')])]"

lemma demo_blocks_select_data: "selects_data demo_blocks_query demo_root demo_root_sels"
proof -
  have g: "collect_fields demo_blocks_query demo_root [demo_root_sels] =
      Ok [(''user'', [hd demo_root_sels]), (''before'', [last demo_root_sels])]" by code_simp
  have "f \<in> {hd demo_root_sels, last demo_root_sels}" if "field_selected demo_blocks_query demo_root demo_root_sels f" for f
    using collect_fields_complete [OF g, of f] that by (auto simp: fields_of_def)
  then have "sel_name f = ''user''" if "field_selected demo_blocks_query demo_root demo_root_sels f" for f
    using that by (fastforce simp: demo_root_sels_def)
  moreover have "\<not> is_introspection_field (qr_schema demo_blocks_query) ''user''"
    by (simp add: is_introspection_field_def demo_blocks_query_def demo_social_def demo_field_def)
  ultimately show ?thesis by (auto simp: selects_data_def)
qed

theorem run_query_conforms_witness:
  "runner_execute demo_runner demo_blocks_query deployment_state_meta = Ok (result_from_map demo_answer) \<and>
   answers demo_blocks_query demo_root [demo_root_sels] demo_answer"
proof -
  have run: "runner_execute demo_runner demo_blocks_query deployment_state_meta = Ok (result_from_map demo_answer)" by code_simp
  have inj: "result_from_map m = result_from_map m' \<Longrightarrow> m = m'" for m m' by (simp add: result_from_map_def query_result_new_def)
  have sels: "qr_selection_set demo_blocks_query = demo_root_sels" by (simp add: demo_blocks_query_def)
  have agree: "blocks_agree (rn_h256_from_str demo_runner) demo_blocks_query"
    by (simp add: blocks_agree_def sels) (simp add: demo_root_sels_def)
  have "\<exists>m. result_from_map demo_answer = result_from_map m \<and> answers demo_blocks_query demo_root [qr_selection_set demo_blocks_query] m"
  proof (rule run_query_conforms [OF run _ _ _ _ _ agree])
    show "\<not> has_errors (result_from_map demo_answer)" by (simp add: has_errors_def result_from_map_def query_result_new_def)
    show "is_query demo_blocks_query" by (simp add: is_query_def demo_blocks_query_def)
    show "get_root_query_type (as_document (qr_schema demo_blocks_query)) = Some demo_root" by code_simp
    show "list_all is_field (qr_selection_set demo_blocks_query)" by code_simp
    show "selects_data demo_blocks_query demo_root (qr_selection_set demo_blocks_query)" using demo_blocks_select_data by (simp add: sels)
    show "mset (rn_iter demo_runner bcs) = mset bcs" for bcs by (simp add: demo_runner_def)
  qed
  then show ?thesis using run inj sels by metis
qed

text \<open>Block 10 is replaced after it was read; block 9 is the lowest head, and a query at block 9 passes the check.\<close>

definition demo_state :: "32 word \<Rightarrow> 32 word \<Rightarrow> i32 \<Rightarrow> deployment_state" where
  "demo_state reorgs depth latest = \<lparr>dst_id = ''Qm'', dst_reorg_count = reorgs, dst_max_reorg_depth = depth, dst_latest_block = latest\<rparr>"

lemma demo_runs: "deployment_runs (demo_state 0 0 10) (demo_state 1 1 10) 9"
proof -
  have "deployment_runs (demo_state 0 0 10) (demo_state 0 0 10) 10"
    using runs_start [of "demo_state 0 0 10"] by (simp add: demo_state_def)
  from runs_revert [OF this, of "demo_state 1 1 9"] have "deployment_runs (demo_state 0 0 10) (demo_state 1 1 9) 9"
    by (simp add: demo_state_def)
  from runs_forward [OF this, of "demo_state 1 1 10"] show ?thesis by (simp add: demo_state_def)
qed

theorem deployment_unchanged_witness:
  "deployment_changed False (demo_store\<lparr>dss_deployment_state := \<lambda>id. Ok (demo_state 1 1 10)\<rparr>) (demo_state 0 0 10) 9 = Ok () \<and> uint (9 :: u64) \<le> 9"
proof -
  let ?store = "demo_store\<lparr>dss_deployment_state := \<lambda>id. Ok (demo_state 1 1 10)\<rparr>"
  have ok: "deployment_changed False ?store (demo_state 0 0 10) 9 = Ok ()" by code_simp
  have "uint (9 :: u64) \<le> 9"
    by (rule deployment_unchanged [OF ok _ demo_runs]) (simp_all add: demo_state_def demo_store_def)
  then show ?thesis using ok by blast
qed

text \<open>The fields of a fragment on the root type; the query is accepted.\<close>

definition demo_fragment_document :: "query_definition list" where
  "demo_fragment_document = [Operation (OpSelectionSet [FragmentSpread ''everything'']),
     Fragment \<lparr>fr_name = ''everything'', fr_type_condition = ''Query'', fr_selection_set = [hd demo_root_sels]\<rparr>]"

definition demo_fragment_query :: query where
  "demo_fragment_query = \<lparr>qr_schema = demo_social, qr_variables = [], qr_selection_set = [FragmentSpread ''everything''],
     qr_fragments = [(''everything'', \<lparr>fr_name = ''everything'', fr_type_condition = ''Query'', fr_selection_set = [hd demo_root_sels]\<rparr>)],
     qr_kind = QueryKind, qr_complexity = 0\<rparr>"

theorem runner_panics_without_root_fields_witness:
  "run_query_with_complexity demo_runner demo_social demo_fragment_document None deployment_state_meta None 10 = Panic"
proof -
  have prepared: "query_prepare (rn_stack demo_runner) (rn_float_to_string demo_runner) demo_social demo_fragment_document None None 10 = Ok demo_fragment_query"
    by code_simp
  have "runner_execute demo_runner demo_fragment_query deployment_state_meta = Panic"
    by (rule runner_panics_without_root_fields) (simp_all add: demo_runner_def demo_fragment_query_def)
  then show ?thesis by (simp add: run_query_with_complexity_def prepared)
qed

end
