(* ===== verification/Prefetch.thy ===== *)
theory Prefetch
  imports Runner
begin

text \<open>
  Fetching the data of a query from the store (\<open>graphql/src/store/prefetch.rs\<close>): the fields of a selection set that refer to
  entities are collected, and for every such field the children of all parents are fetched with one
  query of the store and then distributed to their parents. The store and what the order of equal
  elements is after an unstable sort are parameters. The depth of the call stack is the first argument of the
  recursive functions, and running out of it is a panic; deadlines are a predicate on the place in the query.
\<close>

section \<open>Nodes\<close>

datatype node = Node (nd_entity: "(string \<times> qvalue) list") (nd_children: "(string \<times> node list) list")

definition node_from :: "(string, qvalue) btreemap \<Rightarrow> node" where
  "node_from e = Node e []"

definition is_root_node :: "node list \<Rightarrow> bool" where
  "is_root_node nodes = (case nodes of n # _ \<Rightarrow> nd_entity n = [] | [] \<Rightarrow> False)"

definition make_root_node :: "node list" where
  "make_root_node = [Node [] []]"

text \<open>A node as a value: its children are entries of the object, as lists.\<close>

fun node_value :: "node \<Rightarrow> qvalue" where
  "node_value (Node e children) =
     QObject (fold (\<lambda>(key, nodes). bt_insert (prefetch_key key) (QList (map node_value nodes))) children e)"

definition node_list_as_value :: "node list \<Rightarrow> qvalue" where
  "node_list_as_value nodes = QList (map node_value nodes)"

definition value_as_str :: "qvalue \<Rightarrow> string option" where
  "value_as_str v = (case v of QString s \<Rightarrow> Some s | _ \<Rightarrow> None)"

definition node_get :: "node \<Rightarrow> string \<Rightarrow> qvalue option" where
  "node_get n key = map_of (nd_entity n) key"

definition node_id :: "node \<Rightarrow> (string, string) result" where
  "node_id n =
     (case node_get n ''id'' of
        None \<Rightarrow> Err ''Entity is missing an `id` attribute''
      | Some (QString s) \<Rightarrow> Ok s
      | Some _ \<Rightarrow> Err ''Entity has non-string `id` attribute'')"

definition result_ok :: "('a, 'e) result \<Rightarrow> 'a option" where
  "result_ok r = (case r of Ok a \<Rightarrow> Some a | _ \<Rightarrow> None)"

definition node_typename :: "node \<Rightarrow> (string, 'e) result" where
  "node_typename n = and_then (expect (node_get n ''__typename'')) (\<lambda>v. expect (value_as_str v))"

section \<open>Joins\<close>

datatype join_field = JoinList string | JoinScalar string

definition join_field_new :: "field_def \<Rightarrow> join_field" where
  "join_field_new f = (if is_list_or_non_null_list_field f then JoinList (fd_name f) else JoinScalar (fd_name f))"

fun join_window_attribute :: "join_field \<Rightarrow> window_attribute" where
  "join_window_attribute (JoinScalar name) = ScalarAttr name"
| "join_window_attribute (JoinList name) = ListAttr name"

datatype join_relation = JoinDirect join_field | JoinDerived join_field

record join_cond =
  jc_parent_type :: string
  jc_child_type :: string
  jc_relation :: join_relation

definition oi_field :: "object_or_interface \<Rightarrow> string \<Rightarrow> field_def option" where
  "oi_field oi name = find (\<lambda>f. fd_name f = name) (oi_fields oi)"

definition join_cond_new :: "object_type \<Rightarrow> object_type \<Rightarrow> string \<Rightarrow> (join_cond, 'e) result" where
  "join_cond_new parent_type child_type field_name =
     and_then (expect (oi_field (IsObject parent_type) field_name)) (\<lambda>field.
       Ok \<lparr>jc_parent_type = ot_name parent_type, jc_child_type = ot_name child_type,
           jc_relation =
             (case get_derived_from_field (IsObject child_type) field of
                Some derived_from_field \<Rightarrow> JoinDirect (join_field_new derived_from_field)
              | None \<Rightarrow> JoinDerived (join_field_new field))\<rparr>)"

text \<open>The ids of the children that a parent refers to; \<open>None\<close> when there are none.\<close>

definition scalar_reference :: "string \<Rightarrow> node \<Rightarrow> string option" where
  "scalar_reference child_field n = Option.bind (node_get n child_field) value_as_str"

definition list_reference :: "string \<Rightarrow> node \<Rightarrow> string list option" where
  "list_reference child_field n =
     (case node_get n child_field of
        Some (QList vs) \<Rightarrow> (let ids = List.map_filter value_as_str vs in if ids = [] then None else Some ids)
      | _ \<Rightarrow> None)"

definition with_reference :: "(node \<Rightarrow> 'a option) \<Rightarrow> (string \<times> node) list \<Rightarrow> (string \<times> 'a) list" where
  "with_reference r ps = List.map_filter (\<lambda>(i, n). map_option (Pair i) (r n)) ps"

definition join_entity_link :: "join_cond \<Rightarrow> (string \<times> node) list \<Rightarrow> child_multiplicity \<Rightarrow> string list \<times> entity_link" where
  "join_entity_link c parents_by_id multiplicity =
     (case jc_relation c of
        JoinDirect field \<Rightarrow> (map fst parents_by_id, Direct (join_window_attribute field) multiplicity)
      | JoinDerived (JoinScalar child_field) \<Rightarrow>
          (let rs = with_reference (scalar_reference child_field) parents_by_id
           in (map fst rs, ParentLink (ScalarLink (map snd rs))))
      | JoinDerived (JoinList child_field) \<Rightarrow>
          (let rs = with_reference (list_reference child_field) parents_by_id
           in (map fst rs, ParentLink (ListLink (map snd rs)))))"

record join =
  jn_child_type :: object_or_interface
  jn_conds :: "join_cond list"

definition object_types :: "(string, object_type list) btreemap \<Rightarrow> object_or_interface \<Rightarrow> object_type list option" where
  "object_types types_for_interface oi =
     (case oi of IsObject t \<Rightarrow> Some [t] | IsInterface i \<Rightarrow> map_of types_for_interface (it_name i))"

definition join_new ::
  "(string, object_type list) btreemap \<Rightarrow> object_or_interface \<Rightarrow> object_or_interface \<Rightarrow> string \<Rightarrow> (join, errors) result" where
  "join_new types_for_interface parent_type child_type field_name =
     and_then (expect (object_types types_for_interface parent_type)) (\<lambda>parent_types.
     and_then (expect (object_types types_for_interface child_type)) (\<lambda>child_types.
     and_then (try_map (\<lambda>(p, c). join_cond_new p c field_name) (List.product parent_types child_types)) (\<lambda>conds.
       Ok \<lparr>jn_child_type = child_type, jn_conds = conds\<rparr>)))"

text \<open>\<open>Join::perform\<close>: a single parent gets all children, several parents those with their id.\<close>

definition add_children :: "string \<Rightarrow> node list \<Rightarrow> node \<Rightarrow> node" where
  "add_children response_key children n = Node (nd_entity n) (bt_insert response_key children (nd_children n))"

definition parent_key :: "node \<Rightarrow> (string, errors) result" where
  "parent_key child = and_then (expect (node_get child ''g$parent_id'')) (\<lambda>v. expect (value_as_str v))"

definition group_children :: "node list \<Rightarrow> ((string \<times> node list) list, errors) result" where
  "group_children children = try_fold (\<lambda>child g. and_then (parent_key child) (\<lambda>k. Ok (index_push k child g))) children []"

definition join_perform :: "node list \<Rightarrow> node list \<Rightarrow> string \<Rightarrow> (node list, errors) result" where
  "join_perform parents children response_key =
     (case parents of
        [parent] \<Rightarrow> Ok [add_children response_key children parent]
      | _ \<Rightarrow>
          and_then (group_children children) (\<lambda>grouped.
            Ok (map (\<lambda>parent.
                   let vs = Option.bind (result_ok (node_id parent)) (map_of grouped)
                   in add_children response_key (case vs of Some ns \<Rightarrow> ns | None \<Rightarrow> []) parent) parents)))"

text \<open>\<open>dedup_by\<close> keeps the first of neighbours with one id.\<close>

fun dedup_ids :: "(string \<times> 'a) list \<Rightarrow> (string \<times> 'a) list" where
  "dedup_ids (x # y # rest) = (if fst x = fst y then dedup_ids (x # rest) else x # dedup_ids (y # rest))"
| "dedup_ids xs = xs"

type_synonym sorter = "(string \<times> node) list \<Rightarrow> (string \<times> node) list"

definition has_typename :: "string \<Rightarrow> node \<Rightarrow> (bool, query_execution_error) result" where
  "has_typename name n = and_then (node_typename n) (\<lambda>t. Ok (t = name))"

fun try_filter_by :: "('a \<Rightarrow> (bool, 'e) result) \<Rightarrow> 'a list \<Rightarrow> ('a list, 'e) result" where
  "try_filter_by p [] = Ok []"
| "try_filter_by p (x # xs) = and_then (p x) (\<lambda>b. and_then (try_filter_by p xs) (\<lambda>ys. Ok (if b then x # ys else ys)))"

definition with_id :: "node \<Rightarrow> (string \<times> node) option" where
  "with_id n = map_option (\<lambda>i. (i, n)) (result_ok (node_id n))"

definition cond_window ::
  "sorter \<Rightarrow> node list \<Rightarrow> child_multiplicity \<Rightarrow> join_cond \<Rightarrow> (entity_window option, query_execution_error) result" where
  "cond_window sort_by_id parents multiplicity c =
     and_then (try_filter_by (has_typename (jc_parent_type c)) parents) (\<lambda>ps.
       let parents_by_id = List.map_filter with_id ps
       in if parents_by_id = [] then Ok None
          else
            (let (ids, link) = join_entity_link c (dedup_ids (sort_by_id parents_by_id)) multiplicity
             in Ok (Some \<lparr>w_child_type = jc_child_type c, w_ids = ids, w_link = link\<rparr>)))"

definition join_windows ::
  "sorter \<Rightarrow> join \<Rightarrow> node list \<Rightarrow> child_multiplicity \<Rightarrow> (entity_window list, query_execution_error) result" where
  "join_windows sort_by_id j parents multiplicity =
     and_then (try_map (cond_window sort_by_id parents multiplicity) (jn_conds j)) (\<lambda>ws. Ok (List.map_filter id ws))"

section \<open>Collecting fields\<close>

text \<open>The fields of one response key: those selected on the interface, and those selected on object types. An object type is known by its name.\<close>

record collected_response_key =
  cr_iface_cond :: "interface_type option"
  cr_iface_fields :: "selection list"
  cr_obj_types :: "(object_type \<times> selection list) list"

type_synonym grouped_fields = "(string \<times> collected_response_key) list"

definition collected_default :: collected_response_key where
  "collected_default = \<lparr>cr_iface_cond = None, cr_iface_fields = [], cr_obj_types = []\<rparr>"

fun push_object :: "object_type \<Rightarrow> selection \<Rightarrow> (object_type \<times> selection list) list \<Rightarrow> (object_type \<times> selection list) list" where
  "push_object t f [] = [(t, [f])]"
| "push_object t f ((t', fs) # rest) = (if ot_name t' = ot_name t then (t', fs @ [f]) # rest else (t', fs) # push_object t f rest)"

definition collect_field :: "object_or_interface \<Rightarrow> selection \<Rightarrow> collected_response_key \<Rightarrow> (collected_response_key, errors) result" where
  "collect_field type_condition f c =
     (case type_condition of
        IsInterface i \<Rightarrow>
          if cr_iface_cond c = None \<or> map_option it_name (cr_iface_cond c) = Some (it_name i)
          then Ok (c\<lparr>cr_iface_cond := Some i, cr_iface_fields := cr_iface_fields c @ [f]\<rparr>)
          else Panic
      | IsObject t \<Rightarrow> Ok (c\<lparr>cr_obj_types := push_object t f (cr_obj_types c)\<rparr>))"

definition collected_conditions :: "collected_response_key \<Rightarrow> (object_or_interface \<times> selection list) list" where
  "collected_conditions c =
     (case cr_iface_cond c of Some i \<Rightarrow> [(IsInterface i, cr_iface_fields c)] | None \<Rightarrow> []) @
     map (\<lambda>(t, fs). (IsObject t, fs)) (cr_obj_types c)"

text \<open>\<open>entry(key).or_default()\<close> with a change of the entry.\<close>

fun index_update :: "'k \<Rightarrow> 'v \<Rightarrow> ('v \<Rightarrow> ('v, 'e) result) \<Rightarrow> ('k \<times> 'v) list \<Rightarrow> (('k \<times> 'v) list, 'e) result" where
  "index_update k d f [] = and_then (f d) (\<lambda>v. Ok [(k, v)])"
| "index_update k d f ((k', v) # rest) =
     (if k' = k then and_then (f v) (\<lambda>v. Ok ((k', v) # rest))
      else and_then (index_update k d f rest) (\<lambda>rest. Ok ((k', v) # rest)))"

definition is_reference_field :: "document \<Rightarrow> object_or_interface \<Rightarrow> selection \<Rightarrow> bool" where
  "is_reference_field schema oi field =
     (case Option.bind (oi_field oi (sel_name field)) (get_type_definition_from_field schema) of
        Some (InterfaceDef _) \<Rightarrow> True
      | Some (ObjectDef _) \<Rightarrow> True
      | _ \<Rightarrow> False)"

text \<open>The types for which the selections of a fragment are collected.\<close>

definition fragment_types ::
  "document \<Rightarrow> (string, object_type list) btreemap \<Rightarrow> object_or_interface \<Rightarrow> string option \<Rightarrow> (object_or_interface list, errors) result" where
  "fragment_types schema types_for_interface outer cond =
     and_then (case (cond, outer) of
                 (Some name, IsInterface _) \<Rightarrow> expect (object_or_interface_of schema name)
               | _ \<Rightarrow> Ok outer) (\<lambda>fragment_ty.
       if oi_name fragment_ty = oi_name outer \<or> (case fragment_ty of IsObject _ \<Rightarrow> True | _ \<Rightarrow> False)
       then Ok [fragment_ty]
       else
         and_then (expect (map_of types_for_interface (oi_name outer))) (\<lambda>root_tys.
         and_then (expect (map_of types_for_interface (oi_name fragment_ty))) (\<lambda>fragment_tys.
           Ok (map IsObject (filter (\<lambda>t. list_ex (\<lambda>t'. ot_name t' = ot_name t) fragment_tys) root_tys)))))"

text \<open>One selection for one type; \<open>collect\<close> collects selections for a list of types in turn.\<close>

definition pf_collect_selection ::
  "((object_or_interface \<times> selection list) list \<Rightarrow> string set \<Rightarrow> grouped_fields \<Rightarrow> (string set \<times> grouped_fields, errors) result)
   \<Rightarrow> query \<Rightarrow> (string, object_type list) btreemap \<Rightarrow> object_or_interface \<Rightarrow> selection \<Rightarrow> string set \<Rightarrow> grouped_fields
   \<Rightarrow> (string set \<times> grouped_fields, errors) result" where
  "pf_collect_selection collect q tfi ty sel visited out =
     (let schema = as_document (qr_schema q)
      in if \<not> is_selected q sel then Ok (visited, out)
         else case sel of
             FieldSel p a n args ds ss \<Rightarrow>
               if is_reference_field schema ty sel
               then and_then (index_update (get_response_key sel) collected_default (collect_field ty sel) out) (\<lambda>out. Ok (visited, out))
               else Ok (visited, out)
           | FragmentSpread name \<Rightarrow>
               if name \<in> visited then Ok (visited, out)
               else
                 (case map_of (qr_fragments q) name of
                    None \<Rightarrow> Panic
                  | Some fragment \<Rightarrow>
                      and_then (fragment_types schema tfi ty (Some (fr_type_condition fragment))) (\<lambda>tys.
                        collect (map (\<lambda>t. (t, fr_selection_set fragment)) tys) (insert name visited) out))
           | InlineFragment cond ss \<Rightarrow>
               and_then (fragment_types schema tfi ty cond) (\<lambda>tys. collect (map (\<lambda>t. (t, ss)) tys) visited out))"

definition pf_enters ::
  "query \<Rightarrow> selection \<Rightarrow> string set \<Rightarrow> (object_or_interface \<times> selection list) list \<Rightarrow> string set \<Rightarrow> bool" where
  "pf_enters q sel visited tasks v \<longleftrightarrow>
     (\<exists>name fragment tys. sel = FragmentSpread name \<and> name \<notin> visited \<and> map_of (qr_fragments q) name = Some fragment \<and>
        tasks = map (\<lambda>t. (t, fr_selection_set fragment)) tys \<and> v = insert name visited) \<or>
     (\<exists>cond ss tys. sel = InlineFragment cond ss \<and> tasks = map (\<lambda>t. (t, ss)) tys \<and> v = visited)"

lemma pf_collect_selection_cong [fundef_cong]:
  assumes "q = q'" "tfi = tfi'" "ty = ty'" "sel = sel'" "visited = visited'" "out = out'"
    and "\<And>tasks v o'. pf_enters q' sel' visited' tasks v \<Longrightarrow> f tasks v o' = g tasks v o'"
  shows "pf_collect_selection f q tfi ty sel visited out = pf_collect_selection g q' tfi' ty' sel' visited' out'"
proof (cases sel)
  case (FragmentSpread name)
  have "f (map (\<lambda>t. (t, fr_selection_set fragment)) tys) (insert name visited') o' = g (map (\<lambda>t. (t, fr_selection_set fragment)) tys) (insert name visited') o'"
    if "map_of (qr_fragments q') name = Some fragment" "name \<notin> visited'" for fragment tys o'
    by (rule assms(7)) (use that FragmentSpread assms(4) in \<open>auto simp: pf_enters_def\<close>)
  then show ?thesis
    using assms(1-6) FragmentSpread by (auto simp: pf_collect_selection_def Let_def split: option.splits intro!: and_then_cong)
next
  case (InlineFragment cond ss)
  have "f (map (\<lambda>t. (t, ss)) tys) visited' o' = g (map (\<lambda>t. (t, ss)) tys) visited' o'" for tys o'
    by (rule assms(7)) (use InlineFragment assms(4) in \<open>auto simp: pf_enters_def\<close>)
  then show ?thesis
    using assms(1-6) InlineFragment by (auto simp: pf_collect_selection_def Let_def intro!: and_then_cong)
qed (use assms in \<open>simp add: pf_collect_selection_def Let_def\<close>)

text \<open>The selections of each of the types in turn. Fragments are visited once for all of them.\<close>

function pf_collect_all ::
  "query \<Rightarrow> (string, object_type list) btreemap \<Rightarrow> (object_or_interface \<times> selection list) list \<Rightarrow> string set \<Rightarrow> grouped_fields
   \<Rightarrow> (string set \<times> grouped_fields, errors) result" where
  "pf_collect_all q tfi [] visited out = Ok (visited, out)"
| "pf_collect_all q tfi ((ty, []) # tasks) visited out = pf_collect_all q tfi tasks visited out"
| "pf_collect_all q tfi ((ty, sel # rest) # tasks) visited out =
     and_then (pf_collect_selection (pf_collect_all q tfi) q tfi ty sel visited out)
       (\<lambda>(visited, out). pf_collect_all q tfi ((ty, rest) # tasks) visited out)"
  by pat_completeness auto

lemma pf_collect_selection_visited:
  assumes "pf_collect_selection collect q tfi ty sel visited out = Ok (visited', out')"
    and "\<And>tasks v out v' out'. pf_enters q sel visited tasks v \<Longrightarrow> collect tasks v out = Ok (v', out') \<Longrightarrow> v \<subseteq> v'"
  shows "visited \<subseteq> visited'"
proof (cases sel)
  case (FieldSel p a n args ds ss)
  then show ?thesis using assms(1) by (auto simp: pf_collect_selection_def Let_def and_then_Ok_iff split: if_splits)
next
  case (FragmentSpread name)
  have "insert name visited \<subseteq> visited'"
    if "name \<notin> visited" "map_of (qr_fragments q) name = Some fragment"
      "collect (map (\<lambda>t. (t, fr_selection_set fragment)) tys) (insert name visited) out = Ok (visited', out')" for fragment tys
    using assms(2) [OF _ that(3)] that(1,2) by (auto simp: pf_enters_def FragmentSpread)
  then show ?thesis
    using assms(1) FragmentSpread
    by (auto simp: pf_collect_selection_def Let_def and_then_Ok_iff split: if_splits option.splits)
next
  case (InlineFragment cond ss)
  have "visited \<subseteq> visited'" if "collect (map (\<lambda>t. (t, ss)) tys) visited out = Ok (visited', out')" for tys
    using assms(2) [OF _ that] by (auto simp: pf_enters_def InlineFragment)
  then show ?thesis
    using assms(1) InlineFragment by (auto simp: pf_collect_selection_def Let_def and_then_Ok_iff split: if_splits)
qed

lemma pf_collect_visited:
  assumes "pf_collect_all_dom (q, tfi, tasks, visited, out)"
    and "pf_collect_all q tfi tasks visited out = Ok (visited', out')"
  shows "visited \<subseteq> visited'"
  using assms
proof (induction arbitrary: visited' out' rule: pf_collect_all.pinduct)
  case (1 q tfi visited out)
  then show ?case by (simp add: pf_collect_all.psimps)
next
  case (2 q tfi ty tasks visited out)
  then show ?case by (simp add: pf_collect_all.psimps)
next
  case (3 q tfi ty sel rest tasks visited out)
  from 3 obtain v o1 where first: "pf_collect_selection (pf_collect_all q tfi) q tfi ty sel visited out = Ok (v, o1)"
      and rest: "pf_collect_all q tfi ((ty, rest) # tasks) v o1 = Ok (visited', out')"
    by (auto simp: pf_collect_all.psimps and_then_Ok_iff)
  have "visited \<subseteq> v" by (rule pf_collect_selection_visited [OF first]) (rule 3(2))
  moreover have "v \<subseteq> visited'" using 3(3) [OF first _ rest] by simp
  ultimately show ?case by blast
qed

definition tasks_depth :: "('a \<times> selection list) list \<Rightarrow> nat" where
  "tasks_depth tasks = fold max (map (size_list size \<circ> snd) tasks) 0"

lemma fold_max_le: "fold max xs a \<le> (m :: nat) \<longleftrightarrow> a \<le> m \<and> (\<forall>x \<in> set xs. x \<le> m)"
  by (induction xs arbitrary: a) auto

lemma tasks_depth_le: "tasks_depth tasks \<le> m \<longleftrightarrow> (\<forall>(t, ss) \<in> set tasks. size_list size ss \<le> m)"
  by (auto simp: tasks_depth_def fold_max_le)

lemma pf_enters_smaller:
  assumes "pf_enters q sel visited tasks v"
  shows "card (fst ` set (qr_fragments q) - v) < card (fst ` set (qr_fragments q) - visited) \<or>
    v = visited \<and> tasks_depth tasks < size sel"
proof -
  have "card (fst ` set (qr_fragments q) - insert name visited) < card (fst ` set (qr_fragments q) - visited)"
    if "name \<notin> visited" "map_of (qr_fragments q) name = Some fragment" for name fragment
    using that by (intro psubset_card_mono) (force dest: map_of_SomeD)+
  moreover have "tasks_depth (map (\<lambda>t. (t, ss)) tys) < size (InlineFragment cond ss)" for ss tys cond
    using tasks_depth_le [of "map (\<lambda>t. (t, ss)) tys" "size_list size ss"] by auto
  ultimately show ?thesis using assms by (auto simp: pf_enters_def)
qed

termination pf_collect_all
proof (relation "measures [\<lambda>(q, tfi, tasks, visited, out). card (fst ` set (qr_fragments q) - visited),
      \<lambda>(q, tfi, tasks, visited, out). tasks_depth tasks, \<lambda>(q, tfi, tasks, visited, out). size_list (\<lambda>x. size_list size (snd x)) tasks]", goal_cases)
  case 1
  then show ?case by simp
next
  case (2 q tfi ty tasks visited out)
  have "tasks_depth tasks \<le> tasks_depth ((ty, []) # tasks)"
    using tasks_depth_le [of "(ty, []) # tasks" "tasks_depth ((ty, []) # tasks)"] by (simp add: tasks_depth_le)
  then show ?case by auto
next
  case (3 q tfi ty sel rest tasks visited out tasks' v o')
  have "size_list size (sel # rest) \<le> tasks_depth ((ty, sel # rest) # tasks)"
    using tasks_depth_le [of "(ty, sel # rest) # tasks" "tasks_depth ((ty, sel # rest) # tasks)"] by simp
  then show ?case using pf_enters_smaller [OF 3] by auto
next
  case (4 q tfi ty sel rest tasks visited out x v o')
  have "pf_collect_selection (pf_collect_all q tfi) q tfi ty sel visited out = Ok (v, o')" using 4 by simp
  then have "visited \<subseteq> v"
  proof (rule pf_collect_selection_visited)
    show "va \<subseteq> v'" if "pf_enters q sel visited tasks' va" "pf_collect_all q tfi tasks' va outa = Ok (v', out')"
      for tasks' va outa v' out'
      by (rule pf_collect_visited [OF _ that(2)]) (use 4 that(1) in blast)
  qed
  then have "card (fst ` set (qr_fragments q) - v) \<le> card (fst ` set (qr_fragments q) - visited)"
    by (intro card_mono) auto
  moreover have "tasks_depth ((ty, rest) # tasks) \<le> tasks_depth ((ty, sel # rest) # tasks)"
    using tasks_depth_le [of "(ty, sel # rest) # tasks" "tasks_depth ((ty, sel # rest) # tasks)"] by (auto simp: tasks_depth_le)
  ultimately show ?case by auto
qed

definition merge_iface_fields :: "collected_response_key \<Rightarrow> collected_response_key" where
  "merge_iface_fields c = c\<lparr>cr_obj_types := map (\<lambda>(t, fs). (t, fs @ cr_iface_fields c)) (cr_obj_types c)\<rparr>"

definition pf_collect_fields ::
  "query \<Rightarrow> (string, object_type list) btreemap \<Rightarrow> object_or_interface \<Rightarrow> selection list list \<Rightarrow> (grouped_fields, errors) result" where
  "pf_collect_fields q tfi parent_ty selection_sets =
     and_then (try_fold (\<lambda>ss out. and_then (pf_collect_all q tfi [(parent_ty, ss)] {} out) (\<lambda>(visited, out). Ok out)) selection_sets [])
       (\<lambda>out. Ok (map (\<lambda>(k, c). (k, merge_iface_fields c)) out))"

section \<open>Fetching\<close>

record prefetch_env =
  pe_lib :: scalar_lib
  pe_types_for_interface :: "(string, object_type list) btreemap"
  pe_block :: i32
  pe_max_first :: "32 word"
  pe_max_skip :: "32 word"
  pe_query_id :: string
  pe_find_query_values :: "entity_query \<Rightarrow> ((string, qvalue) btreemap list, query_execution_error) result"
  pe_sort_by_id :: sorter
  pe_late :: "string list \<Rightarrow> bool"

definition fetch ::
  "prefetch_env \<Rightarrow> node list \<Rightarrow> join \<Rightarrow> arguments \<Rightarrow> child_multiplicity \<Rightarrow> (node list, query_execution_error) result" where
  "fetch env parents j arguments multiplicity =
     and_then (build_query (pe_lib env) (jn_child_type j) (pe_block env) arguments (pe_types_for_interface env) (pe_max_first env)
                 (pe_max_skip env)) (\<lambda>q0.
     let q1 = q0\<lparr>q_query_id := Some (pe_query_id env)\<rparr>;
         q2 = (if multiplicity = Single then q1\<lparr>q_order := Unordered\<rparr> else q1);
         q3 = (case map_of arguments ''id'' of
                 Some (QString i) \<Rightarrow> q2\<lparr>q_filter := Some (and_maybe (FEqual ''id'' (VString i)) (q_filter q2))\<rparr>
               | _ \<Rightarrow> q2)
     in and_then (if is_root_node parents then Ok (Some q3)
                  else and_then (join_windows (pe_sort_by_id env) j parents multiplicity) (\<lambda>ws.
                         if ws = [] then Ok None else Ok (Some (q3\<lparr>q_collection := WindowOf ws\<rparr>)))) (\<lambda>query.
        case query of
          None \<Rightarrow> Ok []
        | Some query \<Rightarrow> and_then (pe_find_query_values env query) (\<lambda>entities. Ok (map node_from entities))))"

definition pf_execute_field ::
  "prefetch_env \<Rightarrow> execution_context \<Rightarrow> object_or_interface \<Rightarrow> node list \<Rightarrow> join \<Rightarrow> selection \<Rightarrow> field_def \<Rightarrow> (node list, errors) result" where
  "pf_execute_field env ctx ty parents j field field_definition =
     and_then (case ty of
                 IsObject t \<Rightarrow> and_then (coerce_argument_values ctx t field) (\<lambda>args. Ok (Some args))
               | IsInterface i \<Rightarrow>
                   and_then (expect (map_of (pe_types_for_interface env) (it_name i))) (\<lambda>ts.
                     case ts of
                       t # _ \<Rightarrow> and_then (coerce_argument_values ctx t field) (\<lambda>args. Ok (Some args))
                     | [] \<Rightarrow> Ok None)) (\<lambda>args.
       case args of
         None \<Rightarrow> Ok []
       | Some args \<Rightarrow>
           one_error (fetch env parents j args (if is_list_or_non_null_list_field field_definition then Many else Single)))"

text \<open>The parents that a type condition matches, as flags, and the parents with those changed.\<close>

definition matching_parents :: "prefetch_env \<Rightarrow> object_or_interface \<Rightarrow> node list \<Rightarrow> (bool list, errors) result" where
  "matching_parents env cond parents =
     (if is_root_node parents then Ok (map (\<lambda>_. True) parents)
      else try_map (\<lambda>p. and_then (node_typename p) (\<lambda>name. oi_matches cond name (pe_types_for_interface env))) parents)"

fun chosen :: "bool list \<Rightarrow> 'a list \<Rightarrow> 'a list" where
  "chosen (b # bs) (x # xs) = (if b then x # chosen bs xs else chosen bs xs)"
| "chosen _ _ = []"

fun put_back :: "bool list \<Rightarrow> 'a list \<Rightarrow> 'a list \<Rightarrow> 'a list" where
  "put_back (True # bs) (x # xs) (y # ys) = y # put_back bs xs ys"
| "put_back (b # bs) (x # xs) ys = x # put_back bs xs ys"
| "put_back bs xs ys = xs"

type_synonym prefetcher = "string list \<Rightarrow> node list \<Rightarrow> grouped_fields \<Rightarrow> (node list, errors) result"

definition execute_condition ::
  "prefetcher \<Rightarrow> prefetch_env \<Rightarrow> execution_context \<Rightarrow> string list \<Rightarrow> string \<Rightarrow> object_or_interface \<times> selection list
   \<Rightarrow> node list \<times> errors \<Rightarrow> (node list \<times> errors, errors) result" where
  "execute_condition exec env ctx path response_key = (\<lambda>(type_cond, flds) (parents, errs).
     and_then (matching_parents env type_cond parents) (\<lambda>flags.
       let ps = chosen flags parents
       in if ps = [] then Ok (parents, errs)
          else
            and_then (expect (oi_field type_cond (sel_name (hd flds)))) (\<lambda>field.
            and_then (expect (object_or_interface_of (xc_document ctx) (get_base_type (fd_field_type field)))) (\<lambda>child_type.
            and_then (join_new (pe_types_for_interface env) type_cond child_type (fd_name field)) (\<lambda>j.
            and_then (pf_collect_fields (xc_query ctx) (pe_types_for_interface env) child_type (map sel_set flds)) (\<lambda>grouped.
              case and_then (pf_execute_field env ctx type_cond ps j (hd flds) field) (\<lambda>children.
                     exec (path @ [oi_name type_cond]) children grouped) of
                Ok children \<Rightarrow> and_then (join_perform ps children response_key) (\<lambda>ps'. Ok (put_back flags parents ps', errs))
              | Err es \<Rightarrow> Ok (parents, errs @ es)
              | Panic \<Rightarrow> Panic))))))"

fun execute_collected ::
  "prefetcher \<Rightarrow> prefetch_env \<Rightarrow> execution_context \<Rightarrow> string list \<Rightarrow> grouped_fields
   \<Rightarrow> node list \<times> errors \<Rightarrow> (node list \<times> errors, errors) result" where
  "execute_collected exec env ctx path [] st = Ok st"
| "execute_collected exec env ctx path ((response_key, collected) # rest) st =
     (let path' = path @ [response_key]
      in if pe_late env path' then Ok (fst st, snd st @ [Timeout])
         else and_then (try_fold (execute_condition exec env ctx path' response_key) (collected_conditions collected) st)
                (execute_collected exec env ctx path rest))"

primrec pf_execute_selection_set :: "nat \<Rightarrow> prefetch_env \<Rightarrow> execution_context \<Rightarrow> prefetcher" where
  "pf_execute_selection_set 0 env ctx = (\<lambda>path parents grouped. Panic)"
| "pf_execute_selection_set (Suc d) env ctx = (\<lambda>path parents grouped.
     and_then (execute_collected (pf_execute_selection_set d env ctx) env ctx path grouped (parents, []))
       (\<lambda>(parents, errs). if errs = [] then Ok parents else Err errs))"

definition pf_execute_root_selection_set ::
  "nat \<Rightarrow> prefetch_env \<Rightarrow> execution_context \<Rightarrow> selection list \<Rightarrow> (node list, errors) result" where
  "pf_execute_root_selection_set d env ctx sels =
     and_then (expect (get_root_query_type (xc_document ctx))) (\<lambda>query_type.
     and_then (pf_collect_fields (xc_query ctx) (pe_types_for_interface env) (IsObject query_type) [sels]) (\<lambda>grouped.
       pf_execute_selection_set d env ctx [] make_root_node grouped))"

definition prefetch_run :: "nat \<Rightarrow> prefetch_env \<Rightarrow> execution_context \<Rightarrow> selection list \<Rightarrow> (qvalue, errors) result" where
  "prefetch_run d env ctx sels =
     and_then (pf_execute_root_selection_set d env ctx sels) (\<lambda>nodes.
       Ok (QObject (fold (\<lambda>n m. fold (\<lambda>(key, ns). bt_insert (prefetch_key key) (node_list_as_value ns)) (nd_children n) m) nodes [])))"

section \<open>Sublists\<close>

lemma length_put_back [simp]: "length (put_back bs xs ys) = length xs"
  by (induction bs xs ys rule: put_back.induct) auto

lemma chosen_map: "chosen bs (map f xs) = map f (chosen bs xs)"
  by (induction bs xs rule: chosen.induct) auto

lemma set_chosen: "set (chosen bs xs) \<subseteq> set xs"
  by (induction bs xs rule: chosen.induct) auto

lemma chosen_filter: "chosen (map P xs) xs = filter P xs"
  by (induction xs) auto

lemma chosen_all [simp]: "length bs = length xs \<Longrightarrow> list_all Not bs \<Longrightarrow> chosen bs xs = []"
  by (induction bs xs rule: list_induct2) auto

lemma chosen_chosen:
  "length ms = length bs \<Longrightarrow> length bs = length xs \<Longrightarrow> chosen (chosen ms bs) (chosen ms xs) = chosen (chosen bs ms) (chosen bs xs)"
  by (induction ms bs xs rule: list_induct3) auto

lemma length_chosen: "length bs = length xs \<Longrightarrow> length bs = length ys \<Longrightarrow> length (chosen bs xs) = length (chosen bs ys)"
proof (induction bs arbitrary: xs ys)
  case (Cons b bs)
  then show ?case by (cases xs; cases ys) auto
qed simp

lemma chosen_put_back:
  "length ms = length bs \<Longrightarrow> length bs = length xs \<Longrightarrow> length ys = length (chosen bs xs) \<Longrightarrow>
   chosen ms (put_back bs xs ys) = put_back (chosen ms bs) (chosen ms xs) (chosen (chosen bs ms) ys)"
proof (induction ms bs xs arbitrary: ys rule: list_induct3)
  case (Cons m ms b bs x xs)
  show ?case
  proof (cases b)
    case True
    then obtain y ys' where "ys = y # ys'" using Cons.prems by (cases ys) auto
    then show ?thesis using Cons True by simp
  next
    case False
    then show ?thesis using Cons by (cases m; cases ys) auto
  qed
qed simp

lemma put_back_none: "length bs = length xs \<Longrightarrow> chosen bs xs = [] \<Longrightarrow> put_back bs xs ys = xs"
proof (induction bs xs rule: list_induct2)
  case (Cons b bs x xs)
  then show ?case by (cases b; cases ys) auto
qed simp

lemma put_back_map: "length bs = length xs \<Longrightarrow> (\<And>x. g (f x) = g x) \<Longrightarrow> map g (put_back bs xs (map f (chosen bs xs))) = map g xs"
proof (induction bs xs rule: list_induct2)
  case (Cons b bs x xs)
  show ?case
  proof (cases b)
    case False
    then show ?thesis using Cons by (cases "map f (chosen bs xs)") auto
  qed (use Cons in simp)
qed simp

lemma try_map_chosen: "try_map f xs = Ok ys \<Longrightarrow> try_map f (chosen bs xs) = Ok (chosen bs ys)"
proof (induction bs xs arbitrary: ys rule: chosen.induct)
  case (1 b bs x xs)
  then show ?case by (auto simp: and_then_Ok_iff)
qed (auto simp: and_then_Ok_iff)

section \<open>Windows\<close>

definition keep_ids :: "string set \<Rightarrow> string list \<Rightarrow> 'a list \<Rightarrow> 'a list" where
  "keep_ids X ids xs = map snd (filter (\<lambda>(i, x). i \<in> X) (zip ids xs))"

definition restrict_window :: "string set \<Rightarrow> entity_window \<Rightarrow> entity_window" where
  "restrict_window X w = w\<lparr>w_ids := filter (\<lambda>i. i \<in> X) (w_ids w),
     w_link := (case w_link w of
                  Direct a m \<Rightarrow> Direct a m
                | ParentLink (ScalarLink cs) \<Rightarrow> ParentLink (ScalarLink (keep_ids X (w_ids w) cs))
                | ParentLink (ListLink cs) \<Rightarrow> ParentLink (ListLink (keep_ids X (w_ids w) cs)))\<rparr>"

definition with_parents :: "entity_window list \<Rightarrow> entity_window list" where
  "with_parents ws = filter (\<lambda>w. w_ids w \<noteq> []) ws"

definition parent_is :: "string set \<Rightarrow> (string, qvalue) btreemap \<Rightarrow> bool" where
  "parent_is X r = (case map_of r ''g$parent_id'' of Some (QString p) \<Rightarrow> p \<in> X | _ \<Rightarrow> False)"

definition same_entity :: "(string, qvalue) btreemap \<Rightarrow> (string, qvalue) btreemap \<Rightarrow> bool" where
  "same_entity r r' \<longleftrightarrow> (\<forall>k. k \<noteq> ''g$parent_id'' \<longrightarrow> map_of r k = map_of r' k)"

text \<open>
  Entities of one type, and entities of several types that share an interface, have different ids; that of a parent is
  attached to its children, so the same child can come with different parents.
\<close>

definition entities_ok :: "(string, qvalue) btreemap list \<Rightarrow> bool" where
  "entities_ok rows \<longleftrightarrow>
     (\<forall>r \<in> set rows. \<exists>t. map_of r ''__typename'' = Some (QString t)) \<and>
     (\<forall>r \<in> set rows. \<forall>r' \<in> set rows. \<forall>i. map_of r ''id'' = Some (QString i) \<and> map_of r' ''id'' = Some (QString i) \<longrightarrow> same_entity r r')"

text \<open>
  What the store promises for windows: only children of the parents that are listed, each with the id of its parent, and
  order and range apply to the children of one parent, so that asking for fewer parents gives the same
  children for them.
\<close>

definition windowed_store :: "(entity_query \<Rightarrow> ((string, qvalue) btreemap list, query_execution_error) result) \<Rightarrow> bool" where
  "windowed_store find_values \<longleftrightarrow>
     (\<forall>q ws rows. find_values (q\<lparr>q_collection := WindowOf ws\<rparr>) = Ok rows \<longrightarrow>
        entities_ok rows \<and> (\<forall>r \<in> set rows. parent_is (\<Union>w \<in> set ws. set (w_ids w)) r) \<and>
        (\<forall>X ws'. ws' \<noteq> [] \<longrightarrow> with_parents ws' = with_parents (map (restrict_window X) ws) \<longrightarrow>
           find_values (q\<lparr>q_collection := WindowOf ws'\<rparr>) = Ok (filter (parent_is X) rows)))"

definition sorts_by_id :: "sorter \<Rightarrow> bool" where
  "sorts_by_id s \<longleftrightarrow> (\<forall>xs. set (s xs) = set xs \<and> sorted (map fst (s xs)))"

subsection \<open>The parents by id\<close>

lemma set_dedup_ids: "sorted (map fst xs) \<Longrightarrow>
  set (dedup_ids xs) \<subseteq> set xs \<and> fst ` set (dedup_ids xs) = fst ` set xs \<and> sorted (map fst (dedup_ids xs)) \<and> distinct (map fst (dedup_ids xs))"
proof (induction xs rule: dedup_ids.induct)
  case (1 x y rest)
  show ?case
  proof (cases "fst x = fst y")
    case True
    then show ?thesis using 1 by auto
  next
    case False
    then have IH: "set (dedup_ids (y # rest)) \<subseteq> set (y # rest) \<and> fst ` set (dedup_ids (y # rest)) = fst ` set (y # rest) \<and>
        sorted (map fst (dedup_ids (y # rest))) \<and> distinct (map fst (dedup_ids (y # rest)))"
      using 1 by simp
    have "fst x < fst y" "\<forall>z \<in> set rest. fst y \<le> fst z" using 1(3) False by (auto simp: order.strict_iff_order)
    then have less: "fst x < fst z" if "z \<in> set (y # rest)" for z using that by (metis order.strict_trans2 set_ConsD)
    have "fst x < i" if "i \<in> fst ` set (dedup_ids (y # rest))" for i
    proof -
      have "i \<in> fst ` set (y # rest)" using that IH by (simp only:)
      then show ?thesis using less by blast
    qed
    then have "\<forall>i \<in> fst ` set (dedup_ids (y # rest)). fst x \<le> i \<and> fst x \<noteq> i" using less_imp_le less_imp_neq by blast
    moreover have "dedup_ids (x # y # rest) = x # dedup_ids (y # rest)" using False by simp
    ultimately show ?thesis using IH by (auto simp del: dedup_ids.simps)
  qed
qed simp_all

definition parent_ids :: "string \<Rightarrow> node list \<Rightarrow> string set" where
  "parent_ids t ps = {i. \<exists>p \<in> set ps. node_get p ''__typename'' = Some (QString t) \<and> node_id p = Ok i}"

definition proper_parents :: "node list \<Rightarrow> bool" where
  "proper_parents ps \<longleftrightarrow> entities_ok (map nd_entity ps)"

lemma node_id_Ok: "node_id p = Ok i \<longleftrightarrow> map_of (nd_entity p) ''id'' = Some (QString i)"
  by (auto simp: node_id_def node_get_def split: option.splits qvalue.splits)

lemma proper_same:
  assumes "proper_parents ps" "p \<in> set ps" "p' \<in> set ps" "node_id p = Ok i" "node_id p' = Ok i" "k \<noteq> ''g$parent_id''"
  shows "node_get p k = node_get p' k"
proof -
  have "same_entity (nd_entity p) (nd_entity p')"
    using assms(1-5) unfolding proper_parents_def entities_ok_def node_id_Ok set_map by blast
  then show ?thesis using assms(6) by (simp add: same_entity_def node_get_def)
qed

lemma proper_typename: "proper_parents ps \<Longrightarrow> p \<in> set ps \<Longrightarrow> \<exists>t. node_get p ''__typename'' = Some (QString t)"
  by (auto simp: proper_parents_def entities_ok_def node_get_def)

lemma proper_subset: "proper_parents ps \<Longrightarrow> set qs \<subseteq> set ps \<Longrightarrow> proper_parents qs"
  unfolding proper_parents_def entities_ok_def set_map by blast

lemma proper_not_root: "proper_parents ps \<Longrightarrow> is_root_node ps = False"
  by (cases ps) (auto simp: is_root_node_def proper_parents_def entities_ok_def)

lemma node_typename_proper: "node_get p ''__typename'' = Some (QString t) \<Longrightarrow> node_typename p = Ok t"
  by (simp add: node_typename_def value_as_str_def)

lemma try_filter_by_total: "(\<And>x. x \<in> set xs \<Longrightarrow> f x = Ok (P x)) \<Longrightarrow> try_filter_by f xs = Ok (filter P xs)"
  by (induction xs) auto

definition typed :: "string \<Rightarrow> node \<Rightarrow> bool" where
  "typed t p \<longleftrightarrow> node_get p ''__typename'' = Some (QString t)"

lemma filter_typed:
  assumes "proper_parents ps"
  shows "try_filter_by (has_typename t) ps = Ok (filter (typed t) ps)"
proof (rule try_filter_by_total)
  fix p assume "p \<in> set ps"
  then obtain t' where t': "node_get p ''__typename'' = Some (QString t')" using proper_typename assms by blast
  then show "has_typename t p = Ok (typed t p)"
    unfolding has_typename_def typed_def node_typename_proper [OF t'] t' by auto
qed

lemma map_filter_mem: "y \<in> set (List.map_filter f xs) \<longleftrightarrow> (\<exists>x \<in> set xs. f x = Some y)"
  by (induction xs) (auto simp: map_filter_simps split: option.splits)

lemma map_filter_id_map: "List.map_filter id (map f xs) = List.map_filter f xs"
  by (induction xs) (auto simp: map_filter_simps split: option.splits)

lemma parent_is_iff: "parent_is X r \<longleftrightarrow> (\<exists>p \<in> X. map_of r ''g$parent_id'' = Some (QString p))"
  by (auto simp: parent_is_def split: option.splits qvalue.splits)

text \<open>The window of a condition depends on the ids of the parents and on what they refer to.\<close>

definition window_of :: "join_cond \<Rightarrow> child_multiplicity \<Rightarrow> (string \<Rightarrow> node) \<Rightarrow> string list \<Rightarrow> entity_window" where
  "window_of c m node_of ids =
     (let (ids', link) = join_entity_link c (map (\<lambda>i. (i, node_of i)) ids) m in \<lparr>w_child_type = jc_child_type c, w_ids = ids', w_link = link\<rparr>)"

fun join_field_name :: "join_field \<Rightarrow> string" where
  "join_field_name (JoinList n) = n"
| "join_field_name (JoinScalar n) = n"

definition cond_clean :: "join_cond \<Rightarrow> bool" where
  "cond_clean c = (case jc_relation c of JoinDerived f \<Rightarrow> join_field_name f \<noteq> ''g$parent_id'' | _ \<Rightarrow> True)"

lemma with_reference_cong:
  "list_all2 (\<lambda>x y. fst x = fst y \<and> r (snd x) = r (snd y)) xs ys \<Longrightarrow> with_reference r xs = with_reference r ys"
proof (induction rule: list_all2_induct)
  case (Cons x xs y ys)
  then show ?case by (cases x; cases y; cases "r (snd y)") (simp_all add: with_reference_def map_filter_simps)
qed simp

lemma join_entity_link_cong:
  assumes "list_all2 (\<lambda>x y. fst x = fst y \<and> (\<forall>k. k \<noteq> ''g$parent_id'' \<longrightarrow> node_get (snd x) k = node_get (snd y) k)) xs ys" and "cond_clean c"
  shows "join_entity_link c xs m = join_entity_link c ys m"
proof -
  have ids: "map fst xs = map fst ys" using assms(1) by (induction rule: list_all2_induct) auto
  have r: "with_reference (scalar_reference f) xs = with_reference (scalar_reference f) ys"
    "with_reference (list_reference f) xs = with_reference (list_reference f) ys" if "f \<noteq> ''g$parent_id''" for f
    by (rule with_reference_cong, rule list_all2_mono [OF assms(1)], use that in \<open>auto simp: scalar_reference_def list_reference_def\<close>)+
  show ?thesis
    using ids r assms(2) unfolding join_entity_link_def cond_clean_def
    by (auto split: join_relation.splits join_field.splits)
qed

lemma cond_window_ids:
  assumes "sorts_by_id srt" "proper_parents ps" "cond_clean c"
    and node_of: "\<And>i p. p \<in> set ps \<Longrightarrow> node_id p = Ok i \<Longrightarrow> \<forall>k. k \<noteq> ''g$parent_id'' \<longrightarrow> node_get p k = node_get (node_of i) k"
  shows "cond_window srt ps m c =
    (let A = parent_ids (jc_parent_type c) ps in Ok (if A = {} then None else Some (window_of c m node_of (sorted_list_of_set A))))"
proof -
  let ?pbi = "List.map_filter with_id (filter (typed (jc_parent_type c)) ps)"
  let ?A = "parent_ids (jc_parent_type c) ps"
  have mem: "(i, p) \<in> set ?pbi \<longleftrightarrow> p \<in> set ps \<and> typed (jc_parent_type c) p \<and> node_id p = Ok i" for i p
    using map_filter_mem [of "(i, p)" with_id "filter (typed (jc_parent_type c)) ps"]
    by (auto simp: with_id_def result_ok_def split: result.splits)
  have A: "fst ` set ?pbi = ?A" using mem by (force simp: parent_ids_def typed_def)
  have empty: "?pbi = [] \<longleftrightarrow> ?A = {}" using A by (metis empty_set image_is_empty set_empty)
  have srt: "set (srt ?pbi) = set ?pbi" "sorted (map fst (srt ?pbi))" using assms(1) by (simp_all add: sorts_by_id_def)
  let ?d = "dedup_ids (srt ?pbi)"
  have d: "set ?d \<subseteq> set ?pbi" "fst ` set ?d = ?A" "sorted (map fst ?d)" "distinct (map fst ?d)"
    using set_dedup_ids [OF srt(2)] srt(1) A by auto
  have ids: "map fst ?d = sorted_list_of_set ?A"
    using d(2-4) by (metis list.set_map sorted_list_of_set.idem_if_sorted_distinct)
  have "list_all2 (\<lambda>x y. fst x = fst y \<and> (\<forall>k. k \<noteq> ''g$parent_id'' \<longrightarrow> node_get (snd x) k = node_get (snd y) k)) ?d
      (map (\<lambda>i. (i, node_of i)) (map fst ?d))"
    using d(1) mem node_of by (auto simp: list_all2_map2 list.rel_map intro!: list.rel_refl_strong)
  then have "join_entity_link c ?d m = join_entity_link c (map (\<lambda>i. (i, node_of i)) (sorted_list_of_set ?A)) m"
    unfolding ids by (rule join_entity_link_cong) (rule assms(3))
  then show ?thesis
    unfolding cond_window_def filter_typed [OF assms(2)] by (simp add: Let_def empty window_of_def case_prod_unfold)
qed

subsection \<open>Fewer parents\<close>

definition ids_of :: "node list \<Rightarrow> string set" where
  "ids_of ps = {i. \<exists>p \<in> set ps. node_id p = Ok i}"

lemma parent_ids_subset:
  assumes "proper_parents ps" "set qs \<subseteq> set ps"
  shows "parent_ids t qs = parent_ids t ps \<inter> ids_of qs"
proof -
  have "node_get p' ''__typename'' = Some (QString t)"
    if "p \<in> set ps" "node_get p ''__typename'' = Some (QString t)" "node_id p = Ok i" "p' \<in> set qs" "node_id p' = Ok i" for p p' i
    using proper_same [OF assms(1) that(1), of p' i "''__typename''"] that assms(2) by auto
  then show ?thesis using assms(2) unfolding parent_ids_def ids_of_def by blast
qed

lemma with_reference_filter:
  "with_reference r (filter (\<lambda>(i, n). i \<in> X) ps) = filter (\<lambda>(i, n). i \<in> X) (with_reference r ps)"
proof (induction ps)
  case (Cons x ps)
  then show ?case by (cases x; cases "r (snd x)") (simp_all add: with_reference_def map_filter_simps)
qed (simp add: with_reference_def map_filter_simps)

lemma keep_ids_map: "keep_ids X (map fst xs) (map snd xs) = map snd (filter (\<lambda>(i, x). i \<in> X) xs)"
  by (simp add: keep_ids_def zip_map_fst_snd)

lemma map_fst_filter: "map fst (filter (\<lambda>(i, x). i \<in> X) xs) = filter (\<lambda>i. i \<in> X) (map fst xs)"
  by (induction xs) auto

lemma restrict_window_of:
  "restrict_window X (window_of c m node_of ids) = window_of c m node_of (filter (\<lambda>i. i \<in> X) ids)"
proof -
  have f: "map (\<lambda>i. (i, node_of i)) (filter (\<lambda>i. i \<in> X) ids) = filter (\<lambda>(i, n). i \<in> X) (map (\<lambda>i. (i, node_of i)) ids)"
    by (induction ids) auto
  show ?thesis
    unfolding restrict_window_def window_of_def join_entity_link_def f with_reference_filter
    by (auto simp: Let_def keep_ids_map map_fst_filter split: join_relation.splits join_field.splits)
qed

lemma sorted_list_of_set_Int: "finite A \<Longrightarrow> sorted_list_of_set (A \<inter> X) = filter (\<lambda>i. i \<in> X) (sorted_list_of_set A)"
  by (rule sorted_distinct_set_unique) (auto simp: sorted_wrt_filter)

lemma finite_parent_ids: "finite (parent_ids t ps)"
proof -
  have "parent_ids t ps \<subseteq> (\<lambda>p. case node_id p of Ok i \<Rightarrow> i | _ \<Rightarrow> []) ` set ps" by (force simp: parent_ids_def)
  then show ?thesis using finite_subset by blast
qed

lemma window_of_none: "w_ids (window_of c m node_of []) = []"
  by (auto simp: window_of_def join_entity_link_def with_reference_def map_filter_simps split: join_relation.splits join_field.splits)

lemma window_of_ids: "set (w_ids (window_of c m node_of ids)) \<subseteq> set ids"
  by (auto simp: window_of_def join_entity_link_def Let_def with_reference_def map_filter_mem split: join_relation.splits join_field.splits)

lemma join_windows_fewer:
  assumes "sorts_by_id srt" "proper_parents ps" "set qs \<subseteq> set ps" "list_all cond_clean (jn_conds j)"
    and "join_windows srt j ps m = Ok ws"
  shows "\<exists>ws'. join_windows srt j qs m = Ok ws' \<and> with_parents ws' = with_parents (map (restrict_window (ids_of qs)) ws) \<and> (ws = [] \<longrightarrow> ws' = [])"
    and "(\<Union>w \<in> set ws. set (w_ids w)) \<subseteq> ids_of ps"
proof -
  define node_of where "node_of i = hd (filter (\<lambda>p. node_id p = Ok i) ps)" for i
  have no: "\<forall>k. k \<noteq> ''g$parent_id'' \<longrightarrow> node_get p k = node_get (node_of i) k" if "p \<in> set ps" "node_id p = Ok i" for i p
  proof -
    have "filter (\<lambda>p. node_id p = Ok i) ps \<noteq> []" using that by (auto simp: filter_empty_conv)
    then have "node_of i \<in> set (filter (\<lambda>p. node_id p = Ok i) ps)" unfolding node_of_def by (rule hd_in_set)
    then show ?thesis using proper_same [OF assms(2) that(1) _ that(2)] by auto
  qed
  let ?F = "\<lambda>ps c. let A = parent_ids (jc_parent_type c) ps in if A = {} then None else Some (window_of c m node_of (sorted_list_of_set A))"
  have run: "join_windows srt j rs m = Ok (List.map_filter (?F rs) (jn_conds j))" if sub: "set rs \<subseteq> set ps" for rs
  proof -
    have "cond_window srt rs m c = Ok (?F rs c)" if c: "c \<in> set (jn_conds j)" for c
    proof -
      have "cond_clean c" using assms(4) c by (simp add: list_all_iff)
      then have "cond_window srt rs m c =
          (let A = parent_ids (jc_parent_type c) rs in Ok (if A = {} then None else Some (window_of c m node_of (sorted_list_of_set A))))"
        by (rule cond_window_ids [OF assms(1) proper_subset [OF assms(2) sub]]) (use no sub in blast)
      then show ?thesis by (simp add: Let_def)
    qed
    then have "try_map (cond_window srt rs m) (jn_conds j) = Ok (map (?F rs) (jn_conds j))" by (rule try_map_Ok_total)
    then show ?thesis by (simp only: join_windows_def map_filter_id_map and_then.simps)
  qed
  have "with_parents (List.map_filter (?F qs) cs) = with_parents (map (restrict_window (ids_of qs)) (List.map_filter (?F ps) cs))" for cs
  proof (induction cs)
    case (Cons c cs)
    let ?A = "parent_ids (jc_parent_type c) ps"
    have A: "sorted_list_of_set (?A \<inter> ids_of qs) = filter (\<lambda>i. i \<in> ids_of qs) (sorted_list_of_set ?A)"
      by (rule sorted_list_of_set_Int [OF finite_parent_ids])
    have "w_ids (restrict_window (ids_of qs) (window_of c m node_of (sorted_list_of_set ?A))) = []" if "?A \<inter> ids_of qs = {}"
      using A that by (simp add: restrict_window_of window_of_none)
    then show ?case
      using Cons A unfolding parent_ids_subset [OF assms(2,3), of "jc_parent_type c"]
      by (auto simp: map_filter_simps Let_def with_parents_def restrict_window_of parent_ids_subset [OF assms(2,3)])
  qed (simp add: map_filter_simps with_parents_def)
  moreover have "List.map_filter (?F qs) cs = []" if "List.map_filter (?F ps) cs = []" for cs
    using that by (induction cs) (auto simp: map_filter_simps Let_def parent_ids_subset [OF assms(2,3)] split: if_splits)
  ultimately show "\<exists>ws'. join_windows srt j qs m = Ok ws' \<and> with_parents ws' = with_parents (map (restrict_window (ids_of qs)) ws) \<and>
      (ws = [] \<longrightarrow> ws' = [])"
    using run [OF assms(3)] run [of ps] assms(5) by auto
  have "set (w_ids w) \<subseteq> ids_of ps" if w: "w \<in> set ws" for w
  proof -
    obtain c where "w = window_of c m node_of (sorted_list_of_set (parent_ids (jc_parent_type c) ps))"
      using w run [of ps] assms(5) by (auto simp: map_filter_mem Let_def split: if_splits)
    then have "set (w_ids w) \<subseteq> parent_ids (jc_parent_type c) ps" using window_of_ids finite_parent_ids by force
    then show ?thesis by (auto simp: parent_ids_def ids_of_def)
  qed
  then show "(\<Union>w \<in> set ws. set (w_ids w)) \<subseteq> ids_of ps" by blast
qed

section \<open>Fetching for fewer parents\<close>

text \<open>Children that come with the id of their parent, which is one of those given.\<close>

definition children_of :: "string set \<Rightarrow> node list \<Rightarrow> bool" where
  "children_of X cs \<longleftrightarrow> proper_parents cs \<and> (\<forall>c \<in> set cs. parent_is X (nd_entity c))"

lemma children_of_none [simp]: "children_of X []"
  by (simp add: children_of_def proper_parents_def entities_ok_def)

definition query_for :: "prefetch_env \<Rightarrow> join \<Rightarrow> arguments \<Rightarrow> child_multiplicity \<Rightarrow> (entity_query, query_execution_error) result" where
  "query_for env j args m =
     and_then (build_query (pe_lib env) (jn_child_type j) (pe_block env) args (pe_types_for_interface env) (pe_max_first env)
                 (pe_max_skip env)) (\<lambda>q0.
     let q1 = q0\<lparr>q_query_id := Some (pe_query_id env)\<rparr>;
         q2 = (if m = Single then q1\<lparr>q_order := Unordered\<rparr> else q1)
     in Ok (case map_of args ''id'' of
                 Some (QString i) \<Rightarrow> q2\<lparr>q_filter := Some (and_maybe (FEqual ''id'' (VString i)) (q_filter q2))\<rparr>
               | _ \<Rightarrow> q2))"

lemma fetch_windows:
  assumes "\<not> is_root_node ps"
  shows "fetch env ps j args m =
    and_then (query_for env j args m) (\<lambda>q. and_then (join_windows (pe_sort_by_id env) j ps m) (\<lambda>ws.
      if ws = [] then Ok []
      else and_then (pe_find_query_values env (q\<lparr>q_collection := WindowOf ws\<rparr>)) (\<lambda>rows. Ok (map node_from rows))))"
  unfolding fetch_def query_for_def and_then_assoc using assms
  by (intro and_then_cong refl) (auto simp: Let_def and_then_assoc intro!: and_then_cong)

lemma fetch_fewer:
  assumes store: "windowed_store (pe_find_query_values env)" and srt: "sorts_by_id (pe_sort_by_id env)"
    and ps: "proper_parents ps" "set qs \<subseteq> set ps" and clean: "list_all cond_clean (jn_conds j)"
    and run: "fetch env ps j args m = Ok cs"
  shows "fetch env qs j args m = Ok (filter (parent_is (ids_of qs) \<circ> nd_entity) cs)" and "children_of (ids_of ps) cs"
proof -
  let ?X = "ids_of qs"
  have root: "\<not> is_root_node ps" "\<not> is_root_node qs" using proper_not_root ps proper_subset by blast+
  obtain q ws where q: "query_for env j args m = Ok q" and ws: "join_windows (pe_sort_by_id env) j ps m = Ok ws"
      and cs: "(if ws = [] then Ok [] else and_then (pe_find_query_values env (q\<lparr>q_collection := WindowOf ws\<rparr>)) (\<lambda>rows. Ok (map node_from rows))) = Ok cs"
    using run unfolding fetch_windows [OF root(1)] and_then_Ok_iff by blast
  obtain ws' where ws': "join_windows (pe_sort_by_id env) j qs m = Ok ws'" "with_parents ws' = with_parents (map (restrict_window ?X) ws)"
      "ws = [] \<longrightarrow> ws' = []"
    using join_windows_fewer(1) [OF srt ps clean ws] by blast
  have fewer: "fetch env qs j args m = (if ws' = [] then Ok [] else
      and_then (pe_find_query_values env (q\<lparr>q_collection := WindowOf ws'\<rparr>)) (\<lambda>rows. Ok (map node_from rows)))"
    unfolding fetch_windows [OF root(2)] q ws' by simp
  have "fetch env qs j args m = Ok (filter (parent_is ?X \<circ> nd_entity) cs) \<and> children_of (ids_of ps) cs"
  proof (cases "ws = []")
    case True
    then have "cs = []" using cs by simp
    moreover have "fetch env qs j args m = Ok []" using fewer ws'(3) True by simp
    ultimately show ?thesis by simp
  next
    case False
    then obtain rows where rows: "pe_find_query_values env (q\<lparr>q_collection := WindowOf ws\<rparr>) = Ok rows" "cs = map node_from rows"
      using cs by (auto simp: and_then_Ok_iff)
    note law = store [unfolded windowed_store_def, rule_format, OF rows(1)]
    have par: "parent_is (ids_of ps) r" if "r \<in> set rows" for r
      using law that join_windows_fewer(2) [OF srt ps clean ws] unfolding parent_is_iff by blast
    have "map nd_entity cs = rows" by (simp add: rows(2) node_from_def comp_def)
    then have "children_of (ids_of ps) cs" using law par unfolding children_of_def proper_parents_def by (auto simp: rows(2) node_from_def)
    moreover have "fetch env qs j args m = Ok (map node_from (filter (parent_is ?X) rows))"
    proof (cases "ws' = []")
      case True
      have "set (w_ids w) \<inter> ?X = {}" if "w \<in> set ws" for w
      proof -
        have "with_parents (map (restrict_window ?X) ws) = []" using ws'(2) True by (simp add: with_parents_def)
        then show ?thesis using that by (auto simp: with_parents_def filter_empty_conv restrict_window_def)
      qed
      then have "\<not> parent_is ?X r" if "r \<in> set rows" for r
        using law that unfolding parent_is_iff by fastforce
      then have "filter (parent_is ?X) rows = []" by (simp add: filter_empty_conv)
      then show ?thesis using True fewer by simp
    next
      case False
      then have "pe_find_query_values env (q\<lparr>q_collection := WindowOf ws'\<rparr>) = Ok (filter (parent_is ?X) rows)" using law ws'(2) by blast
      then show ?thesis using False fewer by simp
    qed
    moreover have "map node_from (filter (parent_is ?X) rows) = filter (parent_is ?X \<circ> nd_entity) cs"
      by (simp add: rows(2) filter_map comp_def node_from_def)
    ultimately show ?thesis by simp
  qed
  then show "fetch env qs j args m = Ok (filter (parent_is ?X \<circ> nd_entity) cs)" "children_of (ids_of ps) cs" by blast+
qed

section \<open>Distributing the children\<close>

definition children_for :: "node \<Rightarrow> node list \<Rightarrow> node list" where
  "children_for p cs = (case node_id p of Ok i \<Rightarrow> filter (parent_is {i} \<circ> nd_entity) cs | _ \<Rightarrow> [])"

lemma parent_key_Ok: "parent_key c = Ok i \<longleftrightarrow> parent_is {i} (nd_entity c)"
proof (cases "map_of (nd_entity c) ''g$parent_id''")
  case (Some v)
  then show ?thesis by (cases v) (auto simp: parent_key_def parent_is_def node_get_def value_as_str_def)
qed (simp add: parent_key_def parent_is_def node_get_def)

lemma group_children_Ok:
  assumes "\<forall>c \<in> set cs. parent_is X (nd_entity c)"
  shows "\<exists>g. group_children cs = Ok g \<and>
    (\<forall>i. map_of g i = (let ys = filter (parent_is {i} \<circ> nd_entity) cs in if ys = [] then None else Some ys))"
proof -
  let ?key = "\<lambda>c. case parent_key c of Ok k \<Rightarrow> k"
  have key: "parent_key c = Ok (?key c)" if "c \<in> set cs" for c
  proof -
    have "parent_is X (nd_entity c)" using assms that by blast
    then obtain p where "map_of (nd_entity c) ''g$parent_id'' = Some (QString p)" unfolding parent_is_iff by (rule bexE)
    then have "parent_is {p} (nd_entity c)" by (simp add: parent_is_iff)
    then have "parent_key c = Ok p" by (simp add: parent_key_Ok)
    then show ?thesis by simp
  qed
  have run: "try_fold (\<lambda>child g. and_then (parent_key child) (\<lambda>k. Ok (index_push k child g))) xs g = Ok (push_all ?key xs g)"
    if "set xs \<subseteq> set cs" for xs g
    using that
  proof (induction xs arbitrary: g)
    case (Cons x xs)
    then obtain k where "parent_key x = Ok k" using key by auto
    then show ?case using Cons by (simp add: push_all_def)
  qed (simp add: push_all_def)
  have "?key c = i \<longleftrightarrow> (parent_is {i} \<circ> nd_entity) c" if "c \<in> set cs" for c i
    using key [OF that] parent_key_Ok [of c i] by auto
  then have "filter (\<lambda>c. ?key c = i) cs = filter (parent_is {i} \<circ> nd_entity) cs" for i by (intro filter_cong refl)
  then show ?thesis using run [of cs "[]"] map_of_push_all [of ?key cs "[]"] by (simp add: group_children_def)
qed

lemma join_perform_all:
  assumes "children_of (ids_of ps) cs"
  shows "join_perform ps cs key = Ok (map (\<lambda>p. add_children key (children_for p cs) p) ps)"
proof (cases "\<exists>p. ps = [p]")
  case True
  then obtain p where p: "ps = [p]" by blast
  have "children_for p cs = cs"
  proof (cases "node_id p")
    case (Ok i)
    then have "ids_of ps = {i}" by (simp add: ids_of_def p)
    then show ?thesis using assms Ok by (simp add: children_for_def children_of_def)
  qed (use assms p in \<open>auto simp: ids_of_def children_for_def children_of_def parent_is_iff\<close>)
  then show ?thesis by (simp add: p join_perform_def)
next
  case False
  obtain g where g: "group_children cs = Ok g"
      "\<And>i. map_of g i = (let ys = filter (parent_is {i} \<circ> nd_entity) cs in if ys = [] then None else Some ys)"
    using group_children_Ok assms unfolding children_of_def by blast
  have "(case Option.bind (result_ok (node_id p)) (map_of g) of Some ns \<Rightarrow> ns | None \<Rightarrow> []) = children_for p cs" for p
    by (cases "node_id p") (simp_all add: children_for_def result_ok_def g(2) Let_def)
  then show ?thesis using False g(1) by (auto simp: join_perform_def Let_def split: list.splits)
qed

lemma children_of_fewer: "children_of X cs \<Longrightarrow> children_of Y (filter (parent_is Y \<circ> nd_entity) cs)"
  by (auto simp: children_of_def intro: proper_subset)

lemma children_for_fewer:
  assumes "\<And>i. node_id p = Ok i \<Longrightarrow> i \<in> Y"
  shows "children_for p (filter (parent_is Y \<circ> nd_entity) cs) = children_for p cs"
proof (cases "node_id p")
  case (Ok i)
  have "filter (parent_is {i} \<circ> nd_entity) (filter (parent_is Y \<circ> nd_entity) cs) = filter (parent_is {i} \<circ> nd_entity) cs"
    using assms Ok by (auto simp: filter_filter parent_is_iff intro!: filter_cong)
  then show ?thesis by (simp add: children_for_def Ok)
qed (simp_all add: children_for_def)

lemma join_perform_fewer:
  assumes "children_of (ids_of ps) cs" "join_perform ps cs key = Ok ps'" "qs = chosen bs ps"
  shows "join_perform qs (filter (parent_is (ids_of qs) \<circ> nd_entity) cs) key = Ok (chosen bs ps')"
proof -
  let ?cs = "filter (parent_is (ids_of qs) \<circ> nd_entity) cs"
  have "children_for p ?cs = children_for p cs" if "p \<in> set qs" for p
    by (rule children_for_fewer) (use that in \<open>auto simp: ids_of_def\<close>)
  then show ?thesis
    using join_perform_all [OF children_of_fewer [OF assms(1)], of qs key] join_perform_all [OF assms(1), of key] assms(2,3)
    by (auto simp: chosen_map)
qed

section \<open>Names of fields\<close>

text \<open>No field is called \<open>g$parent_id\<close>: names have no dollar sign in GraphQL.\<close>

fun clean_selection :: "selection \<Rightarrow> bool" where
  "clean_selection (FieldSel p a n args ds ss) \<longleftrightarrow> n \<noteq> ''g$parent_id'' \<and> list_all clean_selection ss"
| "clean_selection (FragmentSpread n) \<longleftrightarrow> True"
| "clean_selection (InlineFragment cond ss) \<longleftrightarrow> list_all clean_selection ss"

definition clean_query :: "query \<Rightarrow> bool" where
  "clean_query q \<longleftrightarrow> list_all (\<lambda>(n, fragment). list_all clean_selection (fr_selection_set fragment)) (qr_fragments q)"

definition clean_fields :: "selection list \<Rightarrow> bool" where
  "clean_fields fs \<longleftrightarrow> fs \<noteq> [] \<and> list_all (\<lambda>f. is_field f \<and> clean_selection f) fs"

definition clean_collected :: "collected_response_key \<Rightarrow> bool" where
  "clean_collected c \<longleftrightarrow> list_all (\<lambda>f. is_field f \<and> clean_selection f) (cr_iface_fields c) \<and> (cr_iface_cond c \<noteq> None \<longrightarrow> cr_iface_fields c \<noteq> []) \<and>
     list_all (\<lambda>(t, fs). clean_fields fs) (cr_obj_types c)"

definition clean_grouped :: "grouped_fields \<Rightarrow> bool" where
  "clean_grouped g \<longleftrightarrow> list_all (\<lambda>(k, c). clean_collected c) g"

lemma clean_conditions: "clean_collected c \<Longrightarrow> (cond, fs) \<in> set (collected_conditions c) \<Longrightarrow> clean_fields fs"
  by (auto simp: clean_collected_def collected_conditions_def clean_fields_def list_all_iff split: option.splits)

lemma clean_push_object:
  "list_all (\<lambda>(t, fs). clean_fields fs) ts \<Longrightarrow> is_field f \<Longrightarrow> clean_selection f \<Longrightarrow> list_all (\<lambda>(t, fs). clean_fields fs) (push_object t f ts)"
  by (induction t f ts rule: push_object.induct) (auto simp: clean_fields_def)

lemma clean_collect_field:
  "collect_field ty f c = Ok c' \<Longrightarrow> clean_collected c \<Longrightarrow> is_field f \<Longrightarrow> clean_selection f \<Longrightarrow> clean_collected c'"
  using clean_push_object [of "cr_obj_types c" f]
  by (auto simp: collect_field_def clean_collected_def split: object_or_interface.splits if_splits)

lemma clean_index_update:
  assumes "index_update k d f g = Ok g'" "clean_grouped g" "clean_collected d" "\<And>c c'. f c = Ok c' \<Longrightarrow> clean_collected c \<Longrightarrow> clean_collected c'"
  shows "clean_grouped g'"
  using assms
proof (induction k d f g arbitrary: g' rule: index_update.induct)
  case (2 k d f k' v rest)
  show ?case
  proof (cases "k' = k")
    case True
    then show ?thesis using 2 by (auto simp: clean_grouped_def and_then_Ok_iff)
  next
    case False
    then show ?thesis using 2 by (auto simp: clean_grouped_def and_then_Ok_iff)
  qed
qed (auto simp: clean_grouped_def and_then_Ok_iff)

lemma clean_default: "clean_collected collected_default"
  by (simp add: clean_collected_def collected_default_def)

lemma clean_pf_collect_selection:
  assumes "pf_collect_selection collect q tfi ty sel visited out = Ok (visited', out')"
    and "clean_query q" "clean_selection sel" "clean_grouped out"
    and rec: "\<And>tasks v out v' out'. pf_enters q sel visited tasks v \<Longrightarrow> collect tasks v out = Ok (v', out') \<Longrightarrow>
      list_all (list_all clean_selection \<circ> snd) tasks \<Longrightarrow> clean_grouped out \<Longrightarrow> clean_grouped out'"
  shows "clean_grouped out'"
proof (cases sel)
  case (FieldSel p a n args ds ss)
  then show ?thesis
    using assms(1,3,4) clean_index_update [OF _ assms(4) clean_default clean_collect_field]
    by (fastforce simp: pf_collect_selection_def Let_def and_then_Ok_iff split: if_splits)
next
  case (FragmentSpread name)
  have "clean_grouped out'"
    if "name \<notin> visited" "map_of (qr_fragments q) name = Some fragment"
      "collect (map (\<lambda>t. (t, fr_selection_set fragment)) tys) (insert name visited) out = Ok (visited', out')" for fragment tys
  proof (rule rec [OF _ that(3) _ assms(4)])
    show "pf_enters q sel visited (map (\<lambda>t. (t, fr_selection_set fragment)) tys) (insert name visited)"
      using that(1,2) FragmentSpread by (auto simp: pf_enters_def)
    show "list_all (list_all clean_selection \<circ> snd) (map (\<lambda>t. (t, fr_selection_set fragment)) tys)"
      using map_of_SomeD [OF that(2)] assms(2) by (auto simp: clean_query_def list_all_iff)
  qed
  then show ?thesis
    using assms(1,4) FragmentSpread
    by (auto simp: pf_collect_selection_def Let_def and_then_Ok_iff split: if_splits option.splits)
next
  case (InlineFragment cond ss)
  have "clean_grouped out'" if "collect (map (\<lambda>t. (t, ss)) tys) visited out = Ok (visited', out')" for tys
    by (rule rec [OF _ that _ assms(4)]) (use InlineFragment assms(3) in \<open>auto simp: pf_enters_def list_all_iff\<close>)
  then show ?thesis
    using assms(1,4) InlineFragment by (auto simp: pf_collect_selection_def Let_def and_then_Ok_iff split: if_splits)
qed

lemma clean_pf_collect_all:
  "pf_collect_all q tfi tasks visited out = Ok (visited', out') \<Longrightarrow> clean_query q \<Longrightarrow>
   list_all (list_all clean_selection \<circ> snd) tasks \<Longrightarrow> clean_grouped out \<Longrightarrow> clean_grouped out'"
proof (induction q tfi tasks visited out arbitrary: visited' out' rule: pf_collect_all.induct)
  case (3 q tfi ty sel rest tasks visited out)
  then obtain v o1 where first: "pf_collect_selection (pf_collect_all q tfi) q tfi ty sel visited out = Ok (v, o1)"
      and rest: "pf_collect_all q tfi ((ty, rest) # tasks) v o1 = Ok (visited', out')"
    by (auto simp: and_then_Ok_iff)
  have "clean_grouped o1"
  proof (rule clean_pf_collect_selection [OF first 3(4)])
    show "clean_selection sel" "clean_grouped out" using 3(5,6) by simp_all
    show "clean_grouped out2"
      if "pf_enters q sel visited tasks2 v2" "pf_collect_all q tfi tasks2 v2 out1 = Ok (v3, out2)"
        "list_all (list_all clean_selection \<circ> snd) tasks2" "clean_grouped out1" for tasks2 v2 out1 v3 out2
      by (rule 3(1) [OF that(1,2) 3(4) that(3,4)])
  qed
  then show ?case using 3(2) [OF first _ rest] 3 by simp
qed simp_all

lemma clean_merge: "clean_collected c \<Longrightarrow> clean_collected (merge_iface_fields c)"
  unfolding clean_collected_def merge_iface_fields_def by (auto simp: list_all_iff case_prod_unfold clean_fields_def)

lemma clean_pf_collect_fields:
  assumes "pf_collect_fields q tfi ty sets = Ok g" "clean_query q" "list_all (list_all clean_selection) sets"
  shows "clean_grouped g"
proof -
  let ?step = "\<lambda>ss out. and_then (pf_collect_all q tfi [(ty, ss)] {} out) (\<lambda>(visited, out). Ok out)"
  obtain out where run: "try_fold ?step sets [] = Ok out" and g: "g = map (\<lambda>(k, c). (k, merge_iface_fields c)) out"
    using assms(1) by (auto simp: pf_collect_fields_def and_then_Ok_iff)
  have "clean_grouped out"
  proof (rule try_fold_invariant [OF run])
    show "clean_grouped []" by (simp add: clean_grouped_def)
    show "clean_grouped t" if x: "ss \<in> set sets" "clean_grouped s" "?step ss s = Ok t" for ss s t
    proof -
      obtain v where "pf_collect_all q tfi [(ty, ss)] {} s = Ok (v, t)" using x(3) by (auto simp: and_then_Ok_iff)
      then show ?thesis by (rule clean_pf_collect_all) (use x assms in \<open>auto simp: list_all_iff\<close>)
    qed
  qed
  then show ?thesis by (auto simp: g clean_grouped_def list_all_iff intro!: clean_merge)
qed

lemma join_new_clean:
  assumes "join_new tfi p c n = Ok j" "n \<noteq> ''g$parent_id''"
  shows "list_all cond_clean (jn_conds j)"
proof -
  have "cond_clean jc" if "join_cond_new a b n = Ok jc" for a b jc
    using that assms(2)
    by (auto simp: join_cond_new_def and_then_Ok_iff expect_Ok oi_field_def find_Some_iff cond_clean_def join_field_new_def
        split: option.splits)
  then show ?thesis
    using assms(1) by (auto simp: join_new_def and_then_Ok_iff list_all_iff dest!: try_map_mem_out)
qed

section \<open>One query for all parents\<close>

text \<open>Prefetching some of the parents is what prefetching all of them gives for these.\<close>

definition batches :: "prefetcher \<Rightarrow> bool" where
  "batches exec \<longleftrightarrow> (\<forall>path ps g ns bs. proper_parents ps \<longrightarrow> clean_grouped g \<longrightarrow> length bs = length ps \<longrightarrow> exec path ps g = Ok ns \<longrightarrow>
     exec path (chosen bs ps) g = Ok (chosen bs ns) \<and> map nd_entity ns = map nd_entity ps)"

lemma pf_execute_field_not_empty: "pf_execute_field env ctx ty ps j f fd \<noteq> Err []"
proof -
  have "and_then (coerce_argument_values ctx t f) (\<lambda>args. Ok (Some args)) \<noteq> Err []" for t
    using coerce_argument_values_not_empty [of ctx t f] by (cases "coerce_argument_values ctx t f") auto
  then show ?thesis
    unfolding pf_execute_field_def
    by (auto simp: and_then_Err_iff one_error_not_empty expect_not_Err split: object_or_interface.splits list.splits option.splits)
qed

lemma execute_field_fewer:
  assumes "windowed_store (pe_find_query_values env)" "sorts_by_id (pe_sort_by_id env)"
    and "proper_parents ps" "set qs \<subseteq> set ps" "list_all cond_clean (jn_conds j)"
    and "pf_execute_field env ctx ty ps j f fd = Ok cs"
  shows "pf_execute_field env ctx ty qs j f fd = Ok (filter (parent_is (ids_of qs) \<circ> nd_entity) cs)" and "children_of (ids_of ps) cs"
proof -
  let ?m = "if is_list_or_non_null_list_field fd then Many else Single"
  obtain args where args: "\<And>ps. pf_execute_field env ctx ty ps j f fd =
      (case args of None \<Rightarrow> Ok [] | Some args \<Rightarrow> one_error (fetch env ps j args ?m))"
    using assms(6) by (auto simp: pf_execute_field_def and_then_Ok_iff)
  have "pf_execute_field env ctx ty qs j f fd = Ok (filter (parent_is (ids_of qs) \<circ> nd_entity) cs) \<and> children_of (ids_of ps) cs"
  proof (cases args)
    case None
    then show ?thesis using args assms(6) by simp
  next
    case (Some a)
    have "fetch env ps j a ?m = Ok cs" using args Some assms(6) by (auto simp: one_error_def split: result.splits)
    from fetch_fewer [OF assms(1-5) this] show ?thesis by (simp add: args Some one_error_def)
  qed
  then show "pf_execute_field env ctx ty qs j f fd = Ok (filter (parent_is (ids_of qs) \<circ> nd_entity) cs)" "children_of (ids_of ps) cs" by blast+
qed

text \<open>A step, when there are parents to fetch for; its parts have succeeded when it reports no error.\<close>

lemma execute_condition_fetch:
  assumes "matching_parents env cond ps = Ok flags" "chosen flags ps \<noteq> []"
  shows "execute_condition exec env ctx path key (cond, flds) (ps, errs) =
    and_then (expect (oi_field cond (sel_name (hd flds)))) (\<lambda>fd.
    and_then (expect (object_or_interface_of (xc_document ctx) (get_base_type (fd_field_type fd)))) (\<lambda>child_type.
    and_then (join_new (pe_types_for_interface env) cond child_type (fd_name fd)) (\<lambda>j.
    and_then (pf_collect_fields (xc_query ctx) (pe_types_for_interface env) child_type (map sel_set flds)) (\<lambda>g.
      case and_then (pf_execute_field env ctx cond (chosen flags ps) j (hd flds) fd) (\<lambda>children. exec (path @ [oi_name cond]) children g) of
        Ok children \<Rightarrow> and_then (join_perform (chosen flags ps) children key) (\<lambda>ps'. Ok (put_back flags ps ps', errs))
      | Err es \<Rightarrow> Ok (ps, errs @ es)
      | Panic \<Rightarrow> Panic))))"
  using assms by (simp add: execute_condition_def Let_def)

lemma execute_condition_skip:
  "matching_parents env cond ps = Ok flags \<Longrightarrow> chosen flags ps = [] \<Longrightarrow>
   execute_condition exec env ctx path key (cond, flds) (ps, errs) = Ok (ps, errs)"
  by (simp add: execute_condition_def)

lemma fetch_parts:
  assumes "(case and_then r f of Ok children \<Rightarrow> and_then (h children) (\<lambda>ps'. Ok (b ps', errs)) | Err es \<Rightarrow> Ok (a, errs @ es) | Panic \<Rightarrow> Panic) = Ok (ps', [])"
    and "r \<noteq> Err []" and "\<And>c. r = Ok c \<Longrightarrow> f c \<noteq> Err []"
  shows "errs = [] \<and> (\<exists>cs ns qs. r = Ok cs \<and> f cs = Ok ns \<and> h ns = Ok qs \<and> ps' = b qs)"
proof (cases r)
  case (Ok c)
  show ?thesis using assms Ok by (cases "f c") (auto simp: and_then_Ok_iff)
qed (use assms in auto)

lemma execute_condition_Ok:
  assumes "execute_condition exec env ctx path key (cond, flds) (ps, errs) = Ok (ps', [])"
    and "matching_parents env cond ps = Ok flags" "chosen flags ps \<noteq> []" and "\<And>path cs g. exec path cs g \<noteq> Err []"
  obtains fd child_type j g cs ns qs where "errs = []"
      "oi_field cond (sel_name (hd flds)) = Some fd" "object_or_interface_of (xc_document ctx) (get_base_type (fd_field_type fd)) = Some child_type"
      "join_new (pe_types_for_interface env) cond child_type (fd_name fd) = Ok j"
      "pf_collect_fields (xc_query ctx) (pe_types_for_interface env) child_type (map sel_set flds) = Ok g"
      "pf_execute_field env ctx cond (chosen flags ps) j (hd flds) fd = Ok cs" "exec (path @ [oi_name cond]) cs g = Ok ns"
      "join_perform (chosen flags ps) ns key = Ok qs" "ps' = put_back flags ps qs"
proof -
  obtain fd child_type j g where *: "oi_field cond (sel_name (hd flds)) = Some fd"
      "object_or_interface_of (xc_document ctx) (get_base_type (fd_field_type fd)) = Some child_type"
      "join_new (pe_types_for_interface env) cond child_type (fd_name fd) = Ok j"
      "pf_collect_fields (xc_query ctx) (pe_types_for_interface env) child_type (map sel_set flds) = Ok g"
    and run: "(case and_then (pf_execute_field env ctx cond (chosen flags ps) j (hd flds) fd) (\<lambda>children. exec (path @ [oi_name cond]) children g) of
        Ok children \<Rightarrow> and_then (join_perform (chosen flags ps) children key) (\<lambda>ps'. Ok (put_back flags ps ps', errs))
      | Err es \<Rightarrow> Ok (ps, errs @ es)
      | Panic \<Rightarrow> Panic) = Ok (ps', [])"
    using assms(1) unfolding execute_condition_fetch [OF assms(2,3)] and_then_Ok_iff expect_Ok by blast
  show ?thesis
    using fetch_parts [OF run pf_execute_field_not_empty assms(4)] that [OF _ *] by blast
qed

lemma matching_parents_proper:
  "proper_parents ps \<Longrightarrow> matching_parents env cond ps =
     try_map (\<lambda>p. and_then (node_typename p) (\<lambda>name. oi_matches cond name (pe_types_for_interface env))) ps"
  by (simp add: matching_parents_def proper_not_root)

lemma chosen_same_entities:
  assumes "map nd_entity ns = map nd_entity cs"
  shows "chosen (map (P \<circ> nd_entity) cs) ns = filter (P \<circ> nd_entity) ns"
proof -
  have "map (P \<circ> nd_entity) cs = map (P \<circ> nd_entity) ns" using assms by (metis map_map)
  then show ?thesis by (simp only: chosen_filter)
qed

lemma children_of_same: "children_of X cs \<Longrightarrow> map nd_entity ns = map nd_entity cs \<Longrightarrow> children_of X ns"
proof -
  assume "children_of X cs" and eq: "map nd_entity ns = map nd_entity cs"
  moreover have "nd_entity ` set ns = nd_entity ` set cs" using eq by (metis list.set_map)
  ultimately show "children_of X ns" unfolding children_of_def proper_parents_def by (metis imageE imageI)
qed

lemma sub_selections: "clean_fields flds \<Longrightarrow> list_all (list_all clean_selection) (map sel_set flds) \<and> sel_name (hd flds) \<noteq> ''g$parent_id''"
proof -
  assume c: "clean_fields flds"
  have "list_all clean_selection (sel_set f) \<and> sel_name f \<noteq> ''g$parent_id''" if "is_field f" "clean_selection f" for f
    using that by (cases f) auto
  then show ?thesis using c by (cases flds) (auto simp: clean_fields_def list_all_iff)
qed

lemma execute_condition_fewer:
  assumes exec: "batches exec" "\<And>path cs g. exec path cs g \<noteq> Err []"
    and store: "windowed_store (pe_find_query_values env)" "sorts_by_id (pe_sort_by_id env)"
    and clean: "clean_query (xc_query ctx)" "clean_fields flds"
    and ps: "proper_parents ps" "length bs = length ps"
    and run: "execute_condition exec env ctx path key (cond, flds) (ps, errs) = Ok (ps', [])"
  shows "errs = [] \<and> execute_condition exec env ctx path key (cond, flds) (chosen bs ps, []) = Ok (chosen bs ps', []) \<and>
    map nd_entity ps' = map nd_entity ps"
proof -
  obtain flags where flags: "matching_parents env cond ps = Ok flags" using run by (auto simp: execute_condition_def and_then_Ok_iff)
  have len: "length flags = length ps"
    using flags unfolding matching_parents_proper [OF ps(1)] try_map_Ok_iff by (simp add: list_all2_lengthD)
  have flags': "matching_parents env cond (chosen bs ps) = Ok (chosen bs flags)"
    using try_map_chosen flags proper_subset [OF ps(1) set_chosen] matching_parents_proper ps(1) by simp
  let ?P = "chosen flags ps" and ?J = "chosen flags bs"
  let ?Q = "chosen ?J ?P"
  have Q: "chosen (chosen bs flags) (chosen bs ps) = ?Q" using chosen_chosen [of bs flags ps] len ps(2) by simp
  show ?thesis
  proof (cases "?P = []")
    case True
    then have "ps' = ps \<and> errs = []" using run execute_condition_skip [OF flags] by simp
    moreover have "?Q = []" using True by (cases ?J) simp_all
    ultimately show ?thesis using execute_condition_skip [OF flags'] Q by simp
  next
    case False
    obtain fd child_type j g cs ns qs where "errs = []" and
      parts: "oi_field cond (sel_name (hd flds)) = Some fd" "object_or_interface_of (xc_document ctx) (get_base_type (fd_field_type fd)) = Some child_type"
      "join_new (pe_types_for_interface env) cond child_type (fd_name fd) = Ok j"
      "pf_collect_fields (xc_query ctx) (pe_types_for_interface env) child_type (map sel_set flds) = Ok g"
      and cs: "pf_execute_field env ctx cond ?P j (hd flds) fd = Ok cs" and ns: "exec (path @ [oi_name cond]) cs g = Ok ns"
      and qs: "join_perform ?P ns key = Ok qs" "ps' = put_back flags ps qs"
      using execute_condition_Ok [OF run flags False exec(2)] by blast
    have names: "list_all (list_all clean_selection) (map sel_set flds)" "sel_name (hd flds) \<noteq> ''g$parent_id''"
      using sub_selections [OF clean(2)] by blast+
    have "fd_name fd \<noteq> ''g$parent_id''" using parts(1) names(2) by (auto simp: oi_field_def find_Some_iff)
    note j = join_new_clean [OF parts(3) this]
    have g: "clean_grouped g" by (rule clean_pf_collect_fields [OF parts(4) clean(1) names(1)])
    have P: "proper_parents ?P" by (rule proper_subset [OF ps(1) set_chosen])
    note fewer = execute_field_fewer [OF store P set_chosen [of ?J] j cs]
    let ?mask = "map (parent_is (ids_of ?Q) \<circ> nd_entity) cs"
    have sub: "exec (path @ [oi_name cond]) (chosen ?mask cs) g = Ok (chosen ?mask ns)" "map nd_entity ns = map nd_entity cs"
      using exec(1) fewer(2) g ns unfolding batches_def children_of_def by (metis length_map)+
    have sub': "exec (path @ [oi_name cond]) (filter (parent_is (ids_of ?Q) \<circ> nd_entity) cs) g = Ok (filter (parent_is (ids_of ?Q) \<circ> nd_entity) ns)"
      using sub(1) unfolding chosen_filter chosen_same_entities [OF sub(2)] .
    have kids: "children_of (ids_of ?P) ns" by (rule children_of_same [OF fewer(2) sub(2)])
    have qs': "qs = map (\<lambda>p. add_children key (children_for p ns) p) ?P" using join_perform_all [OF kids, of key] qs(1) by simp
    have put: "chosen bs ps' = put_back (chosen bs flags) (chosen bs ps) (chosen ?J qs)"
      using chosen_put_back [of bs flags ps qs] len ps(2) by (simp add: qs(2) qs')
    have "execute_condition exec env ctx path key (cond, flds) (chosen bs ps, []) = Ok (chosen bs ps', [])"
    proof (cases "?Q = []")
      case True
      have "length (chosen bs flags) = length (chosen bs ps)" by (rule length_chosen) (use len ps(2) in simp_all)
      then have "chosen bs ps' = chosen bs ps" using put_back_none put Q True by metis
      then show ?thesis using execute_condition_skip [OF flags'] Q True by simp
    next
      case False
      have "join_perform ?Q (filter (parent_is (ids_of ?Q) \<circ> nd_entity) ns) key = Ok (chosen ?J qs)"
        by (rule join_perform_fewer [OF kids qs(1) refl])
      then show ?thesis
        unfolding execute_condition_fetch [OF flags', unfolded Q, OF False] using parts fewer(1) sub' put by simp
    qed
    moreover have "map nd_entity ps' = map nd_entity ps"
      unfolding qs(2) qs' by (rule put_back_map) (use len in \<open>simp_all add: add_children_def\<close>)
    ultimately show ?thesis using \<open>errs = []\<close> by blast
  qed
qed

lemma execute_condition_errors:
  assumes "execute_condition exec env ctx path key x (ps, errs) = Ok (ps', errs')"
  shows "\<exists>es. errs' = errs @ es"
proof -
  obtain cond flds where x: "x = (cond, flds)" by (cases x)
  obtain flags where flags: "matching_parents env cond ps = Ok flags" using assms by (auto simp: x execute_condition_def and_then_Ok_iff)
  show ?thesis
  proof (cases "chosen flags ps = []")
    case True
    then show ?thesis using assms execute_condition_skip [OF flags] by (simp add: x)
  next
    case False
    have grow: "\<exists>es. errs' = errs @ es"
      if "(case r of Ok children \<Rightarrow> and_then (h children) (\<lambda>ps'. Ok (b ps', errs)) | Err es \<Rightarrow> Ok (ps, errs @ es) | Panic \<Rightarrow> Panic) = Ok (ps', errs')"
      for r :: "(node list, errors) result" and h :: "node list \<Rightarrow> (node list, errors) result" and b
      using that by (cases r) (auto simp: and_then_Ok_iff)
    show ?thesis
      using assms unfolding x execute_condition_fetch [OF flags False] and_then_Ok_iff by (elim exE conjE) (rule grow)
  qed
qed

lemma execute_conditions_errors:
  "try_fold (execute_condition exec env ctx path key) cs (ps, errs) = Ok (ps', errs') \<Longrightarrow> \<exists>es. errs' = errs @ es"
proof (induction cs arbitrary: ps errs)
  case (Cons x cs)
  then obtain p1 e1 where "execute_condition exec env ctx path key x (ps, errs) = Ok (p1, e1)"
      "try_fold (execute_condition exec env ctx path key) cs (p1, e1) = Ok (ps', errs')"
    by (auto simp: and_then_Ok_iff)
  then show ?case using execute_condition_errors [of exec env ctx path key x ps errs] Cons.IH [of p1 e1] by fastforce
qed simp

lemma proper_same_entities: "proper_parents ps \<Longrightarrow> map nd_entity ns = map nd_entity ps \<Longrightarrow> proper_parents ns"
  by (simp add: proper_parents_def)

lemma execute_conditions_fewer:
  assumes exec: "batches exec" "\<And>path cs g. exec path cs g \<noteq> Err []"
    and store: "windowed_store (pe_find_query_values env)" "sorts_by_id (pe_sort_by_id env)" and clean: "clean_query (xc_query ctx)"
  shows "\<forall>(cond, flds) \<in> set cs. clean_fields flds \<Longrightarrow> proper_parents ps \<Longrightarrow> length bs = length ps \<Longrightarrow>
    try_fold (execute_condition exec env ctx path key) cs (ps, errs) = Ok (ps', []) \<Longrightarrow>
    errs = [] \<and> try_fold (execute_condition exec env ctx path key) cs (chosen bs ps, []) = Ok (chosen bs ps', []) \<and>
    map nd_entity ps' = map nd_entity ps"
proof (induction cs arbitrary: ps errs)
  case (Cons x cs)
  obtain cond flds where x: "x = (cond, flds)" by (cases x)
  obtain p1 e1 where step: "execute_condition exec env ctx path key (cond, flds) (ps, errs) = Ok (p1, e1)"
      and rest: "try_fold (execute_condition exec env ctx path key) cs (p1, e1) = Ok (ps', [])"
    using Cons.prems(4) by (auto simp: x and_then_Ok_iff)
  have e1: "e1 = []" using execute_conditions_errors [OF rest] by simp
  have flds: "clean_fields flds" using Cons.prems(1) by (simp add: x)
  note first = execute_condition_fewer [OF exec store clean flds Cons.prems(2,3) step [unfolded e1]]
  have p1: "proper_parents p1" "length bs = length p1"
    using proper_same_entities [OF Cons.prems(2)] first Cons.prems(3) by (auto dest: map_eq_imp_length_eq)
  show ?case using Cons.IH [OF _ p1 rest] first Cons.prems(1) by (simp add: x)
qed simp

lemma execute_collected_errors:
  "execute_collected exec env ctx path g (ps, errs) = Ok (ps', errs') \<Longrightarrow> \<exists>es. errs' = errs @ es"
proof (induction g arbitrary: ps errs)
  case (Cons x g)
  obtain key c where x: "x = (key, c)" by (cases x)
  show ?case
  proof (cases "pe_late env (path @ [key])")
    case False
    then obtain p1 e1 where "try_fold (execute_condition exec env ctx (path @ [key]) key) (collected_conditions c) (ps, errs) = Ok (p1, e1)"
        "execute_collected exec env ctx path g (p1, e1) = Ok (ps', errs')"
      using Cons.prems by (auto simp: x Let_def and_then_Ok_iff)
    then show ?thesis using execute_conditions_errors [of exec env ctx "path @ [key]" key] Cons.IH [of p1 e1] by fastforce
  qed (use Cons.prems in \<open>auto simp: x Let_def\<close>)
qed simp

lemma execute_collected_fewer:
  assumes exec: "batches exec" "\<And>path cs g. exec path cs g \<noteq> Err []"
    and store: "windowed_store (pe_find_query_values env)" "sorts_by_id (pe_sort_by_id env)" and clean: "clean_query (xc_query ctx)"
  shows "clean_grouped g \<Longrightarrow> proper_parents ps \<Longrightarrow> length bs = length ps \<Longrightarrow>
    execute_collected exec env ctx path g (ps, []) = Ok (ps', []) \<Longrightarrow>
    execute_collected exec env ctx path g (chosen bs ps, []) = Ok (chosen bs ps', []) \<and> map nd_entity ps' = map nd_entity ps"
proof (induction g arbitrary: ps)
  case (Cons x g)
  obtain key c where x: "x = (key, c)" by (cases x)
  have time: "\<not> pe_late env (path @ [key])" using Cons.prems(4) by (auto simp: x Let_def split: if_splits)
  then obtain p1 e1 where step: "try_fold (execute_condition exec env ctx (path @ [key]) key) (collected_conditions c) (ps, []) = Ok (p1, e1)"
      and rest: "execute_collected exec env ctx path g (p1, e1) = Ok (ps', [])"
    using Cons.prems(4) by (auto simp: x Let_def and_then_Ok_iff)
  have e1: "e1 = []" using execute_collected_errors [OF rest] by simp
  have conds: "\<forall>(cond, flds) \<in> set (collected_conditions c). clean_fields flds"
    using Cons.prems(1) clean_conditions by (auto simp: x clean_grouped_def)
  note first = execute_conditions_fewer [OF exec store clean conds Cons.prems(2,3) step [unfolded e1]]
  have p1: "proper_parents p1" "length bs = length p1"
    using proper_same_entities [OF Cons.prems(2)] first Cons.prems(3) by (auto dest: map_eq_imp_length_eq)
  have g: "clean_grouped g" using Cons.prems(1) by (simp add: x clean_grouped_def)
  show ?case using Cons.IH [OF g p1 rest [unfolded e1]] first time by (simp add: x Let_def)
qed simp

subsection \<open>Errors\<close>

text \<open>Only fields report errors, and then at least one.\<close>

lemma try_map_not_Err: "(\<And>x. f x \<noteq> Err e) \<Longrightarrow> try_map f xs \<noteq> Err e"
  by (induction xs) (auto simp: and_then_Err_iff)

lemma matching_parents_not_Err: "matching_parents env cond ps \<noteq> Err e"
proof -
  have "and_then (node_typename p) (\<lambda>name. oi_matches cond name (pe_types_for_interface env)) \<noteq> Err e" for p
    by (auto simp: node_typename_def oi_matches_def and_then_Err_iff split: object_or_interface.splits)
  then show ?thesis unfolding matching_parents_def by (simp add: try_map_not_Err)
qed

lemma join_new_not_Err: "join_new tfi p c n \<noteq> Err e"
proof -
  have "(case x of (p, c) \<Rightarrow> join_cond_new p c n) \<noteq> Err e" for x
    by (cases x) (auto simp: join_cond_new_def and_then_Err_iff)
  then show ?thesis unfolding join_new_def by (simp add: and_then_Err_iff try_map_not_Err)
qed

lemma join_perform_not_Err: "join_perform ps cs key \<noteq> Err e"
proof -
  have "group_children cs \<noteq> Err e"
    unfolding group_children_def by (rule try_fold_not_Err) (auto simp: and_then_Err_iff parent_key_def)
  then show ?thesis by (auto simp: join_perform_def and_then_Err_iff split: list.splits)
qed

lemma index_update_not_Err: "(\<And>v. f v \<noteq> Err e) \<Longrightarrow> index_update k d f g \<noteq> Err e"
  by (induction k d f g rule: index_update.induct) (auto simp: and_then_Err_iff)

lemma collect_field_not_Err: "collect_field ty f c \<noteq> Err e"
  by (auto simp: collect_field_def split: object_or_interface.splits)

lemma fragment_types_not_Err: "fragment_types schema tfi ty cond \<noteq> Err e"
  by (auto simp: fragment_types_def and_then_Err_iff split: option.splits object_or_interface.splits)

lemma pf_collect_selection_not_Err:
  assumes "\<And>tasks v out. pf_enters q sel visited tasks v \<Longrightarrow> collect tasks v out \<noteq> Err e"
  shows "pf_collect_selection collect q tfi ty sel visited out \<noteq> Err e"
proof (cases sel)
  case (FieldSel p a n args ds ss)
  then show ?thesis
    by (auto simp: pf_collect_selection_def Let_def and_then_Err_iff index_update_not_Err collect_field_not_Err)
next
  case (FragmentSpread name)
  have "collect (map (\<lambda>t. (t, fr_selection_set fragment)) tys) (insert name visited) out \<noteq> Err e"
    if "name \<notin> visited" "map_of (qr_fragments q) name = Some fragment" for fragment tys
    by (rule assms) (use that FragmentSpread in \<open>auto simp: pf_enters_def\<close>)
  then show ?thesis
    using FragmentSpread by (auto simp: pf_collect_selection_def Let_def and_then_Err_iff fragment_types_not_Err split: option.splits)
next
  case (InlineFragment cond ss)
  have "collect (map (\<lambda>t. (t, ss)) tys) visited out \<noteq> Err e" for tys
    by (rule assms) (use InlineFragment in \<open>auto simp: pf_enters_def\<close>)
  then show ?thesis using InlineFragment by (auto simp: pf_collect_selection_def Let_def and_then_Err_iff fragment_types_not_Err)
qed

lemma pf_collect_all_not_Err: "pf_collect_all q tfi tasks visited out \<noteq> Err e"
proof (induction q tfi tasks visited out rule: pf_collect_all.induct)
  case (3 q tfi ty sel rest tasks visited out)
  have "pf_collect_selection (pf_collect_all q tfi) q tfi ty sel visited out \<noteq> Err e"
    by (rule pf_collect_selection_not_Err) (rule 3(1))
  then show ?case using 3(2) by (auto simp: and_then_Err_iff)
qed simp_all

lemma pf_collect_fields_not_Err: "pf_collect_fields q tfi ty sets \<noteq> Err e"
proof -
  have "try_fold (\<lambda>ss out. and_then (pf_collect_all q tfi [(ty, ss)] {} out) (\<lambda>(visited, out). Ok out)) sets [] \<noteq> Err e"
    by (rule try_fold_not_Err) (auto simp: and_then_Err_iff pf_collect_all_not_Err)
  then show ?thesis by (auto simp: pf_collect_fields_def and_then_Err_iff)
qed

lemma execute_condition_not_Err: "execute_condition exec env ctx path key x st \<noteq> Err e"
proof -
  obtain cond flds ps errs where x: "x = (cond, flds)" "st = (ps, errs)" by (cases x; cases st)
  have nested: "(case r of Ok children \<Rightarrow> and_then (join_perform qs children key) (\<lambda>ps'. Ok (put_back flags ps ps', errs)) | Err es \<Rightarrow> Ok (ps, errs @ es)
      | Panic \<Rightarrow> Panic) \<noteq> Err e" for r qs flags
    by (cases r) (auto simp: and_then_Err_iff join_perform_not_Err)
  show ?thesis
    unfolding x execute_condition_def prod.case Let_def and_then_Err_iff
    using nested matching_parents_not_Err join_new_not_Err pf_collect_fields_not_Err by (auto simp: and_then_Err_iff)
qed

lemma execute_collected_not_Err: "execute_collected exec env ctx path g st \<noteq> Err e"
proof (induction g arbitrary: st)
  case (Cons x g)
  obtain key c where x: "x = (key, c)" by (cases x)
  have "try_fold (execute_condition exec env ctx (path @ [key]) key) (collected_conditions c) st \<noteq> Err e"
    by (rule try_fold_not_Err) (rule execute_condition_not_Err)
  then show ?case using Cons by (auto simp: x Let_def and_then_Err_iff)
qed simp

lemma pf_execute_not_empty: "pf_execute_selection_set d env ctx path ps g \<noteq> Err []"
  by (cases d) (auto simp: and_then_Err_iff execute_collected_not_Err split: if_splits)

section \<open>Properties\<close>

lemma pf_execute_batches:
  assumes "windowed_store (pe_find_query_values env)" "sorts_by_id (pe_sort_by_id env)" "clean_query (xc_query ctx)"
  shows "batches (pf_execute_selection_set d env ctx)"
proof (induction d)
  case (Suc d)
  show ?case unfolding batches_def
  proof (intro allI impI)
    fix path ps g ns and bs :: "bool list"
    assume ps: "proper_parents ps" "clean_grouped g" "length bs = length ps" and run: "pf_execute_selection_set (Suc d) env ctx path ps g = Ok ns"
    have "execute_collected (pf_execute_selection_set d env ctx) env ctx path g (ps, []) = Ok (ns, [])"
      using run by (auto simp: and_then_Ok_iff split: if_splits)
    from execute_collected_fewer [OF Suc pf_execute_not_empty assms, OF ps(2,1,3) this]
    show "pf_execute_selection_set (Suc d) env ctx path (chosen bs ps) g = Ok (chosen bs ns) \<and> map nd_entity ns = map nd_entity ps"
      by simp
  qed
qed (simp add: batches_def)

lemma chosen_nth: "i < length xs \<Longrightarrow> chosen (map (\<lambda>j. j = i) [0..<length xs]) xs = [xs ! i]"
proof (induction xs arbitrary: i)
  case (Cons x xs)
  show ?case
  proof (cases i)
    case 0
    have "chosen (map (\<lambda>j. Suc j = 0) [0..<length xs]) xs = []" by (rule chosen_all) (simp_all add: list_all_iff)
    then show ?thesis by (simp add: 0 upt_conv_Cons map_Suc_upt [symmetric] comp_def del: upt_Suc)
  next
    case (Suc k)
    then show ?thesis using Cons.IH [of k] Cons.prems by (simp add: upt_conv_Cons map_Suc_upt [symmetric] comp_def del: upt_Suc)
  qed
qed simp

text \<open>C6. Fetching the children of all parents with one query is invisible: over a store that keeps the
  promise of windowed queries, prefetching a list of parents gives every parent exactly the tree of
  descendants that prefetching this parent on its own gives, with type conditions, nested selections and
  parents that occur several times, in whatever order the unstable sort leaves them.\<close>

theorem prefetch_batches:
  assumes "windowed_store (pe_find_query_values env)" and "sorts_by_id (pe_sort_by_id env)"
    and "clean_query (xc_query ctx)" and "clean_grouped grouped" and "proper_parents parents"
    and "pf_execute_selection_set d env ctx path parents grouped = Ok nodes"
  shows "list_all2 (\<lambda>p n. pf_execute_selection_set d env ctx path [p] grouped = Ok [n]) parents nodes"
proof -
  note batch = pf_execute_batches [OF assms(1-3), of d, unfolded batches_def, rule_format, OF assms(5,4) _ assms(6)]
  have len: "length nodes = length parents"
    using batch [of "map (\<lambda>_. True) parents"] by (metis length_map)
  show ?thesis
  proof (rule list_all2_all_nthI)
    show "length parents = length nodes" by (simp add: len)
    fix i assume i: "i < length parents"
    have "chosen (map (\<lambda>j. j = i) [0..<length parents]) nodes = [nodes ! i]" using chosen_nth [of i nodes] i len by simp
    then show "pf_execute_selection_set d env ctx path [parents ! i] grouped = Ok [nodes ! i]"
      using batch [of "map (\<lambda>j. j = i) [0..<length parents]"] chosen_nth [OF i] by simp
  qed
qed

subsection \<open>A store in memory\<close>

text \<open>A store that keeps the promise: the rows are searched one by one, and \<open>arrange\<close> is the filter, order and range of the query.\<close>

definition refers_to :: "window_attribute \<Rightarrow> string \<Rightarrow> (string, qvalue) btreemap \<Rightarrow> bool" where
  "refers_to a p r =
     (case a of
        ScalarAttr name \<Rightarrow> map_of r name = Some (QString p)
      | ListAttr name \<Rightarrow> (case map_of r name of Some (QList vs) \<Rightarrow> QString p \<in> set vs | _ \<Rightarrow> False))"

definition has_id :: "string list \<Rightarrow> (string, qvalue) btreemap \<Rightarrow> bool" where
  "has_id ids r = list_ex (\<lambda>i. map_of r ''id'' = Some (QString i)) ids"

definition parent_links :: "entity_window \<Rightarrow> (string \<times> ((string, qvalue) btreemap \<Rightarrow> bool)) list" where
  "parent_links w =
     (case w_link w of
        Direct a m \<Rightarrow> map (\<lambda>p. (p, refers_to a p)) (w_ids w)
      | ParentLink (ScalarLink cs) \<Rightarrow> map (\<lambda>(p, c). (p, has_id [c])) (zip (w_ids w) cs)
      | ParentLink (ListLink css) \<Rightarrow> map (\<lambda>(p, cs). (p, has_id cs)) (zip (w_ids w) css))"

definition window_rows :: "(string, qvalue) btreemap list \<Rightarrow> entity_window \<Rightarrow> (string, qvalue) btreemap list" where
  "window_rows db w =
     concat (map (\<lambda>(p, linked). map (bt_insert ''g$parent_id'' (QString p))
       (filter (\<lambda>r. map_of r ''__typename'' = Some (QString (w_child_type w)) \<and> linked r) db)) (parent_links w))"

definition memory_find ::
  "(entity_query \<Rightarrow> (string, qvalue) btreemap list \<Rightarrow> (string, qvalue) btreemap list) \<Rightarrow> (string, qvalue) btreemap list
   \<Rightarrow> entity_query \<Rightarrow> ((string, qvalue) btreemap list, query_execution_error) result" where
  "memory_find arrange db q =
     (let q' = q\<lparr>q_collection := AllOf []\<rparr>
      in case q_collection q of
           AllOf ts \<Rightarrow> Ok (arrange q' (filter (\<lambda>r. \<exists>t \<in> set ts. map_of r ''__typename'' = Some (QString t)) db))
         | WindowOf ws \<Rightarrow>
             (let rows = concat (map (window_rows db) ws)
              in Ok (concat (map (\<lambda>p. arrange q' (filter (parent_is {p}) rows)) (remdups (concat (map w_ids ws)))))))"

lemma zip_keep_ids: "zip (filter (\<lambda>i. i \<in> X) ids) (keep_ids X ids xs) = filter (\<lambda>(i, x). i \<in> X) (zip ids xs)"
proof (induction ids xs rule: list_induct2')
  case (2 x xs)
  then show ?case by (simp add: keep_ids_def)
qed (simp_all add: keep_ids_def)

lemma parent_links_restrict: "parent_links (restrict_window X w) = filter (\<lambda>(p, linked). p \<in> X) (parent_links w)"
proof -
  have "map (\<lambda>(p, c). (p, h c)) (filter (\<lambda>(p, c). p \<in> X) zs) = filter (\<lambda>(p, linked). p \<in> X) (map (\<lambda>(p, c). (p, h c)) zs)"
    for zs :: "(string \<times> 'a) list" and h :: "'a \<Rightarrow> (string, qvalue) btreemap \<Rightarrow> bool"
    by (induction zs) auto
  moreover have "map (\<lambda>(p, c). (p, h c)) (filter (\<lambda>(p, c). p \<in> X) zs) = filter (\<lambda>(p, linked). p \<in> X) (map (\<lambda>(p, c). (p, h c)) zs)"
    for zs :: "(string \<times> 'b) list" and h :: "'b \<Rightarrow> (string, qvalue) btreemap \<Rightarrow> bool"
    by (induction zs) auto
  moreover have "map (\<lambda>p. (p, h p)) (filter (\<lambda>p. p \<in> X) ids) = filter (\<lambda>(p, linked). p \<in> X) (map (\<lambda>p. (p, h p)) ids)"
    for ids and h :: "string \<Rightarrow> (string, qvalue) btreemap \<Rightarrow> bool"
    by (induction ids) auto
  ultimately show ?thesis
    by (auto simp: parent_links_def restrict_window_def zip_keep_ids filter_map comp_def case_prod_unfold split: entity_link.splits parent_link.splits)
qed

lemma parent_is_insert [simp]: "parent_is X (bt_insert ''g$parent_id'' (QString p) r) \<longleftrightarrow> p \<in> X"
  by (simp add: parent_is_iff map_of_bt_insert)

lemma window_rows_restrict: "window_rows db (restrict_window X w) = filter (parent_is X) (window_rows db w)"
proof -
  have "filter (parent_is X) (concat (map (\<lambda>(p, linked). map (bt_insert ''g$parent_id'' (QString p)) (f linked)) ls)) =
      concat (map (\<lambda>(p, linked). map (bt_insert ''g$parent_id'' (QString p)) (f linked)) (filter (\<lambda>(p, linked). p \<in> X) ls))"
    for f :: "((string, qvalue) btreemap \<Rightarrow> bool) \<Rightarrow> (string, qvalue) btreemap list" and ls
    by (induction ls) (auto simp: filter_map comp_def)
  moreover have "w_child_type (restrict_window X w) = w_child_type w" by (simp add: restrict_window_def)
  ultimately show ?thesis by (simp add: window_rows_def parent_links_restrict)
qed

lemma parent_links_ids: "(p, l) \<in> set (parent_links w) \<Longrightarrow> p \<in> set (w_ids w)"
  by (auto simp: parent_links_def dest: set_zip_leftD split: entity_link.splits parent_link.splits)

lemma window_rows_parents: "r \<in> set (window_rows db w) \<Longrightarrow> \<exists>p \<in> set (w_ids w). \<exists>r' \<in> set db. r = bt_insert ''g$parent_id'' (QString p) r'"
  by (fastforce simp: window_rows_def dest: parent_links_ids)

lemma concat_with_parents:
  "concat (map (window_rows db) (with_parents ws)) = concat (map (window_rows db) ws)"
  "concat (map w_ids (with_parents ws)) = concat (map w_ids ws)"
proof -
  have "window_rows db w = []" if "w_ids w = []" for w
    using that parent_links_ids [of _ _ w] by (fastforce simp: window_rows_def)
  then show "concat (map (window_rows db) (with_parents ws)) = concat (map (window_rows db) ws)"
    "concat (map w_ids (with_parents ws)) = concat (map w_ids ws)"
    unfolding with_parents_def by (induction ws) auto
qed

lemma memory_store_windowed:
  assumes "entities_ok db" and arrange: "\<And>q rs. set (arrange q rs) \<subseteq> set rs"
  shows "windowed_store (memory_find arrange db)"
  unfolding windowed_store_def
proof (intro allI impI)
  fix q ws rows assume run: "memory_find arrange db (q\<lparr>q_collection := WindowOf ws\<rparr>) = Ok rows"
  let ?q = "q\<lparr>q_collection := AllOf []\<rparr>"
  let ?all = "\<lambda>ws. concat (map (window_rows db) ws)" and ?ids = "\<lambda>ws. concat (map w_ids ws)"
  let ?part = "\<lambda>ws p. arrange ?q (filter (parent_is {p}) (?all ws))"
  have find: "memory_find arrange db (q\<lparr>q_collection := WindowOf ws\<rparr>) = Ok (concat (map (?part ws) (remdups (?ids ws))))" for ws
    by (simp add: memory_find_def Let_def)
  have rows: "rows = concat (map (?part ws) (remdups (?ids ws)))" using run find by simp
  have part: "set (?part ws p) \<subseteq> {r \<in> set (?all ws). parent_is {p} r}" for p
    using arrange [of ?q "filter (parent_is {p}) (?all ws)"] by auto
  have row: "\<exists>p \<in> set (?ids ws). \<exists>r' \<in> set db. r = bt_insert ''g$parent_id'' (QString p) r'" if "r \<in> set rows" for r
    using that part window_rows_parents unfolding rows by fastforce
  have "entities_ok rows"
    unfolding entities_ok_def
  proof (intro conjI ballI allI impI)
    show "\<exists>t. map_of r ''__typename'' = Some (QString t)" if "r \<in> set rows" for r
      using row [OF that] assms(1) by (auto simp: map_of_bt_insert entities_ok_def)
    show "same_entity r r'" if rr: "r \<in> set rows" "r' \<in> set rows" "map_of r ''id'' = Some (QString i) \<and> map_of r' ''id'' = Some (QString i)" for r r' i
    proof -
      obtain p x p' x' where x: "x \<in> set db" "r = bt_insert ''g$parent_id'' (QString p) x" "x' \<in> set db" "r' = bt_insert ''g$parent_id'' (QString p') x'"
        using row [OF rr(1)] row [OF rr(2)] by blast
      then have "same_entity x x'" using assms(1) rr(3) by (simp add: entities_ok_def map_of_bt_insert)
      then show ?thesis by (simp add: x same_entity_def map_of_bt_insert)
    qed
  qed
  moreover have "\<forall>r \<in> set rows. parent_is (\<Union>w \<in> set ws. set (w_ids w)) r" using row by fastforce
  moreover have "memory_find arrange db (q\<lparr>q_collection := WindowOf ws'\<rparr>) = Ok (filter (parent_is X) rows)"
    if ws': "with_parents ws' = with_parents (map (restrict_window X) ws)" for X ws'
  proof -
    have "?all ws' = ?all (map (restrict_window X) ws)" using concat_with_parents(1) ws' by metis
    also have "\<dots> = filter (parent_is X) (?all ws)" by (induction ws) (simp_all add: window_rows_restrict)
    finally have all: "?all ws' = filter (parent_is X) (?all ws)" .
    have "?ids ws' = ?ids (map (restrict_window X) ws)" using concat_with_parents(2) ws' by metis
    also have "\<dots> = filter (\<lambda>p. p \<in> X) (?ids ws)" by (induction ws) (simp_all add: restrict_window_def)
    finally have ids: "remdups (?ids ws') = filter (\<lambda>p. p \<in> X) (remdups (?ids ws))" by (simp add: remdups_filter)
    have "?part ws' p = ?part ws p" if "p \<in> X" for p
    proof -
      have "filter (parent_is {p}) (?all ws') = filter (parent_is {p}) (?all ws)"
        unfolding all using that by (auto simp: filter_filter parent_is_iff intro!: filter_cong)
      then show ?thesis by simp
    qed
    then have new: "concat (map (?part ws') (remdups (?ids ws'))) = concat (map (?part ws) (filter (\<lambda>p. p \<in> X) (remdups (?ids ws))))"
      unfolding ids by (intro arg_cong [where f = concat] map_cong refl) auto
    have "filter (parent_is X) (?part ws p) = (if p \<in> X then ?part ws p else [])" for p
      using part [of p] by (auto simp: filter_empty_conv parent_is_iff intro!: filter_True)
    then have "filter (parent_is X) (concat (map (?part ws) ps)) = concat (map (?part ws) (filter (\<lambda>p. p \<in> X) ps))" for ps
      by (induction ps) simp_all
    then show ?thesis using find [of ws'] new rows by simp
  qed
  ultimately show "entities_ok rows \<and> (\<forall>r \<in> set rows. parent_is (\<Union>w \<in> set ws. set (w_ids w)) r) \<and>
      (\<forall>X ws'. ws' \<noteq> [] \<longrightarrow> with_parents ws' = with_parents (map (restrict_window X) ws) \<longrightarrow>
         memory_find arrange db (q\<lparr>q_collection := WindowOf ws'\<rparr>) = Ok (filter (parent_is X) rows))"
    by blast
qed

subsection \<open>Two members with a common friend\<close>

definition demo_member :: object_type where
  "demo_member = \<lparr>ot_name = ''Member'', ot_implements_interfaces = [],
     ot_directives = [\<lparr>dir_name = ''subgraphId'', dir_arguments = [(''id'', QString ''Qmaaaaaaaaaaaaaaaaaaaaaaaaaaaaaaaaaaaaaaaaaaaa'')]\<rparr>],
     ot_fields = [demo_field ''id'' (NonNullType (NamedType ''String'')), demo_field ''friends'' (ListType (NamedType ''Member''))]\<rparr>"

definition demo_club :: api_schema where
  "demo_club = demo_social\<lparr>as_document := [TypeDefinition (ObjectDef demo_member),
       TypeDefinition (ScalarDef \<lparr>st_name = ''String'', st_directives = []\<rparr>)]\<rparr>"

definition demo_row :: "string \<Rightarrow> string list \<Rightarrow> (string, qvalue) btreemap" where
  "demo_row i friends = [(''__typename'', QString ''Member''), (''friends'', QList (map QString friends)), (''id'', QString i)]"

definition demo_members :: "(string, qvalue) btreemap list" where
  "demo_members = [demo_row ''a'' [''c''], demo_row ''b'' [''c'', ''a''], demo_row ''c'' []]"

definition demo_env :: prefetch_env where
  "demo_env = \<lparr>pe_lib = ref_lib, pe_types_for_interface = [], pe_block = 1, pe_max_first = 1000, pe_max_skip = 1000, pe_query_id = [],
     pe_find_query_values = memory_find (\<lambda>q rs. rs) demo_members, pe_sort_by_id = sort_key fst, pe_late = (\<lambda>p. False)\<rparr>"

definition demo_club_context :: execution_context where
  "demo_club_context = demo_context\<lparr>xc_query := (xc_query demo_context)\<lparr>qr_schema := demo_club, qr_fragments := []\<rparr>\<rparr>"

definition demo_club_fields :: grouped_fields where
  "demo_club_fields = [(''knows'', \<lparr>cr_iface_cond = None, cr_iface_fields = [],
     cr_obj_types = [(demo_member, [FieldSel (0, 0) (Some ''knows'') ''friends'' [] [] [FieldSel (1, 1) None ''friends'' [] [] [FieldSel (2, 2) None ''id'' [] [] []]]])]\<rparr>)]"

definition demo_found :: "node list" where
  "demo_found =
     (let row = \<lambda>p i fs. bt_insert ''g$parent_id'' (QString p) (demo_row i fs);
          c = \<lambda>p. Node (row p ''c'' []) [(''friends'', [])];
          a = Node (row ''b'' ''a'' [''c'']) [(''friends'', [Node (row ''a'' ''c'' []) []])]
      in [Node (demo_row ''a'' [''c'']) [(''knows'', [c ''a''])], Node (demo_row ''b'' [''c'', ''a'']) [(''knows'', [a, c ''b''])]])"

theorem prefetch_batches_witness:
  "pf_execute_selection_set 3 demo_env demo_club_context [] (map node_from (take 2 demo_members)) demo_club_fields = Ok demo_found \<and>
   list_all2 (\<lambda>p n. pf_execute_selection_set 3 demo_env demo_club_context [] [p] demo_club_fields = Ok [n])
     (map node_from (take 2 demo_members)) demo_found"
proof -
  have run: "pf_execute_selection_set 3 demo_env demo_club_context [] (map node_from (take 2 demo_members)) demo_club_fields = Ok demo_found"
    by code_simp
  have ids: "r = r'" if "r \<in> set demo_members" "r' \<in> set demo_members" "map_of r ''id'' = map_of r' ''id''" for r r'
    using that by (auto simp: demo_members_def demo_row_def)
  have members: "entities_ok demo_members"
    unfolding entities_ok_def
  proof (intro conjI ballI allI impI)
    show "\<exists>t. map_of r ''__typename'' = Some (QString t)" if "r \<in> set demo_members" for r
      using that by (auto simp: demo_members_def demo_row_def)
    show "same_entity r r'"
      if "r \<in> set demo_members" "r' \<in> set demo_members" "map_of r ''id'' = Some (QString i) \<and> map_of r' ''id'' = Some (QString i)" for r r' i
      using ids [OF that(1,2)] that(3) by (simp add: same_entity_def)
  qed
  have "list_all2 (\<lambda>p n. pf_execute_selection_set 3 demo_env demo_club_context [] [p] demo_club_fields = Ok [n])
     (map node_from (take 2 demo_members)) demo_found"
  proof (rule prefetch_batches [OF _ _ _ _ _ run])
    show "windowed_store (pe_find_query_values demo_env)" using memory_store_windowed [OF members] by (simp add: demo_env_def)
    show "sorts_by_id (pe_sort_by_id demo_env)" by (simp add: sorts_by_id_def demo_env_def)
    show "clean_query (xc_query demo_club_context)" by code_simp
    show "clean_grouped demo_club_fields" by code_simp
    show "proper_parents (map node_from (take 2 demo_members))"
      using members unfolding proper_parents_def entities_ok_def by (auto simp: node_from_def dest!: in_set_takeD)
  qed
  then show ?thesis using run by blast
qed

subsection \<open>Fragments under several types\<close>

text \<open>An interface with two implementations, and a fragment on the interface that is spread under both of them.\<close>

definition demo_animal :: "string \<Rightarrow> object_type" where
  "demo_animal name = demo_member\<lparr>ot_name := name, ot_implements_interfaces := [''Animal''], ot_fields := [demo_field ''owner'' (NamedType ''Member'')]\<rparr>"

definition demo_interface :: interface_type where
  "demo_interface = \<lparr>it_name = ''Animal'', it_directives = [], it_fields = [demo_field ''owner'' (NamedType ''Member'')]\<rparr>"

definition demo_zoo_query :: query where
  "demo_zoo_query = (xc_query demo_context)\<lparr>
     qr_schema := demo_club\<lparr>as_document := as_document demo_club @ map (TypeDefinition \<circ> ObjectDef \<circ> demo_animal) [''Cat'', ''Dog''] @
       [TypeDefinition (InterfaceDef demo_interface)]\<rparr>,
     qr_fragments := [(''owned'', \<lparr>fr_name = ''owned'', fr_type_condition = ''Animal'', fr_selection_set = [FieldSel (1, 1) None ''owner'' [] [] [FieldSel (2, 2) None ''id'' [] [] []]]\<rparr>)]\<rparr>"

definition demo_zoo_sels :: "selection list" where
  "demo_zoo_sels = [InlineFragment (Some ''Cat'') [FragmentSpread ''owned''], InlineFragment (Some ''Dog'') [FragmentSpread ''owned'']]"

definition demo_zoo_fields :: "selection list" where
  "demo_zoo_fields = [FieldSel (1, 1) None ''owner'' [] [] [FieldSel (2, 2) None ''id'' [] [] []]]"

text \<open>A fragment that is spread under two object types of an interface, here cats and dogs, is fetched for the first of them only, while execution
  selects its fields for both and cannot resolve the field of the second from its id alone or from nothing.\<close>

lemma fragment_fetched_once:
  "pf_collect_fields demo_zoo_query [(''Animal'', map demo_animal [''Cat'', ''Dog''])] (IsInterface demo_interface) [demo_zoo_sels] =
      Ok [(''owner'', \<lparr>cr_iface_cond = None, cr_iface_fields = [], cr_obj_types = [(demo_animal ''Cat'', demo_zoo_fields)]\<rparr>)] \<and>
    collect_fields demo_zoo_query (demo_animal ''Dog'') [demo_zoo_sels] = Ok [(''owner'', demo_zoo_fields)] \<and>
    (\<forall>field fd ty args i v. store_resolve_object None field fd ty args \<noteq> Ok v \<and> store_resolve_object (Some (QString i)) field fd ty args \<noteq> Ok v)"
proof (intro conjI)
  show "pf_collect_fields demo_zoo_query [(''Animal'', map demo_animal [''Cat'', ''Dog''])] (IsInterface demo_interface) [demo_zoo_sels] =
      Ok [(''owner'', \<lparr>cr_iface_cond = None, cr_iface_fields = [], cr_obj_types = [(demo_animal ''Cat'', demo_zoo_fields)]\<rparr>)]"
    by code_simp
  show "collect_fields demo_zoo_query (demo_animal ''Dog'') [demo_zoo_sels] = Ok [(''owner'', demo_zoo_fields)]" by code_simp
  show "\<forall>field fd ty args i v. store_resolve_object None field fd ty args \<noteq> Ok v \<and> store_resolve_object (Some (QString i)) field fd ty args \<noteq> Ok v"
    by (simp add: store_resolve_object_def)
qed

end
