(* ===== verification/ProofOfIndexing.thy ===== *)
theory ProofOfIndexing
  imports EthTypes Values
begin

text \<open>
  The proof of indexing: a digest of every entity that the mappings of a subgraph set or removed, kept
  up to date block by block (\<open>online.rs\<close>), and the reference implementation it is meant to agree with
  (\<open>reference.rs\<close>, both under \<open>graph/src/components/subgraph/proof_of_indexing/\<close>). The crate
  \<open>stable_hash\<close> is the record \<open>stable_hasher\<close>: sequence numbers, the hasher and the implementations
  of its trait for the types of the standard library, where the hash of a vector or a map takes the
  hash functions of the elements. Numbers of events and of regions, which are bounded by memory, are
  natural numbers.
\<close>

section \<open>The hashing library\<close>

record ('s, 'd) stable_hasher =
  seq_root :: 's
  seq_next_child :: "'s \<Rightarrow> 's \<times> 's"
  seq_skip :: "'s \<Rightarrow> nat \<Rightarrow> 's"
  sh_new :: 'd
  sh_write :: "'d \<Rightarrow> 's \<Rightarrow> bytes \<Rightarrow> 'd"
  sh_finish_unordered :: "'d \<Rightarrow> 'd \<Rightarrow> 's \<Rightarrow> 'd"
  sh_to_bytes :: "'d \<Rightarrow> bytes"
  sh_from_bytes :: "bytes \<Rightarrow> 'd"
  sh_finish :: "'d \<Rightarrow> bytes"
  hash_int :: "int \<Rightarrow> 's \<Rightarrow> 'd \<Rightarrow> 'd"
  hash_as_int :: "bool \<Rightarrow> bytes \<Rightarrow> 's \<Rightarrow> 'd \<Rightarrow> 'd"
  hash_bool :: "bool \<Rightarrow> 's \<Rightarrow> 'd \<Rightarrow> 'd"
  hash_str :: "string \<Rightarrow> 's \<Rightarrow> 'd \<Rightarrow> 'd"
  hash_bytes :: "bytes \<Rightarrow> 's \<Rightarrow> 'd \<Rightarrow> 'd"
  hash_option_bytes :: "bytes option \<Rightarrow> 's \<Rightarrow> 'd \<Rightarrow> 'd"
  hash_vec :: "('s \<Rightarrow> 'd \<Rightarrow> 'd) list \<Rightarrow> 's \<Rightarrow> 'd \<Rightarrow> 'd"
  hash_map :: "(('s \<Rightarrow> 'd \<Rightarrow> 'd) \<times> ('s \<Rightarrow> 'd \<Rightarrow> 'd)) list \<Rightarrow> 's \<Rightarrow> 'd \<Rightarrow> 'd"

section \<open>Hashes of values and events\<close>

definition bigint_hash :: "scalar_lib \<Rightarrow> ('s, 'd) stable_hasher \<Rightarrow> int \<Rightarrow> 's \<Rightarrow> 'd \<Rightarrow> 'd" where
  "bigint_hash lib H n = hash_as_int H (fst (lib_to_bytes_le lib n) = Minus) (snd (lib_to_bytes_le lib n))"

definition bigdecimal_hash :: "scalar_lib \<Rightarrow> ('s, 'd) stable_hasher \<Rightarrow> big_decimal \<Rightarrow> 's \<Rightarrow> 'd \<Rightarrow> 'd" where
  "bigdecimal_hash lib H x s d =
     (let (child, s1) = seq_next_child H s
      in bigint_hash lib H (bd_int x) s1 (hash_int H (bd_scale x) child d))"

text \<open>The name of the variant first, then its contents; \<open>Null\<close> is the default and writes nothing.\<close>

definition variant_hash :: "('s, 'd) stable_hasher \<Rightarrow> string \<Rightarrow> ('s \<Rightarrow> 'd \<Rightarrow> 'd) \<Rightarrow> 's \<Rightarrow> 'd \<Rightarrow> 'd" where
  "variant_hash H name inner s d =
     (let (child, s1) = seq_next_child H s in inner s1 (hash_str H name child d))"

fun val_hash :: "scalar_lib \<Rightarrow> ('s, 'd) stable_hasher \<Rightarrow> val \<Rightarrow> 's \<Rightarrow> 'd \<Rightarrow> 'd" where
  "val_hash lib H VNull = (\<lambda>s d. d)"
| "val_hash lib H (VString x) = variant_hash H ''String'' (hash_str H x)"
| "val_hash lib H (VInt x) = variant_hash H ''Int'' (hash_int H (sint x))"
| "val_hash lib H (VBigDecimal x) = variant_hash H ''BigDecimal'' (bigdecimal_hash lib H x)"
| "val_hash lib H (VBool x) = variant_hash H ''Bool'' (hash_bool H x)"
| "val_hash lib H (VList xs) = variant_hash H ''List'' (hash_vec H (map (val_hash lib H) xs))"
| "val_hash lib H (VBytes x) = variant_hash H ''Bytes'' (hash_bytes H x)"
| "val_hash lib H (VBigInt x) = variant_hash H ''BigInt'' (bigint_hash lib H x)"

definition data_hash :: "scalar_lib \<Rightarrow> ('s, 'd) stable_hasher \<Rightarrow> entity \<Rightarrow> 's \<Rightarrow> 'd \<Rightarrow> 'd" where
  "data_hash lib H data = hash_map H (map (\<lambda>(k, v). (hash_str H k, val_hash lib H v)) data)"

datatype poi_event =
    RemoveEntity string string
  | SetEntity string string entity

fun poi_event_hash :: "scalar_lib \<Rightarrow> ('s, 'd) stable_hasher \<Rightarrow> poi_event \<Rightarrow> 's \<Rightarrow> 'd \<Rightarrow> 'd" where
  "poi_event_hash lib H (RemoveEntity ty i) s d =
     (let (c0, s0) = seq_next_child H s; (c1, s1) = seq_next_child H s0; (c2, s2) = seq_next_child H s1
      in hash_str H i c2 (hash_str H ty c1 (hash_str H ''RemoveEntity'' c0 d)))"
| "poi_event_hash lib H (SetEntity ty i data) s d =
     (let (c0, s0) = seq_next_child H s; (c1, s1) = seq_next_child H s0; (c2, s2) = seq_next_child H s1;
          (c3, s3) = seq_next_child H s2
      in data_hash lib H data c3 (hash_str H i c2 (hash_str H ty c1 (hash_str H ''SetEntity'' c0 d))))"

definition deployment_id_hash :: "('s, 'd) stable_hasher \<Rightarrow> string \<Rightarrow> 's \<Rightarrow> 'd \<Rightarrow> 'd" where
  "deployment_id_hash H i s d = hash_str H i (fst (seq_next_child H s)) d"

section \<open>The online implementation\<close>

definition traverse_seq_no :: "('s, 'd) stable_hasher \<Rightarrow> nat list \<Rightarrow> 's" where
  "traverse_seq_no H counts = fold (\<lambda>i s. fst (seq_next_child H (seq_skip H s i))) counts (seq_root H)"

record ('s, 'd) event_stream =
  es_vec_length :: nat
  es_seq_no :: 's
  es_digest :: 'd

definition event_stream_new :: "('s, 'd) stable_hasher \<Rightarrow> u64 \<Rightarrow> ('s, 'd) event_stream" where
  "event_stream_new H block_number =
     \<lparr>es_vec_length = 0, es_seq_no = traverse_seq_no H [1, 0, unat block_number, 0], es_digest = sh_new H\<rparr>"

definition event_stream_pause :: "('s, 'd) stable_hasher \<Rightarrow> ('s, 'd) event_stream \<Rightarrow> bytes option \<Rightarrow> bytes" where
  "event_stream_pause H self prev =
     (let state = hash_int H (int (es_vec_length self)) (es_seq_no self) (es_digest self)
      in sh_to_bytes H (case prev of
           None \<Rightarrow> state
         | Some prev \<Rightarrow> sh_finish_unordered H state (sh_from_bytes H prev) (seq_root H)))"

definition event_stream_write ::
  "scalar_lib \<Rightarrow> ('s, 'd) stable_hasher \<Rightarrow> poi_event \<Rightarrow> ('s, 'd) event_stream \<Rightarrow> ('s, 'd) event_stream" where
  "event_stream_write lib H event self =
     (let (child, s) = seq_next_child H (es_seq_no self)
      in \<lparr>es_vec_length = es_vec_length self + 1, es_seq_no = s,
          es_digest = poi_event_hash lib H event child (es_digest self)\<rparr>)"

record ('s, 'd) poi =
  poi_block_number :: u64
  per_causality_region :: "(string, ('s, 'd) event_stream) hashmap"

definition poi_new :: "u64 \<Rightarrow> ('s, 'd) poi" where
  "poi_new n = \<lparr>poi_block_number = n, per_causality_region = []\<rparr>"

definition poi_write ::
  "scalar_lib \<Rightarrow> ('s, 'd) stable_hasher \<Rightarrow> string \<Rightarrow> poi_event \<Rightarrow> ('s, 'd) poi \<Rightarrow> ('s, 'd) poi" where
  "poi_write lib H causality_region event self =
     (let entry = (case map_of (per_causality_region self) causality_region of
            Some stream \<Rightarrow> event_stream_write lib H event stream
          | None \<Rightarrow> event_stream_write lib H event (event_stream_new H (poi_block_number self)))
      in self\<lparr>per_causality_region := hm_insert causality_region entry (per_causality_region self)\<rparr>)"

record 'd poi_finisher =
  pf_block_number :: u64
  pf_state :: 'd
  pf_causality_count :: nat

definition finisher_new ::
  "('s, 'd) stable_hasher \<Rightarrow> block_pointer \<Rightarrow> string \<Rightarrow> address option \<Rightarrow> 'd poi_finisher" where
  "finisher_new H ptr sg indexer =
     (let d0 = deployment_id_hash H sg (traverse_seq_no H [1]) (sh_new H);
          d1 = hash_bytes H (ptr_hash ptr) (traverse_seq_no H [2]) d0;
          d2 = hash_option_bytes H indexer (traverse_seq_no H [3]) d1
      in \<lparr>pf_block_number = ptr_number ptr, pf_state = d2, pf_causality_count = 0\<rparr>)"

definition add_causality_region ::
  "('s, 'd) stable_hasher \<Rightarrow> string \<Rightarrow> bytes \<Rightarrow> 'd poi_finisher \<Rightarrow> 'd poi_finisher" where
  "add_causality_region H name region self =
     (let state0 = sh_from_bytes H region;
          state1 = hash_int H (uint (pf_block_number self + 1)) (traverse_seq_no H [1, 0]) state0;
          state2 = hash_str H name (traverse_seq_no H [0]) state1
      in self\<lparr>pf_state := sh_write H (pf_state self) (traverse_seq_no H [0, 1]) (sh_finish H state2),
              pf_causality_count := pf_causality_count self + 1\<rparr>)"

definition finisher_finish :: "('s, 'd) stable_hasher \<Rightarrow> 'd poi_finisher \<Rightarrow> bytes" where
  "finisher_finish H self =
     sh_finish H (hash_int H (int (pf_causality_count self)) (traverse_seq_no H [0, 2]) (pf_state self))"

section \<open>The reference implementation\<close>

record poi_reference =
  pr_causality_regions :: "(string, poi_event list list) hashmap"
  pr_subgraph_id :: string
  pr_block_hash :: h256
  pr_indexer :: "address option"

definition block_hash :: "scalar_lib \<Rightarrow> ('s, 'd) stable_hasher \<Rightarrow> poi_event list \<Rightarrow> 's \<Rightarrow> 'd \<Rightarrow> 'd" where
  "block_hash lib H events s d = hash_vec H (map (poi_event_hash lib H) events) (fst (seq_next_child H s)) d"

definition region_hash :: "scalar_lib \<Rightarrow> ('s, 'd) stable_hasher \<Rightarrow> poi_event list list \<Rightarrow> 's \<Rightarrow> 'd \<Rightarrow> 'd" where
  "region_hash lib H blocks s d = hash_vec H (map (block_hash lib H) blocks) (fst (seq_next_child H s)) d"

definition reference_hash :: "scalar_lib \<Rightarrow> ('s, 'd) stable_hasher \<Rightarrow> poi_reference \<Rightarrow> 's \<Rightarrow> 'd \<Rightarrow> 'd" where
  "reference_hash lib H poi s d =
     (let (c0, s0) = seq_next_child H s; (c1, s1) = seq_next_child H s0; (c2, s2) = seq_next_child H s1;
          (c3, s3) = seq_next_child H s2;
          d0 = hash_map H (map (\<lambda>(name, blocks). (hash_str H name, region_hash lib H blocks)) (pr_causality_regions poi)) c0 d;
          d1 = deployment_id_hash H (pr_subgraph_id poi) c1 d0;
          d2 = hash_bytes H (pr_block_hash poi) c2 d1
      in hash_option_bytes H (pr_indexer poi) c3 d2)"

section \<open>What the library promises\<close>

text \<open>
  The hasher accumulates, in any order, what is written to it (\<open>mix\<close>); zero is a default value and
  writes nothing, and a length is hashed the same before and after the children of its sequence
  number were taken. The elements of a vector are its children, followed by the length; the members of
  a map are hashed on their own and written to one place, followed by their number.
\<close>

definition seq_child :: "('s, 'd) stable_hasher \<Rightarrow> 's \<Rightarrow> nat \<Rightarrow> 's" where
  "seq_child H s i = fst (seq_next_child H (seq_skip H s i))"

definition hash_element :: "('s, 'd) stable_hasher \<Rightarrow> ('s \<Rightarrow> 'd \<Rightarrow> 'd) \<Rightarrow> 's \<times> 'd \<Rightarrow> 's \<times> 'd" where
  "hash_element H h = (\<lambda>(s, d). (snd (seq_next_child H s), h (fst (seq_next_child H s)) d))"

definition hash_member ::
  "('s, 'd) stable_hasher \<Rightarrow> 's \<Rightarrow> ('s \<Rightarrow> 'd \<Rightarrow> 'd) \<times> ('s \<Rightarrow> 'd \<Rightarrow> 'd) \<Rightarrow> 'd \<Rightarrow> 'd" where
  "hash_member H s = (\<lambda>(k, v) d. sh_write H d (seq_child H s 1)
     (sh_finish H (v (seq_child H (seq_root H) 1) (k (seq_child H (seq_root H) 0) (sh_new H)))))"

definition additive :: "('s, 'd) stable_hasher \<Rightarrow> ('d \<Rightarrow> 'd \<Rightarrow> 'd) \<Rightarrow> ('s \<Rightarrow> 'd \<Rightarrow> 'd) \<Rightarrow> bool" where
  "additive H mix h \<longleftrightarrow> (\<forall>s d. h s d = mix d (h s (sh_new H)))"

text \<open>What the events of a block in one region contribute to the region's digest.\<close>

definition block_part :: "scalar_lib \<Rightarrow> ('s, 'd) stable_hasher \<Rightarrow> nat \<Rightarrow> poi_event list \<Rightarrow> 'd" where
  "block_part lib H i events =
     hash_vec H (map (poi_event_hash lib H) events) (traverse_seq_no H [1, 0, i, 0]) (sh_new H)"

fun parts :: "scalar_lib \<Rightarrow> ('s, 'd) stable_hasher \<Rightarrow> ('d \<Rightarrow> 'd \<Rightarrow> 'd) \<Rightarrow> nat \<Rightarrow> poi_event list list \<Rightarrow> 'd" where
  "parts lib H mix i [] = sh_new H"
| "parts lib H mix i (b # bs) = mix (block_part lib H i b) (parts lib H mix (Suc i) bs)"

locale set_hasher =
  fixes H :: "('s, 'd) stable_hasher" and mix :: "'d \<Rightarrow> 'd \<Rightarrow> 'd"
  assumes mix_assoc: "mix (mix a b) c = mix a (mix b c)"
    and mix_commute: "mix a b = mix b a"
    and mix_new: "mix a (sh_new H) = a"
    and write_mix: "sh_write H d s bs = mix d (sh_write H (sh_new H) s bs)"
    and int_mix: "hash_int H n s d = mix d (hash_int H n s (sh_new H))"
    and str_mix: "hash_str H x s d = mix d (hash_str H x s (sh_new H))"
    and bytes_mix: "hash_bytes H bs s d = mix d (hash_bytes H bs s (sh_new H))"
    and option_mix: "hash_option_bytes H y s d = mix d (hash_option_bytes H y s (sh_new H))"
    and unordered_mix: "sh_finish_unordered H d d' (seq_root H) = mix d d'"
    and to_from_bytes: "sh_from_bytes H (sh_to_bytes H d) = d"
    and hash_zero: "hash_int H 0 s d = d"
    and hash_length: "0 \<le> n \<Longrightarrow> hash_int H n (snd (seq_next_child H s)) d = hash_int H n s d"
    and skip_0: "seq_skip H s 0 = s"
    and skip_Suc: "seq_skip H s (Suc i) = snd (seq_next_child H (seq_skip H s i))"
    and vec: "hash_vec H hs s d =
      (let (s', d') = fold (hash_element H) hs (s, d) in hash_int H (int (length hs)) s' d')"
    and map: "hash_map H kvs s d = hash_int H (int (length kvs)) (seq_child H s 2) (fold (hash_member H s) kvs d)"
begin

lemma mix_left_commute: "mix a (mix b c) = mix b (mix a c)"
  by (metis mix_assoc mix_commute)

lemma mix_new_left: "mix (sh_new H) a = a"
  by (metis mix_commute mix_new)

lemmas mix_ac = mix_assoc mix_commute mix_left_commute mix_new mix_new_left

lemma additiveD: "additive H mix h \<Longrightarrow> h s d = mix d (h s (sh_new H))"
  unfolding additive_def by (erule allE)+

lemma additiveI: "(\<And>s d. h s d = mix d (h s (sh_new H))) \<Longrightarrow> additive H mix h"
  unfolding additive_def by (intro allI)

lemma additive_basic: "additive H mix (hash_int H n)" "additive H mix (hash_str H x)"
    "additive H mix (hash_bytes H bs)" "additive H mix (hash_option_bytes H y)"
  by (rule additiveI, rule int_mix, rule additiveI, rule str_mix, rule additiveI, rule bytes_mix,
      rule additiveI, rule option_mix)

lemma additive_comp:
  assumes "additive H mix h" and "additive H mix g"
  shows "g t (h s d) = mix d (g t (h s (sh_new H)))"
proof -
  have "g t (h s d) = mix (mix d (h s (sh_new H))) (g t (sh_new H))"
    using additiveD [OF assms(2), of t "h s d"] additiveD [OF assms(1), of s d] by simp
  also have "\<dots> = mix d (g t (h s (sh_new H)))"
    using additiveD [OF assms(2), of t "h s (sh_new H)"] by (simp add: mix_assoc)
  finally show ?thesis .
qed

lemma fold_members: "fold (hash_member H s) kvs d = mix d (fold (hash_member H s) kvs (sh_new H))"
proof (induction kvs arbitrary: d)
  case (Cons kv kvs)
  have "hash_member H s kv d = mix d (hash_member H s kv (sh_new H))"
    unfolding hash_member_def split_beta by (rule write_mix)
  then show ?case
    using Cons [of "hash_member H s kv d"] Cons [of "hash_member H s kv (sh_new H)"] by (simp add: mix_assoc)
qed (simp add: mix_new)

lemma additive_map: "additive H mix (hash_map H kvs)"
proof (unfold additive_def map, intro allI)
  fix s d
  show "hash_int H (int (length kvs)) (seq_child H s 2) (fold (hash_member H s) kvs d) =
      mix d (hash_int H (int (length kvs)) (seq_child H s 2) (fold (hash_member H s) kvs (sh_new H)))"
    by (rule additive_comp [of "\<lambda>s. fold (hash_member H s) kvs", OF _ additive_basic(1)])
      (unfold additive_def, intro allI, rule fold_members)
qed

lemma additive_vec:
  assumes "\<And>h. h \<in> set hs \<Longrightarrow> additive H mix h"
  shows "additive H mix (hash_vec H hs)"
proof -
  have "fold (hash_element H) hs (s, d) =
      (fst (fold (hash_element H) hs (s, sh_new H)), mix d (snd (fold (hash_element H) hs (s, sh_new H))))" for s d
    using assms
  proof (induction hs arbitrary: s d)
    case (Cons h hs)
    let ?c = "fst (seq_next_child H s)" and ?s = "snd (seq_next_child H s)"
    have "h ?c d = mix d (h ?c (sh_new H))" using Cons.prems by (intro additiveD) simp
    then show ?case
      using Cons.IH [of ?s "h ?c d"] Cons.IH [of ?s "h ?c (sh_new H)"] Cons.prems
      by (simp add: hash_element_def mix_ac)
  qed (simp add: mix_ac)
  note elements = this
  show ?thesis
  proof (unfold additive_def vec split_beta Let_def, intro allI)
    fix s d
    let ?s = "fst (fold (hash_element H) hs (s, sh_new H))"
    show "hash_int H (int (length hs)) (fst (fold (hash_element H) hs (s, d))) (snd (fold (hash_element H) hs (s, d))) =
      mix d (hash_int H (int (length hs)) ?s (snd (fold (hash_element H) hs (s, sh_new H))))"
    proof -
      let ?d = "snd (fold (hash_element H) hs (s, sh_new H))"
      have "hash_int H (int (length hs)) ?s (mix d ?d) = mix d (hash_int H (int (length hs)) ?s (mix (sh_new H) ?d))"
        by (rule additive_comp [of "\<lambda>s d. mix d ?d", OF _ additive_basic(1)]) (simp add: additive_def mix_ac)
      then show ?thesis unfolding elements [of s d] by (simp add: mix_new_left)
    qed
  qed
qed

lemma additive_strings: "hash_str H x s1 (hash_str H y s2 (hash_str H z s3 d)) =
    mix d (hash_str H x s1 (hash_str H y s2 (hash_str H z s3 (sh_new H))))"
proof -
  have "additive H mix (\<lambda>s d. hash_str H y s2 (hash_str H z s d))"
    unfolding additive_def by (intro allI additive_comp additive_basic)
  from additive_comp [OF this additive_basic(2)] show ?thesis .
qed

lemma additive_event: "additive H mix (poi_event_hash lib H e)"
proof (cases e)
  case (RemoveEntity ty i)
  then show ?thesis
    unfolding additive_def by (simp add: split_beta Let_def) (intro allI additive_strings)
next
  case (SetEntity ty i data)
  have data: "additive H mix (data_hash lib H data)"
    unfolding data_hash_def by (rule additive_map)
  have strings: "additive H mix (\<lambda>s d. hash_str H i s1 (hash_str H ty s2 (hash_str H ''SetEntity'' s d)))" for s1 s2
    unfolding additive_def by (intro allI additive_strings)
  from SetEntity show ?thesis
    unfolding additive_def by (simp add: split_beta Let_def) (intro allI additive_comp [OF strings data])
qed

lemma additive_block: "additive H mix (block_hash lib H events)"
proof -
  have "additive H mix (hash_vec H (List.map (poi_event_hash lib H) events))"
    by (rule additive_vec) (auto simp: additive_event)
  then show ?thesis unfolding additive_def block_hash_def by blast
qed

lemma block_part_Nil: "block_part lib H i [] = sh_new H"
  by (simp add: block_part_def vec hash_zero)

lemma parts_snoc: "parts lib H mix i (bs @ [b]) = mix (parts lib H mix i bs) (block_part lib H (i + length bs) b)"
  by (induction bs arbitrary: i) (simp_all add: mix_ac)

lemma traverse_child: "traverse_seq_no H (counts @ [i]) = seq_child H (traverse_seq_no H counts) i"
  by (simp add: traverse_seq_no_def seq_child_def)

lemma stream_writes:
  "fold (event_stream_write lib H) es st =
     \<lparr>es_vec_length = es_vec_length st + length es,
      es_seq_no = fst (fold (hash_element H) (List.map (poi_event_hash lib H) es) (es_seq_no st, es_digest st)),
      es_digest = snd (fold (hash_element H) (List.map (poi_event_hash lib H) es) (es_seq_no st, es_digest st))\<rparr>"
  by (induction es arbitrary: st) (simp_all add: event_stream_write_def hash_element_def split_beta Let_def)

lemma stream_pause:
  "event_stream_pause H (fold (event_stream_write lib H) es (event_stream_new H n)) prev = sh_to_bytes H
     (case prev of None \<Rightarrow> block_part lib H (unat n) es | Some p \<Rightarrow> mix (block_part lib H (unat n) es) (sh_from_bytes H p))"
  by (simp add: event_stream_pause_def stream_writes block_part_def vec event_stream_new_def split_beta Let_def
      unordered_mix split: option.split)

lemma region_blocks:
  "fold (hash_element H) (List.map (block_hash lib H) bs) (seq_skip H (traverse_seq_no H [1, 0]) i, d) =
     (seq_skip H (traverse_seq_no H [1, 0]) (i + length bs), mix d (parts lib H mix i bs))"
proof (induction bs arbitrary: i d)
  case (Cons b bs)
  let ?B = "traverse_seq_no H [1, 0]"
  have "fst (seq_next_child H (fst (seq_next_child H (seq_skip H ?B i)))) = traverse_seq_no H [1, 0, i, 0]"
    using traverse_child [of "[1, 0]" i] traverse_child [of "[1, 0, i]" 0] by (simp add: seq_child_def skip_0)
  then have "block_hash lib H b (fst (seq_next_child H (seq_skip H ?B i))) (sh_new H) = block_part lib H i b"
    by (simp add: block_hash_def block_part_def)
  then have "block_hash lib H b (fst (seq_next_child H (seq_skip H ?B i))) d = mix d (block_part lib H i b)"
    using additiveD [OF additive_block, of lib b _ d] by simp
  then show ?case
    using Cons [of "Suc i"] by (simp add: hash_element_def skip_Suc mix_ac)
qed (simp add: mix_new)

lemma hash_length_skip: "0 \<le> n \<Longrightarrow> hash_int H n (seq_skip H s i) d = hash_int H n s d"
  by (induction i) (simp_all add: skip_0 skip_Suc hash_length)

lemma region_reference:
  "region_hash lib H bs (traverse_seq_no H [1]) d = hash_int H (int (length bs)) (traverse_seq_no H [1, 0]) (mix d (parts lib H mix 0 bs))"
proof -
  have "fst (seq_next_child H (traverse_seq_no H [1])) = seq_skip H (traverse_seq_no H [1, 0]) 0"
    using traverse_child [of "[1]" 0] by (simp add: seq_child_def skip_0)
  then show ?thesis
    using region_blocks [of lib bs 0 d] by (simp add: region_hash_def vec hash_length_skip skip_0)
qed

end

section \<open>The digest of a history of blocks\<close>

text \<open>
  After every block the digest of each region that had events is combined with the one stored before,
  as \<open>update_proof_of_indexing\<close> does with the entities that hold them.
\<close>

definition poi_block ::
  "scalar_lib \<Rightarrow> ('s, 'd) stable_hasher \<Rightarrow> u64 \<Rightarrow> (string \<times> poi_event) list \<Rightarrow>
     (string, bytes) hashmap \<Rightarrow> (string, bytes) hashmap" where
  "poi_block lib H n events db =
     fold (\<lambda>(region, stream) db. hm_insert region (event_stream_pause H stream (map_of db region)) db)
       (per_causality_region (fold (\<lambda>(region, event). poi_write lib H region event) events (poi_new n))) db"

definition poi_blocks ::
  "scalar_lib \<Rightarrow> ('s, 'd) stable_hasher \<Rightarrow> (string \<times> poi_event) list list \<Rightarrow> (string, bytes) hashmap" where
  "poi_blocks lib H blocks = fold (\<lambda>(i, events). poi_block lib H (of_nat i) events) (enumerate 0 blocks) []"

definition region_events :: "string \<Rightarrow> (string \<times> poi_event) list \<Rightarrow> poi_event list" where
  "region_events region events = map snd (filter (\<lambda>(r, _). r = region) events)"

definition online_poi ::
  "('s, 'd) stable_hasher \<Rightarrow> (string, bytes) hashmap \<Rightarrow> block_pointer \<Rightarrow> string \<Rightarrow> address option \<Rightarrow> bytes" where
  "online_poi H db ptr sg indexer =
     finisher_finish H (fold (\<lambda>(name, region). add_causality_region H name region) db (finisher_new H ptr sg indexer))"

lemma region_events_append: "region_events r (xs @ ys) = region_events r xs @ region_events r ys"
  by (simp add: region_events_def)

lemma region_streams:
  "hm_wf (per_causality_region (fold (\<lambda>(region, event). poi_write lib H region event) events (poi_new n)))
   \<and> poi_block_number (fold (\<lambda>(region, event). poi_write lib H region event) events (poi_new n)) = n
   \<and> map_of (per_causality_region (fold (\<lambda>(region, event). poi_write lib H region event) events (poi_new n))) r =
       (if region_events r events = [] then None
        else Some (fold (event_stream_write lib H) (region_events r events) (event_stream_new H n)))"
proof (induction events arbitrary: r rule: rev_induct)
  case Nil
  then show ?case by (simp add: poi_new_def region_events_def)
next
  case (snoc x events)
  obtain region event where x: "x = (region, event)" by fastforce
  have "region_events r [x] = (if r = region then [event] else [])" by (simp add: region_events_def x)
  with snoc [of r] snoc [of region] show ?case
    by (auto simp: x poi_write_def Let_def map_simps region_events_append)
qed

lemma fold_pause:
  assumes "hm_wf kvs"
  shows "map_of (fold (\<lambda>(k, v) m. hm_insert k (g v (map_of m k)) m) kvs m) r =
    (case map_of kvs r of None \<Rightarrow> map_of m r | Some v \<Rightarrow> Some (g v (map_of m r)))"
  using assms by (induction kvs arbitrary: m) (auto simp: hm_wf_Cons map_simps split: option.splits)

lemma fold_pause_wf: "hm_wf m \<Longrightarrow> hm_wf (fold (\<lambda>(k, v) m. hm_insert k (g v (map_of m k)) m) kvs m)"
  by (induction kvs arbitrary: m) auto

lemma poi_block_lookup:
  "map_of (poi_block lib H n events db) r =
     (if region_events r events = [] then map_of db r
      else Some (event_stream_pause H
        (fold (event_stream_write lib H) (region_events r events) (event_stream_new H n)) (map_of db r)))"
  using region_streams [of lib H events n r]
    fold_pause [where g = "event_stream_pause H", of "per_causality_region (fold (\<lambda>(region, event). poi_write lib H region event) events (poi_new n))" db r]
  by (simp add: poi_block_def)

context set_hasher
begin

lemma poi_blocks_lookup:
  assumes "length blocks \<le> 2 ^ 64"
  shows "hm_wf (poi_blocks lib H blocks) \<and> map_of (poi_blocks lib H blocks) r =
    (if \<forall>b \<in> set blocks. region_events r b = [] then None
     else Some (sh_to_bytes H (parts lib H mix 0 (List.map (region_events r) blocks))))"
  using assms
proof (induction blocks rule: rev_induct)
  case Nil
  then show ?case by (simp add: poi_blocks_def)
next
  case (snoc b blocks)
  have db: "poi_blocks lib H (blocks @ [b]) = poi_block lib H (of_nat (length blocks)) b (poi_blocks lib H blocks)"
    by (simp add: poi_blocks_def enumerate_append_eq)
  have n: "unat (of_nat (length blocks) :: u64) = length blocks"
    using snoc.prems by (simp add: unat_of_nat)
  have IH: "hm_wf (poi_blocks lib H blocks)" "map_of (poi_blocks lib H blocks) r =
    (if \<forall>b \<in> set blocks. region_events r b = [] then None
     else Some (sh_to_bytes H (parts lib H mix 0 (List.map (region_events r) blocks))))"
    using snoc by simp_all
  have none: "parts lib H mix 0 (List.map (region_events r) blocks) = sh_new H" if "\<forall>b \<in> set blocks. region_events r b = []"
  proof -
    have "List.map (region_events r) blocks = replicate (length blocks) []"
      using that by (intro replicate_eqI) auto
    moreover have "parts lib H mix i (replicate k []) = sh_new H" for i k
      by (induction k arbitrary: i) (simp_all add: block_part_Nil mix_new)
    ultimately show ?thesis by simp
  qed
  have "hm_wf (poi_block lib H (of_nat (length blocks)) b (poi_blocks lib H blocks))"
    unfolding poi_block_def by (rule fold_pause_wf [OF IH(1)])
  moreover have "map_of (poi_blocks lib H (blocks @ [b])) r =
    (if \<forall>b \<in> set (blocks @ [b]). region_events r b = [] then None
     else Some (sh_to_bytes H (parts lib H mix 0 (List.map (region_events r) (blocks @ [b])))))"
    using none
    by (auto simp: db poi_block_lookup IH(2) stream_pause n parts_snoc to_from_bytes mix_ac block_part_Nil)
  ultimately show ?case unfolding db by blast
qed

lemma add_regions:
  assumes "\<And>name bs. (name, bs) \<in> set db \<Longrightarrow> bs = sh_to_bytes H (parts lib H mix 0 (g name))"
    and "\<And>name. int (length (g name)) = uint (pf_block_number f + 1)"
  shows "fold (\<lambda>(name, region). add_causality_region H name region) db f =
    f\<lparr>pf_state := fold (hash_member H (traverse_seq_no H [0]))
          (List.map (\<lambda>(name, _). (hash_str H name, region_hash lib H (g name))) db) (pf_state f),
      pf_causality_count := pf_causality_count f + length db\<rparr>"
  using assms
proof (induction db arbitrary: f)
  case (Cons x db)
  obtain name bs where x: "x = (name, bs)" by fastforce
  let ?n = "uint (pf_block_number f + 1)"
  have bs: "sh_from_bytes H bs = parts lib H mix 0 (g name)"
    using Cons.prems(1) [of name bs] x by (simp add: to_from_bytes)
  have child: "traverse_seq_no H [0, 1] = seq_child H (traverse_seq_no H [0]) 1"
      "seq_child H (seq_root H) 1 = traverse_seq_no H [1]" "seq_child H (seq_root H) 0 = traverse_seq_no H [0]"
    using traverse_child [of "[0]" 1] by (simp_all add: traverse_seq_no_def seq_child_def)
  have "region_hash lib H (g name) (traverse_seq_no H [1]) (hash_str H name (traverse_seq_no H [0]) (sh_new H)) =
      hash_str H name (traverse_seq_no H [0]) (hash_int H ?n (traverse_seq_no H [1, 0]) (parts lib H mix 0 (g name)))"
    unfolding region_reference Cons.prems(2) [of name]
    using int_mix [of ?n "traverse_seq_no H [1, 0]" "mix (hash_str H name (traverse_seq_no H [0]) (sh_new H)) (parts lib H mix 0 (g name))"]
      int_mix [of ?n "traverse_seq_no H [1, 0]" "parts lib H mix 0 (g name)"]
      str_mix [of name "traverse_seq_no H [0]" "hash_int H ?n (traverse_seq_no H [1, 0]) (parts lib H mix 0 (g name))"]
    by (simp add: mix_ac)
  then have step: "add_causality_region H name bs f =
      f\<lparr>pf_state := hash_member H (traverse_seq_no H [0]) (hash_str H name, region_hash lib H (g name)) (pf_state f),
        pf_causality_count := pf_causality_count f + 1\<rparr>"
    by (simp add: add_causality_region_def Let_def hash_member_def bs child del: One_nat_def)
  show ?case
    using Cons.IH [of "add_causality_region H name bs f"] Cons.prems by (simp add: x step)
qed simp

lemma online_is_reference:
  fixes lib :: scalar_lib and blocks :: "(string \<times> poi_event) list list"
  assumes "length blocks = Suc (unat (ptr_number ptr))" and "ptr_number ptr + 1 \<noteq> 0"
  defines "db \<equiv> poi_blocks lib H blocks"
  shows "online_poi H db ptr sg indexer = sh_finish H (reference_hash lib H
    \<lparr>pr_causality_regions = List.map (\<lambda>(name, _). (name, List.map (region_events name) blocks)) db,
     pr_subgraph_id = sg, pr_block_hash = ptr_hash ptr, pr_indexer = indexer\<rparr> (seq_root H) (sh_new H))"
proof -
  have len: "int (length blocks) = uint (ptr_number ptr + 1)"
  proof -
    have "unat (1 + ptr_number ptr) = Suc (unat (ptr_number ptr))"
      using assms(2) by (intro unatSuc) (simp add: add.commute)
    then have "length blocks = unat (ptr_number ptr + 1)" unfolding add.commute [of "ptr_number ptr" 1] using assms(1) by (rule trans [OF _ sym, rotated])
    then show ?thesis by (rule ssubst) (rule of_nat_unat)
  qed
  have "length blocks \<le> 2 ^ 64" using assms(1) unsigned_less [where 'a = nat, of "ptr_number ptr"] by simp
  from poi_blocks_lookup [OF this, of lib] have db: "hm_wf db"
    "\<And>name bs. (name, bs) \<in> set db \<Longrightarrow> bs = sh_to_bytes H (parts lib H mix 0 (List.map (region_events name) blocks))"
    by (auto simp: db_def hm_mem_iff split: if_splits)
  let ?ms = "List.map (\<lambda>(name, _). (hash_str H name, region_hash lib H (List.map (region_events name) blocks))) db"
  let ?d = "pf_state (finisher_new H ptr sg indexer)"
  have child: "traverse_seq_no H [0, 2] = seq_child H (traverse_seq_no H [0]) 2"
    using traverse_child [of "[0]" 2] by simp
  have "online_poi H db ptr sg indexer = sh_finish H (hash_int H (int (length db)) (seq_child H (traverse_seq_no H [0]) 2)
      (fold (hash_member H (traverse_seq_no H [0])) ?ms ?d))"
    using add_regions [of db lib "\<lambda>name. List.map (region_events name) blocks" "finisher_new H ptr sg indexer"] db(2) len
    by (simp add: online_poi_def finisher_finish_def child finisher_new_def Let_def)
  also have "hash_int H (int (length db)) (seq_child H (traverse_seq_no H [0]) 2)
      (fold (hash_member H (traverse_seq_no H [0])) ?ms ?d) = hash_map H ?ms (traverse_seq_no H [0]) ?d"
    by (simp add: map)
  also have "hash_map H ?ms (traverse_seq_no H [0]) ?d = reference_hash lib H
    \<lparr>pr_causality_regions = List.map (\<lambda>(name, _). (name, List.map (region_events name) blocks)) db,
     pr_subgraph_id = sg, pr_block_hash = ptr_hash ptr, pr_indexer = indexer\<rparr> (seq_root H) (sh_new H)"
  proof -
    let ?o = "\<lambda>d. hash_option_bytes H indexer (traverse_seq_no H [3]) (hash_bytes H (ptr_hash ptr) (traverse_seq_no H [2])
      (deployment_id_hash H sg (traverse_seq_no H [1]) d))"
    have kids: "seq_next_child H (seq_root H) = (traverse_seq_no H [0], seq_skip H (seq_root H) 1)"
        "seq_next_child H (seq_skip H (seq_root H) 1) = (traverse_seq_no H [1], seq_skip H (seq_root H) 2)"
        "seq_next_child H (seq_skip H (seq_root H) 2) = (traverse_seq_no H [2], seq_skip H (seq_root H) 3)"
        "fst (seq_next_child H (seq_skip H (seq_root H) 3)) = traverse_seq_no H [3]"
      by (simp_all add: traverse_seq_no_def prod_eq_iff skip_0 skip_Suc numeral_eq_Suc)
    have "additive H mix (\<lambda>s d. ?o d)"
    proof (rule additiveI)
      fix d
      have "additive H mix (\<lambda>s d. hash_bytes H (ptr_hash ptr) (traverse_seq_no H [2]) (deployment_id_hash H sg (traverse_seq_no H [1]) d))"
        unfolding deployment_id_hash_def
        by (rule additiveI, rule additive_comp [where s = "fst (seq_next_child H (traverse_seq_no H [1]))"]) (rule additive_basic)+
      from additive_comp [OF this additive_basic(4)] show "?o d = mix d (?o (sh_new H))" .
    qed
    then have o: "?o d = mix d (?o (sh_new H))" for d by (rule additiveD)
    have "?d = ?o (sh_new H)" by (simp add: finisher_new_def Let_def)
    moreover have "hash_map H ?ms (traverse_seq_no H [0]) ?d = mix ?d (hash_map H ?ms (traverse_seq_no H [0]) (sh_new H))"
      by (rule additiveD [OF additive_map])
    moreover have "?o (hash_map H ?ms (traverse_seq_no H [0]) (sh_new H)) = mix (hash_map H ?ms (traverse_seq_no H [0]) (sh_new H)) (?o (sh_new H))"
      by (rule o)
    moreover have "snd (seq_next_child H (seq_root H)) = seq_skip H (seq_root H) 1" using kids(1) by simp
    moreover have ms: "?ms = List.map (\<lambda>x. (hash_str H (fst x), region_hash lib H (List.map (region_events (fst x)) blocks))) db"
      by (simp add: split_beta)
    ultimately show ?thesis
      by (simp add: ms reference_hash_def kids split_beta Let_def mix_commute comp_def del: One_nat_def)
  qed
  finally show ?thesis .
qed

end

section \<open>Properties\<close>

lemma region_present: "(\<exists>b \<in> set blocks. region_events name b \<noteq> []) \<longleftrightarrow> name \<in> fst ` set (concat blocks)"
  unfolding region_events_def by (force simp: filter_empty_conv)

text \<open>C8. The digest that is kept up to date block by block, one stored digest per causality region, is
  the digest of the reference implementation over the whole history: every region that ever had an
  event, with the list of its events in each block from the first, number 0, on.\<close>

theorem poi_online_is_reference:
  assumes "set_hasher H mix" and "length blocks = Suc (unat (ptr_number ptr))" and "ptr_number ptr + 1 \<noteq> 0"
  shows "online_poi H (poi_blocks lib H blocks) ptr sg indexer = sh_finish H (reference_hash lib H
      \<lparr>pr_causality_regions = map (\<lambda>(name, _). (name, map (region_events name) blocks)) (poi_blocks lib H blocks),
       pr_subgraph_id = sg, pr_block_hash = ptr_hash ptr, pr_indexer = indexer\<rparr> (seq_root H) (sh_new H))
    \<and> fst ` set (poi_blocks lib H blocks) = fst ` set (concat blocks)"
proof -
  have "length blocks \<le> 2 ^ 64" using assms(2) unsigned_less [where 'a = nat, of "ptr_number ptr"] by simp
  note lookup = set_hasher.poi_blocks_lookup [OF assms(1) this, of lib]
  have "name \<in> fst ` set (poi_blocks lib H blocks) \<longleftrightarrow> (\<exists>b \<in> set blocks. region_events name b \<noteq> [])" for name
  proof (cases "\<forall>b \<in> set blocks. region_events name b = []")
    case True
    then have "map_of (poi_blocks lib H blocks) name = None" using lookup [of name] by simp
    then show ?thesis using True map_of_eq_None_iff [of "poi_blocks lib H blocks" name] by blast
  next
    case False
    then have "map_of (poi_blocks lib H blocks) name \<noteq> None" using lookup [of name] by simp
    then show ?thesis using False map_of_eq_None_iff [of "poi_blocks lib H blocks" name] by simp
  qed
  then have "fst ` set (poi_blocks lib H blocks) = fst ` set (concat blocks)"
    using region_present [of blocks] by (simp add: set_eq_iff)
  then show ?thesis using set_hasher.online_is_reference [OF assms, of lib sg indexer] by blast
qed

text \<open>A hasher that adds up numbers, weighted by where they are written.\<close>

definition demo_weigh :: "nat list \<times> nat \<Rightarrow> nat" where
  "demo_weigh s = Suc (foldl (\<lambda>n i. 2 * n + i) 0 (fst s))"

definition demo_child :: "nat list \<times> nat \<Rightarrow> nat list \<times> nat" where
  "demo_child s = (fst s @ [snd s], 0)"

definition demo_hasher :: "(nat list \<times> nat, nat) stable_hasher" where
  "demo_hasher = \<lparr>
     seq_root = ([], 0),
     seq_next_child = (\<lambda>s. (demo_child s, (fst s, Suc (snd s)))),
     seq_skip = (\<lambda>s i. (fst s, snd s + i)),
     sh_new = 0,
     sh_write = (\<lambda>d s bs. d + demo_weigh s * length bs),
     sh_finish_unordered = (\<lambda>d d' s. d + d'),
     sh_to_bytes = (\<lambda>d. replicate d 0),
     sh_from_bytes = length,
     sh_finish = (\<lambda>d. replicate d 0),
     hash_int = (\<lambda>n s d. d + demo_weigh s * nat \<bar>n\<bar>),
     hash_as_int = (\<lambda>neg bs s d. d + demo_weigh s * length bs),
     hash_bool = (\<lambda>b s d. d + demo_weigh s * of_bool b),
     hash_str = (\<lambda>x s d. d + demo_weigh s * length x),
     hash_bytes = (\<lambda>bs s d. d + demo_weigh s * length bs),
     hash_option_bytes = (\<lambda>y s d. d + demo_weigh s * (case y of None \<Rightarrow> 0 | Some bs \<Rightarrow> length bs)),
     hash_vec = (\<lambda>hs s d. let (s', d') = fold (\<lambda>h (s, d). ((fst s, Suc (snd s)), h (demo_child s) d)) hs (s, d)
                          in d' + demo_weigh s' * length hs),
     hash_map = (\<lambda>kvs s d. fold (\<lambda>(k, v) d. d + demo_weigh (fst s @ [snd s + 1], 0) *
                            v ([1], 0) (k ([0], 0) 0)) kvs d + demo_weigh (fst s @ [snd s + 2], 0) * length kvs) \<rparr>"

interpretation demo_hashes: set_hasher demo_hasher "(+)"
proof (unfold_locales, goal_cases)
  case (15 hs s d)
  have "hash_element demo_hasher = (\<lambda>h (s, d). ((fst s, Suc (snd s)), h (demo_child s) d))"
    by (simp add: hash_element_def demo_hasher_def fun_eq_iff)
  then show ?case by (simp add: demo_hasher_def split_beta)
next
  case (16 kvs s d)
  have "hash_member demo_hasher s = (\<lambda>(k, v) d. d + demo_weigh (fst s @ [snd s + 1], 0) * v ([1], 0) (k ([0], 0) 0))"
    by (simp add: hash_member_def seq_child_def demo_hasher_def demo_child_def fun_eq_iff)
  then show ?case by (simp add: demo_hasher_def seq_child_def demo_child_def)
qed (auto simp: demo_hasher_def demo_weigh_def)

definition demo_history :: "(string \<times> poi_event) list list" where
  "demo_history = [[(''ethereum/mainnet'', SetEntity ''Token'' ''a'' [(''n'', VInt 1)]), (''ipfs'', RemoveEntity ''Token'' ''b'')],
     [], [(''ethereum/mainnet'', RemoveEntity ''Token'' ''a'')]]"

theorem poi_online_is_reference_witness:
  "online_poi demo_hasher (poi_blocks ref_lib demo_hasher demo_history) (BlockPtr [7] 2) ''sg'' None =
     sh_finish demo_hasher (reference_hash ref_lib demo_hasher
      \<lparr>pr_causality_regions = map (\<lambda>(name, _). (name, map (region_events name) demo_history))
          (poi_blocks ref_lib demo_hasher demo_history),
       pr_subgraph_id = ''sg'', pr_block_hash = [7], pr_indexer = None\<rparr> (seq_root demo_hasher) (sh_new demo_hasher))"
  using poi_online_is_reference [OF demo_hashes.set_hasher_axioms, of demo_history "BlockPtr [7] 2" ref_lib "''sg''" None]
  by (simp add: demo_history_def)

end
