(* ===== verification/Spec2Isabelle.thy ===== *)
theory Spec2Isabelle
  imports EntityCache Reconciliation ApiSchema Prefetch ProofOfIndexing
begin

text \<open>
  A verification library for the core of graph-node (\<^verbatim>\<open>src/packages/graph-node\<close>), the server that indexes
  Ethereum blocks into entities and answers GraphQL queries about them. File names below are relative
  to that directory.

  \<^bold>\<open>How the program works.\<close> A block stream (\<^verbatim>\<open>chain/ethereum/src/block_stream.rs\<close>) follows the chain of an
  Ethereum node for one subgraph. It asks the node for the blocks that contain triggers of the
  subgraph's data sources (\<^verbatim>\<open>graph/src/components/ethereum/adapter.rs\<close>), and reverts blocks that are no
  longer on the main chain. Every block is handed to the mappings of the subgraph, which read and
  write entities through an entity cache (\<^verbatim>\<open>graph/src/components/store.rs\<close>) that keeps recently used
  entities in an LFU cache (\<^verbatim>\<open>graph/src/util/lfu_cache.rs\<close>). What they write also goes into a digest, the proof
  of indexing (\<^verbatim>\<open>graph/src/components/subgraph/proof_of_indexing\<close>). At the end of the block the cache turns the
  updates into a minimal list of modifications for the store, which announces them as store events.
  On the other side a GraphQL query is validated, its variables coerced and its complexity bounded
  (\<^verbatim>\<open>graphql/src/execution/query.rs\<close>), and its fields become entity queries (\<^verbatim>\<open>graphql/src/store/query.rs\<close>). The
  runner (\<^verbatim>\<open>graphql/src/runner.rs\<close>) groups the root fields by the block they ask for and executes each group
  over the data fetched at its block (\<^verbatim>\<open>graphql/src/store/prefetch.rs\<close>, \<^verbatim>\<open>graphql/src/execution/execution.rs\<close>), behind a cache of results.

  \<^bold>\<open>Conventions.\<close> A function that returns \<open>Result\<close> or may panic returns a value of \<open>result\<close> (\<open>Prelude\<close>):
  \<open>Ok\<close>, \<open>Err\<close> with the error of the source, or \<open>Panic\<close> for \<open>unwrap\<close>, \<open>expect\<close>, \<open>assert!\<close>, \<open>unreachable!\<close> and
  the overflow of the call stack. Integers have their width and wrap as in a release build. A
  \<open>HashMap\<close> is an association list with distinct keys, compared up to order; where the iteration order
  of a hash map or hash set can matter, it is a parameter over which the theorem quantifies. A future is
  its result; a stream that is polled is a function from its state and what its sources report to a
  new state. Code from outside the repository is a parameter: the priority queue of the LFU cache
  (locale \<open>priority_queue\<close>), decimals and hashes (\<open>scalar_lib\<close>), the hasher of the proof of indexing (locale
  \<open>set_hasher\<close>), the hash of a cache key (locale \<open>query_server\<close>), the store (\<open>store_ops\<close>), the Ethereum node
  (\<open>web3\<close>, locale \<open>web3_node\<close>, which provides the locale \<open>ethereum_node\<close> of its clients); each locale is interpreted on the model, and each property
  that depends on such a parameter has a witness with a concrete one.

  \<^bold>\<open>The theories.\<close>

  \<^item> \<open>Prelude\<close>: results, hash maps and b-tree maps, \<open>try_fold\<close> and \<open>try_map\<close>, and their lemmas.

  \<^item> \<open>Scalars\<close> (\<^verbatim>\<open>graph/src/data/store/scalar.rs\<close>): \<open>BigInt\<close>, \<open>BigDecimal\<close> and \<open>Bytes\<close>. Conversions to and
  from 256-bit and 64-bit integers are exact, and normalising a decimal is canonical.

  \<^item> \<open>Values\<close> (\<^verbatim>\<open>graph/src/data/store/mod.rs\<close>): store values, entities and keys, and their translation from and to
  GraphQL values, with the round trip.

  \<^item> \<open>LfuCache\<close> (\<^verbatim>\<open>graph/src/util/lfu_cache.rs\<close>): the cache over a priority queue. It refines a map, its total
  weight is the sum of the weights less what came in through \<open>Extend\<close>, and eviction ends, without \<open>Extend\<close> at the
  requested weight and in priority order.

  \<^item> \<open>EntityCache\<close> (\<^verbatim>\<open>graph/src/components/store.rs\<close>): \<open>EntityCache\<close> over a store. The specification is the effect
  of the entity operations on the rows of the store, one after the other; \<open>as_modifications\<close> is a
  refinement of it, and minimal.

  \<^item> \<open>StoreQuery\<close>, \<open>StoreEvents\<close>, \<open>Assignments\<close> (\<^verbatim>\<open>graph/src/components/store.rs\<close>, \<^verbatim>\<open>graph/src/data/subgraph\<close>): entity
  queries and \<open>simplify\<close>; store events and the stream that throttles them while a subgraph
  syncs; identifiers, version summaries, and the reconciliation of node assignments.

  \<^item> \<open>DataSources\<close> (\<^verbatim>\<open>graph/src/data/subgraph/mod.rs\<close>, \<^verbatim>\<open>graph/src/util/ethereum.rs\<close>): data sources, templates, and the
  signatures of events and functions; the topic of a handler is the hash of the event that its ABI finds.

  \<^item> \<open>ProofOfIndexing\<close> (\<^verbatim>\<open>graph/src/components/subgraph/proof_of_indexing\<close>): the digest that is kept up to date block
  by block, and the reference implementation it is shown to agree with.

  \<^item> \<open>EthTypes\<close>, \<open>EthFilters\<close>, \<open>BlockScan\<close> (\<^verbatim>\<open>graph/src/components/ethereum\<close>): blocks, triggers and their order; log, call
  and block filters, and the cover of a log filter by \<open>eth_getLogs\<close> requests; the scan of a range of
  blocks for triggers.

  \<^item> \<open>Retry\<close>, \<open>EthAdapter\<close> (\<^verbatim>\<open>graph/src/util/futures.rs\<close>, \<^verbatim>\<open>chain/ethereum/src/ethereum_adapter.rs\<close>): retried
  operations, and the adapter that answers for the node over JSON-RPC. The adapter cuts ranges down until the node copes with them and loses nothing, and cached
  contract calls are indistinguishable from fresh ones.

  \<^item> \<open>Floats\<close>, \<open>BlockStream\<close>, \<open>Reconciliation\<close> (\<^verbatim>\<open>chain/ethereum/src/block_stream.rs\<close>): the state machine of the
  block stream with the size of the ranges it scans, which is computed in floating point, and the
  transaction that marks a subgraph as synced. The ranges are safe in every reachable state; in
  locale \<open>stable_chain\<close>, where the chain does not move, the stream brings the subgraph to the head; locale
  \<open>web3_chain\<close> provides it for a node behind the adapter.

  \<^item> \<open>GqlAst\<close>, \<open>SchemaChecks\<close>, \<open>Coercion\<close>, \<open>QueryChecks\<close>, \<open>QueryBuilder\<close> (\<^verbatim>\<open>graphql/src\<close>): schema and query documents; the
  check of entities against a schema and the names of filters; coercion of input values; field
  validation and complexity of a query; the construction of entity queries from arguments.

  \<^item> \<open>QueryCache\<close> (\<^verbatim>\<open>graphql/src/execution/execution.rs\<close>, \<^verbatim>\<open>graphql/src/execution/cache.rs\<close>): the caches around the execution of
  queries, with concurrent requests as a transition system whose executions may give something else at any
  time. For every interleaving a request gets what executing its own query or the same query at the same block
  pointer gave in some step, identical queries do not run in parallel, the memory of the stored results is
  bounded, and no request is stuck. Locale \<open>query_server\<close> is interpreted on the execution of queries in \<open>Runner\<close>.

  \<^item> \<open>Execution\<close> (\<^verbatim>\<open>graphql/src/execution/execution.rs\<close>, \<^verbatim>\<open>graphql/src/store/resolver.rs\<close>): collecting fields through fragments,
  resolving them from the fetched data and completing the values. The specification of the fields that are selected is the
  inductive \<open>visits\<close>, that of a response is the inductive \<open>answers\<close>: its keys are those of the query, its values
  of the types of the fields. Collecting is exact and ends for cyclic fragments, execution ends with
  the fetched data, and what it returns answers the query.

  \<^item> \<open>Runner\<close> (\<^verbatim>\<open>graphql/src/runner.rs\<close>, \<^verbatim>\<open>graphql/src/query/mod.rs\<close>, \<^verbatim>\<open>graphql/src/subscription/mod.rs\<close>): running queries and
  subscriptions. The groups of fields at different blocks add up to an answer of the whole query, whatever
  order the groups come in, and the check for reverted blocks is right: \<open>deployment_runs\<close> is what the
  store records while blocks come and go.

  \<^item> \<open>Prefetch\<close> (\<^verbatim>\<open>graphql/src/store/prefetch.rs\<close>): fetching the data of a query. For every field that refers to entities the
  children of all parents are fetched with one windowed query and distributed. The store is assumed to keep the
  promise of windowed queries (\<open>windowed_store\<close>), which a store in memory is shown to keep; then every parent gets what it
  would get on its own.

  \<^item> \<open>SchemaValidation\<close>, \<open>ApiSchema\<close> (\<^verbatim>\<open>graph/src/data/schema.rs\<close>, \<^verbatim>\<open>graphql/src/schema/api.rs\<close>): the schema of a subgraph with its
  interfaces, its imports of other schemas, its full-text search directives and all checks on them, and the
  API schema derived from it. The import graph is explored exactly, also when it is cyclic; a valid
  schema converts without panic; the derived root types are closed, and the filter arguments they
  offer are those that the query code reads.

  \<^bold>\<open>Loops and bounds.\<close> The loops of eviction, of the cover of a log filter and of the import graph are partial functions, and
  proved to return. Coercion and field validation recurse as deep as the query, which may be
  infinite for cyclic fragments: their first argument is the depth of the call stack, at which they
  panic. Coercion and validation of valid queries are shown to return for every depth that is
  large enough. Execution takes the depth of the stack too, with any code below it: a stack as deep as the
  fetched data is large is enough for that code never to be reached. One poll of the block stream runs over the finite list of what its sources report.
  The LFU cache is correct as long as it is accessed fewer than \<open>2 ^ 64\<close> times, since frequencies
  are 64-bit numbers; the ranges of the block stream, as long as the configured maximum is below
  \<open>2 ^ 53\<close>, where integers are exact in floating point.

  \<^bold>\<open>Not modelled.\<close> The Postgres store and its SQL, the WebAssembly runtime, the resolution and validation of manifests,
  introspection, and the servers, metrics, logging and wiring of
  tasks around them: they are input and output, or rest on services and libraries from outside
  the repository.
\<close>

end
